(* ===== verification/Prelude.thy ===== *)
theory Prelude
  imports Main
begin

text \<open>
  What the components share: the result type of fallible code and its sequencing
  operator, the state-and-failure operator that the language front-end is written with,
  the array primitives of the source (bounded reads and writes), and the list lemmas that
  the component proofs use.
\<close>

named_theorems result_simps \<open>rewrite rules for the sequencing operators\<close>
named_theorems wf_intros \<open>introduction rules for the well-formedness invariants\<close>

section \<open>Fallible code\<close>

type_synonym ('e, 'a) result = "'e + 'a"

definition res_bind :: "('e, 'a) result \<Rightarrow> ('a \<Rightarrow> ('e, 'b) result) \<Rightarrow> ('e, 'b) result" where
  "res_bind r f = (case r of Inl e \<Rightarrow> Inl e | Inr x \<Rightarrow> f x)"

lemma res_bind_simps [simp, result_simps]:
  "res_bind (Inl e) f = Inl e"
  "res_bind (Inr x) f = f x"
  by (simp_all add: res_bind_def)

lemma res_bind_Inr_iff:
  "res_bind r f = Inr y \<longleftrightarrow> (\<exists>x. r = Inr x \<and> f x = Inr y)"
  by (cases r) auto

lemma res_bind_cong [fundef_cong]:
  "r = r' \<Longrightarrow> (\<And>x. r' = Inr x \<Longrightarrow> f x = g x) \<Longrightarrow> res_bind r f = res_bind r' g"
  by (cases r') auto

section \<open>Stateful fallible code\<close>

text \<open>
  A computation reads and returns a state; a failure carries no state (the source abandons
  the object under construction when it fails).
\<close>

type_synonym ('s, 'e, 'a) sfun = "'s \<Rightarrow> 'e + ('a \<times> 's)"

definition sret :: "'a \<Rightarrow> ('s, 'e, 'a) sfun" where
  "sret x = (\<lambda>s. Inr (x, s))"

definition sfail :: "'e \<Rightarrow> ('s, 'e, 'a) sfun" where
  "sfail e = (\<lambda>s. Inl e)"

definition sbind :: "('s, 'e, 'a) sfun \<Rightarrow> ('a \<Rightarrow> ('s, 'e, 'b) sfun) \<Rightarrow> ('s, 'e, 'b) sfun" where
  "sbind m f = (\<lambda>s. case m s of Inl e \<Rightarrow> Inl e | Inr (x, t) \<Rightarrow> f x t)"

lemma sret_apply [simp, result_simps]: "sret x s = Inr (x, s)"
  by (simp add: sret_def)

lemma sfail_apply [simp, result_simps]: "sfail e s = Inl e"
  by (simp add: sfail_def)

lemma sbind_Inr_iff:
  "sbind m f s = Inr r \<longleftrightarrow> (\<exists>x t. m s = Inr (x, t) \<and> f x t = Inr r)"
  by (auto simp: sbind_def split: sum.splits prod.splits)

lemma sbind_Inl_iff:
  "sbind m f s = Inl e \<longleftrightarrow> m s = Inl e \<or> (\<exists>x t. m s = Inr (x, t) \<and> f x t = Inl e)"
  by (auto simp: sbind_def split: sum.splits prod.splits)

lemma sbind_cong [fundef_cong]:
  assumes "s = s'" and "m s' = m' s'"
    and "\<And>x t. m' s' = Inr (x, t) \<Longrightarrow> f x t = g x t"
  shows "sbind m f s = sbind m' g s'"
  using assms by (auto simp: sbind_def split: sum.splits prod.splits)

section \<open>Lists as arrays\<close>

text \<open>The first index at which a predicate holds, as the source's search loops return it.\<close>

fun find_index :: "('a \<Rightarrow> bool) \<Rightarrow> 'a list \<Rightarrow> nat option" where
  "find_index P [] = None"
| "find_index P (x # xs) = (if P x then Some 0 else map_option Suc (find_index P xs))"

lemma find_index_Some:
  "find_index P xs = Some i \<Longrightarrow> i < length xs \<and> P (xs ! i) \<and> (\<forall>j < i. \<not> P (xs ! j))"
proof (induction xs arbitrary: i)
  case Nil
  then show ?case by simp
next
  case (Cons x xs)
  show ?case
  proof (cases "P x")
    case True
    with Cons.prems show ?thesis by auto
  next
    case False
    with Cons.prems obtain k where k: "find_index P xs = Some k" "i = Suc k"
      by (auto split: if_splits)
    from Cons.IH[OF k(1)] k(2) False show ?thesis
      by (auto simp: nth_Cons split: nat.splits)
  qed
qed

lemma find_index_None: "find_index P xs = None \<longleftrightarrow> (\<forall>x \<in> set xs. \<not> P x)"
  by (induction xs) auto

text \<open>A running offset: the source lays out arrays with an accumulator.\<close>

fun offsets_from :: "nat \<Rightarrow> nat list \<Rightarrow> nat list" where
  "offsets_from a [] = []"
| "offsets_from a (x # xs) = a # offsets_from (a + x) xs"

lemma length_offsets_from [simp]: "length (offsets_from a xs) = length xs"
  by (induction xs arbitrary: a) auto

lemma offsets_from_nth:
  "i < length xs \<Longrightarrow> offsets_from a xs ! i = a + sum_list (take i xs)"
proof (induction xs arbitrary: a i)
  case Nil
  then show ?case by simp
next
  case (Cons x xs)
  then show ?case by (cases i) auto
qed

lemma sum_list_take_Suc:
  "i < length xs \<Longrightarrow> sum_list (take (Suc i) xs) = sum_list (take i xs) + (xs ! i :: nat)"
  by (simp add: take_Suc_conv_app_nth)

lemma sum_list_take_mono: "i \<le> j \<Longrightarrow> sum_list (take i xs) \<le> sum_list (take j xs :: nat list)"
proof (induction j)
  case 0
  then show ?case by simp
next
  case (Suc j)
  show ?case
  proof (cases "i = Suc j")
    case False
    with Suc have "sum_list (take i xs) \<le> sum_list (take j xs)" by simp
    also have "\<dots> \<le> sum_list (take (Suc j) xs)"
      by (cases "j < length xs") (simp_all add: sum_list_take_Suc)
    finally show ?thesis .
  qed simp
qed

lemma sum_list_take_le: "sum_list (take i xs) \<le> (sum_list xs :: nat)"
  using sum_list_take_mono [of i "max i (length xs)" xs] by simp

text \<open>Consecutive blocks laid out by a running offset do not overlap and stay in range.\<close>

lemma offsets_from_disjoint:
  assumes "i < j" and "j < length xs"
  shows "offsets_from a xs ! i + xs ! i \<le> offsets_from a xs ! j"
proof -
  from assms have "sum_list (take (Suc i) xs) \<le> sum_list (take j xs)"
    by (intro sum_list_take_mono) simp
  with assms show ?thesis
    by (simp add: offsets_from_nth sum_list_take_Suc)
qed

lemma offsets_from_bound:
  assumes "i < length xs"
  shows "offsets_from a xs ! i + xs ! i \<le> a + sum_list xs"
  using assms sum_list_take_le [of "Suc i" xs]
  by (simp add: offsets_from_nth sum_list_take_Suc)

end
