(* ===== verification/F64.thy ===== *)
theory F64
  imports Prelude
begin

text \<open>
  The source computes in C++ \<open>double\<close> (\<open>sample_t\<close> of core.hpp).  This theory models
  IEEE-754 binary64 with rounding to nearest, ties to even: a value is a NaN, a signed
  infinity, or a signed integer multiple of a power of two.  Every operation computes the
  exact result on integers and rounds once.
\<close>

section \<open>Representation\<close>

datatype f64 = F_nan | F_inf bool | F_num bool int int

text \<open>
  \<open>F_num s m e\<close> stands for \<open>m * 2 ^ e\<close>, negated when \<open>s\<close>.  The canonical
  representation has a 53-bit significand, full unless the exponent is the least one.
\<close>

definition f64_ok :: "f64 \<Rightarrow> bool" where
  "f64_ok x = (case x of
      F_nan \<Rightarrow> True
    | F_inf s \<Rightarrow> True
    | F_num s m e \<Rightarrow> 0 \<le> m \<and> m < 2 ^ 53 \<and> -1074 \<le> e \<and> e \<le> 971 \<and> (2 ^ 52 \<le> m \<or> e = -1074))"

function nbits :: "int \<Rightarrow> int" where
  "nbits n = (if n \<le> 0 then 0 else 1 + nbits (n div 2))"
  by pat_completeness auto
termination
  by (relation "measure nat") auto

declare nbits.simps [simp del]

definition rne :: "int \<Rightarrow> int \<Rightarrow> int" where
  "rne n d = (let k = n div d; r = n mod d in
     if 2 * r < d then k else if d < 2 * r then k + 1 else if even k then k else k + 1)"

text \<open>The double nearest to \<open>p / q\<close>, for \<open>0 \<le> p\<close> and \<open>0 < q\<close>.\<close>

definition round64 :: "bool \<Rightarrow> int \<Rightarrow> int \<Rightarrow> f64" where
  "round64 s p q =
    (if p = 0 then F_num s 0 (-1074)
     else
       let e0 = max (-1074) (nbits p - nbits q - 53);
           e = (if 2 ^ 53 \<le> (p * 2 ^ nat (- e0)) div (q * 2 ^ nat e0) then e0 + 1 else e0);
           m = rne (p * 2 ^ nat (- e)) (q * 2 ^ nat e);
           m' = (if m = 2 ^ 53 then 2 ^ 52 else m);
           e' = (if m = 2 ^ 53 then e + 1 else e)
       in if 971 < e' then F_inf s else F_num s m' e')"

definition f64_of_int :: "int \<Rightarrow> f64" where
  "f64_of_int n = round64 (n < 0) \<bar>n\<bar> 1"

definition f64_lit :: "int \<Rightarrow> int \<Rightarrow> f64" where
  "f64_lit p q = round64 (p < 0) \<bar>p\<bar> q"

definition f64_zero :: f64 where
  "f64_zero = F_num False 0 (-1074)"

section \<open>Arithmetic\<close>

definition f64_signed :: "bool \<Rightarrow> int \<Rightarrow> int" where
  "f64_signed s m = (if s then - m else m)"

fun f64_neg :: "f64 \<Rightarrow> f64" where
  "f64_neg F_nan = F_nan"
| "f64_neg (F_inf s) = F_inf (\<not> s)"
| "f64_neg (F_num s m e) = F_num (\<not> s) m e"

fun f64_add :: "f64 \<Rightarrow> f64 \<Rightarrow> f64" where
  "f64_add F_nan y = F_nan"
| "f64_add x F_nan = F_nan"
| "f64_add (F_inf s) (F_inf t) = (if s = t then F_inf s else F_nan)"
| "f64_add (F_inf s) y = F_inf s"
| "f64_add x (F_inf t) = F_inf t"
| "f64_add (F_num s m e) (F_num t n f) =
    (let g = min e f;
         z = f64_signed s (m * 2 ^ nat (e - g)) + f64_signed t (n * 2 ^ nat (f - g))
     in if z = 0 then F_num (s \<and> t) 0 (-1074)
        else round64 (z < 0) (\<bar>z\<bar> * 2 ^ nat g) (2 ^ nat (- g)))"

definition f64_sub :: "f64 \<Rightarrow> f64 \<Rightarrow> f64" where
  "f64_sub x y = f64_add x (f64_neg y)"

fun f64_mul :: "f64 \<Rightarrow> f64 \<Rightarrow> f64" where
  "f64_mul F_nan y = F_nan"
| "f64_mul x F_nan = F_nan"
| "f64_mul (F_inf s) (F_inf t) = F_inf (s \<noteq> t)"
| "f64_mul (F_inf s) (F_num t n f) = (if n = 0 then F_nan else F_inf (s \<noteq> t))"
| "f64_mul (F_num s m e) (F_inf t) = (if m = 0 then F_nan else F_inf (s \<noteq> t))"
| "f64_mul (F_num s m e) (F_num t n f) =
    round64 (s \<noteq> t) (m * n * 2 ^ nat (e + f)) (2 ^ nat (- (e + f)))"

fun f64_div :: "f64 \<Rightarrow> f64 \<Rightarrow> f64" where
  "f64_div F_nan y = F_nan"
| "f64_div x F_nan = F_nan"
| "f64_div (F_inf s) (F_inf t) = F_nan"
| "f64_div (F_inf s) (F_num t n f) = F_inf (s \<noteq> t)"
| "f64_div (F_num s m e) (F_inf t) = F_num (s \<noteq> t) 0 (-1074)"
| "f64_div (F_num s m e) (F_num t n f) =
    (if n = 0 then (if m = 0 then F_nan else F_inf (s \<noteq> t))
     else round64 (s \<noteq> t) (m * 2 ^ nat (e - f)) (n * 2 ^ nat (f - e)))"

text \<open>\<open>std::fmod\<close>: exact, with the sign of the dividend.\<close>

fun f64_fmod :: "f64 \<Rightarrow> f64 \<Rightarrow> f64" where
  "f64_fmod F_nan y = F_nan"
| "f64_fmod x F_nan = F_nan"
| "f64_fmod (F_inf s) y = F_nan"
| "f64_fmod (F_num s m e) (F_inf t) = F_num s m e"
| "f64_fmod (F_num s m e) (F_num t n f) =
    (if n = 0 then F_nan
     else let g = min e f;
              r = (m * 2 ^ nat (e - g)) mod (n * 2 ^ nat (f - g))
          in round64 s (r * 2 ^ nat g) (2 ^ nat (- g)))"

fun f64_abs :: "f64 \<Rightarrow> f64" where
  "f64_abs F_nan = F_nan"
| "f64_abs (F_inf s) = F_inf False"
| "f64_abs (F_num s m e) = F_num False m e"

section \<open>Comparison\<close>

text \<open>\<open>NaN\<close> compares false with everything; the two zeros are equal.\<close>

fun f64_lt :: "f64 \<Rightarrow> f64 \<Rightarrow> bool" where
  "f64_lt F_nan y = False"
| "f64_lt x F_nan = False"
| "f64_lt (F_inf s) (F_inf t) = (s \<and> \<not> t)"
| "f64_lt (F_inf s) (F_num t n f) = s"
| "f64_lt (F_num s m e) (F_inf t) = (\<not> t)"
| "f64_lt (F_num s m e) (F_num t n f) =
    (let g = min e f
     in f64_signed s (m * 2 ^ nat (e - g)) < f64_signed t (n * 2 ^ nat (f - g)))"

fun f64_eq :: "f64 \<Rightarrow> f64 \<Rightarrow> bool" where
  "f64_eq F_nan y = False"
| "f64_eq x F_nan = False"
| "f64_eq (F_inf s) (F_inf t) = (s = t)"
| "f64_eq (F_inf s) (F_num t n f) = False"
| "f64_eq (F_num s m e) (F_inf t) = False"
| "f64_eq (F_num s m e) (F_num t n f) =
    (let g = min e f
     in f64_signed s (m * 2 ^ nat (e - g)) = f64_signed t (n * 2 ^ nat (f - g)))"

definition f64_le :: "f64 \<Rightarrow> f64 \<Rightarrow> bool" where
  "f64_le x y = (f64_lt x y \<or> f64_eq x y)"

text \<open>\<open>std::max\<close> and \<open>std::clamp\<close>, with their argument order.\<close>

definition f64_max :: "f64 \<Rightarrow> f64 \<Rightarrow> f64" where
  "f64_max a b = (if f64_lt a b then b else a)"

definition f64_clamp :: "f64 \<Rightarrow> f64 \<Rightarrow> f64 \<Rightarrow> f64" where
  "f64_clamp v lo hi = (if f64_lt v lo then lo else if f64_lt hi v then hi else v)"

section \<open>Conversion to integers\<close>

text \<open>
  Truncation, as \<open>static_cast\<close> to an integer type does when the result fits; \<open>None\<close>
  for the values no integer type holds.
\<close>

fun f64_trunc :: "f64 \<Rightarrow> int option" where
  "f64_trunc F_nan = None"
| "f64_trunc (F_inf s) = None"
| "f64_trunc (F_num s m e) = Some (f64_signed s (m * 2 ^ nat e div 2 ^ nat (- e)))"

text \<open>\<open>std::llround\<close>: half away from zero.\<close>

fun f64_llround :: "f64 \<Rightarrow> int option" where
  "f64_llround F_nan = None"
| "f64_llround (F_inf s) = None"
| "f64_llround (F_num s m e) =
    Some (f64_signed s ((2 * m * 2 ^ nat e + 2 ^ nat (- e)) div (2 * 2 ^ nat (- e))))"

section \<open>Rounding and exactness\<close>

lemma nbits_bounds:
  "0 < n \<Longrightarrow> 0 < nbits n \<and> 2 ^ nat (nbits n - 1) \<le> n \<and> n < 2 ^ nat (nbits n)"
proof (induction n rule: nbits.induct)
  case (1 n)
  show ?case
  proof (cases "n = 1")
    case True
    then show ?thesis by (simp add: nbits.simps)
  next
    case False
    with 1 have p: "0 < n div 2" by simp
    define b where "b = nbits (n div 2)"
    have IH: "0 < b" "2 ^ nat (b - 1) \<le> n div 2" "n div 2 < 2 ^ nat b"
      using 1 p by (auto simp: b_def)
    have nb: "nbits n = 1 + b"
      using 1(2) by (subst nbits.simps) (simp add: b_def)
    have s: "nat b = Suc (nat (b - 1))" "nat (1 + b) = Suc (nat b)" "nat (1 + b - 1) = nat b"
      using IH(1) by auto
    have "2 ^ nat b \<le> n" using IH(2) s(1) by simp
    moreover have "n < 2 * 2 ^ nat b" using IH(3) by linarith
    ultimately show ?thesis using nb IH(1) s by simp
  qed
qed

lemma nbits_mono_le:
  assumes "0 < n" and "n < 2 ^ k"
  shows "nbits n \<le> int k"
proof (rule ccontr)
  assume "\<not> ?thesis"
  then have "k \<le> nat (nbits n - 1)" by linarith
  then have "(2::int) ^ k \<le> 2 ^ nat (nbits n - 1)" by simp
  also have "\<dots> \<le> n" using nbits_bounds [OF assms(1)] by simp
  finally show False using assms(2) by simp
qed

lemma rne_exact: "0 < d \<Longrightarrow> n mod d = 0 \<Longrightarrow> rne n d = n div d"
  by (simp add: rne_def Let_def)

lemma rne_bounds: "n div d \<le> rne n d \<and> rne n d \<le> n div d + 1"
  by (simp add: rne_def Let_def)

lemma nbits_double: "0 < n \<Longrightarrow> nbits (2 * n) = nbits n + 1"
  by (subst nbits.simps) simp

lemma nbits_shift: "0 < n \<Longrightarrow> nbits (n * 2 ^ k) = nbits n + int k"
proof (induction k)
  case 0
  then show ?case by simp
next
  case (Suc k)
  have "nbits (n * 2 ^ Suc k) = nbits (2 * (n * 2 ^ k))" by (simp add: ac_simps)
  also have "\<dots> = nbits (n * 2 ^ k) + 1" using Suc.prems by (intro nbits_double) simp
  finally show ?case using Suc by simp
qed

lemma nbits_pow2: "nbits (2 ^ k) = int k + 1"
  using nbits_shift [of 1 k] by (simp add: nbits.simps)

lemma pow2_split:
  assumes "a + nat (- t) = b + nat t + k"
  shows "x * 2 ^ a * 2 ^ nat (- t) = (x * 2 ^ k) * (2 ^ b * 2 ^ nat t :: int)"
proof -
  have "(2::int) ^ a * 2 ^ nat (- t) = 2 ^ (b + nat t + k)"
    using assms by (simp flip: power_add)
  then show ?thesis by (simp add: power_add ac_simps)
qed

text \<open>A dyadic number with at most 53 significant bits is a double, and \<open>round64\<close> finds it.\<close>

lemma round64_dyadic:
  assumes x: "0 < x" "x < 2 ^ 53"
    and e: "e = nbits x - 53 + int a - int b" "-1073 \<le> e" "e \<le> 971"
  shows "round64 s (x * 2 ^ a) (2 ^ b) = F_num s (x * 2 ^ nat (53 - nbits x)) e"
proof -
  define c where "c = nbits x"
  have c: "0 < c" "c \<le> 53" "2 ^ nat (c - 1) \<le> x" "x < 2 ^ nat c"
    using nbits_bounds [OF x(1)] nbits_mono_le [OF x] by (auto simp: c_def)
  have "(2::int) ^ 53 = 2 ^ nat (c - 1) * 2 ^ nat (54 - c)"
    using c(1,2) by (simp flip: power_add nat_add_distrib)
  also have "\<dots> \<le> x * 2 ^ nat (54 - c)" using c(3) by simp
  finally have big: "2 ^ 53 \<le> x * 2 ^ nat (54 - c)" .
  have "x * 2 ^ nat (53 - c) < 2 ^ nat c * 2 ^ nat (53 - c)" using c(4) by simp
  also have "\<dots> = 2 ^ 53" using c(1,2) by (simp flip: power_add nat_add_distrib)
  finally have small: "x * 2 ^ nat (53 - c) < 2 ^ 53" .
  have lp: "nbits (x * 2 ^ a) = c + int a" "nbits (2 ^ b) = int b + 1"
    using x(1) by (simp_all add: nbits_shift nbits_pow2 c_def)
  have e0: "max (-1074) (c + int a - (int b + 1) - 53) = e - 1"
    using e by (simp add: c_def)
  have N1: "x * 2 ^ a * 2 ^ nat (- (e - 1)) = (x * 2 ^ nat (54 - c)) * (2 ^ b * 2 ^ nat (e - 1))"
    using e c(2) by (intro pow2_split) (simp add: c_def)
  have N2: "x * 2 ^ a * 2 ^ nat (- e) = (x * 2 ^ nat (53 - c)) * (2 ^ b * 2 ^ nat e)"
    using e c(2) by (intro pow2_split) (simp add: c_def)
  have m: "rne (x * 2 ^ a * 2 ^ nat (- e)) (2 ^ b * 2 ^ nat e) = x * 2 ^ nat (53 - c)"
    by (subst rne_exact) (simp_all add: N2)
  show ?thesis
    unfolding round64_def Let_def lp e0 N1
    using x(1) big small e(3) m by (simp add: c_def)
qed

lemma round64_int:
  assumes "0 < p" and "p < 2 ^ 53"
  shows "round64 s p 1 = F_num s (p * 2 ^ nat (53 - nbits p)) (nbits p - 53)"
  using round64_dyadic [OF assms refl, of 0 0] nbits_bounds [OF assms(1)] nbits_mono_le [OF assms]
  by simp

lemma f64_of_int_pos:
  assumes "0 < n" and "n < 2 ^ 53"
  shows "f64_of_int n = F_num False (n * 2 ^ nat (53 - nbits n)) (nbits n - 53)"
  using round64_int [OF assms] assms by (simp add: f64_of_int_def)

lemma f64_of_int_neg:
  assumes "n < 0" and "- n < 2 ^ 53"
  shows "f64_of_int n = F_num True (- n * 2 ^ nat (53 - nbits (- n))) (nbits (- n) - 53)"
  using round64_int [of "- n"] assms by (simp add: f64_of_int_def)

lemma f64_of_int_0: "f64_of_int 0 = F_num False 0 (- 1074)"
  by (simp add: f64_of_int_def round64_def)

lemma scaled_int_back:
  assumes "0 < n" and "n < 2 ^ 53"
  shows "n * 2 ^ nat (53 - nbits n) * 2 ^ nat (nbits n - 53) div 2 ^ nat (- (nbits n - 53)) = n"
  using nbits_mono_le [OF assms] by simp

lemma f64_trunc_of_int:
  assumes "\<bar>n\<bar> < 2 ^ 53"
  shows "f64_trunc (f64_of_int n) = Some n"
proof -
  consider "n = 0" | "0 < n" "n < 2 ^ 53" | "n < 0" "- n < 2 ^ 53" using assms by linarith
  then show ?thesis
  proof cases
    case 1
    then show ?thesis by (simp add: f64_of_int_0 f64_signed_def)
  next
    case 2
    then show ?thesis using scaled_int_back [OF 2] by (simp add: f64_of_int_pos f64_signed_def)
  next
    case 3
    then show ?thesis using scaled_int_back [of "- n"] by (simp add: f64_of_int_neg f64_signed_def)
  qed
qed

lemma f64_llround_of_int:
  assumes "\<bar>n\<bar> < 2 ^ 53"
  shows "f64_llround (f64_of_int n) = Some n"
proof -
  have half: "(2 * (m * 2 ^ k) + 2 ^ k) div (2 * 2 ^ k) = (m::int)" for m k
  proof -
    have "(2 * (m * 2 ^ k) + 2 ^ k) div (2 * 2 ^ k) = (m * (2 * 2 ^ k) + 2 ^ k) div (2 * 2 ^ k)"
      by (simp add: algebra_simps)
    also have "\<dots> = m + 2 ^ k div (2 * 2 ^ k)" by simp
    finally show ?thesis by simp
  qed
  consider "n = 0" | "0 < n" "n < 2 ^ 53" | "n < 0" "- n < 2 ^ 53" using assms by linarith
  then show ?thesis
  proof cases
    case 1
    then show ?thesis by (simp add: f64_of_int_0 f64_signed_def)
  next
    case 2
    then show ?thesis
      using nbits_mono_le [OF 2] half [of n "nat (53 - nbits n)"]
      by (simp add: f64_of_int_pos f64_signed_def mult.assoc)
  next
    case 3
    then show ?thesis
      using nbits_mono_le [of "- n" 53] half [of "- n" "nat (53 - nbits (- n))"]
      by (simp add: f64_of_int_neg f64_signed_def mult.assoc)
  qed
qed
lemma f64_add_commute: "f64_add x y = f64_add y x"
  by (cases x; cases y) (auto simp: Let_def min.commute add.commute)

lemma bool_neq_sym: "(s = (\<not> t)) = (t = (\<not> s))"
  by auto

lemma f64_mul_commute: "f64_mul x y = f64_mul y x"
  by (cases x; cases y) (auto simp: ac_simps bool_neq_sym)

text \<open>Rounding always produces the canonical representation.\<close>

definition fquot :: "int \<Rightarrow> int \<Rightarrow> int \<Rightarrow> int" where
  "fquot p q e = (p * 2 ^ nat (- e)) div (q * 2 ^ nat e)"

lemma fquot_Suc: "fquot p q (e + 1) = fquot p q e div 2"
proof (cases "e < 0")
  case True
  then have e: "nat (- e) = Suc (nat (- (e + 1)))" "nat e = 0" "nat (e + 1) = 0" by auto
  have "p * 2 ^ nat (- (e + 1)) div q = 2 * (p * 2 ^ nat (- (e + 1))) div (2 * q)" by simp
  also have "\<dots> = 2 * (p * 2 ^ nat (- (e + 1))) div q div 2"
    by (simp only: div_mult2_eq' mult.commute zdiv_zmult2_eq)
  finally show ?thesis
    using e by (simp add: fquot_def mult.left_commute)
next
  case False
  then have e: "nat (e + 1) = Suc (nat e)" "nat (- e) = 0" "nat (- (e + 1)) = 0" by auto
  have "p div (q * 2 ^ nat e * 2) = p div (q * 2 ^ nat e) div 2"
    by (simp add: zdiv_zmult2_eq)
  then show ?thesis using e by (simp add: fquot_def ac_simps)
qed

lemma int_div_lt:
  assumes "(0::int) < d" and "n < k * d"
  shows "n div d < k"
proof (rule ccontr)
  assume "\<not> ?thesis"
  then have "k * d \<le> (n div d) * d" using assms(1) by (intro mult_right_mono) auto
  also have "\<dots> \<le> n" using assms(1) div_mult_mod_eq [of n d] pos_mod_sign [of d n] by linarith
  finally show False using assms(2) by simp
qed

lemma int_le_div:
  assumes "(0::int) < d" and "k * d \<le> n"
  shows "k \<le> n div d"
  using zdiv_mono1 [OF assms(2,1)] assms(1) by simp

lemma fquot_upper:
  assumes "0 < p" and "0 < q" and "nbits p - nbits q - 53 \<le> e"
  shows "fquot p q e < 2 ^ 54"
proof -
  have p: "p < 2 ^ nat (nbits p)" and q: "2 ^ nat (nbits q - 1) \<le> q" "0 < nbits q" "0 < nbits p"
    using nbits_bounds assms by auto
  have "p * 2 ^ nat (- e) < 2 ^ nat (nbits p) * 2 ^ nat (- e)" using p by simp
  also have "\<dots> = 2 ^ (nat (nbits p) + nat (- e))" by (simp add: power_add)
  also have "\<dots> \<le> 2 ^ (54 + nat (nbits q - 1) + nat e)"
    using assms(3) q by (intro power_increasing) linarith+
  also have "\<dots> = 2 ^ 54 * (2 ^ nat (nbits q - 1) * 2 ^ nat e)" by (simp add: power_add)
  also have "\<dots> \<le> 2 ^ 54 * (q * 2 ^ nat e)" using q by simp
  finally show ?thesis
    unfolding fquot_def using assms(2) by (intro int_div_lt) simp_all
qed

lemma fquot_lower:
  assumes "0 < p" and "0 < q" and "e \<le> nbits p - nbits q - 53"
  shows "2 ^ 52 \<le> fquot p q e"
proof -
  have p: "2 ^ nat (nbits p - 1) \<le> p" "0 < nbits p" and q: "q < 2 ^ nat (nbits q)" "0 < nbits q"
    using nbits_bounds assms by auto
  have "2 ^ 52 * (q * 2 ^ nat e) \<le> 2 ^ 52 * (2 ^ nat (nbits q) * 2 ^ nat e)" using q by simp
  also have "\<dots> = 2 ^ (52 + nat (nbits q) + nat e)" by (simp add: power_add)
  also have "\<dots> \<le> 2 ^ (nat (nbits p - 1) + nat (- e))"
    using assms(3) p q by (intro power_increasing) linarith+
  also have "\<dots> \<le> p * 2 ^ nat (- e)" using p by (simp add: power_add)
  finally show ?thesis
    unfolding fquot_def using assms(2) by (intro int_le_div) simp_all
qed

lemma round64_ok:
  assumes "0 \<le> p" and "0 < q"
  shows "f64_ok (round64 s p q)"
proof (cases "p = 0")
  case True
  then show ?thesis by (simp add: round64_def f64_ok_def)
next
  case False
  with assms have p: "0 < p" by simp
  define e0 where "e0 = max (-1074) (nbits p - nbits q - 53)"
  define e where "e = (if 2 ^ 53 \<le> fquot p q e0 then e0 + 1 else e0)"
  define m where "m = rne (p * 2 ^ nat (- e)) (q * 2 ^ nat e)"
  have m: "fquot p q e \<le> m" "m \<le> fquot p q e + 1"
    using rne_bounds by (auto simp: m_def fquot_def)
  have up: "fquot p q e0 < 2 ^ 54"
    by (rule fquot_upper [OF p assms(2)]) (simp add: e0_def)
  have lo: "2 ^ 52 \<le> fquot p q e0" if "-1074 < e0"
    by (rule fquot_lower [OF p assms(2)]) (use that in \<open>simp add: e0_def\<close>)
  have pos: "0 \<le> fquot p q e0"
    using p assms(2) by (simp add: fquot_def pos_imp_zdiv_nonneg_iff)
  have "-1074 \<le> e0" by (simp add: e0_def)
  with up lo pos have "0 \<le> fquot p q e" "fquot p q e < 2 ^ 53" "-1074 \<le> e"
      "2 ^ 52 \<le> fquot p q e \<or> e = -1074"
    by (auto simp: e_def fquot_Suc)
  with m have "0 \<le> m" "m \<le> 2 ^ 53" "-1074 \<le> e" "2 ^ 52 \<le> m \<or> e = -1074" by auto
  moreover have "round64 s p q =
      (if 971 < (if m = 2 ^ 53 then e + 1 else e) then F_inf s
       else F_num s (if m = 2 ^ 53 then 2 ^ 52 else m) (if m = 2 ^ 53 then e + 1 else e))"
    using False unfolding round64_def Let_def m_def e_def fquot_def e0_def by simp
  ultimately show ?thesis by (auto simp: f64_ok_def)
qed

section \<open>The arithmetic classes\<close>

instantiation f64 :: "{zero, plus, minus, uminus, times}"
begin
definition zero_f64 :: f64 where "zero_f64 = f64_zero"
definition plus_f64 :: "f64 \<Rightarrow> f64 \<Rightarrow> f64" where "plus_f64 = f64_add"
definition minus_f64 :: "f64 \<Rightarrow> f64 \<Rightarrow> f64" where "minus_f64 = f64_sub"
definition uminus_f64 :: "f64 \<Rightarrow> f64" where "uminus_f64 = f64_neg"
definition times_f64 :: "f64 \<Rightarrow> f64 \<Rightarrow> f64" where "times_f64 = f64_mul"
instance ..
end

lemmas f64_class_defs = zero_f64_def plus_f64_def minus_f64_def uminus_f64_def times_f64_def

section \<open>Rounding an integer up by one half\<close>

lemma f64_half: "f64_lit 1 2 = F_num False (2 ^ 52) (- 53)"
  by code_simp

lemma add_half_trunc:
  assumes "0 \<le> n" and "n < 2 ^ 52"
  shows "f64_trunc (f64_of_int n + f64_lit 1 2) = Some n"
proof (cases "n = 0")
  case True
  have "f64_trunc (f64_of_int 0 + f64_lit 1 2) = Some 0" unfolding f64_class_defs by code_simp
  with True show ?thesis by simp
next
  case False
  with assms have n: "0 < n" "n < 2 ^ 53" by auto
  have b: "nbits n \<le> 52" "0 < nbits n"
    using nbits_mono_le [of n 52] nbits_bounds [OF n(1)] n assms by auto
  define y where "y = 2 * n + 1"
  have y: "0 < y" "y < 2 ^ 53" using assms False by (auto simp: y_def)
  have yb: "nbits y \<le> 53" "0 < nbits y"
    using nbits_mono_le [OF y] nbits_bounds [OF y(1)] by auto
  have "n * 2 ^ nat (53 - nbits n) * 2 ^ nat (nbits n) = n * 2 ^ 53"
    using b by (simp flip: power_add nat_add_distrib)
  then have z: "n * 2 ^ nat (53 - nbits n) * 2 ^ nat (nbits n - 53 + 53) + 2 ^ 52 = y * 2 ^ 52"
    by (simp add: y_def)
  have "f64_of_int n + f64_lit 1 2 = round64 False (y * 2 ^ 52) (2 ^ 53)"
    using b y z by (simp add: f64_of_int_pos [OF n] f64_half plus_f64_def f64_signed_def Let_def)
  also have "\<dots> = F_num False (y * 2 ^ nat (53 - nbits y)) (nbits y - 53 + int 52 - int 53)"
    using yb by (intro round64_dyadic [OF y refl]) auto
  finally have s: "f64_of_int n + f64_lit 1 2 = F_num False (y * 2 ^ nat (53 - nbits y)) (nbits y - 54)"
    by simp
  have "nat (54 - nbits y) = Suc (nat (53 - nbits y))" using yb by simp
  then have "y * 2 ^ nat (53 - nbits y) div 2 ^ nat (54 - nbits y) = y div 2"
    by (simp add: mult.commute [of 2])
  then show ?thesis using yb by (simp add: s f64_signed_def y_def)
qed

lemma f64_of_int_not_neg: "0 \<le> n \<Longrightarrow> n < 2 ^ 53 \<Longrightarrow> \<not> f64_lt (f64_of_int n) f64_zero"
  by (cases "n = 0") (auto simp: f64_of_int_0 f64_of_int_pos f64_zero_def f64_signed_def Let_def not_less)

end
