(* ===== verification/Core.thy ===== *)
theory Core
  imports F64 "HOL-Library.Word"
begin

text \<open>
  The node model of \<open>include/xrune/core.hpp\<close> and the node types of
  \<open>include/xrune/node/standard_nodes.hpp\<close>, \<open>multirate.hpp\<close> and \<open>fft.hpp\<close>: which ports a
  node has, its constructor arguments, its rate and block ratios and the size of its
  state block.  A node type outside the repository (a Faust program, a host's own node)
  is known to the engine through this interface only: it is the constructor \<open>Hosted\<close>.
  Sizes in bytes are those of the LP64 ABI (\<open>double\<close>, \<open>size_t\<close> and \<open>uint64_t\<close> of 8
  bytes, \<open>int\<close> of 4).
\<close>

section \<open>Ports\<close>

record port_descriptor =
  pd_name :: string
  pd_default :: f64
  pd_min :: f64
  pd_max :: f64

definition simd_align :: nat where
  "simd_align = 64"

definition huge_pos :: f64 where
  "huge_pos = f64_lit (10 ^ 30) 1"

definition huge_neg :: f64 where
  "huge_neg = f64_lit (- (10 ^ 30)) 1"

text \<open>
  The view of a control port that a node reads: audio-rate when a buffer is connected,
  otherwise a linear ramp.
\<close>

record param_view =
  pv_buffer :: "f64 list option"
  pv_base :: f64
  pv_inc :: f64

definition pv_at :: "param_view \<Rightarrow> nat \<Rightarrow> f64" where
  "pv_at v i = (case pv_buffer v of
      Some b \<Rightarrow> b ! i
    | None \<Rightarrow> pv_base v + pv_inc v * f64_of_int (int i))"

definition pv_first :: "param_view \<Rightarrow> f64" where
  "pv_first v = (case pv_buffer v of Some b \<Rightarrow> b ! 0 | None \<Rightarrow> pv_base v)"

definition is_audio_rate :: "param_view \<Rightarrow> bool" where
  "is_audio_rate v = (pv_buffer v \<noteq> None)"

section \<open>Node types\<close>

record hosted =
  h_type :: string
  h_inputs :: nat
  h_outputs :: nat
  h_ports :: "port_descriptor list"
  h_config :: "(string \<times> f64) list"
  h_rate_num :: nat
  h_rate_den :: nat
  h_block_num :: nat
  h_block_den :: nat
  h_state_size :: nat
  h_state_align :: nat

datatype node =
    Oscillator f64
  | White_noise "64 word"
  | Constant f64
  | Gain f64
  | Stereo_fader f64
  | Pan f64
  | Mixer nat
  | Stereo_mixer nat
  | Channel_adapter nat nat
  | Mono_to_stereo
  | Stereo_to_mono
  | Inverter
  | Stereo_inverter
  | Call_counter
  | Add
  | Multiply
  | Divide
  | Cut
  | Sample_and_hold f64
  | Bus_input nat
  | Upsampler2
  | Downsampler2
  | Downbloc
  | Upbloc
  | Ola_stft nat
  | Stft_forward nat nat
  | Stft_backward nat nat
  | Hosted hosted

fun type_name :: "node \<Rightarrow> string" where
  "type_name (Oscillator f) = ''sine''"
| "type_name (White_noise s) = ''noise''"
| "type_name (Constant v) = ''constant''"
| "type_name (Gain v) = ''gain''"
| "type_name (Stereo_fader v) = ''fader''"
| "type_name (Pan p) = ''pan''"
| "type_name (Mixer n) = ''mix''"
| "type_name (Stereo_mixer n) = ''smix''"
| "type_name (Channel_adapter i k) = ''adapt''"
| "type_name Mono_to_stereo = ''m2s''"
| "type_name Stereo_to_mono = ''s2m''"
| "type_name Inverter = ''inv''"
| "type_name Stereo_inverter = ''sinv''"
| "type_name Call_counter = ''counter''"
| "type_name Add = ''add''"
| "type_name Multiply = ''mul''"
| "type_name Divide = ''div''"
| "type_name Cut = ''cut''"
| "type_name (Sample_and_hold r) = ''sah''"
| "type_name (Bus_input n) = ''bus''"
| "type_name Upsampler2 = ''up2''"
| "type_name Downsampler2 = ''down2''"
| "type_name Downbloc = ''downbloc''"
| "type_name Upbloc = ''upbloc''"
| "type_name (Ola_stft n) = ''stft''"
| "type_name (Stft_forward n c) = ''stft_fwd''"
| "type_name (Stft_backward n c) = ''stft_bwd''"
| "type_name (Hosted h) = h_type h"

fun inputs_count :: "node \<Rightarrow> nat" where
  "inputs_count (Oscillator f) = 0"
| "inputs_count (White_noise s) = 0"
| "inputs_count (Constant v) = 0"
| "inputs_count (Gain v) = 1"
| "inputs_count (Stereo_fader v) = 2"
| "inputs_count (Pan p) = 1"
| "inputs_count (Mixer n) = n"
| "inputs_count (Stereo_mixer n) = n * 2"
| "inputs_count (Channel_adapter i k) = i"
| "inputs_count Mono_to_stereo = 1"
| "inputs_count Stereo_to_mono = 2"
| "inputs_count Inverter = 1"
| "inputs_count Stereo_inverter = 2"
| "inputs_count Call_counter = 1"
| "inputs_count Add = 2"
| "inputs_count Multiply = 2"
| "inputs_count Divide = 2"
| "inputs_count Cut = 1"
| "inputs_count (Sample_and_hold r) = 1"
| "inputs_count (Bus_input n) = 0"
| "inputs_count Upsampler2 = 1"
| "inputs_count Downsampler2 = 1"
| "inputs_count Downbloc = 1"
| "inputs_count Upbloc = 1"
| "inputs_count (Ola_stft n) = 1"
| "inputs_count (Stft_forward n c) = c"
| "inputs_count (Stft_backward n c) = c * 2"
| "inputs_count (Hosted h) = h_inputs h"

fun outputs_count :: "node \<Rightarrow> nat" where
  "outputs_count (Oscillator f) = 1"
| "outputs_count (White_noise s) = 1"
| "outputs_count (Constant v) = 1"
| "outputs_count (Gain v) = 1"
| "outputs_count (Stereo_fader v) = 2"
| "outputs_count (Pan p) = 2"
| "outputs_count (Mixer n) = 1"
| "outputs_count (Stereo_mixer n) = 2"
| "outputs_count (Channel_adapter i k) = k"
| "outputs_count Mono_to_stereo = 2"
| "outputs_count Stereo_to_mono = 1"
| "outputs_count Inverter = 1"
| "outputs_count Stereo_inverter = 2"
| "outputs_count Call_counter = 1"
| "outputs_count Add = 1"
| "outputs_count Multiply = 1"
| "outputs_count Divide = 1"
| "outputs_count Cut = 0"
| "outputs_count (Sample_and_hold r) = 1"
| "outputs_count (Bus_input n) = n"
| "outputs_count Upsampler2 = 1"
| "outputs_count Downsampler2 = 1"
| "outputs_count Downbloc = 1"
| "outputs_count Upbloc = 1"
| "outputs_count (Ola_stft n) = 1"
| "outputs_count (Stft_forward n c) = c * 2"
| "outputs_count (Stft_backward n c) = c"
| "outputs_count (Hosted h) = h_outputs h"

text \<open>The \<open>PORTS\<close> arrays.  A node without ports returns a null array.\<close>

fun params :: "node \<Rightarrow> port_descriptor list" where
  "params (Oscillator f) = [\<lparr>pd_name = ''freq'', pd_default = f64_of_int 440,
      pd_min = f64_zero, pd_max = f64_of_int 20000\<rparr>]"
| "params (Gain v) = [\<lparr>pd_name = ''gain'', pd_default = f64_of_int 1,
      pd_min = huge_neg, pd_max = huge_pos\<rparr>]"
| "params (Stereo_fader v) = [\<lparr>pd_name = ''volume'', pd_default = f64_of_int 1,
      pd_min = f64_zero, pd_max = huge_pos\<rparr>]"
| "params (Pan p) = [\<lparr>pd_name = ''pan'', pd_default = f64_zero,
      pd_min = f64_of_int (- 1), pd_max = f64_of_int 1\<rparr>]"
| "params (Constant v) = [\<lparr>pd_name = ''value'', pd_default = f64_of_int 1,
      pd_min = huge_neg, pd_max = huge_pos\<rparr>]"
| "params (Sample_and_hold r) = [\<lparr>pd_name = ''rate'', pd_default = f64_of_int 1,
      pd_min = huge_neg, pd_max = huge_pos\<rparr>]"
| "params (Hosted h) = h_ports h"
| "params n = []"

fun params_count :: "node \<Rightarrow> nat" where
  "params_count (Oscillator f) = 1"
| "params_count (Gain v) = 1"
| "params_count (Stereo_fader v) = 1"
| "params_count (Pan p) = 1"
| "params_count (Constant v) = 1"
| "params_count (Sample_and_hold r) = 1"
| "params_count (Hosted h) = length (h_ports h)"
| "params_count n = 0"

fun param_default :: "node \<Rightarrow> nat \<Rightarrow> f64" where
  "param_default (Oscillator f) i = (if i = 0 then f else f64_zero)"
| "param_default (Gain v) i = (if i = 0 then v else f64_of_int 1)"
| "param_default (Stereo_fader v) i = (if i = 0 then v else f64_of_int 1)"
| "param_default (Pan p) i = (if i = 0 then p else f64_zero)"
| "param_default (Constant v) i = (if i = 0 then v else f64_zero)"
| "param_default (Sample_and_hold r) i = (if i = 0 then r else f64_of_int 1)"
| "param_default (Hosted h) i = pd_default (h_ports h ! i)"
| "param_default n i = f64_zero"

text \<open>
  Constructor arguments that are not ports.  The caller passes a buffer of \<open>mx\<close>
  entries; a node that needs more writes none.
\<close>

fun config_args :: "node \<Rightarrow> nat \<Rightarrow> (string \<times> f64) list" where
  "config_args (Mixer n) mx = (if mx < 1 then [] else [(''inputs'', f64_of_int (int n))])"
| "config_args (Stereo_mixer n) mx = (if mx < 1 then [] else [(''inputs'', f64_of_int (int n))])"
| "config_args (Bus_input n) mx = (if mx < 1 then [] else [(''channels'', f64_of_int (int n))])"
| "config_args (Channel_adapter i k) mx =
    (if mx < 2 then [] else [(''inputs'', f64_of_int (int i)), (''outputs'', f64_of_int (int k))])"
| "config_args (Ola_stft n) mx = (if mx < 1 then [] else [(''size'', f64_of_int (int n))])"
| "config_args (Stft_forward n c) mx =
    (if mx < 2 then [] else [(''size'', f64_of_int (int n)), (''channels'', f64_of_int (int c))])"
| "config_args (Stft_backward n c) mx =
    (if mx < 2 then [] else [(''size'', f64_of_int (int n)), (''channels'', f64_of_int (int c))])"
| "config_args (Hosted h) mx = take mx (h_config h)"
| "config_args n mx = []"

fun rate_num :: "node \<Rightarrow> nat" where
  "rate_num Upsampler2 = 2"
| "rate_num (Hosted h) = h_rate_num h"
| "rate_num n = 1"

fun rate_den :: "node \<Rightarrow> nat" where
  "rate_den Downsampler2 = 2"
| "rate_den (Hosted h) = h_rate_den h"
| "rate_den n = 1"

fun block_num :: "node \<Rightarrow> nat" where
  "block_num Upbloc = 2"
| "block_num (Hosted h) = h_block_num h"
| "block_num n = 1"

fun block_den :: "node \<Rightarrow> nat" where
  "block_den Downbloc = 2"
| "block_den (Hosted h) = h_block_den h"
| "block_den n = 1"

definition halfband_len :: nat where
  "halfband_len = 31"

fun state_size :: "node \<Rightarrow> nat" where
  "state_size (Oscillator f) = 8"
| "state_size (White_noise s) = 8"
| "state_size Call_counter = 8"
| "state_size (Sample_and_hold r) = 16"
| "state_size Upsampler2 = 8 * halfband_len + 8"
| "state_size Downsampler2 = 8 * halfband_len + 8"
| "state_size (Ola_stft n) = 8 + (n + 2 * n + n + n) * 8"
| "state_size (Stft_backward n c) = c * n * 8"
| "state_size (Hosted h) = h_state_size h"
| "state_size n = 0"

fun state_align :: "node \<Rightarrow> nat" where
  "state_align (Hosted h) = h_state_align h"
| "state_align n = 8"

lemma length_params [simp]: "length (params n) = params_count n"
  by (cases n) simp_all

end
