(* ===== verification/Registry.thy ===== *)
theory Registry
  imports Core
begin

text \<open>
  The node registry of \<open>include/xrune/lang/node_registry.hpp\<close>: the arguments of a node
  call, how a factory reads them, and the built-in vocabulary.  A factory may throw, and
  it may convert a number that no \<open>size_t\<close> holds, which C++ leaves undefined; both are
  values of \<open>exn\<close>.
\<close>

section \<open>Arguments\<close>

datatype arg_value = A_number f64 | A_string string | A_boolean bool

text \<open>The \<open>number\<close> field of an argument that is not a number keeps its initial value.\<close>

fun arg_number :: "arg_value \<Rightarrow> f64" where
  "arg_number (A_number n) = n"
| "arg_number a = f64_zero"

record node_args =
  na_named :: "(string \<times> arg_value) list"
  na_positional :: "arg_value list"

definition no_args :: node_args where
  "no_args = \<lparr>na_named = [], na_positional = []\<rparr>"

definition find_named :: "node_args \<Rightarrow> string \<Rightarrow> arg_value option" where
  "find_named a n = map_of (na_named a) n"

definition arg_num :: "node_args \<Rightarrow> string \<Rightarrow> nat \<Rightarrow> f64 \<Rightarrow> f64" where
  "arg_num a name pos def =
    (case find_named a name of
      Some v \<Rightarrow> arg_number v
    | None \<Rightarrow>
        (if pos < length (na_positional a) then
           (case na_positional a ! pos of A_number n \<Rightarrow> n | _ \<Rightarrow> def)
         else def))"

datatype exn = Exn_throw string | Exn_undefined

text \<open>\<open>static_cast<size_t>\<close>: truncation, undefined outside the range of \<open>size_t\<close>.\<close>

definition to_size_t :: "f64 \<Rightarrow> (exn, nat) result" where
  "to_size_t d = (case f64_trunc d of
      None \<Rightarrow> Inl Exn_undefined
    | Some i \<Rightarrow> if 0 \<le> i \<and> i < 2 ^ 64 then Inr (nat i) else Inl Exn_undefined)"

definition arg_count :: "node_args \<Rightarrow> string \<Rightarrow> nat \<Rightarrow> nat \<Rightarrow> (exn, nat) result" where
  "arg_count a name pos def =
    (let d = arg_num a name pos (f64_of_int (int def))
     in if f64_lt d f64_zero then Inr def else to_size_t (d + f64_lit 1 2))"

definition arg_str :: "node_args \<Rightarrow> string \<Rightarrow> nat \<Rightarrow> string \<Rightarrow> string" where
  "arg_str a name pos def =
    (case find_named a name of
      Some (A_string s) \<Rightarrow> s
    | _ \<Rightarrow>
        (if pos < length (na_positional a) then
           (case na_positional a ! pos of A_string s \<Rightarrow> s | _ \<Rightarrow> def)
         else def))"

text \<open>
  The numeric named arguments outside a skip list, as a map from name to value: a later
  argument of the same name overwrites an earlier one.
\<close>

fun numeric_named_except :: "(string \<times> arg_value) list \<Rightarrow> string list \<Rightarrow> (string \<rightharpoonup> f64)" where
  "numeric_named_except [] skip = Map.empty"
| "numeric_named_except ((k, A_number v) # kvs) skip =
    (if k \<in> set skip then numeric_named_except kvs skip
     else (\<lambda>x. case numeric_named_except kvs skip x of
                 Some w \<Rightarrow> Some w
               | None \<Rightarrow> if x = k then Some v else None))"
| "numeric_named_except (kv # kvs) skip = numeric_named_except kvs skip"

section \<open>The registry\<close>

type_synonym factory = "node_args \<Rightarrow> (exn, node option) result"

record registry_entry =
  re_make :: factory
  re_structural :: "string list"

type_synonym node_registry = "string \<rightharpoonup> registry_entry"

definition reg_add :: "node_registry \<Rightarrow> string \<Rightarrow> factory \<Rightarrow> string list \<Rightarrow> node_registry" where
  "reg_add r name f structural = r(name \<mapsto> \<lparr>re_make = f, re_structural = structural\<rparr>)"

definition reg_has :: "node_registry \<Rightarrow> string \<Rightarrow> bool" where
  "reg_has r name = (r name \<noteq> None)"

definition reg_make :: "node_registry \<Rightarrow> string \<Rightarrow> node_args \<Rightarrow> (exn, node option) result" where
  "reg_make r name args = (case r name of Some e \<Rightarrow> re_make e args | None \<Rightarrow> Inr None)"

section \<open>The built-in vocabulary\<close>

definition mk :: "node \<Rightarrow> (exn, node option) result" where
  "mk n = Inr (Some n)"

definition mk1 :: "(nat \<Rightarrow> node) \<Rightarrow> (exn, nat) result \<Rightarrow> (exn, node option) result" where
  "mk1 f r = res_bind r (\<lambda>x. mk (f x))"

definition mk2 :: "(nat \<Rightarrow> nat \<Rightarrow> node) \<Rightarrow> (exn, nat) result \<Rightarrow> (exn, nat) result
    \<Rightarrow> (exn, node option) result" where
  "mk2 f r s = res_bind r (\<lambda>x. res_bind s (\<lambda>y. mk (f x y)))"

definition default_seed :: "64 word" where
  "default_seed = 0x853c49e6748fea9b"

definition standard_factory :: "string \<Rightarrow> factory option" where
  "standard_factory n =
    (if n = ''sine'' then Some (\<lambda>a. mk (Oscillator (arg_num a ''freq'' 0 (f64_of_int 440))))
     else if n = ''noise'' then Some (\<lambda>a. mk (White_noise default_seed))
     else if n = ''constant'' then Some (\<lambda>a. mk (Constant (arg_num a ''value'' 0 (f64_of_int 1))))
     else if n = ''gain'' then Some (\<lambda>a. mk (Gain (arg_num a ''gain'' 0 (f64_of_int 1))))
     else if n = ''fader'' then Some (\<lambda>a. mk (Stereo_fader (arg_num a ''volume'' 0 (f64_of_int 1))))
     else if n = ''pan'' then Some (\<lambda>a. mk (Pan (arg_num a ''pan'' 0 f64_zero)))
     else if n = ''mix'' then Some (\<lambda>a. mk1 Mixer (arg_count a ''inputs'' 0 2))
     else if n = ''smix'' then Some (\<lambda>a. mk1 Stereo_mixer (arg_count a ''inputs'' 0 2))
     else if n = ''adapt'' then
       Some (\<lambda>a. mk2 Channel_adapter (arg_count a ''inputs'' 0 1) (arg_count a ''outputs'' 1 1))
     else if n = ''m2s'' then Some (\<lambda>a. mk Mono_to_stereo)
     else if n = ''s2m'' then Some (\<lambda>a. mk Stereo_to_mono)
     else if n = ''inv'' then Some (\<lambda>a. mk Inverter)
     else if n = ''sinv'' then Some (\<lambda>a. mk Stereo_inverter)
     else if n = ''counter'' then Some (\<lambda>a. mk Call_counter)
     else if n = ''add'' then Some (\<lambda>a. mk Add)
     else if n = ''mul'' then Some (\<lambda>a. mk Multiply)
     else if n = ''div'' then Some (\<lambda>a. mk Divide)
     else if n = ''cut'' then Some (\<lambda>a. mk Cut)
     else if n = ''sah'' then Some (\<lambda>a. mk (Sample_and_hold (arg_num a ''rate'' 0 (f64_of_int 1))))
     else if n = ''bus'' then Some (\<lambda>a. mk1 Bus_input (arg_count a ''channels'' 0 2))
     else if n = ''up2'' then Some (\<lambda>a. mk Upsampler2)
     else if n = ''down2'' then Some (\<lambda>a. mk Downsampler2)
     else if n = ''downbloc'' then Some (\<lambda>a. mk Downbloc)
     else if n = ''stft'' then Some (\<lambda>a. mk1 Ola_stft (arg_count a ''size'' 0 1024))
     else if n = ''stft_fwd'' then
       Some (\<lambda>a. mk2 Stft_forward (arg_count a ''size'' 0 1024) (arg_count a ''channels'' 1 1))
     else if n = ''stft_bwd'' then
       Some (\<lambda>a. mk2 Stft_backward (arg_count a ''size'' 0 1024) (arg_count a ''channels'' 1 1))
     else None)"

definition standard_structural :: "string \<Rightarrow> string list" where
  "standard_structural n =
    (if n \<in> {''mix'', ''smix''} then [''inputs'']
     else if n = ''adapt'' then [''inputs'', ''outputs'']
     else if n = ''bus'' then [''channels'']
     else if n = ''stft'' then [''size'']
     else if n \<in> {''stft_fwd'', ''stft_bwd''} then [''size'', ''channels'']
     else [])"

definition standard_registry :: node_registry where
  "standard_registry n =
    map_option (\<lambda>f. \<lparr>re_make = f, re_structural = standard_structural n\<rparr>) (standard_factory n)"

section \<open>Reading counts back\<close>

lemma arg_count_of_int:
  assumes "arg_num a name pos (f64_of_int (int def)) = f64_of_int (int k)" and "k < 2 ^ 52"
  shows "arg_count a name pos def = Inr k"
proof -
  have k: "int k < 2 ^ 52" using assms(2) by (metis of_nat_less_numeral_power_cancel_iff)
  then show ?thesis
    using assms(1) add_half_trunc [of "int k"] f64_of_int_not_neg [of "int k"]
    by (simp add: arg_count_def to_size_t_def Let_def)
qed

end
