(* ===== verification/Bits.thy ===== *)
theory Bits
  imports Prelude "HOL-Library.Word"
begin

unbundle bit_operations_syntax

text \<open>
  The bit tricks of the source on unsigned sizes: the power-of-two test (src/schedule.cpp),
  rounding up to an alignment (src/schedule.cpp, include/xrune/util/arena.hpp,
  include/xrune/node/fft.hpp), \<open>next_pow2\<close> (include/xrune/util/worker_pool.hpp) and the
  wrap-around of a 64-bit product.
\<close>

definition is_power_of_two :: "nat \<Rightarrow> bool" where
  "is_power_of_two x = (x \<noteq> 0 \<and> int x AND (int x - 1) = 0)"

definition align_up :: "nat \<Rightarrow> nat \<Rightarrow> nat" where
  "align_up x a = nat ((int x + (int a - 1)) AND NOT (int a - 1))"

text \<open>The product of two \<open>size_t\<close> values.\<close>

definition size_mul :: "nat \<Rightarrow> nat \<Rightarrow> nat" where
  "size_mul a b = (a * b) mod 2 ^ 64"

text \<open>
  The smallest power of two that is at least \<open>n\<close>; the loop doubles \<open>p\<close> from 1.  The
  source's arguments are pool capacities, far from the wrap-around.
\<close>

function next_pow2_from :: "nat \<Rightarrow> nat \<Rightarrow> nat" where
  "next_pow2_from p n = (if 0 < p \<and> p < n then next_pow2_from (2 * p) n else p)"
  by pat_completeness auto
termination
  by (relation "measure (\<lambda>(p, n). n - p)") auto

declare next_pow2_from.simps [simp del]

definition next_pow2 :: "nat \<Rightarrow> nat" where
  "next_pow2 n = next_pow2_from 1 n"

lemma and_pred_zero:
  "0 < x \<Longrightarrow> x AND (x - 1) = 0 \<Longrightarrow> \<exists>k. x = 2 ^ k" for x :: int
proof (induction "nat x" arbitrary: x rule: less_induct)
  case less
  define y where "y = x div 2"
  show ?case
  proof (cases "even x")
    case True
    then have x: "x = 2 * y" by (simp add: y_def)
    have y: "0 < y" using x less.prems(1) by simp
    have "x AND (x - 1) = of_bool (odd x \<and> odd (x - 1)) + 2 * (x div 2 AND (x - 1) div 2)"
      by (rule and_rec)
    also have "(x - 1) div 2 = y - 1" using x by simp
    finally have "y AND (y - 1) = 0" using True x less.prems(2) by simp
    with less.hyps [of y] y x obtain k where "y = 2 ^ k" by auto
    with x have "x = 2 ^ Suc k" by simp
    then show ?thesis by blast
  next
    case False
    then have x: "x = 2 * y + 1" by (simp add: y_def)
    have "x AND (x - 1) = of_bool (odd x \<and> odd (x - 1)) + 2 * (x div 2 AND (x - 1) div 2)"
      by (rule and_rec)
    also have "(x - 1) div 2 = y" using x by simp
    finally have "y = 0" using x less.prems(2) by simp
    then have "x = 2 ^ 0" using x by simp
    then show ?thesis by blast
  qed
qed

lemma is_power_of_two_iff: "is_power_of_two x \<longleftrightarrow> (\<exists>k. x = 2 ^ k)"
proof
  assume "is_power_of_two x"
  then obtain k where "int x = 2 ^ k"
    using and_pred_zero [of "int x"] by (auto simp: is_power_of_two_def)
  then have "x = 2 ^ k" by (metis of_nat_eq_iff of_nat_power of_nat_numeral)
  then show "\<exists>k. x = 2 ^ k" by blast
next
  assume "\<exists>k. x = 2 ^ k"
  then obtain k where k: "x = 2 ^ k" by blast
  have "(2 :: int) ^ k AND (2 ^ k - 1) = take_bit k (2 ^ k)"
    by (simp add: take_bit_eq_mask mask_eq_exp_minus_1)
  then show "is_power_of_two x" using k by (simp add: is_power_of_two_def)
qed

lemma and_not_mask: "x AND NOT (2 ^ k - 1) = x - x mod 2 ^ k" for x :: int
proof -
  have "x AND NOT (2 ^ k - 1) = x AND NOT (x AND mask k)"
    by (rule bit_eqI) (auto simp: bit_simps mask_eq_exp_minus_1 [symmetric])
  also have "\<dots> = x - (x AND mask k)"
    by (rule disjunctive_diff_eq_and_not [symmetric]) (rule bit_eqI, auto simp: bit_simps)
  also have "\<dots> = x - x mod 2 ^ k" by (simp add: take_bit_eq_mask [symmetric] take_bit_eq_mod)
  finally show ?thesis .
qed

lemma align_up_pow2:
  "int (align_up x (2 ^ k)) = (int x + 2 ^ k - 1) - (int x + 2 ^ k - 1) mod 2 ^ k"
proof -
  let ?z = "int x + 2 ^ k - 1"
  have "(0::int) < 2 ^ k" by simp
  then have "0 \<le> ?z" by linarith
  then have "?z mod 2 ^ k \<le> ?z" by (rule zmod_le_nonneg_dividend)
  moreover have "int x + (int (2 ^ k) - 1) = ?z" by simp
  ultimately show ?thesis
    unfolding align_up_def by (simp only: of_nat_power of_nat_numeral and_not_mask [symmetric] int_nat_eq)
     (simp add: and_not_mask)
qed

lemma align_up_bounds:
  assumes "is_power_of_two a"
  shows "a dvd align_up x a" and "x \<le> align_up x a" and "align_up x a < x + a"
proof -
  obtain k where a: "a = 2 ^ k" using assms by (auto simp: is_power_of_two_iff)
  let ?z = "int x + 2 ^ k - 1"
  have "int (2 ^ k) dvd int (align_up x (2 ^ k))"
    unfolding align_up_pow2 by (simp add: dvd_minus_mod)
  then show "a dvd align_up x a" unfolding a int_dvd_int_iff .
  have "0 \<le> ?z mod 2 ^ k" "?z mod 2 ^ k < 2 ^ k" by simp_all
  then have "int x \<le> int (align_up x (2 ^ k))" "int (align_up x (2 ^ k)) < int (x + 2 ^ k)"
    unfolding align_up_pow2 of_nat_add of_nat_power of_nat_numeral by linarith+
  then show "x \<le> align_up x a" "align_up x a < x + a"
    unfolding a by (simp_all only: of_nat_le_iff of_nat_less_iff)
qed

lemma size_mul_pow2:
  assumes "is_power_of_two a" and "is_power_of_two b" and "size_mul a b \<noteq> 0"
  shows "size_mul a b = a * b"
proof -
  obtain i j where "a = 2 ^ i" "b = 2 ^ j" using assms by (auto simp: is_power_of_two_iff)
  then have p: "a * b = 2 ^ (i + j)" by (simp add: power_add)
  have "i + j < 64"
  proof (rule ccontr)
    assume "\<not> ?thesis"
    then have "(2::nat) ^ 64 dvd 2 ^ (i + j)" by (intro le_imp_power_dvd) simp
    with assms(3) p show False unfolding size_mul_def by (metis dvd_imp_mod_0)
  qed
  then have "a * b < 2 ^ 64" unfolding p by (intro power_strict_increasing) simp_all
  then show ?thesis by (simp add: size_mul_def)
qed

lemma next_pow2_from_bounds:
  "is_power_of_two p \<Longrightarrow> is_power_of_two (next_pow2_from p n) \<and> n \<le> next_pow2_from p n"
proof (induction p n rule: next_pow2_from.induct)
  case (1 p n)
  show ?case
  proof (cases "0 < p \<and> p < n")
    case True
    have "is_power_of_two (2 * p)"
      using "1.prems" by (auto simp: is_power_of_two_iff intro: exI [of _ "Suc _"])
    with "1.IH" True show ?thesis by (simp add: next_pow2_from.simps [of p n])
  next
    case False
    then show ?thesis
      using "1.prems" by (auto simp: next_pow2_from.simps [of p n] is_power_of_two_def)
  qed
qed

end
