(* ===== verification/Fft.thy ===== *)
theory Fft
  imports Core Bits
begin

text \<open>
  The radix-2 FFT of \<open>include/xrune/node/fft.hpp\<close>: the plan (bit reversal and twiddle
  factors) and the in-place transform on split arrays, loop by loop.  \<open>sin\<close> and \<open>cos\<close> of
  the C library are parameters.  The transform indexes its arrays without checks; the
  lemmas show that the indices stay in range exactly under the condition \<open>fft_size_ok\<close>.
\<close>

record libm =
  lm_sin :: "f64 \<Rightarrow> f64"
  lm_cos :: "f64 \<Rightarrow> f64"

definition pi64 :: f64 where
  "pi64 = f64_lit 314159265358979323846 (10 ^ 20)"

definition two_pi :: f64 where
  "two_pi = f64_of_int 2 * pi64"

section \<open>The plan\<close>

function levels_from :: "nat \<Rightarrow> nat \<Rightarrow> nat" where
  "levels_from l n = (if 2 ^ l < n then levels_from (Suc l) n else l)"
  by pat_completeness auto
termination
proof (relation "measure (\<lambda>(l, n). n - 2 ^ l)")
  fix l n :: nat
  assume "2 ^ l < n"
  moreover have "(2::nat) ^ l < 2 ^ Suc l" by simp
  ultimately show "((Suc l, n), l, n) \<in> measure (\<lambda>(l, n). n - 2 ^ l)" by (simp add: diff_less_mono2)
qed simp

declare levels_from.simps [simp del]

definition levels :: "nat \<Rightarrow> nat" where
  "levels n = levels_from 0 n"

definition bit_reverse :: "nat \<Rightarrow> nat \<Rightarrow> nat" where
  "bit_reverse lv i =
    foldl (\<lambda>r b. if i AND 2 ^ b \<noteq> 0 then r OR 2 ^ (lv - 1 - b) else r) 0 [0..<lv]"

record fft_plan =
  ff_n :: nat
  ff_brev :: "nat list"
  ff_cos :: "f64 list"
  ff_sin :: "f64 list"

definition twiddle_angle :: "nat \<Rightarrow> nat \<Rightarrow> f64" where
  "twiddle_angle n k = f64_div (two_pi * f64_of_int (int k)) (f64_of_int (int n))"

definition plan_init :: "libm \<Rightarrow> nat \<Rightarrow> fft_plan" where
  "plan_init lm n =
    \<lparr>ff_n = n, ff_brev = map (bit_reverse (levels n)) [0..<n],
     ff_cos = map (\<lambda>k. lm_cos lm (twiddle_angle n k)) [0..<n div 2],
     ff_sin = map (\<lambda>k. lm_sin lm (twiddle_angle n k)) [0..<n div 2]\<rparr>"

section \<open>The transform\<close>

definition swap_at :: "'a list \<Rightarrow> nat \<Rightarrow> nat \<Rightarrow> 'a list" where
  "swap_at xs i j = (xs[i := xs ! j])[j := xs ! i]"

definition permute :: "nat list \<Rightarrow> nat \<Rightarrow> 'a list \<Rightarrow> 'a list" where
  "permute brev n xs =
    foldl (\<lambda>xs i. if i < brev ! i then swap_at xs i (brev ! i) else xs) xs [0..<n]"

text \<open>
  One butterfly reads the twiddle factor \<open>k\<close> and updates the entries \<open>a\<close> and \<open>b\<close>.  A stage of
  length \<open>len\<close> runs them in the order of the two inner loops.
\<close>

definition butterfly :: "fft_plan \<Rightarrow> bool \<Rightarrow> f64 list \<times> f64 list \<Rightarrow> nat \<times> nat \<times> nat \<Rightarrow> f64 list \<times> f64 list" where
  "butterfly pl bwd ri acc =
    (case (ri, acc) of ((re, im), (k, a, b)) \<Rightarrow>
      let wr = ff_cos pl ! k;
          wi = (if bwd then ff_sin pl ! k else - (ff_sin pl ! k));
          tr = wr * re ! b - wi * im ! b;
          ti = wr * im ! b + wi * re ! b
      in ((re[b := re ! a - tr])[a := re ! a + tr], (im[b := im ! a - ti])[a := im ! a + ti]))"

definition group_starts :: "nat \<Rightarrow> nat \<Rightarrow> nat list" where
  "group_starts n len = map (\<lambda>q. q * len) [0..<(n + len - 1) div len]"

definition stage_accesses :: "nat \<Rightarrow> nat \<Rightarrow> (nat \<times> nat \<times> nat) list" where
  "stage_accesses n len = concat (map (\<lambda>i.
     map (\<lambda>j. (j * (n div len), i + j, i + j + len div 2)) [0..<len div 2]) (group_starts n len))"

function stage_lengths :: "nat \<Rightarrow> nat \<Rightarrow> nat list" where
  "stage_lengths len n = (if 0 < len \<and> len \<le> n then len # stage_lengths (2 * len) n else [])"
  by pat_completeness auto
termination
  by (relation "measure (\<lambda>(len, n). Suc n - len)") auto

declare stage_lengths.simps [simp del]

definition fft_accesses :: "nat \<Rightarrow> (nat \<times> nat \<times> nat) list" where
  "fft_accesses n = concat (map (stage_accesses n) (stage_lengths 2 n))"

definition transform :: "fft_plan \<Rightarrow> bool \<Rightarrow> f64 list \<times> f64 list \<Rightarrow> f64 list \<times> f64 list" where
  "transform pl bwd ri =
    (let re0 = permute (ff_brev pl) (ff_n pl) (fst ri);
         im0 = permute (ff_brev pl) (ff_n pl) (snd ri);
         (re1, im1) = foldl (butterfly pl bwd) (re0, im0) (fft_accesses (ff_n pl))
     in if bwd then
          (let s = f64_div (f64_of_int 1) (f64_of_int (int (ff_n pl)))
           in (map (\<lambda>x. x * s) re1, map (\<lambda>x. x * s) im1))
        else (re1, im1))"

definition fft_forward :: "fft_plan \<Rightarrow> f64 list \<times> f64 list \<Rightarrow> f64 list \<times> f64 list" where
  "fft_forward pl ri = transform pl False ri"

definition fft_inverse :: "fft_plan \<Rightarrow> f64 list \<times> f64 list \<Rightarrow> f64 list \<times> f64 list" where
  "fft_inverse pl ri = transform pl True ri"

section \<open>Bit reversal\<close>

lemma levels_from_pow2: "l \<le> k \<Longrightarrow> levels_from l (2 ^ k) = k"
proof (induction "k - l" arbitrary: l)
  case 0
  then show ?case by (simp add: levels_from.simps [of l])
next
  case (Suc d)
  then have "l < k" by simp
  then have "levels_from l (2 ^ k) = levels_from (Suc l) (2 ^ k)"
    by (subst levels_from.simps) simp
  with Suc \<open>l < k\<close> show ?case by simp
qed

lemma levels_pow2: "levels (2 ^ k) = k"
  by (simp add: levels_def levels_from_pow2)

lemma and_pow2_iff: "(i AND 2 ^ b \<noteq> (0::nat)) \<longleftrightarrow> bit i b"
  by (simp add: and_exp_eq_0_iff_not_bit)

lemma bit_reverse_fold:
  fixes i :: nat
  assumes "m \<le> lv"
  shows "bit (foldl (\<lambda>r b. if bit i b then r OR 2 ^ (lv - 1 - b) else r) (0::nat) [0..<m]) k
    \<longleftrightarrow> (\<exists>b < m. bit i b \<and> k = lv - 1 - b)"
  using assms
proof (induction m)
  case 0
  then show ?case by simp
next
  case (Suc m)
  then show ?case by (auto simp: bit_or_iff bit_exp_iff less_Suc_eq)
qed

lemma bit_bit_reverse: "bit (bit_reverse lv i) k \<longleftrightarrow> k < lv \<and> bit i (lv - 1 - k)"
proof -
  have "bit (bit_reverse lv i) k \<longleftrightarrow> (\<exists>b < lv. bit i b \<and> k = lv - 1 - b)"
    unfolding bit_reverse_def and_pow2_iff by (rule bit_reverse_fold) simp
  also have "\<dots> \<longleftrightarrow> k < lv \<and> bit i (lv - 1 - k)"
  proof
    assume "\<exists>b < lv. bit i b \<and> k = lv - 1 - b"
    then obtain b where "b < lv" "bit i b" "k = lv - 1 - b" by blast
    moreover from this have "lv - 1 - k = b" by simp
    ultimately show "k < lv \<and> bit i (lv - 1 - k)" by simp
  next
    assume "k < lv \<and> bit i (lv - 1 - k)"
    then show "\<exists>b < lv. bit i b \<and> k = lv - 1 - b" by (intro exI [of _ "lv - 1 - k"]) simp
  qed
  finally show ?thesis .
qed

lemma nat_less_pow2_bits: "(x :: nat) < 2 ^ k \<longleftrightarrow> (\<forall>n. bit x n \<longrightarrow> n < k)"
proof
  assume "x < 2 ^ k"
  then have "take_bit k x = x" by (simp add: take_bit_nat_eq_self_iff)
  then show "\<forall>n. bit x n \<longrightarrow> n < k" by (metis bit_take_bit_iff)
next
  assume "\<forall>n. bit x n \<longrightarrow> n < k"
  then have "take_bit k x = x" by (intro bit_eqI) (auto simp: bit_take_bit_iff)
  then show "x < 2 ^ k" by (simp add: take_bit_nat_eq_self_iff)
qed

lemma bit_reverse_less: "bit_reverse lv i < 2 ^ lv"
  unfolding nat_less_pow2_bits by (simp add: bit_bit_reverse)

lemma bit_reverse_involution: "i < 2 ^ lv \<Longrightarrow> bit_reverse lv (bit_reverse lv i) = i"
  by (rule bit_eqI) (auto simp: bit_bit_reverse nat_less_pow2_bits)

section \<open>The permutation\<close>

lemma length_swap_at [simp]: "length (swap_at xs i j) = length xs"
  by (simp add: swap_at_def)

lemma nth_swap_at:
  "i < length xs \<Longrightarrow> j < length xs \<Longrightarrow> k < length xs \<Longrightarrow>
    swap_at xs i j ! k = xs ! (if k = i then j else if k = j then i else k)"
  by (auto simp: swap_at_def nth_list_update)

lemma permute_fold:
  assumes inv: "\<And>i. i < n \<Longrightarrow> p ! i < n \<and> p ! (p ! i) = i" and "length xs = n" and "m \<le> n"
  shows "length (foldl (\<lambda>xs i. if i < p ! i then swap_at xs i (p ! i) else xs) xs [0..<m]) = n \<and>
    (\<forall>k < n. foldl (\<lambda>xs i. if i < p ! i then swap_at xs i (p ! i) else xs) xs [0..<m] ! k =
       (if k < m \<or> p ! k < m then xs ! (p ! k) else xs ! k))"
  using assms(3)
proof (induction m)
  case 0
  then show ?case using assms(2) by simp
next
  case (Suc m)
  let ?f = "\<lambda>xs i. if i < p ! i then swap_at xs i (p ! i) else xs"
  let ?y = "foldl ?f xs [0..<m]"
  have len: "length ?y = n" and at: "\<And>k. k < n \<Longrightarrow>
      ?y ! k = (if k < m \<or> p ! k < m then xs ! (p ! k) else xs ! k)"
    using Suc by auto
  have m: "m < n" "p ! m < n" "p ! (p ! m) = m" using Suc.prems inv by auto
  have step: "foldl ?f xs [0..<Suc m] = ?f ?y m" by simp
  show ?case
  proof (intro conjI allI impI)
    show "length (foldl ?f xs [0..<Suc m]) = n" unfolding step using len by simp
  next
    fix k assume k: "k < n"
    have pk: "p ! k < n" "p ! (p ! k) = k" using inv [OF k] by auto
    show "foldl ?f xs [0..<Suc m] ! k = (if k < Suc m \<or> p ! k < Suc m then xs ! (p ! k) else xs ! k)"
    proof (cases "m < p ! m")
      case True
      then have e: "foldl ?f xs [0..<Suc m] = swap_at ?y m (p ! m)" unfolding step by simp
      show ?thesis
        unfolding e using k len m at pk True
        by (auto simp: nth_swap_at less_Suc_eq)
    next
      case False
      then have e: "foldl ?f xs [0..<Suc m] = ?y" unfolding step by simp
      show ?thesis
        unfolding e using at [OF k] m pk False
        by (auto simp: less_Suc_eq)
    qed
  qed
qed

lemma permute_involution:
  assumes "\<And>i. i < n \<Longrightarrow> p ! i < n \<and> p ! (p ! i) = i" and "length xs = n"
  shows "length (permute p n xs) = n \<and> (\<forall>k < n. permute p n xs ! k = xs ! (p ! k))"
  using permute_fold [OF assms, of n] by (simp add: permute_def)

section \<open>Indices in range\<close>

text \<open>The sizes for which every access of the transform is in range.\<close>

definition fft_size_ok :: "nat \<Rightarrow> bool" where
  "fft_size_ok n \<longleftrightarrow> n = 0 \<or> is_power_of_two n"

definition fft_in_range :: "nat \<Rightarrow> bool" where
  "fft_in_range n \<longleftrightarrow> (\<forall>i < n. bit_reverse (levels n) i < n) \<and>
    (\<forall>(k, a, b) \<in> set (fft_accesses n). k < n div 2 \<and> a < n \<and> b < n)"

lemma stage_lengths_pow2:
  "len \<in> set (stage_lengths (2 ^ a) n) \<Longrightarrow> \<exists>b \<ge> a. len = 2 ^ b \<and> len \<le> n"
proof (induction "(2::nat) ^ a" n arbitrary: a rule: stage_lengths.induct)
  case (1 n a)
  show ?case
  proof (cases "2 ^ a \<le> n")
    case True
    with "1.prems" consider "len = 2 ^ a" | "len \<in> set (stage_lengths (2 ^ Suc a) n)"
      by (auto simp: stage_lengths.simps [of "2 ^ a"])
    then show ?thesis
    proof cases
      case 1
      with True show ?thesis by blast
    next
      case 2
      have "\<exists>b \<ge> Suc a. len = 2 ^ b \<and> len \<le> n"
        using "1.hyps" [of "Suc a"] True 2 by simp
      then show ?thesis using Suc_leD by blast
    qed
  next
    case False
    with "1.prems" show ?thesis by (simp add: stage_lengths.simps [of "2 ^ a"])
  qed
qed

lemma fft_accesses_in_range:
  assumes "is_power_of_two n" and "(k, a, b) \<in> set (fft_accesses n)"
  shows "k < n div 2 \<and> a < b \<and> b < n"
proof -
  obtain N where n: "n = 2 ^ N" using assms(1) by (auto simp: is_power_of_two_iff)
  obtain len i j where len: "len \<in> set (stage_lengths 2 n)" and i: "i \<in> set (group_starts n len)"
    and j: "j < len div 2" and e: "k = j * (n div len)" "a = i + j" "b = i + j + len div 2"
    using assms(2) by (auto simp: fft_accesses_def stage_accesses_def)
  obtain c where c: "1 \<le> c" "len = 2 ^ c" "len \<le> n"
    using stage_lengths_pow2 [of len 1 n] len by auto
  have cN: "c \<le> N" using c n by simp
  obtain d where d: "c = Suc d" using c(1) by (cases c) auto
  have div: "n = len * 2 ^ (N - c)" using cN c n by (simp flip: power_add)
  have half: "len div 2 = 2 ^ d" "len = 2 * 2 ^ d" using c d by simp_all
  have pos: "0 < len" using c by simp
  have nl: "n div len = 2 ^ (N - c)" using div pos by simp
  have "n + len - 1 = (len - 1) + 2 ^ (N - c) * len" using div pos by (simp add: mult.commute)
  then have "(n + len - 1) div len = 2 ^ (N - c)" using pos by (simp only: div_mult_self1) simp
  then have "i \<in> (\<lambda>q. q * len) ` {0..<2 ^ (N - c)}" using i by (simp add: group_starts_def)
  then obtain q where q: "i = q * len" "q < 2 ^ (N - c)"
    unfolding image_iff by (metis atLeastLessThan_iff)
  have "Suc q * len \<le> 2 ^ (N - c) * len" using q(2) by (intro mult_le_mono1) simp
  then have top: "i + len \<le> n" using q(1) div by (simp add: mult.commute)
  have "k < 2 ^ d * 2 ^ (N - c)" using j half e(1) nl by simp
  also have "2 ^ d * 2 ^ (N - c) = n div 2"
    using div half by simp
  finally show ?thesis using top j half e by simp
qed

lemma stage_lengths_mem:
  "a \<le> b \<Longrightarrow> 2 ^ b \<le> n \<Longrightarrow> 2 ^ b \<in> set (stage_lengths (2 ^ a) n)"
proof (induction "b - a" arbitrary: a)
  case 0
  then have "b = a" by simp
  with 0 show ?case by (simp add: stage_lengths.simps [of "2 ^ a"])
next
  case (Suc d)
  have "(2::nat) ^ a \<le> 2 ^ b" using Suc.prems(1) by (rule power_increasing) simp
  then have "2 ^ a \<le> n" using Suc.prems(2) by linarith
  moreover have "2 ^ b \<in> set (stage_lengths (2 ^ Suc a) n)"
    using Suc.hyps(2) Suc.prems by (intro Suc.hyps(1)) simp_all
  ultimately show ?case by (simp add: stage_lengths.simps [of "2 ^ a"])
qed

lemma odd_part:
  assumes "0 < (n::nat)"
  obtains k m where "n = 2 ^ k * m" and "odd m"
  using assms
proof (induction n arbitrary: thesis rule: less_induct)
  case (less n)
  show ?case
  proof (cases "even n")
    case True
    then obtain h where h: "n = 2 * h" by blast
    with less.prems(2) obtain k m where "h = 2 ^ k * m" "odd m"
      using less.IH [of h] by auto
    then show ?thesis using less.prems(1) [of "Suc k" m] h by simp
  next
    case False
    then show ?thesis using less.prems(1) [of 0 n] by simp
  qed
qed

lemma bad_size_escapes:
  assumes "0 < n" and "\<not> is_power_of_two n"
  shows "\<exists>k a. (k, a, n) \<in> set (fft_accesses n)"
proof -
  obtain c m where n: "n = 2 ^ c * m" and m: "odd m" by (rule odd_part [OF assms(1)])
  have "m \<noteq> 1" using assms(2) n by (auto simp: is_power_of_two_iff)
  with m obtain q where q: "m = Suc (2 * q)" "0 < q" by (metis oddE Suc_eq_plus1 mult_0_right neq0_conv One_nat_def)
  let ?len = "2 ^ Suc c :: nat"
  have top: "q * ?len + 2 ^ c = n" using n q by (simp add: algebra_simps)
  have "?len \<le> q * ?len" using q(2) by simp
  then have "?len \<le> n" using top by linarith
  then have len: "?len \<in> set (stage_lengths 2 n)" using stage_lengths_mem [of 1 "Suc c" n] by simp
  have "Suc q * ?len = q * ?len + ?len" by simp
  also have "\<dots> \<le> n + ?len - 1"
  proof -
    have "(2::nat) ^ c \<ge> 1" by simp
    then show ?thesis using top by linarith
  qed
  finally have "Suc q \<le> (n + ?len - 1) div ?len" by (simp add: less_eq_div_iff_mult_less_eq)
  then have "q * ?len \<in> set (group_starts n ?len)" unfolding group_starts_def by simp
  moreover have "?len div 2 = 2 ^ c" by simp
  moreover have "(0::nat) \<in> set [0..<2 ^ c]" by simp
  ultimately have "(0 * (n div ?len), q * ?len + 0, q * ?len + 0 + 2 ^ c) \<in> set (stage_accesses n ?len)"
    unfolding stage_accesses_def set_concat set_map by (metis (no_types, lifting) UN_I imageI set_map)
  then have "(0 * (n div ?len), q * ?len + 0, n) \<in> set (stage_accesses n ?len)" using top by simp
  then have "(0 * (n div ?len), q * ?len + 0, n) \<in> set (fft_accesses n)"
    unfolding fft_accesses_def set_concat set_map using len by blast
  then show ?thesis by blast
qed

lemma fft_in_range_iff: "fft_in_range n \<longleftrightarrow> fft_size_ok n"
proof (cases "n = 0")
  case True
  then show ?thesis
    by (simp add: fft_in_range_def fft_size_ok_def fft_accesses_def stage_lengths.simps [of 2])
next
  case False
  show ?thesis
  proof (cases "is_power_of_two n")
    case True
    then obtain N where n: "n = 2 ^ N" by (auto simp: is_power_of_two_iff)
    have "bit_reverse (levels n) i < n" for i unfolding n levels_pow2 by (rule bit_reverse_less)
    moreover have "\<forall>(k, a, b) \<in> set (fft_accesses n). k < n div 2 \<and> a < n \<and> b < n"
      using fft_accesses_in_range [OF True] by fastforce
    ultimately show ?thesis using True by (simp add: fft_in_range_def fft_size_ok_def)
  next
    case False
    with bad_size_escapes [of n] \<open>n \<noteq> 0\<close> have "\<not> fft_in_range n"
      unfolding fft_in_range_def by fastforce
    then show ?thesis using False \<open>n \<noteq> 0\<close> by (simp add: fft_size_ok_def)
  qed
qed

end
