(* ===== verification/Dsp.thy ===== *)
theory Dsp
  imports Registry Fft
begin

text \<open>
  The \<open>process\<close> and \<open>init_state\<close> functions of the node types of
  \<open>include/xrune/node/standard_nodes.hpp\<close>, \<open>multirate.hpp\<close> and \<open>fft.hpp\<close>.  A call sees its
  input slices, its control ports and the current contents of its output slices, and returns
  the new state and the new contents; \<open>None\<close> stands for what C++ leaves undefined (a
  remainder by zero, a conversion out of range, an index outside a view).
\<close>

section \<open>A call of a node\<close>

record node_ctx =
  nc_inputs :: "f64 list list"
  nc_outputs :: "f64 list list"
  nc_params :: "param_view list"
  nc_sample_rate :: nat
  nc_block :: nat

datatype node_state =
    NS_none
  | NS_phase f64
  | NS_seed "64 word"
  | NS_calls "64 word"
  | NS_hold f64 nat
  | NS_halfband "f64 list" nat
  | NS_stft nat "f64 list" "f64 list" "f64 list" "f64 list"
  | NS_scratch "f64 list"
  | NS_hosted "8 word list"

text \<open>What the model does not contain: the C library and the nodes of the host.\<close>

record env =
  env_libm :: libm
  env_init :: "hosted \<Rightarrow> nat \<Rightarrow> nat \<Rightarrow> 8 word list"
  env_process :: "hosted \<Rightarrow> 8 word list \<Rightarrow> node_ctx \<Rightarrow> (8 word list \<times> f64 list list) option"

abbreviation inp :: "node_ctx \<Rightarrow> nat \<Rightarrow> nat \<Rightarrow> f64" where
  "inp c ch i \<equiv> nc_inputs c ! ch ! i"

abbreviation par :: "node_ctx \<Rightarrow> nat \<Rightarrow> nat \<Rightarrow> f64" where
  "par c k i \<equiv> pv_at (nc_params c ! k) i"

text \<open>Writing a prefix of a view.\<close>

definition put :: "f64 list \<Rightarrow> f64 list \<Rightarrow> f64 list" where
  "put new old = new @ drop (length new) old"

text \<open>One function per output channel, evaluated at every sample of the block.\<close>

definition emit :: "node_ctx \<Rightarrow> (nat \<Rightarrow> f64) list \<Rightarrow> f64 list list" where
  "emit c fs = map2 (\<lambda>f old. put (map f [0..<nc_block c]) old) fs (nc_outputs c)"

text \<open>A loop over the samples of a block that carries state.\<close>

fun sample_loop :: "(nat \<Rightarrow> 's \<Rightarrow> (f64 \<times> 's) option) \<Rightarrow> nat \<Rightarrow> nat \<Rightarrow> 's \<Rightarrow> (f64 list \<times> 's) option" where
  "sample_loop f i 0 s = Some ([], s)"
| "sample_loop f i (Suc m) s =
    (case f i s of
      None \<Rightarrow> None
    | Some (y, t) \<Rightarrow>
        (case sample_loop f (Suc i) m t of
          None \<Rightarrow> None
        | Some (ys, u) \<Rightarrow> Some (y # ys, u)))"

section \<open>Stateless nodes\<close>

definition sum_channels :: "node_ctx \<Rightarrow> nat list \<Rightarrow> nat \<Rightarrow> f64" where
  "sum_channels c chs i = foldl (\<lambda>s ch. s + inp c ch i) f64_zero chs"

definition mixer_process :: "nat \<Rightarrow> node_ctx \<Rightarrow> f64 list list" where
  "mixer_process n c = emit c [sum_channels c [0..<n]]"

definition stereo_mixer_process :: "nat \<Rightarrow> node_ctx \<Rightarrow> f64 list list" where
  "stereo_mixer_process n c =
    emit c [sum_channels c (map (\<lambda>ch. ch * 2) [0..<n]), sum_channels c (map (\<lambda>ch. ch * 2 + 1) [0..<n])]"

definition gain_process :: "node_ctx \<Rightarrow> f64 list list" where
  "gain_process c = emit c [\<lambda>i. inp c 0 i * par c 0 i]"

definition fader_process :: "node_ctx \<Rightarrow> f64 list list" where
  "fader_process c = emit c [\<lambda>i. inp c 0 i * par c 0 i, \<lambda>i. inp c 1 i * par c 0 i]"

text \<open>The two remainders of the adapter are undefined for a zero divisor.\<close>

definition adapt_defined :: "nat \<Rightarrow> nat \<Rightarrow> bool" where
  "adapt_defined m k \<longleftrightarrow> k = 1 \<or> m = 1 \<or> \<not> (k < m \<and> k = 0) \<and> \<not> (m < k \<and> m = 0)"

definition adapt_sample :: "nat \<Rightarrow> nat \<Rightarrow> node_ctx \<Rightarrow> nat \<Rightarrow> nat \<Rightarrow> f64" where
  "adapt_sample m k c out i =
    (if k = 1 then sum_channels c [0..<m] i
     else if m = 1 then inp c 0 i
     else if k < m \<and> m mod k = 0 then
       sum_channels c (filter (\<lambda>ch. out \<le> ch \<and> (ch - out) mod k = 0) [0..<m]) i
     else if m < k \<and> k mod m = 0 then inp c (out mod m) i
     else inp c (min out (m - 1)) i)"

definition adapt_process :: "nat \<Rightarrow> nat \<Rightarrow> node_ctx \<Rightarrow> f64 list list option" where
  "adapt_process m k c =
    (if adapt_defined m k then Some (emit c (map (adapt_sample m k c) [0..<k])) else None)"

definition m2s_process :: "node_ctx \<Rightarrow> f64 list list" where
  "m2s_process c = emit c [inp c 0, inp c 0]"

definition s2m_process :: "node_ctx \<Rightarrow> f64 list list" where
  "s2m_process c = emit c [\<lambda>i. (inp c 0 i + inp c 1 i) * f64_lit 1 2]"

definition pan_process :: "libm \<Rightarrow> node_ctx \<Rightarrow> f64 list list" where
  "pan_process lm c =
    (let angle = (\<lambda>i. (f64_clamp (par c 0 i) (f64_of_int (- 1)) (f64_of_int 1) + f64_of_int 1)
                        * pi64 * f64_lit 1 4)
     in emit c [\<lambda>i. inp c 0 i * lm_cos lm (angle i), \<lambda>i. inp c 0 i * lm_sin lm (angle i)])"

definition inv_process :: "node_ctx \<Rightarrow> f64 list list" where
  "inv_process c = emit c [\<lambda>i. - inp c 0 i]"

definition sinv_process :: "node_ctx \<Rightarrow> f64 list list" where
  "sinv_process c = emit c [\<lambda>i. - inp c 0 i, \<lambda>i. - inp c 1 i]"

definition add_process :: "node_ctx \<Rightarrow> f64 list list" where
  "add_process c = emit c [\<lambda>i. inp c 0 i + inp c 1 i]"

definition div_process :: "node_ctx \<Rightarrow> f64 list list" where
  "div_process c =
    emit c [\<lambda>i. if f64_eq (inp c 1 i) f64_zero then f64_zero else f64_div (inp c 0 i) (inp c 1 i)]"

definition mul_process :: "node_ctx \<Rightarrow> f64 list list" where
  "mul_process c = emit c [\<lambda>i. inp c 0 i * inp c 1 i]"

definition constant_process :: "node_ctx \<Rightarrow> f64 list list" where
  "constant_process c = emit c [par c 0]"

definition copy_process :: "node_ctx \<Rightarrow> f64 list list" where
  "copy_process c = emit c [inp c 0]"

section \<open>Stateful nodes\<close>

definition osc_step :: "libm \<Rightarrow> node_ctx \<Rightarrow> nat \<Rightarrow> f64 \<Rightarrow> (f64 \<times> f64) option" where
  "osc_step lm c i ph =
    (let k = f64_div two_pi (f64_of_int (int (nc_sample_rate c)));
         ph1 = ph + k * par c 0 i
     in Some (lm_sin lm ph,
          if f64_le two_pi ph1 then ph1 - two_pi
          else if f64_lt ph1 f64_zero then ph1 + two_pi else ph1))"

definition osc_process :: "libm \<Rightarrow> node_ctx \<Rightarrow> f64 \<Rightarrow> (f64 \<times> f64 list list) option" where
  "osc_process lm c ph =
    (case sample_loop (osc_step lm c) 0 (nc_block c) ph of
      None \<Rightarrow> None
    | Some (ys, ph') \<Rightarrow> Some (ph', [put ys (nc_outputs c ! 0)]))"

definition xorshift :: "64 word \<Rightarrow> 64 word" where
  "xorshift s =
    (let a = s XOR drop_bit 12 s; b = a XOR push_bit 25 a in b XOR drop_bit 27 b)"

definition noise_step :: "nat \<Rightarrow> 64 word \<Rightarrow> (f64 \<times> 64 word) option" where
  "noise_step i seed =
    (let s = xorshift seed;
         r = s * 0x2545F4914F6CDD1D;
         val = f64_of_int (uint (drop_bit 11 r)) * f64_lit 1 9007199254740992
     in Some (val * f64_of_int 2 - f64_of_int 1, s))"

definition noise_process :: "node_ctx \<Rightarrow> 64 word \<Rightarrow> (64 word \<times> f64 list list) option" where
  "noise_process c seed =
    (case sample_loop noise_step 0 (nc_block c) seed of
      None \<Rightarrow> None
    | Some (ys, s) \<Rightarrow> Some (s, [put ys (nc_outputs c ! 0)]))"

definition hold_step :: "node_ctx \<Rightarrow> nat \<Rightarrow> nat \<Rightarrow> f64 \<times> nat \<Rightarrow> (f64 \<times> f64 \<times> nat) option" where
  "hold_step c interval i s =
    (case s of (held, counter) \<Rightarrow>
      let h = (if counter = 0 then inp c 0 i else held)
      in Some (h, h, if interval \<le> counter + 1 then 0 else counter + 1))"

definition hold_process :: "node_ctx \<Rightarrow> f64 \<times> nat \<Rightarrow> ((f64 \<times> nat) \<times> f64 list list) option" where
  "hold_process c s =
    (let rate = pv_first (nc_params c ! 0)
     in if f64_le rate f64_zero then
          (let h = (if f64_lt rate f64_zero \<and> 0 < nc_block c then inp c 0 0 else fst s)
           in Some ((h, snd s), emit c [\<lambda>i. h]))
        else
          (case to_size_t (f64_div (f64_of_int (int (nc_sample_rate c))) rate) of
            Inl e \<Rightarrow> None
          | Inr n \<Rightarrow>
              (case sample_loop (hold_step c (if n = 0 then 1 else n)) 0 (nc_block c) s of
                None \<Rightarrow> None
              | Some (ys, t) \<Rightarrow> Some (t, [put ys (nc_outputs c ! 0)]))))"

section \<open>The half-band filter\<close>

definition halfband_center :: nat where
  "halfband_center = (halfband_len - 1) div 2"

definition halfband_raw :: "libm \<Rightarrow> nat \<Rightarrow> f64" where
  "halfband_raw lm n =
    (let m = int n - int halfband_center
     in if m = 0 then f64_lit 1 2
        else if even m then f64_zero
        else
          let x = f64_div (pi64 * f64_of_int m) (f64_of_int 2);
              sinc = f64_div (lm_sin lm x) x;
              a = f64_div (two_pi * f64_of_int (int n)) (f64_of_int (int halfband_len - 1));
              b = f64_div (f64_of_int 4 * pi64 * f64_of_int (int n)) (f64_of_int (int halfband_len - 1));
              w = f64_lit 42 100 - f64_lit 1 2 * lm_cos lm a + f64_lit 8 100 * lm_cos lm b
          in f64_lit 1 2 * sinc * w)"

definition halfband_odd :: "nat \<Rightarrow> bool" where
  "halfband_odd n \<longleftrightarrow> odd (int n - int halfband_center)"

definition halfband_kernel :: "libm \<Rightarrow> f64 list" where
  "halfband_kernel lm =
    (let odd_sum = foldl (\<lambda>s n. s + halfband_raw lm n) f64_zero (filter halfband_odd [0..<halfband_len]);
         scale = f64_div (f64_lit 1 2) odd_sum
     in map (\<lambda>n. if halfband_odd n then halfband_raw lm n * scale else halfband_raw lm n)
          [0..<halfband_len])"

definition halfband_reset :: "f64 list \<times> nat" where
  "halfband_reset = (replicate halfband_len f64_zero, 0)"

definition halfband_step :: "f64 list \<Rightarrow> f64 list \<times> nat \<Rightarrow> f64 \<Rightarrow> f64 \<times> f64 list \<times> nat" where
  "halfband_step h s x =
    (case s of (z, pos) \<Rightarrow>
      let z' = z[pos := x];
          acc = fst (foldl (\<lambda>(acc, idx) k.
            (acc + h ! k * z' ! idx, if idx = 0 then halfband_len - 1 else idx - 1))
            (f64_zero, pos) [0..<halfband_len])
      in (acc, z', (pos + 1) mod halfband_len))"

fun up_loop :: "f64 list \<Rightarrow> f64 list \<Rightarrow> f64 list \<times> nat \<Rightarrow> f64 list \<times> f64 list \<times> nat" where
  "up_loop h [] s = ([], s)"
| "up_loop h (x # xs) s =
    (case halfband_step h s x of (y1, s1) \<Rightarrow>
      case halfband_step h s1 f64_zero of (y2, s2) \<Rightarrow>
        case up_loop h xs s2 of (ys, t) \<Rightarrow>
          (f64_of_int 2 * y1 # f64_of_int 2 * y2 # ys, t))"

fun down_loop :: "f64 list \<Rightarrow> bool \<Rightarrow> f64 list \<Rightarrow> f64 list \<times> nat \<Rightarrow> f64 list \<times> f64 list \<times> nat" where
  "down_loop h keep [] s = ([], s)"
| "down_loop h keep (x # xs) s =
    (case halfband_step h s x of (y, s1) \<Rightarrow>
      case down_loop h (\<not> keep) xs s1 of (ys, t) \<Rightarrow> (if keep then y # ys else ys, t))"

text \<open>These two follow the sizes of their views, not the block size.\<close>

definition up2_process :: "libm \<Rightarrow> node_ctx \<Rightarrow> f64 list \<times> nat \<Rightarrow> ((f64 list \<times> nat) \<times> f64 list list) option" where
  "up2_process lm c s =
    (case up_loop (halfband_kernel lm) (nc_inputs c ! 0) s of (ys, t) \<Rightarrow>
      if length ys \<le> length (nc_outputs c ! 0) then Some (t, [put ys (nc_outputs c ! 0)]) else None)"

definition down2_process :: "libm \<Rightarrow> node_ctx \<Rightarrow> f64 list \<times> nat \<Rightarrow> ((f64 list \<times> nat) \<times> f64 list list) option" where
  "down2_process lm c s =
    (case down_loop (halfband_kernel lm) True (nc_inputs c ! 0) s of (ys, t) \<Rightarrow>
      if length ys \<le> length (nc_outputs c ! 0) then Some (t, [put ys (nc_outputs c ! 0)]) else None)"

section \<open>Spectral nodes\<close>

type_synonym stft_state = "nat \<times> f64 list \<times> f64 list \<times> f64 list \<times> f64 list"

definition hann_window :: "libm \<Rightarrow> nat \<Rightarrow> f64 list" where
  "hann_window lm n =
    map (\<lambda>i. f64_lit 1 2 * (f64_of_int 1 - lm_cos lm (twiddle_angle n i))) [0..<n]"

text \<open>The overlap-add of one frame; the spectral hook is the identity.\<close>

definition stft_frame :: "libm \<Rightarrow> nat \<Rightarrow> nat \<Rightarrow> f64 list \<Rightarrow> f64 list \<Rightarrow> (f64 list \<times> f64 list \<times> f64 list) option" where
  "stft_frame lm n start ring ola =
    (if \<not> fft_size_ok n then None
     else
       let pl = plan_init lm n;
           re = map (\<lambda>i. ring ! ((start + i) mod n) * hann_window lm n ! i) [0..<n];
           im = replicate n f64_zero;
           (re', im') = fft_inverse pl (fft_forward pl (re, im));
           ola' = foldl (\<lambda>o1 i. o1[(start + i) mod (2 * n) := o1 ! ((start + i) mod (2 * n)) + re' ! i])
                    ola [0..<n]
       in Some (ola', re', im'))"

text \<open>A frame is analysed every \<open>hop\<close> samples once a whole one is buffered.\<close>

definition stft_analyse :: "libm \<Rightarrow> nat \<Rightarrow> nat \<Rightarrow> f64 list \<Rightarrow> f64 list \<times> f64 list \<times> f64 list
    \<Rightarrow> (f64 list \<times> f64 list \<times> f64 list) option" where
  "stft_analyse lm n t ring arrays =
    (if n - 1 \<le> t \<and> (t - (n - 1)) mod (n div 2) = 0
     then stft_frame lm n (t - (n - 1)) ring (fst arrays) else Some arrays)"

definition stft_step :: "libm \<Rightarrow> nat \<Rightarrow> node_ctx \<Rightarrow> nat \<Rightarrow> stft_state \<Rightarrow> (f64 \<times> stft_state) option" where
  "stft_step lm n c k s =
    (case s of (t, ring, ola, re, im) \<Rightarrow>
      if n = 0 then None
      else
        let ring' = ring[t mod n := inp c 0 k]
        in if n - 1 \<le> t \<and> n div 2 = 0 then None
           else
             (case stft_analyse lm n t ring' (ola, re, im) of
               None \<Rightarrow> None
             | Some (ola', re', im') \<Rightarrow>
                 (if n - 1 \<le> t then
                    (let idx = (t - (n - 1)) mod (2 * n)
                     in Some (ola' ! idx, (t + 1) mod 2 ^ 64, ring', ola'[idx := f64_zero], re', im'))
                  else Some (f64_zero, (t + 1) mod 2 ^ 64, ring', ola', re', im'))))"

definition stft_process :: "libm \<Rightarrow> nat \<Rightarrow> node_ctx \<Rightarrow> stft_state \<Rightarrow> (stft_state \<times> f64 list list) option" where
  "stft_process lm n c s =
    (case sample_loop (stft_step lm n c) 0 (nc_block c) s of
      None \<Rightarrow> None
    | Some (ys, t) \<Rightarrow> Some (t, [put ys (nc_outputs c ! 0)]))"

text \<open>The silence that both halves of the split transform fall back to.\<close>

definition silence_process :: "nat \<Rightarrow> node_ctx \<Rightarrow> f64 list list" where
  "silence_process k c = emit c (replicate k (\<lambda>i. f64_zero))"

definition stft_forward_process :: "libm \<Rightarrow> nat \<Rightarrow> nat \<Rightarrow> node_ctx \<Rightarrow> f64 list list option" where
  "stft_forward_process lm n chans c =
    (if nc_block c \<noteq> n then Some (silence_process (chans * 2) c)
     else if \<not> fft_size_ok n then None
     else Some (concat (map (\<lambda>ch.
       (case fft_forward (plan_init lm n) (take n (nc_inputs c ! ch), replicate n f64_zero) of (re, im) \<Rightarrow>
          [put re (nc_outputs c ! (2 * ch)), put im (nc_outputs c ! (2 * ch + 1))])) [0..<chans])))"

definition stft_backward_process :: "libm \<Rightarrow> nat \<Rightarrow> nat \<Rightarrow> node_ctx \<Rightarrow> f64 list \<Rightarrow> (f64 list \<times> f64 list list) option" where
  "stft_backward_process lm n chans c scratch =
    (if nc_block c \<noteq> n then Some (scratch, silence_process chans c)
     else if \<not> fft_size_ok n then None
     else
       let spectra = map (\<lambda>ch. fft_inverse (plan_init lm n)
             (take n (nc_inputs c ! (2 * ch)), take n (nc_inputs c ! (2 * ch + 1)))) [0..<chans]
       in Some (concat (map snd spectra),
                map2 put (map fst spectra) (nc_outputs c)))"

section \<open>Dispatch\<close>

definition node_init :: "env \<Rightarrow> node \<Rightarrow> nat \<Rightarrow> nat \<Rightarrow> node_state" where
  "node_init e n sr bs =
    (case n of
      Oscillator f \<Rightarrow> NS_phase f64_zero
    | White_noise seed \<Rightarrow> NS_seed seed
    | Call_counter \<Rightarrow> NS_calls 0
    | Sample_and_hold r \<Rightarrow> NS_hold f64_zero 0
    | Upsampler2 \<Rightarrow> (case halfband_reset of (z, pos) \<Rightarrow> NS_halfband z pos)
    | Downsampler2 \<Rightarrow> (case halfband_reset of (z, pos) \<Rightarrow> NS_halfband z pos)
    | Ola_stft k \<Rightarrow> NS_stft 0 (replicate k f64_zero) (replicate (2 * k) f64_zero)
        (replicate k f64_zero) (replicate k f64_zero)
    | Stft_backward k c \<Rightarrow> NS_scratch (replicate (c * k) f64_zero)
    | Hosted h \<Rightarrow> NS_hosted (if h_state_size h = 0 then [] else env_init e h sr bs)
    | _ \<Rightarrow> NS_none)"

text \<open>
  A call whose views fit the node: the ports it declares, output slices and port buffers that
  cover the block, and input slices in the ratio of its rates.
\<close>

definition ctx_covers :: "node \<Rightarrow> node_ctx \<Rightarrow> bool" where
  "ctx_covers n c \<longleftrightarrow>
    length (nc_inputs c) = inputs_count n \<and> length (nc_outputs c) = outputs_count n \<and>
    length (nc_params c) = params_count n \<and>
    (\<forall>x \<in> set (nc_inputs c). length x = nc_block c * rate_den n div rate_num n) \<and>
    (\<forall>x \<in> set (nc_outputs c). length x = nc_block c) \<and>
    (\<forall>p \<in> set (nc_params c). case pv_buffer p of None \<Rightarrow> True | Some b \<Rightarrow> nc_block c \<le> length b)"

definition with_state :: "('s \<Rightarrow> node_state) \<Rightarrow> ('s \<times> f64 list list) option \<Rightarrow> (node_state \<times> f64 list list) option" where
  "with_state f r = map_option (\<lambda>(s, o1). (f s, o1)) r"

definition node_step :: "env \<Rightarrow> node \<Rightarrow> node_state \<Rightarrow> node_ctx \<Rightarrow> (node_state \<times> f64 list list) option" where
  "node_step e n st c =
    (case n of
      Oscillator f \<Rightarrow> (case st of NS_phase ph \<Rightarrow> with_state NS_phase (osc_process (env_libm e) c ph) | _ \<Rightarrow> None)
    | White_noise s \<Rightarrow> (case st of NS_seed s1 \<Rightarrow> with_state NS_seed (noise_process c s1) | _ \<Rightarrow> None)
    | Constant v \<Rightarrow> Some (st, constant_process c)
    | Gain v \<Rightarrow> Some (st, gain_process c)
    | Stereo_fader v \<Rightarrow> Some (st, fader_process c)
    | Pan p \<Rightarrow> Some (st, pan_process (env_libm e) c)
    | Mixer k \<Rightarrow> Some (st, mixer_process k c)
    | Stereo_mixer k \<Rightarrow> Some (st, stereo_mixer_process k c)
    | Channel_adapter m k \<Rightarrow> map_option (\<lambda>o1. (st, o1)) (adapt_process m k c)
    | Mono_to_stereo \<Rightarrow> Some (st, m2s_process c)
    | Stereo_to_mono \<Rightarrow> Some (st, s2m_process c)
    | Inverter \<Rightarrow> Some (st, inv_process c)
    | Stereo_inverter \<Rightarrow> Some (st, sinv_process c)
    | Call_counter \<Rightarrow> (case st of NS_calls k \<Rightarrow> Some (NS_calls (k + 1), copy_process c) | _ \<Rightarrow> None)
    | Add \<Rightarrow> Some (st, add_process c)
    | Multiply \<Rightarrow> Some (st, mul_process c)
    | Divide \<Rightarrow> Some (st, div_process c)
    | Cut \<Rightarrow> Some (st, nc_outputs c)
    | Sample_and_hold r \<Rightarrow>
        (case st of NS_hold h k \<Rightarrow> with_state (\<lambda>(h1, k1). NS_hold h1 k1) (hold_process c (h, k)) | _ \<Rightarrow> None)
    | Bus_input k \<Rightarrow> Some (st, nc_outputs c)
    | Upsampler2 \<Rightarrow>
        (case st of NS_halfband z k \<Rightarrow>
           with_state (\<lambda>(z1, k1). NS_halfband z1 k1) (up2_process (env_libm e) c (z, k)) | _ \<Rightarrow> None)
    | Downsampler2 \<Rightarrow>
        (case st of NS_halfband z k \<Rightarrow>
           with_state (\<lambda>(z1, k1). NS_halfband z1 k1) (down2_process (env_libm e) c (z, k)) | _ \<Rightarrow> None)
    | Downbloc \<Rightarrow> Some (st, copy_process c)
    | Upbloc \<Rightarrow> Some (st, copy_process c)
    | Ola_stft k \<Rightarrow>
        (case st of NS_stft t ring ola re im \<Rightarrow>
           with_state (\<lambda>(t1, ring1, ola1, re1, im1). NS_stft t1 ring1 ola1 re1 im1)
             (stft_process (env_libm e) k c (t, ring, ola, re, im)) | _ \<Rightarrow> None)
    | Stft_forward k ch \<Rightarrow> map_option (\<lambda>o1. (st, o1)) (stft_forward_process (env_libm e) k ch c)
    | Stft_backward k ch \<Rightarrow>
        (case st of NS_scratch s \<Rightarrow> with_state NS_scratch (stft_backward_process (env_libm e) k ch c s) | _ \<Rightarrow> None)
    | Hosted h \<Rightarrow> (case st of NS_hosted b \<Rightarrow> with_state NS_hosted (env_process e h b c) | _ \<Rightarrow> None))"

definition node_process :: "env \<Rightarrow> node \<Rightarrow> node_state \<Rightarrow> node_ctx \<Rightarrow> (node_state \<times> f64 list list) option" where
  "node_process e n st c = (if ctx_covers n c then node_step e n st c else None)"

section \<open>Sizes\<close>

lemma length_put [simp]: "length new \<le> length old \<Longrightarrow> length (put new old) = length old"
  by (simp add: put_def)

lemma length_emit [simp]: "length (emit c fs) = min (length fs) (length (nc_outputs c))"
  by (simp add: emit_def)

lemma emit_lengths:
  assumes "length fs = length (nc_outputs c)" and "\<forall>x \<in> set (nc_outputs c). nc_block c \<le> length x"
  shows "map length (emit c fs) = map length (nc_outputs c)"
  using assms by (auto simp: emit_def list_eq_iff_nth_eq)

lemma nth_emit:
  "k < length fs \<Longrightarrow> k < length (nc_outputs c) \<Longrightarrow> i < nc_block c \<Longrightarrow> emit c fs ! k ! i = (fs ! k) i"
  by (simp add: emit_def put_def nth_append)

lemma sample_loop_length: "sample_loop f i m s = Some (ys, t) \<Longrightarrow> length ys = m"
  by (induction m arbitrary: i s ys t) (auto split: option.splits prod.splits)

lemma sample_loop_total:
  assumes "\<And>i s. P s \<Longrightarrow> \<exists>y t. f i s = Some (y, t) \<and> P t" and "P s"
  shows "\<exists>ys t. sample_loop f i m s = Some (ys, t) \<and> P t"
  using assms(2)
proof (induction m arbitrary: i s)
  case 0
  then show ?case by simp
next
  case (Suc m)
  obtain y t where "f i s = Some (y, t)" "P t" using assms(1) Suc.prems by blast
  with Suc.IH [of t "Suc i"] show ?case by auto
qed

text \<open>Running a block is running its two parts.\<close>

lemma sample_loop_add:
  "sample_loop f i (m + n) s =
    (case sample_loop f i m s of
      None \<Rightarrow> None
    | Some (ys, t) \<Rightarrow>
        (case sample_loop f (i + m) n t of None \<Rightarrow> None | Some (zs, u) \<Rightarrow> Some (ys @ zs, u)))"
proof (induction m arbitrary: i s)
  case 0
  then show ?case by (simp split: option.split)
next
  case (Suc m)
  then show ?case by (simp split: option.split)
qed

lemma up_loop_length: "length (fst (up_loop h xs s)) = 2 * length xs"
  by (induction h xs s rule: up_loop.induct) (auto split: prod.splits)

lemma down_loop_length:
  "length (fst (down_loop h keep xs s)) = (length xs + (if keep then 1 else 0)) div 2"
  by (induction h keep xs s rule: down_loop.induct) (auto split: prod.splits)

lemma length_permute [simp]: "length (permute p n xs) = length xs"
proof -
  have "length (foldl (\<lambda>xs i. if i < p ! i then swap_at xs i (p ! i) else xs) xs is) = length xs" for "is"
    by (induction "is" arbitrary: xs) auto
  then show ?thesis by (simp add: permute_def)
qed

lemma butterfly_lengths:
  "length (fst (butterfly pl bwd ri acc)) = length (fst ri) \<and>
   length (snd (butterfly pl bwd ri acc)) = length (snd ri)"
  by (cases ri; cases acc) (simp add: butterfly_def Let_def)

lemma butterflies_lengths:
  "length (fst (foldl (butterfly pl bwd) ri accs)) = length (fst ri) \<and>
   length (snd (foldl (butterfly pl bwd) ri accs)) = length (snd ri)"
  by (induction accs arbitrary: ri) (simp_all add: butterfly_lengths)

lemma transform_lengths:
  "length (fst (transform pl bwd ri)) = length (fst ri) \<and>
   length (snd (transform pl bwd ri)) = length (snd ri)"
  using butterflies_lengths [of pl bwd
      "(permute (ff_brev pl) (ff_n pl) (fst ri), permute (ff_brev pl) (ff_n pl) (snd ri))"
      "fft_accesses (ff_n pl)"]
  by (auto simp: transform_def Let_def split: prod.splits)

end
