(* ===== verification/Dsp_Facts.thy ===== *)
theory Dsp_Facts
  imports Complex_Main Dsp
begin

text \<open>
  What the node types guarantee: a call whose views fit, on a state the node made, is defined
  and keeps the shape of everything; the mixing nodes agree with the channel adapter; the
  noise generator never gets stuck; splitting a block does not change a signal.
\<close>

section \<open>States and calls\<close>

definition state_fits :: "node \<Rightarrow> node_state \<Rightarrow> bool" where
  "state_fits n st =
    (case n of
      Oscillator f \<Rightarrow> (case st of NS_phase p \<Rightarrow> True | _ \<Rightarrow> False)
    | White_noise s \<Rightarrow> (case st of NS_seed s1 \<Rightarrow> True | _ \<Rightarrow> False)
    | Call_counter \<Rightarrow> (case st of NS_calls k \<Rightarrow> True | _ \<Rightarrow> False)
    | Sample_and_hold r \<Rightarrow> (case st of NS_hold h k \<Rightarrow> True | _ \<Rightarrow> False)
    | Upsampler2 \<Rightarrow> (case st of NS_halfband z k \<Rightarrow> length z = halfband_len \<and> k < halfband_len | _ \<Rightarrow> False)
    | Downsampler2 \<Rightarrow> (case st of NS_halfband z k \<Rightarrow> length z = halfband_len \<and> k < halfband_len | _ \<Rightarrow> False)
    | Ola_stft k \<Rightarrow> (case st of NS_stft t ring ola re im \<Rightarrow>
        length ring = k \<and> length ola = 2 * k \<and> length re = k \<and> length im = k | _ \<Rightarrow> False)
    | Stft_backward k ch \<Rightarrow> (case st of NS_scratch s \<Rightarrow> length s = ch * k | _ \<Rightarrow> False)
    | Hosted h \<Rightarrow> (case st of NS_hosted b \<Rightarrow> True | _ \<Rightarrow> False)
    | _ \<Rightarrow> True)"

text \<open>
  What a call still needs: channel counts the adapter can divide by, transform sizes that are
  powers of two, a hold rate whose period fits a \<open>size_t\<close>, and a host node that answers
  with slices of the sizes it was given.
\<close>

definition hold_rate_ok :: "node_ctx \<Rightarrow> bool" where
  "hold_rate_ok c \<longleftrightarrow>
    (let rate = pv_first (nc_params c ! 0)
     in f64_le rate f64_zero \<or>
        (case to_size_t (f64_div (f64_of_int (int (nc_sample_rate c))) rate) of Inl e \<Rightarrow> False | Inr k \<Rightarrow> True))"

definition call_ok :: "env \<Rightarrow> node \<Rightarrow> node_state \<Rightarrow> node_ctx \<Rightarrow> bool" where
  "call_ok e n st c =
    (case n of
      Channel_adapter m k \<Rightarrow> adapt_defined m k
    | Sample_and_hold r \<Rightarrow> hold_rate_ok c
    | Ola_stft k \<Rightarrow> 2 \<le> k \<and> is_power_of_two k
    | Stft_forward k ch \<Rightarrow> fft_size_ok k
    | Stft_backward k ch \<Rightarrow> fft_size_ok k
    | Hosted h \<Rightarrow> (case st of NS_hosted b \<Rightarrow>
        (case env_process e h b c of None \<Rightarrow> False
         | Some (b1, os) \<Rightarrow> map length os = map length (nc_outputs c)) | _ \<Rightarrow> False)
    | _ \<Rightarrow> True)"

section \<open>Every call is defined\<close>

lemma emit_shape:
  "ctx_covers n c \<Longrightarrow> length fs = outputs_count n \<Longrightarrow> map length (emit c fs) = map length (nc_outputs c)"
  by (rule emit_lengths) (auto simp: ctx_covers_def)

lemma single_output:
  assumes "ctx_covers n c" and "outputs_count n = 1"
  obtains x where "nc_outputs c = [x]" and "length x = nc_block c"
  using assms by (auto simp: ctx_covers_def length_Suc_conv)

lemma single_input:
  assumes "ctx_covers n c" and "inputs_count n = 1"
  obtains x where "nc_inputs c = [x]" and "length x = nc_block c * rate_den n div rate_num n"
  using assms by (auto simp: ctx_covers_def length_Suc_conv)

lemma put_shape:
  assumes "ctx_covers n c" and "outputs_count n = 1" and "length ys = nc_block c"
  shows "map length [put ys (nc_outputs c ! 0)] = map length (nc_outputs c)"
  using single_output [OF assms(1,2)] assms(3) by (metis length_put list.simps(8,9) nth_Cons_0 order_refl)

lemma sample_loop_defined:
  assumes "\<And>i s. \<exists>y t. f i s = Some (y, t)"
  shows "\<exists>ys t. sample_loop f i m s = Some (ys, t) \<and> length ys = m"
proof -
  obtain ys t where "sample_loop f i m s = Some (ys, t)"
    using sample_loop_total [of "\<lambda>_. True" f s i m] assms by blast
  with sample_loop_length [OF this] show ?thesis by blast
qed

lemma osc_total:
  "\<exists>ph' ys. osc_process lm c ph = Some (ph', [put ys (nc_outputs c ! 0)]) \<and> length ys = nc_block c"
proof -
  obtain ys t where "sample_loop (osc_step lm c) 0 (nc_block c) ph = Some (ys, t)" "length ys = nc_block c"
    using sample_loop_defined [of "osc_step lm c" 0 "nc_block c" ph] by (auto simp: osc_step_def Let_def)
  then show ?thesis unfolding osc_process_def by (metis (no_types, lifting) option.case(2) prod.case)
qed

lemma noise_total:
  "\<exists>s' ys. noise_process c s = Some (s', [put ys (nc_outputs c ! 0)]) \<and> length ys = nc_block c"
proof -
  obtain ys t where "sample_loop noise_step 0 (nc_block c) s = Some (ys, t)" "length ys = nc_block c"
    using sample_loop_defined [of noise_step 0 "nc_block c" s] by (auto simp: noise_step_def Let_def)
  then show ?thesis unfolding noise_process_def by (metis (no_types, lifting) option.case(2) prod.case)
qed

lemma hold_loop_total:
  "\<exists>ys t. sample_loop (hold_step c n) i m s = Some (ys, t) \<and> length ys = m"
  by (rule sample_loop_defined) (simp add: hold_step_def Let_def split: prod.split)

lemma hold_total:
  assumes "hold_rate_ok c" and "ctx_covers (Sample_and_hold r) c"
  shows "\<exists>s' os. hold_process c s = Some (s', os) \<and> map length os = map length (nc_outputs c)"
proof (cases "f64_le (pv_first (nc_params c ! 0)) f64_zero")
  case True
  then show ?thesis
    using emit_shape [OF assms(2)] by (simp add: hold_process_def Let_def)
next
  case False
  then obtain k where k: "to_size_t (f64_div (f64_of_int (int (nc_sample_rate c))) (pv_first (nc_params c ! 0))) = Inr k"
    using assms(1) by (auto simp: hold_rate_ok_def Let_def split: sum.splits)
  obtain ys t where "sample_loop (hold_step c (if k = 0 then 1 else k)) 0 (nc_block c) s = Some (ys, t)"
    "length ys = nc_block c" using hold_loop_total by blast
  then show ?thesis
    using False k put_shape [OF assms(2)] by (simp add: hold_process_def Let_def)
qed

lemma halfband_step_fits:
  "length (fst s) = halfband_len \<Longrightarrow> halfband_step h s x = (y, t) \<Longrightarrow>
    length (fst t) = halfband_len \<and> snd t < halfband_len"
  by (auto simp: halfband_step_def Let_def halfband_len_def split: prod.splits)

lemma up_loop_fits:
  "up_loop h xs s = (ys, t) \<Longrightarrow> length (fst s) = halfband_len \<Longrightarrow> snd s < halfband_len \<Longrightarrow>
    length (fst t) = halfband_len \<and> snd t < halfband_len"
proof (induction h xs s arbitrary: ys t rule: up_loop.induct)
  case (1 h s)
  then show ?case by simp
next
  case (2 h x xs s)
  obtain y1 s1 where 1: "halfband_step h s x = (y1, s1)" by (metis surj_pair)
  obtain y2 s2 where 2: "halfband_step h s1 f64_zero = (y2, s2)" by (metis surj_pair)
  note f1 = halfband_step_fits [OF "2.prems"(2) 1]
  note f2 = halfband_step_fits [OF _ 2]
  obtain zs where "up_loop h xs s2 = (zs, t)" using "2.prems"(1) 1 2 by (auto split: prod.splits)
  then show ?case using "2.IH" [OF 1 [symmetric] 2 [symmetric]] f1 f2 1 2 by simp
qed

lemma down_loop_fits:
  "down_loop h keep xs s = (ys, t) \<Longrightarrow> length (fst s) = halfband_len \<Longrightarrow> snd s < halfband_len \<Longrightarrow>
    length (fst t) = halfband_len \<and> snd t < halfband_len"
proof (induction h keep xs s arbitrary: ys t rule: down_loop.induct)
  case (1 h keep s)
  then show ?case by simp
next
  case (2 h keep x xs s)
  obtain y1 s1 where 1: "halfband_step h s x = (y1, s1)" by (metis surj_pair)
  note f1 = halfband_step_fits [OF "2.prems"(2) 1]
  obtain zs where "down_loop h (\<not> keep) xs s1 = (zs, t)" using "2.prems"(1) 1 by (auto split: prod.splits)
  then show ?case using "2.IH" [OF 1 [symmetric]] f1 1 by simp
qed

lemma up2_total:
  assumes "ctx_covers Upsampler2 c" and "length z = halfband_len" and "k < halfband_len"
  shows "\<exists>z' k' os. up2_process lm c (z, k) = Some ((z', k'), os) \<and> length z' = halfband_len \<and>
    k' < halfband_len \<and> map length os = map length (nc_outputs c)"
proof -
  obtain x where x: "nc_inputs c = [x]" "length x = nc_block c div 2"
    using single_input [OF assms(1)] by auto
  obtain y where y: "nc_outputs c = [y]" "length y = nc_block c"
    using single_output [OF assms(1)] by auto
  obtain ys z' k' where u: "up_loop (halfband_kernel lm) x (z, k) = (ys, z', k')" by (metis surj_pair)
  have "length ys = 2 * length x" using up_loop_length [of "halfband_kernel lm" x "(z, k)"] u by simp
  then have "length ys \<le> length y" using x y by simp
  then show ?thesis using up_loop_fits [OF u] assms(2,3) x y u by (simp add: up2_process_def)
qed

lemma down2_total:
  assumes "ctx_covers Downsampler2 c" and "length z = halfband_len" and "k < halfband_len"
  shows "\<exists>z' k' os. down2_process lm c (z, k) = Some ((z', k'), os) \<and> length z' = halfband_len \<and>
    k' < halfband_len \<and> map length os = map length (nc_outputs c)"
proof -
  obtain x where x: "nc_inputs c = [x]" "length x = nc_block c * 2"
    using single_input [OF assms(1)] by auto
  obtain y where y: "nc_outputs c = [y]" "length y = nc_block c"
    using single_output [OF assms(1)] by auto
  obtain ys z' k' where u: "down_loop (halfband_kernel lm) True x (z, k) = (ys, z', k')" by (metis surj_pair)
  have "length ys = (length x + 1) div 2"
    using down_loop_length [of "halfband_kernel lm" True x "(z, k)"] u by simp
  then have "length ys \<le> length y" using x y by simp
  then show ?thesis using down_loop_fits [OF u] assms(2,3) x y u by (simp add: down2_process_def)
qed

definition stft_fits :: "nat \<Rightarrow> stft_state \<Rightarrow> bool" where
  "stft_fits k s \<longleftrightarrow> (case s of (t, ring, ola, re, im) \<Rightarrow>
     length ring = k \<and> length ola = 2 * k \<and> length re = k \<and> length im = k)"

lemma stft_frame_total:
  assumes "fft_size_ok k" and "length ola = 2 * k"
  shows "\<exists>ola' re im. stft_frame lm k start ring ola = Some (ola', re, im) \<and>
    length ola' = 2 * k \<and> length re = k \<and> length im = k"
proof -
  let ?ri = "(map (\<lambda>i. ring ! ((start + i) mod k) * hann_window lm k ! i) [0..<k], replicate k f64_zero)"
  obtain re im where t: "fft_inverse (plan_init lm k) (fft_forward (plan_init lm k) ?ri) = (re, im)" by fastforce
  have "length re = k" "length im = k"
    using transform_lengths [of "plan_init lm k" True "fft_forward (plan_init lm k) ?ri"]
      transform_lengths [of "plan_init lm k" False ?ri] t
    by (simp_all add: fft_inverse_def fft_forward_def)
  moreover have "length (foldl (\<lambda>o1 i. o1[f i := g o1 i]) os is) = length os"
    for f :: "nat \<Rightarrow> nat" and g :: "f64 list \<Rightarrow> nat \<Rightarrow> f64" and os "is"
    by (induction "is" arbitrary: os) simp_all
  ultimately show ?thesis using assms t by (simp add: stft_frame_def Let_def)
qed

lemma stft_step_total:
  assumes "2 \<le> k" and "fft_size_ok k" and "stft_fits k s"
  shows "\<exists>y t. stft_step lm k c i s = Some (y, t) \<and> stft_fits k t"
proof -
  obtain t ring ola re im where s: "s = (t, ring, ola, re, im)" by (metis surj_pair)
  have hop: "k div 2 \<noteq> 0" using assms(1) by linarith
  obtain ola' re' im' where f: "stft_analyse lm k t (ring[t mod k := inp c 0 i]) (ola, re, im) = Some (ola', re', im')"
    and l: "length ola' = 2 * k" "length re' = k" "length im' = k"
  proof (cases "k - 1 \<le> t \<and> (t - (k - 1)) mod (k div 2) = 0")
    case True
    have "length ola = 2 * k" using assms(3) s by (simp add: stft_fits_def)
    from stft_frame_total [OF assms(2) this] True that show ?thesis
      unfolding stft_analyse_def fst_conv by metis
  next
    case False
    then have "stft_analyse lm k t (ring[t mod k := inp c 0 i]) (ola, re, im) = Some (ola, re, im)"
      unfolding stft_analyse_def by (rule if_not_P)
    then show ?thesis using assms(3) s that by (simp add: stft_fits_def)
  qed
  then show ?thesis
    using assms(1,3) hop unfolding stft_step_def s stft_fits_def
    by (simp add: Let_def del: One_nat_def)
qed

lemma stft_total:
  assumes "ctx_covers (Ola_stft k) c" and "2 \<le> k" and "is_power_of_two k" and "stft_fits k s"
  shows "\<exists>t os. stft_process lm k c s = Some (t, os) \<and> stft_fits k t \<and>
    map length os = map length (nc_outputs c)"
proof -
  have ok: "fft_size_ok k" using assms(3) by (simp add: fft_size_ok_def)
  obtain ys t where l: "sample_loop (stft_step lm k c) 0 (nc_block c) s = Some (ys, t)" "stft_fits k t"
    using sample_loop_total [of "stft_fits k" "stft_step lm k c"] stft_step_total [OF assms(2) ok] assms(4)
    by blast
  with sample_loop_length [OF l(1)] put_shape [OF assms(1)] show ?thesis by (simp add: stft_process_def)
qed

lemma same_shape:
  "ctx_covers n c \<Longrightarrow> length os = outputs_count n \<Longrightarrow> \<forall>x \<in> set os. length x = nc_block c \<Longrightarrow>
    map length os = map length (nc_outputs c)"
  by (auto simp: ctx_covers_def list_eq_iff_nth_eq)

lemma out_length:
  "ctx_covers n c \<Longrightarrow> k < outputs_count n \<Longrightarrow> length (nc_outputs c ! k) = nc_block c"
  by (auto simp: ctx_covers_def)

lemma in_length:
  "ctx_covers n c \<Longrightarrow> k < inputs_count n \<Longrightarrow> length (nc_inputs c ! k) = nc_block c * rate_den n div rate_num n"
  by (auto simp: ctx_covers_def)

lemma length_pairs: "length (concat (map (\<lambda>x. [f x, g x]) xs)) = 2 * length xs"
  by (induction xs) simp_all

lemma forward_total:
  assumes "ctx_covers (Stft_forward k ch) c" and "fft_size_ok k"
  shows "\<exists>os. stft_forward_process lm k ch c = Some os \<and> map length os = map length (nc_outputs c)"
proof (cases "nc_block c = k")
  case False
  then show ?thesis
    using emit_shape [OF assms(1)] by (simp add: stft_forward_process_def silence_process_def)
next
  case True
  let ?t = "\<lambda>h. fft_forward (plan_init lm k) (take k (nc_inputs c ! h), replicate k f64_zero)"
  let ?os = "concat (map (\<lambda>h. [put (fst (?t h)) (nc_outputs c ! (2 * h)),
     put (snd (?t h)) (nc_outputs c ! (2 * h + 1))]) [0..<ch])"
  have "length (fst (?t h)) = k \<and> length (snd (?t h)) = k" if "h < ch" for h
    using transform_lengths [of "plan_init lm k" False "(take k (nc_inputs c ! h), replicate k f64_zero)"]
      in_length [OF assms(1), of h] that True by (simp add: fft_forward_def)
  then have "\<forall>x \<in> set ?os. length x = nc_block c"
    using out_length [OF assms(1)] True by auto
  moreover have "length ?os = outputs_count (Stft_forward k ch)" by (simp add: length_pairs)
  ultimately have "map length ?os = map length (nc_outputs c)" by (intro same_shape [OF assms(1)])
  then show ?thesis
    using True assms(2) by (simp add: stft_forward_process_def case_prod_beta)
qed

lemma backward_total:
  assumes "ctx_covers (Stft_backward k ch) c" and "fft_size_ok k" and "length s = ch * k"
  shows "\<exists>s' os. stft_backward_process lm k ch c s = Some (s', os) \<and> length s' = ch * k \<and>
    map length os = map length (nc_outputs c)"
proof (cases "nc_block c = k")
  case False
  then show ?thesis
    using emit_shape [OF assms(1)] assms(3) by (simp add: stft_backward_process_def silence_process_def)
next
  case True
  let ?t = "\<lambda>h. fft_inverse (plan_init lm k)
      (take k (nc_inputs c ! (2 * h)), take k (nc_inputs c ! (2 * h + 1)))"
  have t: "length (fst (?t h)) = k \<and> length (snd (?t h)) = k" if "h < ch" for h
    using transform_lengths [of "plan_init lm k" True
        "(take k (nc_inputs c ! (2 * h)), take k (nc_inputs c ! (2 * h + 1)))"]
      in_length [OF assms(1)] that True by (simp add: fft_inverse_def)
  have len: "length (nc_outputs c) = ch" using assms(1) by (simp add: ctx_covers_def)
  have "map length (map2 put (map fst (map ?t [0..<ch])) (nc_outputs c)) = map length (nc_outputs c)"
    using t len out_length [OF assms(1)] True by (auto simp: list_eq_iff_nth_eq)
  moreover have "length (concat (map snd (map ?t [0..<ch]))) = ch * k"
  proof -
    have "sum_list (map (\<lambda>h. length (snd (?t h))) [0..<ch]) = sum_list (map (\<lambda>h. k) [0..<ch])"
      using t by (intro arg_cong [where f = sum_list] map_cong) auto
    then show ?thesis by (simp add: length_concat comp_def sum_list_triv)
  qed
  ultimately show ?thesis using True assms(2) by (simp add: stft_backward_process_def Let_def)
qed

lemma node_step_total:
  assumes c: "ctx_covers n c" and "state_fits n st" and "call_ok e n st c"
  shows "\<exists>st' os. node_step e n st c = Some (st', os) \<and> state_fits n st' \<and>
    map length os = map length (nc_outputs c)"
proof (cases n)
  case (Oscillator f)
  then show ?thesis
    using assms(2) osc_total [of "env_libm e" c] put_shape [OF c]
    by (fastforce simp: node_step_def state_fits_def with_state_def split: node_state.splits)
next
  case (White_noise s)
  then show ?thesis
    using assms(2) noise_total [of c] put_shape [OF c]
    by (fastforce simp: node_step_def state_fits_def with_state_def split: node_state.splits)
next
  case (Sample_and_hold r)
  then obtain h k where st: "st = NS_hold h k"
    using assms(2) by (auto simp: state_fits_def split: node_state.splits)
  have "hold_rate_ok c" using assms(3) Sample_and_hold by (simp add: call_ok_def)
  then obtain s' os where "hold_process c (h, k) = Some (s', os)" "map length os = map length (nc_outputs c)"
    using hold_total c Sample_and_hold by blast
  then show ?thesis
    using Sample_and_hold st by (cases s') (simp add: node_step_def with_state_def state_fits_def)
next
  case Upsampler2
  then obtain z k where st: "st = NS_halfband z k" "length z = halfband_len" "k < halfband_len"
    using assms(2) by (auto simp: state_fits_def split: node_state.splits)
  then show ?thesis
    using up2_total [of c z k "env_libm e"] c Upsampler2
    by (fastforce simp: node_step_def with_state_def state_fits_def)
next
  case Downsampler2
  then obtain z k where st: "st = NS_halfband z k" "length z = halfband_len" "k < halfband_len"
    using assms(2) by (auto simp: state_fits_def split: node_state.splits)
  then show ?thesis
    using down2_total [of c z k "env_libm e"] c Downsampler2
    by (fastforce simp: node_step_def with_state_def state_fits_def)
next
  case (Ola_stft k)
  then obtain t ring ola re im where st: "st = NS_stft t ring ola re im" "stft_fits k (t, ring, ola, re, im)"
    using assms(2) by (auto simp: state_fits_def stft_fits_def split: node_state.splits)
  have k: "2 \<le> k" "is_power_of_two k" using assms(3) Ola_stft by (simp_all add: call_ok_def)
  obtain s' os where "stft_process (env_libm e) k c (t, ring, ola, re, im) = Some (s', os)" "stft_fits k s'"
    "map length os = map length (nc_outputs c)"
    using stft_total [OF _ k st(2)] c Ola_stft by blast
  then show ?thesis
    using Ola_stft st by (cases s') (simp add: node_step_def with_state_def state_fits_def stft_fits_def)
next
  case (Stft_forward k ch)
  then show ?thesis
    using forward_total [of k ch c "env_libm e"] c assms(3)
    by (auto simp: node_step_def state_fits_def call_ok_def)
next
  case (Stft_backward k ch)
  then obtain s where st: "st = NS_scratch s" "length s = ch * k"
    using assms(2) by (auto simp: state_fits_def split: node_state.splits)
  then show ?thesis
    using backward_total [of k ch c s "env_libm e"] c assms(3) Stft_backward
    by (fastforce simp: node_step_def with_state_def state_fits_def call_ok_def)
next
  case (Channel_adapter m k)
  then show ?thesis
    using assms(3) emit_shape [OF c] by (simp add: node_step_def state_fits_def call_ok_def adapt_process_def)
next
  case (Hosted h)
  then obtain b where st: "st = NS_hosted b"
    using assms(2) by (auto simp: state_fits_def split: node_state.splits)
  then show ?thesis
    using assms(3) Hosted
    by (auto simp: node_step_def with_state_def state_fits_def call_ok_def split: option.splits prod.splits)
next
  case Call_counter
  then obtain k where "st = NS_calls k"
    using assms(2) by (auto simp: state_fits_def split: node_state.splits)
  then show ?thesis
    using Call_counter emit_shape [OF c] by (simp add: node_step_def state_fits_def copy_process_def)
qed (use emit_shape [OF c] in \<open>simp_all add: node_step_def state_fits_def gain_process_def fader_process_def
    constant_process_def pan_process_def Let_def mixer_process_def stereo_mixer_process_def m2s_process_def
    s2m_process_def inv_process_def sinv_process_def add_process_def mul_process_def div_process_def
    copy_process_def\<close>)

lemma node_init_fits: "state_fits n (node_init e n sr bs)"
  by (cases n) (simp_all add: state_fits_def node_init_def halfband_reset_def halfband_len_def)

section \<open>The value of a double\<close>

fun f64_val :: "f64 \<Rightarrow> real" where
  "f64_val (F_num s m e) = real_of_int (f64_signed s m) * 2 powi e"
| "f64_val x = 0"

lemma round64_dyadic_val:
  assumes "0 < x" "x < 2 ^ 53" and "-1073 \<le> nbits x - 53 + int a - int b" "nbits x - 53 + int a - int b \<le> 971"
  shows "f64_val (round64 s (x * 2 ^ a) (2 ^ b)) = real_of_int (f64_signed s x) * 2 ^ a / 2 ^ b"
proof -
  have c: "nbits x \<le> 53" using nbits_mono_le [OF assms(1,2)] by simp
  have "real_of_int (x * 2 ^ nat (53 - nbits x)) * 2 powi (nbits x - 53 + int a - int b) =
      real_of_int x * (2 powi (53 - nbits x) * 2 powi (nbits x - 53 + int a - int b))"
    using c by (simp add: power_int_def)
  also have "2 powi (53 - nbits x) * 2 powi (nbits x - 53 + int a - int b) = (2::real) powi (int a - int b)"
    by (simp flip: power_int_add)
  also have "\<dots> = 2 ^ a / 2 ^ b" by (simp add: power_int_diff)
  finally have "real_of_int (x * 2 ^ nat (53 - nbits x)) * 2 powi (nbits x - 53 + int a - int b) =
      real_of_int x * 2 ^ a / 2 ^ b" by simp
  then show ?thesis
    using round64_dyadic [OF assms(1,2) refl assms(3,4), of s]
    by (auto simp: f64_signed_def)
qed

section \<open>Noise\<close>

lemma lit_2_53: "f64_lit 1 9007199254740992 = F_num False (2 ^ 52) (- 105)"
  by code_simp

lemma of_int_1_2: "f64_of_int 1 = F_num False (2 ^ 52) (- 52)" "f64_of_int 2 = F_num False (2 ^ 52) (- 51)"
  by code_simp+

lemma scale_dyadic:
  assumes j: "0 < j" "j < 2 ^ 53" and e: "-100 \<le> d" "d \<le> 0" and that: "-110 \<le> k" "k \<le> -50"
  shows "f64_mul (F_num False (j * 2 ^ nat (53 - nbits j)) (nbits j - 53 + d)) (F_num False (2 ^ 52) k) =
     F_num False (j * 2 ^ nat (53 - nbits j)) (nbits j - 53 + d + (k + 52))"
proof -
  define c where "c = nbits j"
  have c: "0 < c" "c \<le> 53" using nbits_bounds [OF j(1)] nbits_mono_le [OF j] by (auto simp: c_def)
  have s: "c - 53 + d + k < 0" using c e that by linarith
  have "f64_mul (F_num False (j * 2 ^ nat (53 - c)) (c - 53 + d)) (F_num False (2 ^ 52) k) =
    round64 False (j * 2 ^ (nat (53 - c) + 52)) (2 ^ nat (- (c - 53 + d + k)))"
    using s by (simp add: power_add mult.assoc)
  also have "\<dots> = F_num False (j * 2 ^ nat (53 - c))
      (c - 53 + int (nat (53 - c) + 52) - int (nat (- (c - 53 + d + k))))"
    unfolding c_def using c e that s by (intro round64_dyadic [OF j refl]) (simp_all add: c_def)
  finally show ?thesis using c s by (simp add: c_def)
qed

lemma noise_value:
  assumes "0 \<le> j" and "j < 2 ^ 53"
  shows "f64_val (f64_of_int j * f64_lit 1 9007199254740992 * f64_of_int 2 - f64_of_int 1) =
    real_of_int (j - 2 ^ 52) / 2 ^ 52"
proof (cases "j = 0")
  case True
  have "f64_of_int 0 * f64_lit 1 9007199254740992 * f64_of_int 2 - f64_of_int 1 = F_num True (2 ^ 52) (- 52)"
    unfolding f64_class_defs by code_simp
  with True show ?thesis by (simp add: f64_signed_def power_int_def power_divide)
next
  case False
  then have j: "0 < j" "j < 2 ^ 53" using assms by auto
  define c where "c = nbits j"
  have c: "0 < c" "c \<le> 53" using nbits_bounds [OF j(1)] nbits_mono_le [OF j] by (auto simp: c_def)
  let ?m = "j * 2 ^ nat (53 - c)"
  have one: "f64_of_int j = F_num False ?m (c - 53)" unfolding c_def by (rule f64_of_int_pos [OF j])
  have two: "f64_mul (F_num False ?m (c - 53)) (F_num False (2 ^ 52) (- 105)) = F_num False ?m (c - 106)"
    using scale_dyadic [OF j, of 0 "- 105"] by (simp add: c_def)
  have three: "f64_mul (F_num False ?m (c - 106)) (F_num False (2 ^ 52) (- 51)) = F_num False ?m (c - 105)"
    using scale_dyadic [OF j, of "- 53" "- 51"] by (simp add: c_def)
  have g: "min (c - 105) (- 52) = c - 105" using c by simp
  have z: "?m - 2 ^ 52 * 2 ^ nat (53 - c) = (j - 2 ^ 52) * 2 ^ nat (53 - c)" by (simp add: algebra_simps)
  have n: "nat (- 52 - (c - 105)) = nat (53 - c)" by simp
  have sub: "f64_of_int j * f64_lit 1 9007199254740992 * f64_of_int 2 - f64_of_int 1 =
     (if j = 2 ^ 52 then F_num False 0 (- 1074)
      else round64 (j < 2 ^ 52) (\<bar>j - 2 ^ 52\<bar> * 2 ^ nat (53 - c)) (2 ^ nat (105 - c)))"
    unfolding one lit_2_53 of_int_1_2 times_f64_def minus_f64_def f64_sub_def two three f64_neg.simps
      f64_add.simps g Let_def n
    using c z by (simp add: f64_signed_def abs_mult mult_less_0_iff)
  show ?thesis
  proof (cases "j = 2 ^ 52")
    case True
    then show ?thesis using sub by (simp add: f64_signed_def)
  next
    case False
    define x where "x = \<bar>j - 2 ^ 52\<bar>"
    have x: "0 < x" "x < 2 ^ 53" using False j by (auto simp: x_def)
    have nx: "0 < nbits x" "nbits x \<le> 53" using nbits_bounds [OF x(1)] nbits_mono_le [OF x] by auto
    have "f64_val (round64 (j < 2 ^ 52) (x * 2 ^ nat (53 - c)) (2 ^ nat (105 - c))) =
        real_of_int (f64_signed (j < 2 ^ 52) x) * 2 ^ nat (53 - c) / 2 ^ nat (105 - c)"
      using c nx by (intro round64_dyadic_val [OF x]) simp_all
    also have "f64_signed (j < 2 ^ 52) x = j - 2 ^ 52" by (simp add: x_def f64_signed_def)
    also have "(2::real) ^ nat (105 - c) = 2 ^ nat (53 - c) * 2 ^ 52"
    proof -
      have "nat (105 - c) = nat (53 - c) + 52" using c by simp
      then show ?thesis by (simp add: power_add)
    qed
    finally show ?thesis using sub False by (simp add: x_def)
  qed
qed

lemma drop_bit_word_bound: "uint (drop_bit 11 (r :: 64 word)) < 2 ^ 53"
proof -
  have "uint (drop_bit 11 r) = uint r div 2 ^ 11" by (simp add: drop_bit_eq_div uint_div)
  moreover have "uint r < 2 ^ 64" using uint_bounded [of r] by simp
  ultimately show ?thesis by simp
qed

lemma xor_shift_zero: "0 < k \<Longrightarrow> s XOR drop_bit k s = 0 \<Longrightarrow> s = (0 :: 64 word)"
proof (rule bit_word_eqI)
  fix n
  assume k: "0 < k" and "s XOR drop_bit k s = 0"
  then have z: "\<not> bit (s XOR drop_bit k s) n" for n by simp
  have up: "bit s n = bit s (n + k)" for n
    using z [of n] by (simp only: bit_xor_iff bit_drop_bit_eq comp_apply add.commute) blast
  have step: "bit s n = bit s (n + m * k)" for n m
  proof (induction m arbitrary: n)
    case 0
    show ?case by simp
  next
    case (Suc m)
    have "bit s n = bit s (n + k)" by (rule up)
    also have "\<dots> = bit s (n + k + m * k)" by (rule Suc)
    finally show ?case by (simp only: mult_Suc add.assoc)
  qed
  have "\<not> bit s (n + 64 * k)" using k by (intro notI) (drule bit_imp_le_length, simp)
  with step [of n 64] show "bit s n = bit 0 n" by simp
qed

lemma xor_push_zero: "0 < k \<Longrightarrow> s XOR push_bit k s = 0 \<Longrightarrow> s = (0 :: 64 word)"
proof (rule bit_word_eqI)
  fix n
  assume k: "0 < k" and z: "s XOR push_bit k s = 0" and n: "n < LENGTH(64)"
  have z': "\<not> bit (s XOR push_bit k s) n" for n unfolding z by simp
  have rec: "bit s n = (k \<le> n \<and> bit s (n - k))" if "n < 64" for n
  proof -
    have "possible_bit TYPE(64 word) n" using that by (simp add: possible_bit_def)
    then show ?thesis using z' [of n] unfolding bit_xor_iff bit_push_bit_iff by blast
  qed
  have "n < 64 \<Longrightarrow> \<not> bit s n" for n
  proof (induction n rule: less_induct)
    case (less n)
    show ?case
    proof (cases "k \<le> n")
      case True
      then have "\<not> bit s (n - k)" using less.IH [of "n - k"] less.prems k by simp
      then show ?thesis using rec [OF less.prems] by blast
    next
      case False
      then show ?thesis using rec [OF less.prems] by blast
    qed
  qed
  then show "bit s n = bit 0 n" using n by simp
qed

lemma xorshift_nonzero: "s \<noteq> 0 \<Longrightarrow> xorshift s \<noteq> 0"
  unfolding xorshift_def Let_def
  using xor_shift_zero [of 12 s] xor_push_zero [of 25 "s XOR drop_bit 12 s"]
    xor_shift_zero [of 27 "(s XOR drop_bit 12 s) XOR push_bit 25 (s XOR drop_bit 12 s)"] by auto

lemma noise_loop:
  "sample_loop noise_step i m s = Some (ys, t) \<Longrightarrow> s \<noteq> 0 \<Longrightarrow>
    t \<noteq> 0 \<and> (\<forall>y \<in> set ys. \<exists>j. 0 \<le> j \<and> j < 2 ^ 53 \<and> f64_val y = real_of_int (j - 2 ^ 52) / 2 ^ 52)"
proof (induction m arbitrary: i s ys)
  case 0
  then show ?case by simp
next
  case (Suc m)
  obtain y u zs where 1: "noise_step i s = Some (y, u)"
    and 2: "sample_loop noise_step (Suc i) m u = Some (zs, t)" and ys: "ys = y # zs"
    using Suc.prems(1) by (auto split: option.splits)
  have u: "u \<noteq> 0" and y: "\<exists>j. 0 \<le> j \<and> j < 2 ^ 53 \<and> f64_val y = real_of_int (j - 2 ^ 52) / 2 ^ 52"
    using 1 xorshift_nonzero [OF Suc.prems(2)] noise_value drop_bit_word_bound
    by (auto simp: noise_step_def Let_def intro!: exI)
  with Suc.IH [OF 2 u] ys show ?case by simp
qed

section \<open>Splitting a block\<close>

lemma up_loop_append:
  "up_loop h (xs @ ys) s =
    (case up_loop h xs s of (a, t) \<Rightarrow> case up_loop h ys t of (b, u) \<Rightarrow> (a @ b, u))"
  by (induction xs arbitrary: s) (auto split: prod.split)

lemma down_loop_append:
  "down_loop h keep (xs @ ys) s =
    (case down_loop h keep xs s of (a, t) \<Rightarrow>
      case down_loop h (keep = even (length xs)) ys t of (b, u) \<Rightarrow> (a @ b, u))"
proof (induction xs arbitrary: keep s)
  case Nil
  then show ?case by simp
next
  case (Cons x xs)
  have "(keep = even (length (x # xs))) = ((\<not> keep) = even (length xs))" by auto
  with Cons show ?case by (auto split: prod.split)
qed

lemma noise_shift: "sample_loop noise_step i m s = sample_loop noise_step j m s"
proof (induction m arbitrary: i j s)
  case 0
  then show ?case by simp
next
  case (Suc m)
  have "sample_loop noise_step (Suc i) m t = sample_loop noise_step (Suc j) m t" for t by (rule Suc)
  moreover have "noise_step i s = noise_step j s" by (simp add: noise_step_def)
  ultimately show ?case by (simp split: option.split)
qed

section \<open>Holding\<close>

lemma hold_loop:
  assumes "0 < n" and "k = i mod n" and "k \<noteq> 0 \<Longrightarrow> h = inp c 0 (i - i mod n)"
  shows "\<exists>h' k'. sample_loop (hold_step c n) i m (h, k) =
    Some (map (\<lambda>j. inp c 0 (j - j mod n)) [i..<i + m], h', k')"
  using assms(2,3)
proof (induction m arbitrary: i h k)
  case 0
  then show ?case by simp
next
  case (Suc m)
  let ?h = "if k = 0 then inp c 0 i else h"
  let ?k = "if n \<le> k + 1 then 0 else k + 1"
  have k: "k < n" using Suc.prems(1) assms(1) by simp
  have h: "?h = inp c 0 (i - i mod n)" using Suc.prems by auto
  have k': "?k = Suc i mod n" using Suc.prems(1) k by (simp add: mod_Suc)
  have "Suc i - Suc i mod n = i - i mod n" if "?k \<noteq> 0"
    using that k' Suc.prems(1) k by (auto simp: mod_Suc split: if_splits)
  then have "?k \<noteq> 0 \<Longrightarrow> ?h = inp c 0 (Suc i - Suc i mod n)" using h by simp
  from Suc.IH [OF k' this] obtain h' k'' where
    "sample_loop (hold_step c n) (Suc i) m (?h, ?k) =
      Some (map (\<lambda>j. inp c 0 (j - j mod n)) [Suc i..<Suc i + m], h', k'')" by blast
  moreover have "hold_step c n i (h, k) = Some (?h, ?h, ?k)" by (simp add: hold_step_def Let_def)
  moreover have "[i..<i + Suc m] = i # [Suc i..<Suc i + m]" by (simp add: upt_rec)
  ultimately show ?case using h by simp
qed

lemma residue_filter:
  assumes "(out::nat) < k"
  shows "filter (\<lambda>ch. out \<le> ch \<and> (ch - out) mod k = 0) [0..<m] = filter (\<lambda>ch. ch mod k = out) [0..<m]"
proof (rule filter_cong [OF refl])
  fix ch
  show "(out \<le> ch \<and> (ch - out) mod k = 0) = (ch mod k = out)"
  proof
    assume "out \<le> ch \<and> (ch - out) mod k = 0"
    then obtain q where "ch = out + k * q"
      by (metis add_diff_inverse_nat leD mod_eq_0_iff_dvd dvd_def)
    then show "ch mod k = out" using assms by simp
  next
    assume "ch mod k = out"
    then show "out \<le> ch \<and> (ch - out) mod k = 0"
      by (metis minus_mod_eq_mult_div mod_mult_self1_is_0 mod_less_eq_dividend)
  qed
qed

lemma node_process_covered:
  assumes "ctx_covers n c" and "state_fits n st" and "call_ok e n st c"
  shows "\<exists>st' os. node_process e n st c = Some (st', os) \<and> state_fits n st' \<and>
    map length os = map length (nc_outputs c)"
  using node_step_total [OF assms] assms(1) by (simp add: node_process_def)

section \<open>Properties\<close>


definition tone_call :: node_ctx where
  "tone_call = \<lparr>nc_inputs = [[f64_of_int 3, f64_of_int 4]], nc_outputs = [[f64_zero, f64_zero]],
     nc_params = [\<lparr>pv_buffer = None, pv_base = f64_lit 1 2, pv_inc = f64_zero\<rparr>],
     nc_sample_rate = 48000, nc_block = 2\<rparr>"

lemma tone_call_covers: "ctx_covers (Gain v) tone_call" "ctx_covers (Sample_and_hold r) tone_call"
  by (simp_all add: ctx_covers_def tone_call_def)

text \<open>An environment for concrete calls: the trigonometric functions are approximated by the first
  term of their series, and no hosted DSP runs.\<close>

definition plain_env :: env where
  "plain_env = \<lparr>env_libm = \<lparr>lm_sin = (\<lambda>x. x), lm_cos = (\<lambda>x. f64_of_int 1)\<rparr>,
     env_init = (\<lambda>h sr bs. []), env_process = (\<lambda>h st c. None)\<rparr>"


text \<open>The noise generator never reaches the fixed point of xorshift: from a nonzero seed it stays
  nonzero, and each sample is exactly a multiple of \<open>2 ^ -52\<close> in the interval from -1 (included) to 1
  (excluded), without rounding.\<close>

theorem noise_samples:
  assumes "seed \<noteq> 0" and "ctx_covers (White_noise s) c"
  shows "\<exists>seed' ys. noise_process c seed = Some (seed', [ys]) \<and> seed' \<noteq> 0 \<and> length ys = nc_block c \<and>
    (\<forall>y \<in> set ys. \<exists>j. 0 \<le> j \<and> j < 2 ^ 53 \<and> f64_val y = real_of_int (j - 2 ^ 52) / 2 ^ 52)"
proof -
  obtain x where x: "nc_outputs c = [x]" "length x = nc_block c"
    using single_output [OF assms(2)] by auto
  obtain ys t where l: "sample_loop noise_step 0 (nc_block c) seed = Some (ys, t)" "length ys = nc_block c"
    using sample_loop_defined [of noise_step 0 "nc_block c" seed] by (auto simp: noise_step_def Let_def)
  have "put ys x = ys" using x l by (simp add: put_def)
  then show ?thesis using l noise_loop [OF l(1) assms(1)] x by (simp add: noise_process_def)
qed

theorem noise_samples_witness:
  "\<exists>seed' ys. noise_process \<lparr>nc_inputs = [], nc_outputs = [[f64_zero]], nc_params = [],
     nc_sample_rate = 48000, nc_block = 1\<rparr> default_seed = Some (seed', [ys]) \<and> seed' \<noteq> 0"
  using noise_samples [of default_seed 0 "\<lparr>nc_inputs = [], nc_outputs = [[f64_zero]], nc_params = [],
     nc_sample_rate = 48000, nc_block = 1\<rparr>"]
  by (auto simp: default_seed_def ctx_covers_def)

text \<open>The specialised channel nodes are the channel adapter: \<open>mix\<close> is \<open>adapt\<close> to one output and
  \<open>m2s\<close> is \<open>adapt\<close> from one input to two.\<close>

theorem mixers_are_adapters:
  "node_process e (Mixer m) st c = node_process e (Channel_adapter m 1) st c \<and>
   node_process e Mono_to_stereo st c = node_process e (Channel_adapter 1 2) st c"
proof
  show "node_process e (Mixer m) st c = node_process e (Channel_adapter m 1) st c"
    by (simp add: node_process_def ctx_covers_def node_step_def mixer_process_def adapt_process_def
        adapt_defined_def adapt_sample_def [abs_def])
  have "map (adapt_sample 1 2 c) [0..<2] = [inp c 0, inp c 0]"
    by (simp add: adapt_sample_def [abs_def] numeral_2_eq_2)
  then show "node_process e Mono_to_stereo st c = node_process e (Channel_adapter 1 2) st c"
    by (simp add: node_process_def ctx_covers_def node_step_def m2s_process_def adapt_process_def
        adapt_defined_def)
qed

text \<open>The channel adapter is fair: folding \<open>m\<close> inputs onto \<open>k\<close> outputs (\<open>k\<close> dividing \<open>m\<close>) sums at
  output \<open>o\<close> exactly the inputs congruent to \<open>o\<close>, spreading (\<open>m\<close> dividing \<open>k\<close>) copies to output \<open>o\<close>
  the input congruent to it.\<close>

theorem adapter_routes:
  assumes "0 < m" and "0 < k" and "out < k" and "k \<noteq> 1" and "m \<noteq> 1"
  shows "(k < m \<and> k dvd m \<longrightarrow>
      adapt_sample m k c out i = sum_channels c (filter (\<lambda>ch. ch mod k = out) [0..<m]) i) \<and>
    (m < k \<and> m dvd k \<longrightarrow> adapt_sample m k c out i = inp c (out mod m) i)"
  using assms residue_filter [OF assms(3), of m] by (auto simp: adapt_sample_def)

theorem adapter_routes_witness:
  "adapt_sample 4 2 tone_call 1 0 = sum_channels tone_call [1, 3] 0"
  using adapter_routes [of 4 2 1 tone_call 0] by (simp add: upt_rec numeral_3_eq_3)

text \<open>Sample and hold at a period of \<open>n\<close> samples outputs, from a fresh state, at every sample the
  input at the last multiple of the period.\<close>

theorem hold_samples:
  assumes "ctx_covers (Sample_and_hold r) c"
    and "\<not> f64_le (pv_first (nc_params c ! 0)) f64_zero"
    and "to_size_t (f64_div (f64_of_int (int (nc_sample_rate c))) (pv_first (nc_params c ! 0))) = Inr n"
  shows "\<exists>t. hold_process c (f64_zero, 0) =
    Some (t, [map (\<lambda>i. inp c 0 (i - i mod max 1 n)) [0..<nc_block c]])"
proof -
  obtain x where x: "nc_outputs c = [x]" "length x = nc_block c"
    using single_output [OF assms(1)] by auto
  have m: "(if n = 0 then 1 else n) = max 1 n" by simp
  obtain h' k' where l: "sample_loop (hold_step c (max 1 n)) 0 (nc_block c) (f64_zero, 0) =
    Some (map (\<lambda>j. inp c 0 (j - j mod max 1 n)) [0..<0 + nc_block c], h', k')"
    using hold_loop [of "max 1 n" 0 0 f64_zero c "nc_block c"] by fastforce
  show ?thesis
    unfolding hold_process_def Let_def using assms(2,3) l x by (simp add: m put_def)
qed

theorem hold_samples_witness:
  "\<exists>t. hold_process (tone_call\<lparr>nc_sample_rate := 1\<rparr>) (f64_zero, 0) = Some (t, [[f64_of_int 3, f64_of_int 3]])"
proof -
  let ?c = "tone_call\<lparr>nc_sample_rate := 1\<rparr>"
  have a: "ctx_covers (Sample_and_hold f64_zero) ?c" by (simp add: ctx_covers_def tone_call_def)
  have b: "\<not> f64_le (pv_first (nc_params ?c ! 0)) f64_zero"
    by (simp add: tone_call_def pv_first_def) code_simp
  have "f64_trunc (f64_div (f64_of_int 1) (f64_lit 1 2)) = Some 2" by code_simp
  then have d: "to_size_t (f64_div (f64_of_int (int (nc_sample_rate ?c))) (pv_first (nc_params ?c ! 0))) = Inr 2"
    by (simp add: tone_call_def pv_first_def to_size_t_def)
  from hold_samples [OF a b d] show ?thesis
    by (simp add: tone_call_def upt_rec)
qed

text \<open>Running a block in two parts gives the signal of the whole block, for the nodes that carry a
  filter or a generator across calls: the upsampler, the downsampler when the first part has an even
  number of samples, and the noise source.\<close>

theorem block_split:
  assumes "even (length xs)"
  shows "up_loop h (xs @ ys) s = (case up_loop h xs s of (a, t) \<Rightarrow> case up_loop h ys t of (b, u) \<Rightarrow> (a @ b, u)) \<and>
  down_loop h True (xs @ ys) s =
    (case down_loop h True xs s of (a, t) \<Rightarrow> case down_loop h True ys t of (b, u) \<Rightarrow> (a @ b, u)) \<and>
  sample_loop noise_step 0 (m + n) seed =
    (case sample_loop noise_step 0 m seed of
      None \<Rightarrow> None
    | Some (a, t) \<Rightarrow>
        (case sample_loop noise_step 0 n t of None \<Rightarrow> None | Some (b, u) \<Rightarrow> Some (a @ b, u)))"
proof (intro conjI)
  show "up_loop h (xs @ ys) s = (case up_loop h xs s of (a, t) \<Rightarrow> case up_loop h ys t of (b, u) \<Rightarrow> (a @ b, u))"
    by (rule up_loop_append)
  show "down_loop h True (xs @ ys) s =
    (case down_loop h True xs s of (a, t) \<Rightarrow> case down_loop h True ys t of (b, u) \<Rightarrow> (a @ b, u))"
    using assms by (simp add: down_loop_append)
  show "sample_loop noise_step 0 (m + n) seed =
    (case sample_loop noise_step 0 m seed of
      None \<Rightarrow> None
    | Some (a, t) \<Rightarrow>
        (case sample_loop noise_step 0 n t of None \<Rightarrow> None | Some (b, u) \<Rightarrow> Some (a @ b, u)))"
    using noise_shift [of m n _ 0] by (simp add: sample_loop_add split: option.split)
qed

theorem block_split_witness:
  "up_loop [f64_of_int 1] ([f64_of_int 2, f64_of_int 3] @ [f64_of_int 4]) ([f64_zero], 0) =
    (case up_loop [f64_of_int 1] [f64_of_int 2, f64_of_int 3] ([f64_zero], 0) of
      (a, t) \<Rightarrow> case up_loop [f64_of_int 1] [f64_of_int 4] t of (b, u) \<Rightarrow> (a @ b, u))"
  using block_split [of "[f64_of_int 2, f64_of_int 3]" "[f64_of_int 1]" "[f64_of_int 4]" "([f64_zero], 0)"]
  by (simp only: list.size) simp

text \<open>C40: The FFT indexes only inside its arrays exactly when its size is zero or a power of two, and
  then its reordering pass is the bit reversal: it moves to position \<open>i\<close> the element at the reversed
  index, which is its own inverse.\<close>

theorem fft_memory_safe:
  "(fft_in_range n \<longleftrightarrow> fft_size_ok n) \<and>
   (is_power_of_two n \<and> length xs = n \<and> i < n \<longrightarrow>
    permute (ff_brev (plan_init lm n)) n xs ! i = xs ! bit_reverse (levels n) i \<and>
    bit_reverse (levels n) (bit_reverse (levels n) i) = i)"
proof (intro conjI impI)
  show "fft_in_range n \<longleftrightarrow> fft_size_ok n" by (rule fft_in_range_iff)
next
  assume a: "is_power_of_two n \<and> length xs = n \<and> i < n"
  then have p: "is_power_of_two n" and xs: "length xs = n" and i: "i < n" by auto
  obtain N where n: "n = 2 ^ N" using p by (auto simp: is_power_of_two_iff)
  have r: "bit_reverse (levels n) i < n \<and> bit_reverse (levels n) (bit_reverse (levels n) i) = i"
    if "i < n" for i
    using that bit_reverse_less bit_reverse_involution unfolding n levels_pow2 by blast
  have "ff_brev (plan_init lm n) ! i = bit_reverse (levels n) i" if "i < n" for i
    using that by (simp add: plan_init_def)
  then show "permute (ff_brev (plan_init lm n)) n xs ! i = xs ! bit_reverse (levels n) i"
    and "bit_reverse (levels n) (bit_reverse (levels n) i) = i"
    using permute_involution [of n "ff_brev (plan_init lm n)" xs] r xs i by simp_all
qed

theorem fft_memory_safe_witness:
  "permute (ff_brev (plan_init (env_libm plain_env) 4)) 4 [0, 1, 2, 3 :: nat] ! 1 =
   [0, 1, 2, 3] ! bit_reverse (levels 4) 1"
proof -
  have "is_power_of_two 4" by (simp add: is_power_of_two_iff exI [of _ 2])
  with fft_memory_safe [of 4 "[0, 1, 2, 3 :: nat]" 1 "env_libm plain_env"] show ?thesis by simp
qed

end
