(* ===== verification/Blueprint.thy ===== *)
theory Blueprint
  imports Core
begin

text \<open>
  The topology description of \<open>include/xrune/blueprint.hpp\<close>: nodes, connections,
  terminals and rune parameters, and the operations that build one.  The source returns
  \<open>-1\<close> for a name that is not found; here the searches return an option.  An operation
  that indexes the node vector returns \<open>None\<close> when the index is out of range (undefined
  in C++).
\<close>

section \<open>Data\<close>

record blueprint_connection =
  bc_src_node :: nat
  bc_src_output :: nat
  bc_dst_node :: nat
  bc_dst_input :: nat

record param_connection =
  pc_src_node :: nat
  pc_src_output :: nat
  pc_dst_node :: nat
  pc_dst_param :: nat

record terminal_source =
  ts_node :: nat
  ts_ch :: nat
  ts_silent :: bool

record terminal =
  t_name :: string
  t_node :: nat
  t_channels :: "terminal_source list"

record param_target =
  pt_node :: nat
  pt_port :: nat

record blueprint_param =
  bpp_name :: string
  bpp_default :: f64
  bpp_targets :: "param_target list"
  bpp_partial :: bool

record graph_blueprint =
  g_nodes :: "node list"
  g_names :: "string list"
  g_connections :: "blueprint_connection list"
  g_param_connections :: "param_connection list"
  g_input_terminals :: "terminal list"
  g_output_terminals :: "terminal list"
  g_params :: "blueprint_param list"
  g_input_node :: "nat option"
  g_output_node :: "nat option"

definition empty_blueprint :: graph_blueprint where
  "empty_blueprint = \<lparr>g_nodes = [], g_names = [], g_connections = [], g_param_connections = [],
     g_input_terminals = [], g_output_terminals = [], g_params = [],
     g_input_node = None, g_output_node = None\<rparr>"

definition bp_size :: "graph_blueprint \<Rightarrow> nat" where
  "bp_size g = length (g_nodes g)"

section \<open>Operations\<close>

definition find_rune_param :: "graph_blueprint \<Rightarrow> string \<Rightarrow> nat option" where
  "find_rune_param g name = find_index (\<lambda>p. bpp_name p = name) (g_params g)"

definition add_named :: "graph_blueprint \<Rightarrow> string \<Rightarrow> node \<Rightarrow> nat \<times> graph_blueprint" where
  "add_named g name n =
    (length (g_nodes g), g\<lparr>g_nodes := g_nodes g @ [n], g_names := g_names g @ [name]\<rparr>)"

definition add_node :: "graph_blueprint \<Rightarrow> node \<Rightarrow> nat \<times> graph_blueprint" where
  "add_node g n = add_named g '''' n"

definition find_node :: "graph_blueprint \<Rightarrow> string \<Rightarrow> nat option" where
  "find_node g name = find_index (\<lambda>s. s = name) (g_names g)"

definition in_range_conn :: "graph_blueprint \<Rightarrow> blueprint_connection \<Rightarrow> bool" where
  "in_range_conn g c =
    (bc_src_node c < bp_size g \<and> bc_dst_node c < bp_size g \<and>
     bc_src_output c < outputs_count (g_nodes g ! bc_src_node c) \<and>
     bc_dst_input c < inputs_count (g_nodes g ! bc_dst_node c))"

definition bc_sink :: "blueprint_connection \<Rightarrow> nat \<times> nat" where
  "bc_sink c = (bc_dst_node c, bc_dst_input c)"

definition connect :: "graph_blueprint \<Rightarrow> blueprint_connection \<Rightarrow> bool \<times> graph_blueprint" where
  "connect g c =
    (if bp_size g \<le> bc_src_node c \<or> bp_size g \<le> bc_dst_node c then (False, g)
     else if outputs_count (g_nodes g ! bc_src_node c) \<le> bc_src_output c then (False, g)
     else if inputs_count (g_nodes g ! bc_dst_node c) \<le> bc_dst_input c then (False, g)
     else if list_ex (\<lambda>d. bc_dst_node d = bc_dst_node c \<and> bc_dst_input d = bc_dst_input c)
               (g_connections g) then (False, g)
     else (True, g\<lparr>g_connections := g_connections g @ [c]\<rparr>))"

definition in_range_param :: "graph_blueprint \<Rightarrow> param_connection \<Rightarrow> bool" where
  "in_range_param g c =
    (pc_src_node c < bp_size g \<and> pc_dst_node c < bp_size g \<and>
     pc_src_output c < outputs_count (g_nodes g ! pc_src_node c) \<and>
     pc_dst_param c < params_count (g_nodes g ! pc_dst_node c))"

definition pc_sink :: "param_connection \<Rightarrow> nat \<times> nat" where
  "pc_sink c = (pc_dst_node c, pc_dst_param c)"

definition connect_param :: "graph_blueprint \<Rightarrow> param_connection \<Rightarrow> bool \<times> graph_blueprint" where
  "connect_param g c =
    (if bp_size g \<le> pc_src_node c \<or> bp_size g \<le> pc_dst_node c then (False, g)
     else if outputs_count (g_nodes g ! pc_src_node c) \<le> pc_src_output c then (False, g)
     else if params_count (g_nodes g ! pc_dst_node c) \<le> pc_dst_param c then (False, g)
     else if list_ex (\<lambda>d. pc_dst_node d = pc_dst_node c \<and> pc_dst_param d = pc_dst_param c)
               (g_param_connections g) then (False, g)
     else (True, g\<lparr>g_param_connections := g_param_connections g @ [c]\<rparr>))"

definition node_sources :: "graph_blueprint \<Rightarrow> nat \<Rightarrow> terminal_source list" where
  "node_sources g n =
    map (\<lambda>c. \<lparr>ts_node = n, ts_ch = c, ts_silent = False\<rparr>) [0..<outputs_count (g_nodes g ! n)]"

text \<open>The overload that exposes every output of one node.\<close>

definition add_output_terminal ::
    "graph_blueprint \<Rightarrow> string \<Rightarrow> nat \<Rightarrow> (nat \<times> graph_blueprint) option" where
  "add_output_terminal g name n =
    (if n < bp_size g then
       Some (length (g_output_terminals g),
         g\<lparr>g_output_terminals := g_output_terminals g @
            [\<lparr>t_name = name, t_node = n, t_channels = node_sources g n\<rparr>]\<rparr>)
     else None)"

text \<open>The overload with one source per channel.\<close>

definition add_output_terminal_chans ::
    "graph_blueprint \<Rightarrow> string \<Rightarrow> terminal_source list \<Rightarrow> nat \<times> graph_blueprint" where
  "add_output_terminal_chans g name chans =
    (length (g_output_terminals g),
     g\<lparr>g_output_terminals := g_output_terminals g @
        [\<lparr>t_name = name, t_node = (case chans of [] \<Rightarrow> 0 | c # cs \<Rightarrow> ts_node c), t_channels = chans\<rparr>]\<rparr>)"

definition add_input_terminal :: "graph_blueprint \<Rightarrow> string \<Rightarrow> nat \<Rightarrow> nat \<times> graph_blueprint" where
  "add_input_terminal g name n =
    (length (g_input_terminals g),
     g\<lparr>g_input_terminals := g_input_terminals g @ [\<lparr>t_name = name, t_node = n, t_channels = []\<rparr>]\<rparr>)"

definition find_output_terminal :: "graph_blueprint \<Rightarrow> string \<Rightarrow> nat option" where
  "find_output_terminal g name = find_index (\<lambda>t. t_name t = name) (g_output_terminals g)"

definition find_input_terminal :: "graph_blueprint \<Rightarrow> string \<Rightarrow> nat option" where
  "find_input_terminal g name = find_index (\<lambda>t. t_name t = name) (g_input_terminals g)"

definition set_output :: "graph_blueprint \<Rightarrow> nat \<Rightarrow> graph_blueprint option" where
  "set_output g n =
    (let g' = g\<lparr>g_output_node := Some n\<rparr>
     in if g_output_terminals g' = [] then map_option snd (add_output_terminal g' ''out'' n)
        else Some g')"

definition set_input :: "graph_blueprint \<Rightarrow> nat \<Rightarrow> graph_blueprint" where
  "set_input g n = g\<lparr>g_input_node := Some n\<rparr>"

definition find_param :: "graph_blueprint \<Rightarrow> nat \<Rightarrow> string \<Rightarrow> nat option" where
  "find_param g n name =
    (if bp_size g \<le> n then None
     else find_index (\<lambda>p. pd_name p = name) (params (g_nodes g ! n)))"

section \<open>The contract of a connection operation\<close>

text \<open>
  Audio wiring and port modulation obey one contract: a connection is accepted exactly when
  its ends are in range and nothing drives its sink yet; a rejected one changes nothing; an
  accepted one is appended.  What follows from the contract is proved once.
\<close>

locale single_driver =
  fixes conns :: "'g \<Rightarrow> 'c list"
    and sink :: "'c \<Rightarrow> nat \<times> nat"
    and in_range :: "'g \<Rightarrow> 'c \<Rightarrow> bool"
    and attach :: "'g \<Rightarrow> 'c \<Rightarrow> bool \<times> 'g"
  assumes accept_iff: "fst (attach g c) \<longleftrightarrow> in_range g c \<and> sink c \<notin> sink ` set (conns g)"
    and reject: "\<not> fst (attach g c) \<Longrightarrow> snd (attach g c) = g"
    and appended: "fst (attach g c) \<Longrightarrow> conns (snd (attach g c)) = conns g @ [c]"
    and range_stable: "in_range (snd (attach g c)) d = in_range g d"
begin

fun attach_all :: "'g \<Rightarrow> 'c list \<Rightarrow> 'g option" where
  "attach_all g [] = Some g"
| "attach_all g (c # cs) = (if fst (attach g c) then attach_all (snd (attach g c)) cs else None)"

definition well_wired :: "'g \<Rightarrow> bool" where
  "well_wired g \<longleftrightarrow> (\<forall>c \<in> set (conns g). in_range g c) \<and> distinct (map sink (conns g))"

lemma attach_well_wired: "well_wired g \<Longrightarrow> well_wired (snd (attach g c))"
proof (cases "fst (attach g c)")
  case True
  assume "well_wired g"
  with True show ?thesis
    using accept_iff [of g c] by (auto simp: well_wired_def appended range_stable)
next
  case False
  assume "well_wired g"
  with reject [OF False] show ?thesis by simp
qed

lemma attach_all_Some:
  assumes "\<forall>c \<in> set cs. in_range g c" and "distinct (map sink (conns g @ cs))"
  shows "\<exists>h. attach_all g cs = Some h \<and> conns h = conns g @ cs"
  using assms
proof (induction cs arbitrary: g)
  case Nil
  then show ?case by simp
next
  case (Cons c cs)
  have acc: "fst (attach g c)" using Cons.prems by (auto simp: accept_iff)
  have "\<forall>d \<in> set cs. in_range (snd (attach g c)) d"
    using Cons.prems(1) by (simp add: range_stable)
  moreover have "distinct (map sink (conns (snd (attach g c)) @ cs))"
    using Cons.prems(2) by (simp add: appended [OF acc])
  ultimately obtain h where "attach_all (snd (attach g c)) cs = Some h"
      "conns h = conns (snd (attach g c)) @ cs"
    using Cons.IH by blast
  with acc show ?case by (simp add: appended)
qed

lemma attach_all_conns:
  "attach_all g cs = Some h \<Longrightarrow> conns h = conns g @ cs \<and> (\<forall>c \<in> set cs. in_range g c)"
proof (induction cs arbitrary: g)
  case Nil
  then show ?case by simp
next
  case (Cons c cs)
  then have acc: "fst (attach g c)" and rest: "attach_all (snd (attach g c)) cs = Some h"
    by (auto split: if_splits)
  from Cons.IH [OF rest] accept_iff [of g c] acc show ?case
    by (simp add: appended range_stable)
qed

lemma attach_all_well_wired: "attach_all g cs = Some h \<Longrightarrow> well_wired g \<Longrightarrow> well_wired h"
  by (induction cs arbitrary: g) (auto split: if_splits intro: attach_well_wired)

end

lemma driven_iff:
  "list_ex (\<lambda>d. bc_dst_node d = bc_dst_node c \<and> bc_dst_input d = bc_dst_input c) cs
     \<longleftrightarrow> bc_sink c \<in> bc_sink ` set cs"
  by (induction cs) (auto simp: bc_sink_def)

lemma param_driven_iff:
  "list_ex (\<lambda>d. pc_dst_node d = pc_dst_node c \<and> pc_dst_param d = pc_dst_param c) cs
     \<longleftrightarrow> pc_sink c \<in> pc_sink ` set cs"
  by (induction cs) (auto simp: pc_sink_def)

interpretation audio: single_driver g_connections bc_sink in_range_conn connect
  by unfold_locales
    (auto simp: connect_def in_range_conn_def bp_size_def driven_iff split: if_splits)

interpretation modul: single_driver g_param_connections pc_sink in_range_param connect_param
  by unfold_locales
    (auto simp: connect_param_def in_range_param_def bp_size_def param_driven_iff split: if_splits)

section \<open>Well-formed blueprints\<close>

definition source_ok :: "graph_blueprint \<Rightarrow> terminal_source \<Rightarrow> bool" where
  "source_ok g s \<longleftrightarrow>
    ts_silent s \<or> (ts_node s < bp_size g \<and> ts_ch s < outputs_count (g_nodes g ! ts_node s))"

definition wiring_ok :: "graph_blueprint \<Rightarrow> bool" where
  "wiring_ok g \<longleftrightarrow> audio.well_wired g \<and> modul.well_wired g \<and> length (g_names g) = bp_size g"

definition terminals_ok :: "graph_blueprint \<Rightarrow> bool" where
  "terminals_ok g \<longleftrightarrow>
    (\<forall>t \<in> set (g_input_terminals g). t_node t < bp_size g) \<and>
    (\<forall>t \<in> set (g_output_terminals g).
       (t_channels t = [] \<longrightarrow> t_node t < bp_size g) \<and> (\<forall>s \<in> set (t_channels t). source_ok g s))"

definition targets_ok :: "graph_blueprint \<Rightarrow> bool" where
  "targets_ok g \<longleftrightarrow>
    (\<forall>p \<in> set (g_params g). \<forall>t \<in> set (bpp_targets p).
       pt_node t < bp_size g \<and> pt_port t < params_count (g_nodes g ! pt_node t))"

definition blueprint_ok :: "graph_blueprint \<Rightarrow> bool" where
  "blueprint_ok g \<longleftrightarrow> wiring_ok g \<and> terminals_ok g \<and> targets_ok g"

text \<open>The operations leave the parts they do not name unchanged.\<close>

lemma connect_frame [simp]:
  "g_nodes (snd (connect g c)) = g_nodes g"
  "g_names (snd (connect g c)) = g_names g"
  "g_param_connections (snd (connect g c)) = g_param_connections g"
  "g_input_terminals (snd (connect g c)) = g_input_terminals g"
  "g_output_terminals (snd (connect g c)) = g_output_terminals g"
  "g_params (snd (connect g c)) = g_params g"
  "g_input_node (snd (connect g c)) = g_input_node g"
  "g_output_node (snd (connect g c)) = g_output_node g"
  by (simp_all add: connect_def)

lemma connect_param_frame [simp]:
  "g_nodes (snd (connect_param g c)) = g_nodes g"
  "g_names (snd (connect_param g c)) = g_names g"
  "g_connections (snd (connect_param g c)) = g_connections g"
  "g_input_terminals (snd (connect_param g c)) = g_input_terminals g"
  "g_output_terminals (snd (connect_param g c)) = g_output_terminals g"
  "g_params (snd (connect_param g c)) = g_params g"
  "g_input_node (snd (connect_param g c)) = g_input_node g"
  "g_output_node (snd (connect_param g c)) = g_output_node g"
  by (simp_all add: connect_param_def)

text \<open>Each part of the invariant reads only some fields.\<close>

lemma well_wired_cong:
  "g_nodes g = g_nodes h \<Longrightarrow> g_connections g = g_connections h \<Longrightarrow>
   audio.well_wired g = audio.well_wired h"
  "g_nodes g = g_nodes h \<Longrightarrow> g_param_connections g = g_param_connections h \<Longrightarrow>
   modul.well_wired g = modul.well_wired h"
  by (simp_all add: audio.well_wired_def modul.well_wired_def in_range_conn_def in_range_param_def
        bp_size_def)

lemma terminals_ok_cong:
  "g_nodes g = g_nodes h \<Longrightarrow> g_input_terminals g = g_input_terminals h \<Longrightarrow>
   g_output_terminals g = g_output_terminals h \<Longrightarrow> terminals_ok g = terminals_ok h"
  by (simp add: terminals_ok_def source_ok_def bp_size_def)

lemma targets_ok_cong:
  "g_nodes g = g_nodes h \<Longrightarrow> g_params g = g_params h \<Longrightarrow> targets_ok g = targets_ok h"
  by (simp add: targets_ok_def bp_size_def)

lemma wiring_ok_connect [wf_intros]: "wiring_ok g \<Longrightarrow> wiring_ok (snd (connect g c))"
  using well_wired_cong(2) [of "snd (connect g c)" g]
  by (simp add: wiring_ok_def audio.attach_well_wired bp_size_def)

lemma wiring_ok_connect_param [wf_intros]:
  "wiring_ok g \<Longrightarrow> wiring_ok (snd (connect_param g c))"
  using well_wired_cong(1) [of "snd (connect_param g c)" g]
  by (simp add: wiring_ok_def modul.attach_well_wired bp_size_def)

lemma blueprint_ok_connect [wf_intros]: "blueprint_ok g \<Longrightarrow> blueprint_ok (snd (connect g c))"
  using terminals_ok_cong [of "snd (connect g c)" g] targets_ok_cong [of "snd (connect g c)" g]
  by (simp add: blueprint_ok_def wiring_ok_connect)

lemma blueprint_ok_connect_param [wf_intros]:
  "blueprint_ok g \<Longrightarrow> blueprint_ok (snd (connect_param g c))"
  using terminals_ok_cong [of "snd (connect_param g c)" g]
    targets_ok_cong [of "snd (connect_param g c)" g]
  by (simp add: blueprint_ok_def wiring_ok_connect_param)

lemma blueprint_ok_empty [wf_intros]: "blueprint_ok empty_blueprint"
  by (simp add: blueprint_ok_def wiring_ok_def terminals_ok_def targets_ok_def empty_blueprint_def
        audio.well_wired_def modul.well_wired_def bp_size_def)

lemma nth_append_old: "i < length xs \<Longrightarrow> (xs @ ys) ! i = xs ! i"
  by (simp add: nth_append)

lemma wiring_ok_add_named [wf_intros]:
  assumes "wiring_ok g"
  shows "wiring_ok (snd (add_named g name n))"
  using assms
  by (fastforce simp: wiring_ok_def add_named_def audio.well_wired_def
      modul.well_wired_def in_range_conn_def in_range_param_def bp_size_def nth_append_old)

lemma blueprint_ok_add_named [wf_intros]:
  assumes "blueprint_ok g"
  shows "blueprint_ok (snd (add_named g name n))"
proof -
  have w: "wiring_ok (snd (add_named g name n))"
    using assms by (intro wiring_ok_add_named) (simp add: blueprint_ok_def)
  have t: "terminals_ok (snd (add_named g name n))"
    using assms
    by (fastforce simp: blueprint_ok_def terminals_ok_def add_named_def source_ok_def bp_size_def
        nth_append_old)
  have p: "targets_ok (snd (add_named g name n))"
    using assms
    by (fastforce simp: blueprint_ok_def targets_ok_def add_named_def bp_size_def nth_append_old)
  from w t p show ?thesis by (simp add: blueprint_ok_def)
qed

lemma blueprint_ok_set_terminals:
  assumes "blueprint_ok g"
    and "\<forall>t \<in> set its. t_node t < bp_size g"
    and "\<forall>t \<in> set ots. (t_channels t = [] \<longrightarrow> t_node t < bp_size g) \<and>
           (\<forall>s \<in> set (t_channels t). source_ok g s)"
  shows "blueprint_ok (g\<lparr>g_input_terminals := its, g_output_terminals := ots\<rparr>)"
  using assms well_wired_cong(1) [of "g\<lparr>g_input_terminals := its, g_output_terminals := ots\<rparr>" g]
    well_wired_cong(2) [of "g\<lparr>g_input_terminals := its, g_output_terminals := ots\<rparr>" g]
    targets_ok_cong [of "g\<lparr>g_input_terminals := its, g_output_terminals := ots\<rparr>" g]
  by (simp add: blueprint_ok_def wiring_ok_def terminals_ok_def source_ok_def bp_size_def)

lemma blueprint_ok_add_output_terminal [wf_intros]:
  assumes "blueprint_ok g" and "add_output_terminal g name n = Some (i, h)"
  shows "blueprint_ok h"
proof -
  let ?t = "\<lparr>t_name = name, t_node = n, t_channels = node_sources g n\<rparr>"
  have n: "n < bp_size g" and h: "h = g\<lparr>g_output_terminals := g_output_terminals g @ [?t]\<rparr>"
    using assms(2) by (auto simp: add_output_terminal_def split: if_splits)
  have "h = g\<lparr>g_input_terminals := g_input_terminals g, g_output_terminals := g_output_terminals g @ [?t]\<rparr>"
    using h by simp
  then show ?thesis
    using assms(1) n
    by (simp only:, intro blueprint_ok_set_terminals)
       (auto simp: blueprint_ok_def terminals_ok_def source_ok_def node_sources_def)
qed

lemma blueprint_ok_add_input_terminal [wf_intros]:
  assumes "blueprint_ok g" and "n < bp_size g"
  shows "blueprint_ok (snd (add_input_terminal g name n))"
proof -
  have "snd (add_input_terminal g name n) =
      g\<lparr>g_input_terminals := g_input_terminals g @ [\<lparr>t_name = name, t_node = n, t_channels = []\<rparr>],
        g_output_terminals := g_output_terminals g\<rparr>"
    by (simp add: add_input_terminal_def)
  then show ?thesis
    using assms
    by (simp only:, intro blueprint_ok_set_terminals) (auto simp: blueprint_ok_def terminals_ok_def)
qed

section \<open>Blueprints reached by building\<close>

text \<open>Every sequence of builder calls, accepted or rejected.\<close>

inductive built :: "graph_blueprint \<Rightarrow> bool" where
  built_empty: "built empty_blueprint"
| built_add: "built g \<Longrightarrow> built (snd (add_named g name n))"
| built_connect: "built g \<Longrightarrow> built (snd (connect g c))"
| built_connect_param: "built g \<Longrightarrow> built (snd (connect_param g d))"
| built_output: "built g \<Longrightarrow> add_output_terminal g name n = Some (i, h) \<Longrightarrow> built h"
| built_input: "built g \<Longrightarrow> n < bp_size g \<Longrightarrow> built (snd (add_input_terminal g name n))"
| built_set_output: "built g \<Longrightarrow> set_output g n = Some h \<Longrightarrow> built h"

lemma blueprint_ok_output_node [simp]:
  "blueprint_ok (g\<lparr>g_output_node := x\<rparr>) = blueprint_ok g"
  using well_wired_cong(1) [of "g\<lparr>g_output_node := x\<rparr>" g] well_wired_cong(2) [of "g\<lparr>g_output_node := x\<rparr>" g]
    targets_ok_cong [of "g\<lparr>g_output_node := x\<rparr>" g] terminals_ok_cong [of "g\<lparr>g_output_node := x\<rparr>" g]
  by (simp add: blueprint_ok_def wiring_ok_def bp_size_def)

lemma blueprint_ok_set_output [wf_intros]:
  assumes "blueprint_ok g" and "set_output g n = Some h"
  shows "blueprint_ok h"
  using assms blueprint_ok_add_output_terminal [of "g\<lparr>g_output_node := Some n\<rparr>"]
  by (auto simp: set_output_def Let_def split: if_splits)



end
