(* ===== verification/Kahn.thy ===== *)
theory Kahn
  imports Prelude
begin

text \<open>
  Kahn's algorithm as the source runs it twice: over the nodes of a blueprint
  (\<open>compile\<close> in src/schedule.cpp) and over the active instances
  (\<open>engine::compute_order\<close> in src/engine.cpp).  Degrees are integers and an array of
  them is a function of the index.  The loop takes fuel; as many steps as there are nodes
  are enough.
\<close>

section \<open>The algorithm\<close>

text \<open>Decrement the degree of every successor, and queue those that reach zero.\<close>

fun relax :: "nat list \<Rightarrow> (nat \<Rightarrow> int) \<Rightarrow> nat list \<Rightarrow> (nat \<Rightarrow> int) \<times> nat list" where
  "relax [] deg q = (deg, q)"
| "relax (v # vs) deg q =
    (let d = deg v - 1 in relax vs (deg(v := d)) (if d = 0 then q @ [v] else q))"

fun kahn :: "nat \<Rightarrow> (nat \<Rightarrow> nat list) \<Rightarrow> (nat \<Rightarrow> int) \<Rightarrow> nat list \<Rightarrow> nat list
    \<Rightarrow> ((nat \<Rightarrow> int) \<times> nat list) option" where
  "kahn fuel adj deg [] topo = Some (deg, topo)"
| "kahn 0 adj deg (u # q) topo = None"
| "kahn (Suc fuel) adj deg (u # q) topo =
    (case relax (adj u) deg q of (deg', q') \<Rightarrow> kahn fuel adj deg' q' (topo @ [u]))"

type_synonym edges = "(nat \<times> nat) list"

definition successors :: "edges \<Rightarrow> nat \<Rightarrow> nat list" where
  "successors E u = map snd (filter (\<lambda>e. fst e = u) E)"

definition indegree :: "edges \<Rightarrow> nat \<Rightarrow> int" where
  "indegree E v = int (length (filter (\<lambda>e. snd e = v) E))"

definition kahn_order :: "nat list \<Rightarrow> edges \<Rightarrow> ((nat \<Rightarrow> int) \<times> nat list) option" where
  "kahn_order ns E =
    kahn (length ns) (successors E) (indegree E) (filter (\<lambda>v. indegree E v = 0) ns) []"

section \<open>Position in a list\<close>

definition before :: "'a list \<Rightarrow> 'a \<Rightarrow> 'a \<Rightarrow> bool" where
  "before xs u v \<longleftrightarrow> (\<exists>as bs. xs = as @ v # bs \<and> u \<in> set as)"

lemma before_append: "before xs u v \<Longrightarrow> before (xs @ ys) u v"
  by (fastforce simp: before_def)

lemma before_last: "u \<in> set xs \<Longrightarrow> before (xs @ [v]) u v"
  unfolding before_def by blast

lemma before_in_set: "before xs u v \<Longrightarrow> u \<in> set xs \<and> v \<in> set xs"
  by (auto simp: before_def)

lemma before_distinct_neq: "distinct xs \<Longrightarrow> before xs u v \<Longrightarrow> u \<noteq> v"
  by (auto simp: before_def)

lemma before_nth:
  assumes "distinct xs"
  shows "before xs u v \<longleftrightarrow> (\<exists>i j. i < j \<and> j < length xs \<and> xs ! i = u \<and> xs ! j = v)"
proof
  assume "before xs u v"
  then obtain as bs where xs: "xs = as @ v # bs" "u \<in> set as" by (auto simp: before_def)
  then obtain i where "i < length as" "as ! i = u" by (auto simp: in_set_conv_nth)
  then have "i < length as \<and> length as < length xs \<and> xs ! i = u \<and> xs ! length as = v"
    using xs by (simp add: nth_append)
  then show "\<exists>i j. i < j \<and> j < length xs \<and> xs ! i = u \<and> xs ! j = v" by blast
next
  assume "\<exists>i j. i < j \<and> j < length xs \<and> xs ! i = u \<and> xs ! j = v"
  then obtain i j where ij: "i < j" "j < length xs" "xs ! i = u" "xs ! j = v" by blast
  then have "xs = take j xs @ v # drop (Suc j) xs" "u \<in> set (take j xs)"
    by (auto simp: id_take_nth_drop in_set_conv_nth)
  then show "before xs u v" unfolding before_def by blast
qed

lemma before_trans:
  assumes "distinct xs" and "before xs u v" and "before xs v w"
  shows "before xs u w"
proof -
  obtain i j where ij: "i < j" "j < length xs" "xs ! i = u" "xs ! j = v"
    using assms(1,2) by (auto simp: before_nth)
  obtain k l where kl: "k < l" "l < length xs" "xs ! k = v" "xs ! l = w"
    using assms(1,3) by (auto simp: before_nth)
  have "j = k" using nth_eq_iff_index_eq [OF assms(1), of j k] ij kl by simp
  then have "i < l \<and> l < length xs \<and> xs ! i = u \<and> xs ! l = w" using ij kl by simp
  then show ?thesis unfolding before_nth [OF assms(1)] by blast
qed

lemma distinct_split_unique:
  "distinct (as @ v # bs) \<Longrightarrow> as @ v # bs = us @ v # ws \<Longrightarrow> as = us"
  by (subst (asm) append_Cons_eq_iff) auto

section \<open>One relaxation\<close>

lemma relax_degree: "fst (relax vs deg q) v = deg v - int (count_list vs v)"
  by (induction vs arbitrary: deg q) (auto simp: Let_def)

lemma relax_queue:
  "\<exists>r. snd (relax vs deg q) = q @ r \<and> distinct r \<and>
      set r = {v \<in> set vs. 1 \<le> deg v \<and> deg v \<le> int (count_list vs v)}"
proof (induction vs arbitrary: deg q)
  case Nil
  show ?case by simp
next
  case (Cons v vs)
  let ?deg = "deg(v := deg v - 1)"
  have pos: "0 < count_list vs w" if "w \<in> set vs" for w
    using that count_list_0_iff [of vs w] by auto
  show ?case
  proof (cases "deg v = 1")
    case True
    obtain r where r: "snd (relax vs ?deg (q @ [v])) = (q @ [v]) @ r" "distinct r"
        "set r = {w \<in> set vs. 1 \<le> ?deg w \<and> ?deg w \<le> int (count_list vs w)}"
      using Cons.IH by blast
    have "snd (relax (v # vs) deg q) = q @ (v # r)" using True r(1) by (simp add: Let_def)
    moreover have "distinct (v # r)" using r True by auto
    moreover have "set (v # r) = {w \<in> set (v # vs). 1 \<le> deg w \<and> deg w \<le> int (count_list (v # vs) w)}"
      using r(3) True pos by auto
    ultimately show ?thesis by blast
  next
    case False
    obtain r where r: "snd (relax vs ?deg q) = q @ r" "distinct r"
        "set r = {w \<in> set vs. 1 \<le> ?deg w \<and> ?deg w \<le> int (count_list vs w)}"
      using Cons.IH by blast
    have "snd (relax (v # vs) deg q) = q @ r" using False r(1) by (simp add: Let_def)
    moreover have "set r = {w \<in> set (v # vs). 1 \<le> deg w \<and> deg w \<le> int (count_list (v # vs) w)}"
      using r(3) False pos by (auto split: if_splits)
    ultimately show ?thesis using r(2) by blast
  qed
qed

section \<open>The loop invariant\<close>

definition open_edges :: "edges \<Rightarrow> nat set \<Rightarrow> nat \<Rightarrow> nat" where
  "open_edges E done v = length (filter (\<lambda>e. snd e = v \<and> fst e \<notin> done) E)"

definition kahn_inv :: "nat list \<Rightarrow> edges \<Rightarrow> (nat \<Rightarrow> int) \<Rightarrow> nat list \<Rightarrow> nat list \<Rightarrow> bool" where
  "kahn_inv ns E deg q topo \<longleftrightarrow>
    distinct (topo @ q) \<and> set (topo @ q) \<subseteq> set ns \<and>
    (\<forall>v. deg v = int (open_edges E (set topo) v)) \<and>
    (\<forall>v \<in> set ns. v \<in> set (topo @ q) \<longleftrightarrow> deg v = 0) \<and>
    (\<forall>(u, v) \<in> set E. v \<in> set topo \<longrightarrow> before topo u v)"

lemma open_edges_zero: "open_edges E done v = 0 \<longleftrightarrow> (\<forall>u. (u, v) \<in> set E \<longrightarrow> u \<in> done)"
  by (auto simp: open_edges_def filter_empty_conv)

lemma open_edges_insert:
  assumes "u \<notin> done"
  shows "int (open_edges E (insert u done) v) =
    int (open_edges E done v) - int (count_list (successors E u) v)"
  using assms by (induction E) (auto simp: open_edges_def successors_def)

lemma kahn_inv_step:
  assumes inv: "kahn_inv ns E deg (u # q) topo"
    and ends: "\<forall>(a, b) \<in> set E. a \<in> set ns \<and> b \<in> set ns"
    and rel: "relax (successors E u) deg q = (deg', q')"
  shows "kahn_inv ns E deg' q' (topo @ [u])"
proof -
  have u: "u \<notin> set topo" "u \<in> set ns" "deg u = 0"
    using inv by (auto simp: kahn_inv_def)
  have deg: "deg v = int (open_edges E (set topo) v)" for v
    using inv by (simp add: kahn_inv_def)
  have deg': "deg' v = int (open_edges E (set (topo @ [u])) v)" for v
    using relax_degree [of "successors E u" deg q v] rel deg [of v] open_edges_insert [OF u(1)]
    by simp
  have deg'_rel: "deg' v = deg v - int (count_list (successors E u) v)" for v
    using relax_degree [of "successors E u" deg q v] rel by simp
  obtain r where q': "q' = q @ r" "distinct r"
      and r: "set r = {v \<in> set (successors E u). 1 \<le> deg v \<and> deg v \<le> int (count_list (successors E u) v)}"
    using relax_queue [of "successors E u" deg q] rel by auto
  have nonneg: "0 \<le> deg' v" for v by (simp add: deg')
  have r': "v \<in> set r \<longleftrightarrow> deg v \<noteq> 0 \<and> deg' v = 0" for v
    using nonneg [of v] deg'_rel [of v] deg [of v] count_list_0_iff [of "successors E u" v]
    unfolding r by auto
  have sub: "set r \<subseteq> set ns"
    using ends unfolding r by (auto simp: successors_def)
  have old: "v \<in> set (topo @ u # q) \<longleftrightarrow> deg v = 0" if "v \<in> set ns" for v
    using inv that by (simp add: kahn_inv_def)
  have disj: "v \<notin> set (topo @ u # q)" if "v \<in> set r" for v
    using that old [of v] r' [of v] sub by auto
  then have "set r \<inter> set (topo @ u # q) = {}" by blast
  then have dist: "distinct ((topo @ [u]) @ q')"
    using inv q' by (auto simp: kahn_inv_def)
  have queued: "v \<in> set ((topo @ [u]) @ q') \<longleftrightarrow> deg' v = 0" if v: "v \<in> set ns" for v
  proof -
    have "deg v = 0 \<Longrightarrow> deg' v = 0" using nonneg [of v] deg'_rel [of v] by simp
    then show ?thesis using old [OF v] r' [of v] q' by auto
  qed
  have bef: "before (topo @ [u]) a b" if "(a, b) \<in> set E" "b \<in> set (topo @ [u])" for a b
  proof (cases "b \<in> set topo")
    case True
    then show ?thesis using inv that by (auto simp: kahn_inv_def intro: before_append)
  next
    case False
    then have "b = u" using that by simp
    moreover have "open_edges E (set topo) u = 0" using u(3) deg [of u] by simp
    then have "a \<in> set topo" using that \<open>b = u\<close> by (simp add: open_edges_zero)
    ultimately show ?thesis by (simp add: before_last)
  qed
  have "set ((topo @ [u]) @ q') \<subseteq> set ns"
    using inv q' sub by (auto simp: kahn_inv_def)
  then show ?thesis
    using dist deg' queued bef unfolding kahn_inv_def by blast
qed

lemma kahn_inv_start:
  assumes "distinct ns"
  shows "kahn_inv ns E (indegree E) (filter (\<lambda>v. indegree E v = 0) ns) []"
  using assms by (auto simp: kahn_inv_def indegree_def open_edges_def)

lemma kahn_loop:
  assumes "kahn_inv ns E deg q topo" and "distinct ns"
    and "\<forall>(a, b) \<in> set E. a \<in> set ns \<and> b \<in> set ns"
    and "length ns \<le> fuel + length topo"
  shows "\<exists>deg' topo'. kahn fuel (successors E) deg q topo = Some (deg', topo') \<and>
    kahn_inv ns E deg' [] topo' \<and> (\<exists>ys. topo' = topo @ ys)"
  using assms
proof (induction fuel "successors E" deg q topo rule: kahn.induct)
  case (1 fuel deg topo)
  then show ?case by auto
next
  case (2 deg u q topo)
  have d: "distinct (topo @ u # q)" "set (topo @ u # q) \<subseteq> set ns"
    using "2.prems"(1) by (simp_all add: kahn_inv_def)
  have "length (topo @ u # q) = card (set (topo @ u # q))"
    using d(1) by (simp only: distinct_card)
  also have "\<dots> \<le> card (set ns)" using d(2) by (intro card_mono) simp_all
  also have "\<dots> = length ns" using "2.prems"(2) by (simp add: distinct_card)
  finally show ?case using "2.prems"(4) by simp
next
  case (3 fuel deg u q topo)
  obtain deg' q' where rel: "relax (successors E u) deg q = (deg', q')" by fastforce
  have "kahn_inv ns E deg' q' (topo @ [u])"
    by (rule kahn_inv_step [OF "3.prems"(1) "3.prems"(3) rel])
  then obtain deg'' topo'' where
    "kahn fuel (successors E) deg' q' (topo @ [u]) = Some (deg'', topo'')"
    "kahn_inv ns E deg'' [] topo''" "\<exists>ys. topo'' = (topo @ [u]) @ ys"
    using "3.hyps" [OF rel [symmetric]] "3.prems" by auto
  then show ?case using rel by auto
qed

section \<open>The result\<close>

lemma kahn_order_total:
  assumes "distinct ns" and "\<forall>(a, b) \<in> set E. a \<in> set ns \<and> b \<in> set ns"
  obtains deg topo where "kahn_order ns E = Some (deg, topo)" and "kahn_inv ns E deg [] topo"
  using kahn_loop [OF kahn_inv_start [OF assms(1)] assms, where fuel = "length ns"]
  unfolding kahn_order_def by auto

lemma kahn_inv_final:
  assumes "kahn_inv ns E deg [] topo"
  shows "distinct topo" and "set topo \<subseteq> set ns"
    and "\<And>u v. (u, v) \<in> set E \<Longrightarrow> v \<in> set topo \<Longrightarrow> before topo u v"
    and "\<And>v. v \<in> set ns \<Longrightarrow> v \<notin> set topo \<longleftrightarrow> 0 < deg v"
    and "\<And>v. v \<in> set ns \<Longrightarrow> v \<notin> set topo \<Longrightarrow> \<exists>u. (u, v) \<in> set E \<and> u \<notin> set topo"
proof -
  show "distinct topo" "set topo \<subseteq> set ns" using assms by (simp_all add: kahn_inv_def)
  show "before topo u v" if "(u, v) \<in> set E" "v \<in> set topo" for u v
    using assms that by (auto simp: kahn_inv_def)
  show stuck: "v \<notin> set topo \<longleftrightarrow> 0 < deg v" if "v \<in> set ns" for v
    using assms that unfolding kahn_inv_def by (metis append_Nil2 of_nat_0_less_iff of_nat_0_le_iff
        order_less_le neq0_conv of_nat_eq_0_iff)
  show "\<exists>u. (u, v) \<in> set E \<and> u \<notin> set topo" if "v \<in> set ns" "v \<notin> set topo" for v
  proof -
    have "deg v = int (open_edges E (set topo) v)" using assms by (simp add: kahn_inv_def)
    then have "open_edges E (set topo) v \<noteq> 0" using stuck [OF that(1)] that(2) by simp
    then show ?thesis by (auto simp: open_edges_zero)
  qed
qed

lemma before_edges_acyclic:
  assumes "distinct xs" and "\<And>u v. (u, v) \<in> R \<Longrightarrow> before xs u v"
  shows "acyclic R"
proof -
  have "before xs u v" if "(u, v) \<in> R\<^sup>+" for u v
    using that by (induction rule: trancl_induct) (auto intro: before_trans assms)
  then show ?thesis
    using before_distinct_neq [OF assms(1)] by (auto simp: acyclic_def)
qed

text \<open>The order is complete exactly when the edges have no cycle.\<close>

lemma kahn_complete_iff:
  assumes "kahn_inv ns E deg [] topo" and "\<forall>(a, b) \<in> set E. a \<in> set ns \<and> b \<in> set ns"
  shows "set topo = set ns \<longleftrightarrow> acyclic (set E)"
proof
  assume "set topo = set ns"
  then show "acyclic (set E)"
    using kahn_inv_final(1,3) [OF assms(1)] assms(2)
    by (intro before_edges_acyclic [of topo]) auto
next
  assume "acyclic (set E)"
  then have wf: "wf (set E)" by (simp add: finite_acyclic_wf)
  show "set topo = set ns"
  proof (rule ccontr)
    assume "set topo \<noteq> set ns"
    then obtain v where "v \<in> set ns - set topo"
      using kahn_inv_final(2) [OF assms(1)] by blast
    then obtain z where z: "z \<in> set ns - set topo"
        "\<And>y. (y, z) \<in> set E \<Longrightarrow> y \<notin> set ns - set topo"
      using wfE_min [OF wf] by (metis (no_types, lifting))
    then obtain u where "(u, z) \<in> set E" "u \<notin> set topo"
      using kahn_inv_final(5) [OF assms(1)] by blast
    then show False using z(2) assms(2) by blast
  qed
qed

end
