(* ===== verification/Schedule.thy ===== *)
theory Schedule
  imports Blueprint Bits Kahn
begin

text \<open>
  The schedule compiler of \<open>include/xrune/schedule.hpp\<close> and \<open>src/schedule.cpp\<close>:
  topological order, propagation and validation of the sample-rate and block-size ratios,
  buffer and state layout, and port wiring.  The source returns a schedule whose \<open>ok\<close>
  flag is false where the model returns \<open>None\<close>.
\<close>

section \<open>The schedule\<close>

text \<open>A producer channel, or none when the port is silent.\<close>

type_synonym src_ref = "(nat \<times> nat) option"

record compiled_schedule =
  cs_bp :: graph_blueprint
  cs_block_size :: nat
  cs_topo_order :: "nat list"
  cs_region_rate :: "nat list"
  cs_node_block :: "nat list"
  cs_calls :: "nat list"
  cs_ctx_base :: "nat list"
  cs_total_calls :: nat
  cs_out_base_sample :: "nat list"
  cs_out_stride :: "nat list"
  cs_total_output_samples :: nat
  cs_max_stride :: nat
  cs_state_offset :: "nat list"
  cs_state_bytes :: "nat list"
  cs_total_state_bytes :: nat
  cs_input_source :: "src_ref list list"
  cs_param_source :: "src_ref list list"
  cs_param_base :: "nat list"
  cs_total_params :: nat

section \<open>Dependencies\<close>

definition graph_edges :: "graph_blueprint \<Rightarrow> edges" where
  "graph_edges g =
    map (\<lambda>c. (bc_src_node c, bc_dst_node c)) (g_connections g) @
    map (\<lambda>c. (pc_src_node c, pc_dst_node c)) (g_param_connections g)"

definition sources_of :: "graph_blueprint \<Rightarrow> nat \<Rightarrow> nat list" where
  "sources_of g v =
    map bc_src_node (filter (\<lambda>c. bc_dst_node c = v) (g_connections g)) @
    map pc_src_node (filter (\<lambda>c. pc_dst_node c = v) (g_param_connections g))"

section \<open>Rates and block sizes\<close>

record rates =
  rt_rate :: "nat list"
  rt_exp :: "int list"
  rt_block :: "nat list"
  rt_calls :: "nat list"

definition consider_src :: "rates \<Rightarrow> (nat \<times> int) option \<times> bool \<Rightarrow> nat \<Rightarrow> (nat \<times> int) option \<times> bool" where
  "consider_src rt acc src =
    (case acc of
      (None, ok) \<Rightarrow> (Some (rt_rate rt ! src, rt_exp rt ! src), ok)
    | (Some (r, b), ok) \<Rightarrow>
        (Some (r, b), ok \<and> rt_rate rt ! src = r \<and> rt_exp rt ! src = b))"

text \<open>
  The rate and exponent a node starts from.  The source keeps the rate of the inputs in a
  signed \<open>long\<close>, where a rate of \<open>2 ^ 63\<close> reads as no input.
\<close>

definition base_of :: "(nat \<times> int) option \<Rightarrow> nat \<times> int" where
  "base_of input = (case input of None \<Rightarrow> (1, 0) | Some (r, b) \<Rightarrow> if r < 2 ^ 63 then (r, b) else (1, 0))"

definition block_delta :: "node \<Rightarrow> int option" where
  "block_delta n =
    (if block_num n = 1 \<and> block_den n = 1 then Some 0
     else if block_num n = 2 \<and> block_den n = 1 then Some 1
     else if block_num n = 1 \<and> block_den n = 2 then Some (- 1)
     else None)"

text \<open>The samples per call: the block size shifted by the block exponent.\<close>

definition block_at :: "nat \<Rightarrow> int \<Rightarrow> nat option" where
  "block_at B be =
    (if 0 \<le> be then Some (size_mul B (2 ^ nat be))
     else if B mod 2 ^ nat (- be) \<noteq> 0 then None
     else Some (B div 2 ^ nat (- be)))"

text \<open>
  Rate, block exponent, samples per call and calls per cycle of a node, from the rate and
  exponent its inputs agree on.
\<close>

definition node_rates :: "node \<Rightarrow> nat \<Rightarrow> nat \<Rightarrow> int \<Rightarrow> (nat \<times> int \<times> nat \<times> nat) option" where
  "node_rates n B base_rate base_blk =
    (if rate_den n = 0 \<or> size_mul base_rate (rate_num n) mod rate_den n \<noteq> 0 then None
     else
       let R = size_mul base_rate (rate_num n) div rate_den n
       in if \<not> is_power_of_two R then None
          else
            (case block_delta n of
              None \<Rightarrow> None
            | Some delta \<Rightarrow>
                (case block_at B (base_blk + delta) of
                  None \<Rightarrow> None
                | Some nb \<Rightarrow>
                    if nb = 0 then None
                    else
                      let T = size_mul R B
                      in if T mod nb \<noteq> 0 then None
                         else if T div nb = 0 then None
                         else Some (R, base_blk + delta, nb, T div nb))))"

definition propagate_node :: "graph_blueprint \<Rightarrow> nat \<Rightarrow> rates \<Rightarrow> nat \<Rightarrow> rates option" where
  "propagate_node g B rt v =
    (case foldl (consider_src rt) (None, True) (sources_of g v) of (input, consistent) \<Rightarrow>
      if \<not> consistent then None
      else
        (case node_rates (g_nodes g ! v) B (fst (base_of input)) (snd (base_of input)) of
             None \<Rightarrow> None
           | Some (R, be, nb, C) \<Rightarrow>
               Some (rt\<lparr>rt_rate := (rt_rate rt)[v := R], rt_exp := (rt_exp rt)[v := be],
                        rt_block := (rt_block rt)[v := nb], rt_calls := (rt_calls rt)[v := C]\<rparr>)))"

fun propagate :: "graph_blueprint \<Rightarrow> nat \<Rightarrow> nat list \<Rightarrow> rates \<Rightarrow> rates option" where
  "propagate g B [] rt = Some rt"
| "propagate g B (v # vs) rt =
    (case propagate_node g B rt v of None \<Rightarrow> None | Some rt' \<Rightarrow> propagate g B vs rt')"

definition initial_rates :: "nat \<Rightarrow> nat \<Rightarrow> rates" where
  "initial_rates n B = \<lparr>rt_rate = replicate n 1, rt_exp = replicate n 0,
     rt_block = replicate n B, rt_calls = replicate n 1\<rparr>"

section \<open>Layout\<close>

fun state_layout :: "nat \<Rightarrow> node list \<Rightarrow> nat list \<times> nat" where
  "state_layout soff [] = ([], soff)"
| "state_layout soff (n # ns) =
    (if 0 < state_size n then
       (let at = align_up soff (state_align n)
        in case state_layout (at + state_size n) ns of (offs, e) \<Rightarrow> (at # offs, e))
     else (case state_layout soff ns of (offs, e) \<Rightarrow> (0 # offs, e)))"

definition wire_inputs :: "graph_blueprint \<Rightarrow> src_ref list list" where
  "wire_inputs g =
    foldl (\<lambda>w c. w[bc_dst_node c := (w ! bc_dst_node c)[bc_dst_input c :=
             Some (bc_src_node c, bc_src_output c)]])
      (map (\<lambda>n. replicate (inputs_count n) None) (g_nodes g)) (g_connections g)"

definition wire_params :: "graph_blueprint \<Rightarrow> src_ref list list" where
  "wire_params g =
    foldl (\<lambda>w c. w[pc_dst_node c := (w ! pc_dst_node c)[pc_dst_param c :=
             Some (pc_src_node c, pc_src_output c)]])
      (map (\<lambda>n. replicate (params_count n) None) (g_nodes g)) (g_param_connections g)"

definition build_schedule :: "graph_blueprint \<Rightarrow> nat \<Rightarrow> nat list \<Rightarrow> rates \<Rightarrow> compiled_schedule" where
  "build_schedule g B topo rt =
    (let strides = map (\<lambda>r. r * B) (rt_rate rt);
         widths = map2 (\<lambda>n s. outputs_count n * s) (g_nodes g) strides;
         mx = foldl max 0 strides
     in \<lparr>cs_bp = g, cs_block_size = B, cs_topo_order = topo,
         cs_region_rate = rt_rate rt, cs_node_block = rt_block rt, cs_calls = rt_calls rt,
         cs_ctx_base = offsets_from 0 (rt_calls rt), cs_total_calls = sum_list (rt_calls rt),
         cs_out_base_sample = offsets_from 0 widths, cs_out_stride = strides,
         cs_total_output_samples = sum_list widths,
         cs_max_stride = (if mx = 0 then B else mx),
         cs_state_offset = fst (state_layout 0 (g_nodes g)),
         cs_state_bytes = map state_size (g_nodes g),
         cs_total_state_bytes = snd (state_layout 0 (g_nodes g)),
         cs_input_source = wire_inputs g, cs_param_source = wire_params g,
         cs_param_base = offsets_from 0 (map params_count (g_nodes g)),
         cs_total_params = sum_list (map params_count (g_nodes g))\<rparr>)"

definition compile :: "graph_blueprint \<Rightarrow> nat \<Rightarrow> compiled_schedule option" where
  "compile g B =
    (case kahn_order [0..<bp_size g] (graph_edges g) of
      None \<Rightarrow> None
    | Some (deg, topo) \<Rightarrow>
        if length topo \<noteq> bp_size g then None
        else
          (case propagate g B topo (initial_rates (bp_size g) B) of
            None \<Rightarrow> None
          | Some rt \<Rightarrow> Some (build_schedule g B topo rt)))"

section \<open>The order\<close>

lemma build_schedule_topo [simp]: "cs_topo_order (build_schedule g B topo rt) = topo"
  by (simp add: build_schedule_def Let_def)

lemma compile_Some:
  assumes "compile g B = Some s"
  obtains rt deg where "kahn_order [0..<bp_size g] (graph_edges g) = Some (deg, cs_topo_order s)"
    and "length (cs_topo_order s) = bp_size g"
    and "propagate g B (cs_topo_order s) (initial_rates (bp_size g) B) = Some rt"
    and "s = build_schedule g B (cs_topo_order s) rt"
  using assms by (auto simp: compile_def split: option.splits if_splits)

lemma graph_edges_iff:
  "(u, v) \<in> set (graph_edges g) \<longleftrightarrow> u \<in> set (sources_of g v)"
  by (auto simp: graph_edges_def sources_of_def)

lemma graph_edges_in_range:
  assumes "wiring_ok g"
  shows "\<forall>(u, v) \<in> set (graph_edges g). u \<in> set [0..<bp_size g] \<and> v \<in> set [0..<bp_size g]"
  using assms
  by (auto simp: graph_edges_def wiring_ok_def audio.well_wired_def modul.well_wired_def
      in_range_conn_def in_range_param_def)

lemma compile_topo:
  assumes "wiring_ok g" and "compile g B = Some s"
  shows "distinct (cs_topo_order s)" and "set (cs_topo_order s) = {..<bp_size g}"
    and "\<And>u v. u \<in> set (sources_of g v) \<Longrightarrow> before (cs_topo_order s) u v"
    and "acyclic (set (graph_edges g))"
proof -
  obtain deg topo where k: "kahn_order [0..<bp_size g] (graph_edges g) = Some (deg, topo)"
    and inv: "kahn_inv [0..<bp_size g] (graph_edges g) deg [] topo"
    using kahn_order_total [OF distinct_upt graph_edges_in_range [OF assms(1)]] by blast
  have len: "length topo = bp_size g" and s: "cs_topo_order s = topo"
    using compile_Some [OF assms(2)] k by auto
  have d: "distinct topo" and sub: "set topo \<subseteq> {..<bp_size g}"
    using kahn_inv_final(1,2) [OF inv] by auto
  have "card (set topo) = card {..<bp_size g}" using d len by (simp add: distinct_card)
  then have full: "set topo = {..<bp_size g}" using sub by (intro card_subset_eq) simp_all
  show "distinct (cs_topo_order s)" "set (cs_topo_order s) = {..<bp_size g}"
    using d full s by simp_all
  show "before (cs_topo_order s) u v" if "u \<in> set (sources_of g v)" for u v
  proof -
    have e: "(u, v) \<in> set (graph_edges g)" using that by (simp add: graph_edges_iff)
    then have "v \<in> set topo"
      using bspec [OF graph_edges_in_range [OF assms(1)] e] unfolding full by simp
    then show ?thesis unfolding s by (rule kahn_inv_final(3) [OF inv e])
  qed
  have "set topo = set [0..<bp_size g]"
    unfolding full by (simp add: atLeast0LessThan)
  then show "acyclic (set (graph_edges g))"
    using kahn_complete_iff [OF inv graph_edges_in_range [OF assms(1)]] by simp
qed

lemma acyclic_order:
  assumes "wiring_ok g" and "acyclic (set (graph_edges g))"
  obtains deg topo where "kahn_order [0..<bp_size g] (graph_edges g) = Some (deg, topo)"
    and "length topo = bp_size g" and "distinct topo" and "set topo = {..<bp_size g}"
    and "\<And>u v. u \<in> set (sources_of g v) \<Longrightarrow> before topo u v"
proof -
  obtain deg topo where k: "kahn_order [0..<bp_size g] (graph_edges g) = Some (deg, topo)"
    and inv: "kahn_inv [0..<bp_size g] (graph_edges g) deg [] topo"
    using kahn_order_total [OF distinct_upt graph_edges_in_range [OF assms(1)]] by blast
  have full: "set topo = set [0..<bp_size g]"
    using kahn_complete_iff [OF inv graph_edges_in_range [OF assms(1)]] assms(2) by simp
  have d: "distinct topo" using kahn_inv_final(1) [OF inv] .
  have len: "length topo = bp_size g" using distinct_card [OF d] unfolding full by simp
  have bef: "before topo u v" if "u \<in> set (sources_of g v)" for u v
  proof -
    have e: "(u, v) \<in> set (graph_edges g)" using that by (simp add: graph_edges_iff)
    have "v \<in> set topo" using bspec [OF graph_edges_in_range [OF assms(1)] e] unfolding full by simp
    then show ?thesis by (rule kahn_inv_final(3) [OF inv e])
  qed
  have "set topo = {..<bp_size g}" unfolding full by (simp add: atLeast0LessThan)
  from that [OF k len d this bef] show thesis .
qed

section \<open>Rates\<close>

lemma foldl_consider_src:
  "foldl (consider_src rt) (Some (r, b), ok) srcs =
    (Some (r, b), ok \<and> (\<forall>s \<in> set srcs. rt_rate rt ! s = r \<and> rt_exp rt ! s = b))"
  by (induction srcs arbitrary: ok) (auto simp: consider_src_def)

lemma foldl_consider_src_start:
  "foldl (consider_src rt) (None, True) srcs =
    (case srcs of
      [] \<Rightarrow> (None, True)
    | s # ss \<Rightarrow> (Some (rt_rate rt ! s, rt_exp rt ! s),
        \<forall>t \<in> set srcs. rt_rate rt ! t = rt_rate rt ! s \<and> rt_exp rt ! t = rt_exp rt ! s))"
  by (cases srcs) (auto simp: consider_src_def foldl_consider_src)

lemma node_rates_iff:
  "node_rates n B r b = Some (R, be, nb, C) \<longleftrightarrow>
    rate_den n \<noteq> 0 \<and> size_mul r (rate_num n) = R * rate_den n \<and> is_power_of_two R \<and>
    block_delta n = Some (be - b) \<and> block_at B be = Some nb \<and> 0 < nb \<and>
    nb * C = size_mul R B \<and> 0 < C"
  (is "?lhs \<longleftrightarrow> ?rhs")
proof
  assume ?lhs
  then show ?rhs
    by (auto simp: node_rates_def Let_def mult_div_mod_eq split: if_splits option.splits)
next
  assume r: ?rhs
  then have "size_mul R B mod nb = 0" "size_mul R B div nb = C"
    by (metis mod_mult_self1_is_0, metis nonzero_mult_div_cancel_left less_not_refl)
  with r show ?lhs by (simp add: node_rates_def Let_def)
qed

text \<open>
  A consistent assignment of rates at a node: its sources agree, and its own values follow
  from theirs (or from rate 1 and exponent 0 at a root) by the ratios of its type.
\<close>

definition rates_ok :: "graph_blueprint \<Rightarrow> nat \<Rightarrow> rates \<Rightarrow> nat \<Rightarrow> bool" where
  "rates_ok g B rt v \<longleftrightarrow>
    (\<exists>r b. (\<forall>u \<in> set (sources_of g v). rt_rate rt ! u = r \<and> rt_exp rt ! u = b) \<and>
       (sources_of g v = [] \<longrightarrow> r = 1 \<and> b = 0) \<and>
       node_rates (g_nodes g ! v) B (fst (base_of (Some (r, b)))) (snd (base_of (Some (r, b)))) =
         Some (rt_rate rt ! v, rt_exp rt ! v, rt_block rt ! v, rt_calls rt ! v))"

definition rates_length :: "rates \<Rightarrow> nat \<Rightarrow> bool" where
  "rates_length rt n \<longleftrightarrow> length (rt_rate rt) = n \<and> length (rt_exp rt) = n \<and>
     length (rt_block rt) = n \<and> length (rt_calls rt) = n"

definition same_at :: "rates \<Rightarrow> rates \<Rightarrow> nat \<Rightarrow> bool" where
  "same_at rt rt' w \<longleftrightarrow> rt_rate rt' ! w = rt_rate rt ! w \<and> rt_exp rt' ! w = rt_exp rt ! w \<and>
     rt_block rt' ! w = rt_block rt ! w \<and> rt_calls rt' ! w = rt_calls rt ! w"

lemma propagate_node_iff:
  "propagate_node g B rt v = Some rt' \<longleftrightarrow>
    (\<exists>r b R be nb C. (\<forall>u \<in> set (sources_of g v). rt_rate rt ! u = r \<and> rt_exp rt ! u = b) \<and>
       (sources_of g v = [] \<longrightarrow> r = 1 \<and> b = 0) \<and>
       node_rates (g_nodes g ! v) B (fst (base_of (Some (r, b)))) (snd (base_of (Some (r, b)))) =
         Some (R, be, nb, C) \<and>
       rt' = rt\<lparr>rt_rate := (rt_rate rt)[v := R], rt_exp := (rt_exp rt)[v := be],
         rt_block := (rt_block rt)[v := nb], rt_calls := (rt_calls rt)[v := C]\<rparr>)"
proof (cases "sources_of g v")
  case Nil
  have "base_of None = base_of (Some (1, 0))" by (simp add: base_of_def)
  with Nil show ?thesis
    by (auto simp: propagate_node_def split: option.splits)
next
  case (Cons s ss)
  then show ?thesis
    unfolding propagate_node_def foldl_consider_src_start
    by (auto split: option.splits)
qed

lemma propagate_node_ok:
  assumes "propagate_node g B rt v = Some rt'" and "v < n" and "rates_length rt n"
    and "v \<notin> set (sources_of g v)"
  shows "rates_ok g B rt' v" and "rates_length rt' n"
    and "\<And>w. w \<noteq> v \<Longrightarrow> same_at rt rt' w"
proof -
  obtain r b R be nb C where
    a: "\<forall>u \<in> set (sources_of g v). rt_rate rt ! u = r \<and> rt_exp rt ! u = b"
       "sources_of g v = [] \<longrightarrow> r = 1 \<and> b = 0"
    and n: "node_rates (g_nodes g ! v) B (fst (base_of (Some (r, b)))) (snd (base_of (Some (r, b)))) =
         Some (R, be, nb, C)"
    and e: "rt' = rt\<lparr>rt_rate := (rt_rate rt)[v := R], rt_exp := (rt_exp rt)[v := be],
       rt_block := (rt_block rt)[v := nb], rt_calls := (rt_calls rt)[v := C]\<rparr>"
    using assms(1) unfolding propagate_node_iff by blast
  have len: "v < length (rt_rate rt)" "v < length (rt_exp rt)" "v < length (rt_block rt)"
    "v < length (rt_calls rt)"
    using assms(2,3) by (auto simp: rates_length_def)
  have neq_at: "xs[v := x] ! u = xs ! u" if "u \<in> set (sources_of g v)" for u x and xs :: "nat list"
    using that assms(4) by (metis nth_list_update_neq)
  have neq_at2: "xs[v := x] ! u = xs ! u" if "u \<in> set (sources_of g v)" for u x and xs :: "int list"
    using that assms(4) by (metis nth_list_update_neq)
  have ne: "\<forall>u \<in> set (sources_of g v). rt_rate rt' ! u = r \<and> rt_exp rt' ! u = b"
    using a(1) assms(4) unfolding e by (simp add: neq_at neq_at2)
  have "node_rates (g_nodes g ! v) B (fst (base_of (Some (r, b)))) (snd (base_of (Some (r, b)))) =
         Some (rt_rate rt' ! v, rt_exp rt' ! v, rt_block rt' ! v, rt_calls rt' ! v)"
    using n len by (simp add: e)
  with ne a(2) show "rates_ok g B rt' v" unfolding rates_ok_def by blast
  show "rates_length rt' n" using assms(3) by (simp add: rates_length_def e)
  show "same_at rt rt' w" if "w \<noteq> v" for w using that by (simp add: same_at_def e)
qed

lemma rates_ok_cong:
  assumes "\<And>w. w \<in> insert v (set (sources_of g v)) \<Longrightarrow> same_at rt rt' w"
  shows "rates_ok g B rt' v = rates_ok g B rt v"
proof -
  have "(\<forall>u \<in> set (sources_of g v). rt_rate rt' ! u = r \<and> rt_exp rt' ! u = b) =
        (\<forall>u \<in> set (sources_of g v). rt_rate rt ! u = r \<and> rt_exp rt ! u = b)" for r b
    using assms by (auto simp: same_at_def)
  with assms [of v] show ?thesis by (simp add: rates_ok_def same_at_def)
qed

text \<open>A list that visits the sources of a node before the node.\<close>

definition sources_first :: "graph_blueprint \<Rightarrow> nat list \<Rightarrow> bool" where
  "sources_first g vs \<longleftrightarrow> distinct vs \<and>
    (\<forall>us v ws. vs = us @ v # ws \<longrightarrow> set (sources_of g v) \<inter> set (v # ws) = {})"

lemma sources_first_ConsD:
  assumes "sources_first g (v # vs)"
  shows "sources_first g vs" and "v \<notin> set vs" and "set (sources_of g v) \<inter> set (v # vs) = {}"
proof -
  have split: "set (sources_of g x) \<inter> set (x # ws) = {}" if "v # vs = us @ x # ws" for us x ws
    using assms that unfolding sources_first_def by blast
  show "v \<notin> set vs" using assms by (simp add: sources_first_def)
  show "set (sources_of g v) \<inter> set (v # vs) = {}" by (rule split [of "[]"]) simp
  have "set (sources_of g x) \<inter> set (x # ws) = {}" if "vs = us @ x # ws" for us x ws
    by (rule split [of "v # us"]) (simp add: that)
  then show "sources_first g vs" using assms by (auto simp: sources_first_def)
qed

lemma propagate_ok:
  assumes "propagate g B vs rt = Some rt'" and "sources_first g vs" and "set vs \<subseteq> {..<n}"
    and "rates_length rt n"
  shows "(\<forall>v \<in> set vs. rates_ok g B rt' v) \<and> rates_length rt' n \<and>
    (\<forall>w. w \<notin> set vs \<longrightarrow> same_at rt rt' w)"
  using assms
proof (induction vs arbitrary: rt)
  case Nil
  then show ?case by (simp add: same_at_def)
next
  case (Cons v vs)
  obtain rt1 where one: "propagate_node g B rt v = Some rt1" and rest: "propagate g B vs rt1 = Some rt'"
    using Cons.prems(1) by (auto split: option.splits)
  note first = sources_first_ConsD [OF Cons.prems(2)]
  have v: "v < n" "v \<notin> set (sources_of g v)" using Cons.prems(3) first(3) by auto
  note node = propagate_node_ok [OF one v(1) Cons.prems(4) v(2)]
  have IH: "(\<forall>x \<in> set vs. rates_ok g B rt' x) \<and> rates_length rt' n \<and>
    (\<forall>w. w \<notin> set vs \<longrightarrow> same_at rt1 rt' w)"
    using Cons.prems(3) by (intro Cons.IH [OF rest first(1) _ node(2)]) simp
  have "rates_ok g B rt' v = rates_ok g B rt1 v"
    using IH first(2,3) by (intro rates_ok_cong) auto
  moreover have "same_at rt rt' w" if "w \<notin> set (v # vs)" for w
    using that IH node(3) [of w] by (simp add: same_at_def)
  ultimately show ?case using IH node(1) by auto
qed

text \<open>
  Conversely, propagation succeeds along such a list whenever a consistent assignment
  exists, and computes it.
\<close>

lemma propagate_complete:
  assumes "sources_first g vs" and "set vs \<subseteq> {..<n}" and "rates_length rt n"
    and "\<forall>v \<in> set vs. rates_ok g B tgt v"
    and "\<forall>v \<in> set vs. \<forall>u \<in> set (sources_of g v). u \<notin> set vs \<longrightarrow> same_at tgt rt u"
  shows "\<exists>rt'. propagate g B vs rt = Some rt'"
  using assms
proof (induction vs arbitrary: rt)
  case Nil
  then show ?case by simp
next
  case (Cons v vs)
  note first = sources_first_ConsD [OF Cons.prems(1)]
  obtain r b where
    a: "\<forall>u \<in> set (sources_of g v). rt_rate tgt ! u = r \<and> rt_exp tgt ! u = b"
       "sources_of g v = [] \<longrightarrow> r = 1 \<and> b = 0"
    and n: "node_rates (g_nodes g ! v) B (fst (base_of (Some (r, b)))) (snd (base_of (Some (r, b)))) =
       Some (rt_rate tgt ! v, rt_exp tgt ! v, rt_block tgt ! v, rt_calls tgt ! v)"
    using Cons.prems(4) by (auto simp: rates_ok_def)
  have "\<forall>u \<in> set (sources_of g v). rt_rate rt ! u = r \<and> rt_exp rt ! u = b"
    using a(1) Cons.prems(5) first(3) by (fastforce simp: same_at_def)
  then obtain rt1 where one: "propagate_node g B rt v = Some rt1"
    and e: "rt1 = rt\<lparr>rt_rate := (rt_rate rt)[v := rt_rate tgt ! v],
       rt_exp := (rt_exp rt)[v := rt_exp tgt ! v],
       rt_block := (rt_block rt)[v := rt_block tgt ! v], rt_calls := (rt_calls rt)[v := rt_calls tgt ! v]\<rparr>"
    using a(2) n propagate_node_iff [of g B rt v] by blast
  have v: "v < n" using Cons.prems(2) by simp
  have at_v: "same_at tgt rt1 v"
    using v Cons.prems(3) by (simp add: same_at_def e rates_length_def)
  have else_w: "same_at tgt rt1 u" if "same_at tgt rt u" "u \<noteq> v" for u
    using that by (simp add: same_at_def e)
  have "\<exists>rt'. propagate g B vs rt1 = Some rt'"
  proof (rule Cons.IH [OF first(1)])
    show "set vs \<subseteq> {..<n}" "\<forall>x \<in> set vs. rates_ok g B tgt x" using Cons.prems(2,4) by auto
    show "rates_length rt1 n" using Cons.prems(3) by (simp add: rates_length_def e)
    show "\<forall>x \<in> set vs. \<forall>u \<in> set (sources_of g x). u \<notin> set vs \<longrightarrow> same_at tgt rt1 u"
      using Cons.prems(5) at_v else_w by (metis set_ConsD list.set_intros(2))
  qed
  with one show ?case by simp
qed

lemma initial_rates_length: "rates_length (initial_rates n B) n"
  by (simp add: rates_length_def initial_rates_def)

lemma before_sources_first:
  assumes "distinct vs" and "\<And>u v. v \<in> set vs \<Longrightarrow> u \<in> set (sources_of g v) \<Longrightarrow> before vs u v"
  shows "sources_first g vs"
proof -
  have "set (sources_of g v) \<inter> set (v # ws) = {}" if split: "vs = us @ v # ws" for us v ws
  proof -
    have "u \<in> set us" if u: "u \<in> set (sources_of g v)" for u
    proof -
      obtain as bs where s1: "vs = as @ v # bs" and u: "u \<in> set as"
        using assms(2) [OF _ u] split by (auto simp: before_def)
      have "as @ v # bs = us @ v # ws" using s1 split by (rule trans [OF sym])
      moreover have "distinct (as @ v # bs)" using s1 assms(1) by metis
      ultimately show ?thesis using distinct_split_unique u by metis
    qed
    then show ?thesis using assms(1) split by auto
  qed
  then show ?thesis using assms(1) by (auto simp: sources_first_def)
qed

lemma compile_rates:
  assumes "wiring_ok g" and "compile g B = Some s"
  obtains rt where "s = build_schedule g B (cs_topo_order s) rt" and "rates_length rt (bp_size g)"
    and "\<And>v. v < bp_size g \<Longrightarrow> rates_ok g B rt v"
proof -
  note topo = compile_topo [OF assms]
  obtain rt where p: "propagate g B (cs_topo_order s) (initial_rates (bp_size g) B) = Some rt"
    and s: "s = build_schedule g B (cs_topo_order s) rt"
    using compile_Some [OF assms(2)] by metis
  have "sources_first g (cs_topo_order s)" by (rule before_sources_first [OF topo(1,3)])
  then have "(\<forall>v \<in> set (cs_topo_order s). rates_ok g B rt v) \<and> rates_length rt (bp_size g)"
    using propagate_ok [OF p _ _ initial_rates_length] topo(2) by blast
  then show thesis using that s topo(2) by auto
qed

text \<open>
  Compilation succeeds exactly when the dependencies are acyclic and a consistent
  assignment of rates exists.
\<close>

lemma compile_iff:
  assumes w: "wiring_ok g"
  shows "(\<exists>s. compile g B = Some s) \<longleftrightarrow>
    acyclic (set (graph_edges g)) \<and>
    (\<exists>rt. rates_length rt (bp_size g) \<and> (\<forall>v < bp_size g. rates_ok g B rt v))"
proof
  assume "\<exists>s. compile g B = Some s"
  then obtain s where s: "compile g B = Some s" by blast
  obtain rt where "rates_length rt (bp_size g)" "\<And>v. v < bp_size g \<Longrightarrow> rates_ok g B rt v"
    by (rule compile_rates [OF w s]) blast
  with compile_topo(4) [OF w s] show "acyclic (set (graph_edges g)) \<and>
    (\<exists>rt. rates_length rt (bp_size g) \<and> (\<forall>v < bp_size g. rates_ok g B rt v))" by blast
next
  assume r: "acyclic (set (graph_edges g)) \<and>
    (\<exists>rt. rates_length rt (bp_size g) \<and> (\<forall>v < bp_size g. rates_ok g B rt v))"
  then obtain tgt where tgt: "\<forall>v < bp_size g. rates_ok g B tgt v" by blast
  obtain deg topo where k: "kahn_order [0..<bp_size g] (graph_edges g) = Some (deg, topo)"
    and len: "length topo = bp_size g" and d: "distinct topo" and full: "set topo = {..<bp_size g}"
    and bef: "\<And>u v. u \<in> set (sources_of g v) \<Longrightarrow> before topo u v"
    using acyclic_order [OF w] r by blast
  have first: "sources_first g topo" by (rule before_sources_first [OF d bef])
  have src: "u \<in> set topo" if "u \<in> set (sources_of g v)" for u v
    using bef [OF that] by (auto simp: before_def)
  have "\<exists>rt'. propagate g B topo (initial_rates (bp_size g) B) = Some rt'"
    using full tgt src by (intro propagate_complete [OF first _ initial_rates_length]) auto
  with k len show "\<exists>s. compile g B = Some s" by (auto simp: compile_def)
qed

section \<open>Single-rate graphs\<close>

definition single_rate :: "graph_blueprint \<Rightarrow> bool" where
  "single_rate g \<longleftrightarrow> (\<forall>n \<in> set (g_nodes g).
     rate_num n = 1 \<and> rate_den n = 1 \<and> block_num n = 1 \<and> block_den n = 1)"

lemma node_rates_single:
  assumes "rate_num n = 1" "rate_den n = 1" "block_num n = 1" "block_den n = 1"
    and "0 < B" "B < 2 ^ 64"
  shows "node_rates n B 1 0 = Some (1, 0, B, 1)"
proof -
  have "size_mul 1 B = B" "size_mul B 1 = B" "size_mul 1 1 = 1" using assms(6) by (simp_all add: size_mul_def)
  moreover have "is_power_of_two 1" by (simp add: is_power_of_two_iff exI [of _ 0])
  ultimately show ?thesis
    using assms by (simp add: node_rates_def Let_def block_delta_def block_at_def)
qed

lemma single_rate_ok:
  assumes w: "wiring_ok g" and "single_rate g" and "0 < B" "B < 2 ^ 64" and v: "v < bp_size g"
  shows "rates_ok g B (initial_rates (bp_size g) B) v"
proof -
  have "g_nodes g ! v \<in> set (g_nodes g)" using v by (simp add: bp_size_def)
  then have "node_rates (g_nodes g ! v) B 1 0 = Some (1, 0, B, 1)"
    using assms by (intro node_rates_single) (simp_all add: single_rate_def)
  moreover have "u < bp_size g" if "u \<in> set (sources_of g v)" for u
    using bspec [OF graph_edges_in_range [OF w]] that by (auto simp: graph_edges_iff [symmetric])
  ultimately show ?thesis
    using v unfolding rates_ok_def
    by (intro exI [of _ 1] exI [of _ 0]) (simp add: base_of_def initial_rates_def)
qed

lemma replicate_update_same: "(replicate n x)[v := x] = replicate n x"
  by (cases "v < n") (simp_all add: list_update_same_conv list_update_beyond)

lemma propagate_single_rate:
  assumes w: "wiring_ok g" and "single_rate g" and "0 < B" "B < 2 ^ 64" and "set vs \<subseteq> {..<bp_size g}"
  shows "propagate g B vs (initial_rates (bp_size g) B) = Some (initial_rates (bp_size g) B)"
  using assms(5)
proof (induction vs)
  case Nil
  then show ?case by simp
next
  case (Cons v vs)
  let ?rt = "initial_rates (bp_size g) B"
  have v: "v < bp_size g" using Cons.prems by simp
  have "g_nodes g ! v \<in> set (g_nodes g)" using v by (simp add: bp_size_def)
  then have n: "node_rates (g_nodes g ! v) B 1 0 = Some (1, 0, B, 1)"
    using assms(2-4) by (intro node_rates_single) (simp_all add: single_rate_def)
  have "u < bp_size g" if "u \<in> set (sources_of g v)" for u
    using bspec [OF graph_edges_in_range [OF w]] that by (auto simp: graph_edges_iff [symmetric])
  then have "\<forall>u \<in> set (sources_of g v). rt_rate ?rt ! u = 1 \<and> rt_exp ?rt ! u = 0"
    by (simp add: initial_rates_def)
  moreover have "node_rates (g_nodes g ! v) B (fst (base_of (Some (1, 0)))) (snd (base_of (Some (1, 0)))) =
      Some (1, 0, B, 1)"
    using n by (simp add: base_of_def)
  moreover have "?rt = ?rt\<lparr>rt_rate := (rt_rate ?rt)[v := 1], rt_exp := (rt_exp ?rt)[v := 0],
      rt_block := (rt_block ?rt)[v := B], rt_calls := (rt_calls ?rt)[v := 1]\<rparr>"
    by (simp add: initial_rates_def replicate_update_same)
  ultimately have "propagate_node g B ?rt v = Some ?rt" unfolding propagate_node_iff by blast
  with Cons show ?case by simp
qed

section \<open>Layout\<close>

lemma state_layout_length: "length (fst (state_layout a ns)) = length ns"
  by (induction a ns rule: state_layout.induct) (auto simp: Let_def split: prod.splits)

lemma align_up_zero_pow2: "is_power_of_two a \<Longrightarrow> a dvd align_up x a \<and> x \<le> align_up x a"
  using align_up_bounds by blast

lemma state_layout_bounds:
  assumes "\<forall>n \<in> set ns. is_power_of_two (state_align n)"
  shows "a \<le> snd (state_layout a ns) \<and>
    (\<forall>i < length ns. 0 < state_size (ns ! i) \<longrightarrow>
       state_align (ns ! i) dvd fst (state_layout a ns) ! i \<and> a \<le> fst (state_layout a ns) ! i \<and>
       fst (state_layout a ns) ! i + state_size (ns ! i) \<le> snd (state_layout a ns))"
  using assms
proof (induction a ns rule: state_layout.induct)
  case (1 a)
  then show ?case by simp
next
  case (2 a n ns)
  have al: "state_align n dvd align_up a (state_align n)" "a \<le> align_up a (state_align n)"
    using "2.prems" by (simp_all add: align_up_zero_pow2)
  show ?case
  proof (cases "0 < state_size n")
    case True
    let ?b = "align_up a (state_align n) + state_size n"
    obtain offs e where o: "state_layout ?b ns = (offs, e)" by fastforce
    have IH: "?b \<le> e \<and> (\<forall>i < length ns. 0 < state_size (ns ! i) \<longrightarrow>
        state_align (ns ! i) dvd offs ! i \<and> ?b \<le> offs ! i \<and> offs ! i + state_size (ns ! i) \<le> e)"
      using "2.IH"(1) [OF True refl] "2.prems" o by simp
    show ?thesis
    proof (intro conjI allI impI)
      show "a \<le> snd (state_layout a (n # ns))" using True o IH al by (simp add: Let_def)
    next
      fix i
      assume "i < length (n # ns)" "0 < state_size ((n # ns) ! i)"
      then show "state_align ((n # ns) ! i) dvd fst (state_layout a (n # ns)) ! i"
        "a \<le> fst (state_layout a (n # ns)) ! i"
        "fst (state_layout a (n # ns)) ! i + state_size ((n # ns) ! i) \<le> snd (state_layout a (n # ns))"
        using True o IH al by (cases i; force simp: Let_def)+
    qed
  next
    case False
    obtain offs e where o: "state_layout a ns = (offs, e)" by fastforce
    have IH: "a \<le> e \<and> (\<forall>i < length ns. 0 < state_size (ns ! i) \<longrightarrow>
        state_align (ns ! i) dvd offs ! i \<and> a \<le> offs ! i \<and> offs ! i + state_size (ns ! i) \<le> e)"
      using "2.IH"(2) [OF False] "2.prems" o by simp
    show ?thesis
      using False o IH by (auto simp: nth_Cons split: nat.splits)
  qed
qed

lemma state_layout_disjoint:
  assumes "\<forall>n \<in> set ns. is_power_of_two (state_align n)"
    and "i < j" and "j < length ns" and "0 < state_size (ns ! i)" and "0 < state_size (ns ! j)"
  shows "fst (state_layout a ns) ! i + state_size (ns ! i) \<le> fst (state_layout a ns) ! j"
  using assms
proof (induction a ns arbitrary: i j rule: state_layout.induct)
  case (1 a)
  then show ?case by simp
next
  case (2 a n ns)
  obtain j' where j: "j = Suc j'" using "2.prems"(2) by (cases j) auto
  show ?case
  proof (cases "0 < state_size n")
    case True
    let ?b = "align_up a (state_align n) + state_size n"
    obtain offs e where o: "state_layout ?b ns = (offs, e)" by fastforce
    have bounds: "\<forall>i < length ns. 0 < state_size (ns ! i) \<longrightarrow> ?b \<le> offs ! i"
      using state_layout_bounds [of ns ?b] "2.prems"(1) o by simp
    show ?thesis
    proof (cases i)
      case 0
      then show ?thesis using True o bounds j "2.prems" by (simp add: Let_def)
    next
      case (Suc i')
      have "offs ! i' + state_size (ns ! i') \<le> offs ! j'"
        using "2.IH"(1) [OF True refl, of i' j'] "2.prems" Suc j o by simp
      then show ?thesis using True o Suc j by (simp add: Let_def)
    qed
  next
    case False
    obtain offs e where o: "state_layout a ns = (offs, e)" by fastforce
    obtain i' where i: "i = Suc i'" using False "2.prems"(4) by (cases i) auto
    have "offs ! i' + state_size (ns ! i') \<le> offs ! j'"
      using "2.IH"(2) [OF False, of i' j'] "2.prems" i j o by simp
    then show ?thesis using False o i j by simp
  qed
qed

section \<open>Wiring\<close>

text \<open>Assigning to a table of rows, one cell per connection with its own sink.\<close>

lemma table_cell_lengths:
  "v < length w \<Longrightarrow> length (w[a := (w ! a)[b := y]] ! v) = length (w ! v)"
  by (cases "v = a") simp_all

lemma foldl_table_lookup:
  assumes "distinct (map (\<lambda>c. (d c, p c)) cs)" and "v < length w" and "i < length (w ! v)"
  shows "foldl (\<lambda>w c. w[d c := (w ! d c)[p c := x c]]) w cs ! v ! i =
    (case map_of (map (\<lambda>c. ((d c, p c), x c)) cs) (v, i) of Some y \<Rightarrow> y | None \<Rightarrow> w ! v ! i)"
  using assms
proof (induction cs arbitrary: w)
  case Nil
  then show ?case by simp
next
  case (Cons c cs)
  let ?w = "w[d c := (w ! d c)[p c := x c]]"
  have v: "v < length ?w" "i < length (?w ! v)"
    using Cons.prems(2,3) by (simp_all add: table_cell_lengths)
  have IH: "foldl (\<lambda>w c. w[d c := (w ! d c)[p c := x c]]) ?w cs ! v ! i =
    (case map_of (map (\<lambda>c. ((d c, p c), x c)) cs) (v, i) of Some y \<Rightarrow> y | None \<Rightarrow> ?w ! v ! i)"
    using Cons.prems(1) by (intro Cons.IH [OF _ v]) simp
  show ?case
  proof (cases "(d c, p c) = (v, i)")
    case True
    then have "map_of (map (\<lambda>c. ((d c, p c), x c)) cs) (v, i) = None"
      using Cons.prems(1) by (force simp: map_of_eq_None_iff)
    then show ?thesis using IH True Cons.prems(2,3) by simp
  next
    case False
    then have "?w ! v ! i = w ! v ! i" using Cons.prems(2) by (cases "v = d c") auto
    then show ?thesis using IH False by (auto split: option.splits)
  qed
qed

lemma foldl_table_lengths:
  "length (foldl (\<lambda>w c. w[d c := (w ! d c)[p c := x c]]) w cs) = length w \<and>
   (v < length w \<longrightarrow>
     length (foldl (\<lambda>w c. w[d c := (w ! d c)[p c := x c]]) w cs ! v) = length (w ! v))"
  by (induction cs arbitrary: w) (simp_all add: table_cell_lengths)

lemma map_of_sinks:
  assumes "distinct (map key cs)"
  shows "map_of (map (\<lambda>c. (key c, x c)) cs) k = Some y \<longleftrightarrow> (\<exists>c \<in> set cs. key c = k \<and> x c = y)"
proof -
  have "distinct (map fst (map (\<lambda>c. (key c, x c)) cs))" using assms by (simp add: comp_def)
  then show ?thesis by (subst map_of_eq_Some_iff) auto
qed

lemma connection_collapse [simp]:
  "\<lparr>bc_src_node = bc_src_node c, bc_src_output = bc_src_output c,
    bc_dst_node = bc_dst_node c, bc_dst_input = bc_dst_input c\<rparr> = (c :: blueprint_connection)"
  "\<lparr>pc_src_node = pc_src_node d, pc_src_output = pc_src_output d,
    pc_dst_node = pc_dst_node d, pc_dst_param = pc_dst_param d\<rparr> = (d :: param_connection)"
  by simp_all

lemma wire_inputs_iff:
  assumes "wiring_ok g" and "v < bp_size g" and "i < inputs_count (g_nodes g ! v)"
  shows "wire_inputs g ! v ! i = Some (u, k) \<longleftrightarrow>
    \<lparr>bc_src_node = u, bc_src_output = k, bc_dst_node = v, bc_dst_input = i\<rparr> \<in> set (g_connections g)"
proof -
  have "distinct (map bc_sink (g_connections g))"
    using assms(1) by (simp add: wiring_ok_def audio.well_wired_def)
  then have d: "distinct (map (\<lambda>c. (bc_dst_node c, bc_dst_input c)) (g_connections g))"
    unfolding bc_sink_def [abs_def] .
  let ?M = "map_of (map (\<lambda>c. ((bc_dst_node c, bc_dst_input c), Some (bc_src_node c, bc_src_output c)))
     (g_connections g)) (v, i)"
  have "wire_inputs g ! v ! i = (case ?M of Some y \<Rightarrow> y | None \<Rightarrow> None)"
    unfolding wire_inputs_def
    using assms(2,3) by (subst foldl_table_lookup [OF d]) (simp_all add: bp_size_def split: option.split)
  then have "wire_inputs g ! v ! i = Some (u, k) \<longleftrightarrow> ?M = Some (Some (u, k))"
    by (simp split: option.splits)
  also have "\<dots> \<longleftrightarrow> (\<exists>c \<in> set (g_connections g). (bc_dst_node c, bc_dst_input c) = (v, i) \<and>
      Some (bc_src_node c, bc_src_output c) = Some (u, k))"
    by (rule map_of_sinks [OF d])
  also have "\<dots> \<longleftrightarrow>
    \<lparr>bc_src_node = u, bc_src_output = k, bc_dst_node = v, bc_dst_input = i\<rparr> \<in> set (g_connections g)"
    by (auto intro: bexI [rotated])
  finally show ?thesis .
qed

lemma wire_params_iff:
  assumes "wiring_ok g" and "v < bp_size g" and "i < params_count (g_nodes g ! v)"
  shows "wire_params g ! v ! i = Some (u, k) \<longleftrightarrow>
    \<lparr>pc_src_node = u, pc_src_output = k, pc_dst_node = v, pc_dst_param = i\<rparr>
      \<in> set (g_param_connections g)"
proof -
  have "distinct (map pc_sink (g_param_connections g))"
    using assms(1) by (simp add: wiring_ok_def modul.well_wired_def)
  then have d: "distinct (map (\<lambda>c. (pc_dst_node c, pc_dst_param c)) (g_param_connections g))"
    unfolding pc_sink_def [abs_def] .
  let ?M = "map_of (map (\<lambda>c. ((pc_dst_node c, pc_dst_param c), Some (pc_src_node c, pc_src_output c)))
     (g_param_connections g)) (v, i)"
  have "wire_params g ! v ! i = (case ?M of Some y \<Rightarrow> y | None \<Rightarrow> None)"
    unfolding wire_params_def
    using assms(2,3) by (subst foldl_table_lookup [OF d]) (simp_all add: bp_size_def split: option.split)
  then have "wire_params g ! v ! i = Some (u, k) \<longleftrightarrow> ?M = Some (Some (u, k))"
    by (simp split: option.splits)
  also have "\<dots> \<longleftrightarrow> (\<exists>c \<in> set (g_param_connections g). (pc_dst_node c, pc_dst_param c) = (v, i) \<and>
      Some (pc_src_node c, pc_src_output c) = Some (u, k))"
    by (rule map_of_sinks [OF d])
  also have "\<dots> \<longleftrightarrow>
    \<lparr>pc_src_node = u, pc_src_output = k, pc_dst_node = v, pc_dst_param = i\<rparr>
      \<in> set (g_param_connections g)"
    by (auto intro: bexI [rotated])
  finally show ?thesis .
qed

section \<open>Layout and wiring of a compiled schedule\<close>

lemma throughput:
  assumes "wiring_ok g" and "compile g B = Some s" and "is_power_of_two B" and "v < bp_size g"
  shows "cs_node_block s ! v * cs_calls s ! v = cs_region_rate s ! v * B \<and>
    cs_out_stride s ! v = cs_region_rate s ! v * B \<and>
    0 < cs_node_block s ! v \<and> 0 < cs_calls s ! v \<and> is_power_of_two (cs_region_rate s ! v)"
proof -
  obtain rt where s: "s = build_schedule g B (cs_topo_order s) rt"
    and len: "rates_length rt (bp_size g)" and ok: "rates_ok g B rt v"
    using compile_rates [OF assms(1,2)] assms(4) by metis
  have r: "is_power_of_two (rt_rate rt ! v)" "0 < rt_block rt ! v" "0 < rt_calls rt ! v"
    "rt_block rt ! v * rt_calls rt ! v = size_mul (rt_rate rt ! v) B"
    using ok by (auto simp: rates_ok_def node_rates_iff)
  then have "size_mul (rt_rate rt ! v) B = rt_rate rt ! v * B"
    using assms(3) by (intro size_mul_pow2) (auto simp flip: r(4))
  moreover have "cs_region_rate s = rt_rate rt" "cs_node_block s = rt_block rt"
    "cs_calls s = rt_calls rt" "cs_out_stride s = map (\<lambda>r. r * B) (rt_rate rt)"
    by (subst s, simp add: build_schedule_def Let_def)+
  ultimately show ?thesis using r len assms(4) by (simp add: rates_length_def)
qed

lemma output_layout:
  assumes "wiring_ok g" and "compile g B = Some s" and "v < bp_size g"
  shows "cs_out_base_sample s ! v + outputs_count (g_nodes g ! v) * cs_out_stride s ! v
      \<le> cs_total_output_samples s \<and>
    (\<forall>w. v < w \<and> w < bp_size g \<longrightarrow>
      cs_out_base_sample s ! v + outputs_count (g_nodes g ! v) * cs_out_stride s ! v
        \<le> cs_out_base_sample s ! w)"
proof -
  obtain rt where s: "s = build_schedule g B (cs_topo_order s) rt"
    and len: "rates_length rt (bp_size g)"
    using compile_rates [OF assms(1,2)] by metis
  let ?ws = "map2 (\<lambda>n s. outputs_count n * s) (g_nodes g) (map (\<lambda>r. r * B) (rt_rate rt))"
  have f: "cs_out_base_sample s = offsets_from 0 ?ws" "cs_total_output_samples s = sum_list ?ws"
    "cs_out_stride s = map (\<lambda>r. r * B) (rt_rate rt)"
    by (subst s, simp add: build_schedule_def Let_def)+
  have l: "length ?ws = bp_size g" using len by (simp add: rates_length_def bp_size_def)
  have w: "?ws ! v = outputs_count (g_nodes g ! v) * cs_out_stride s ! v" if "v < bp_size g" for v
    using that len by (simp add: f rates_length_def bp_size_def)
  show ?thesis
    using offsets_from_bound [of v ?ws 0] offsets_from_disjoint [of v _ ?ws 0] assms(3)
    unfolding f(1,2) l w [OF assms(3)] by simp
qed

lemma wiring_tables:
  assumes "wiring_ok g" and "compile g B = Some s" and "v < bp_size g"
  shows "(\<forall>i < inputs_count (g_nodes g ! v).
       cs_input_source s ! v ! i = Some (u, k) \<longleftrightarrow>
       \<lparr>bc_src_node = u, bc_src_output = k, bc_dst_node = v, bc_dst_input = i\<rparr>
         \<in> set (g_connections g)) \<and>
    (\<forall>i < params_count (g_nodes g ! v).
       cs_param_source s ! v ! i = Some (u, k) \<longleftrightarrow>
       \<lparr>pc_src_node = u, pc_src_output = k, pc_dst_node = v, pc_dst_param = i\<rparr>
         \<in> set (g_param_connections g))"
proof -
  obtain rt where s: "s = build_schedule g B (cs_topo_order s) rt"
    using compile_Some [OF assms(2)] by metis
  have "cs_input_source s = wire_inputs g" "cs_param_source s = wire_params g"
    by (subst s, simp add: build_schedule_def Let_def)+
  then show ?thesis using wire_inputs_iff [OF assms(1,3)] wire_params_iff [OF assms(1,3)] by simp
qed

lemma single_rate_each:
  assumes "wiring_ok g" and "single_rate g" and "acyclic (set (graph_edges g))"
    and "0 < B" and "B < 2 ^ 64"
  shows "\<exists>s. compile g B = Some s \<and>
    (\<forall>v < bp_size g. cs_region_rate s ! v = 1 \<and> cs_calls s ! v = 1 \<and> cs_node_block s ! v = B)"
proof -
  let ?rt = "initial_rates (bp_size g) B"
  have ok: "\<forall>v < bp_size g. rates_ok g B ?rt v" using single_rate_ok assms by blast
  then obtain s where s: "compile g B = Some s"
    using compile_iff [OF assms(1)] assms(3) initial_rates_length by blast
  obtain rt where e: "s = build_schedule g B (cs_topo_order s) rt"
    and p: "propagate g B (cs_topo_order s) ?rt = Some rt"
    using compile_Some [OF s] by metis
  note topo = compile_topo [OF assms(1) s]
  have "same_at ?rt rt v" if "v < bp_size g" for v
  proof -
    have "rt = ?rt"
      using propagate_single_rate [OF assms(1,2,4,5), of "cs_topo_order s"] p topo(2) by simp
    then show ?thesis by (simp add: same_at_def)
  qed
  moreover have "cs_region_rate s = rt_rate rt" "cs_node_block s = rt_block rt" "cs_calls s = rt_calls rt"
    by (subst e, simp add: build_schedule_def Let_def)+
  ultimately have "\<forall>v < bp_size g. cs_region_rate s ! v = 1 \<and> cs_calls s ! v = 1 \<and> cs_node_block s ! v = B"
    by (simp add: same_at_def initial_rates_def)
  with s show ?thesis by blast
qed

section \<open>An example graph\<close>

text \<open>An oscillator into a gain, built with the operations of the blueprint.\<close>

definition tone_graph :: graph_blueprint where
  "tone_graph =
    snd (connect
      (snd (add_named (snd (add_named empty_blueprint ''osc'' (Oscillator (f64_of_int 440)))) ''amp''
        (Gain (f64_lit 1 2))))
      \<lparr>bc_src_node = 0, bc_src_output = 0, bc_dst_node = 1, bc_dst_input = 0\<rparr>)"

lemma tone_graph_eq:
  "g_nodes tone_graph = [Oscillator (f64_of_int 440), Gain (f64_lit 1 2)]"
  "g_connections tone_graph = [\<lparr>bc_src_node = 0, bc_src_output = 0, bc_dst_node = 1, bc_dst_input = 0\<rparr>]"
  "g_param_connections tone_graph = []"
  "bp_size tone_graph = 2"
  by (simp_all add: tone_graph_def connect_def add_named_def empty_blueprint_def bp_size_def)

lemma tone_graph_ok: "blueprint_ok tone_graph"
  unfolding tone_graph_def by (intro wf_intros)

lemma tone_graph_wired: "wiring_ok tone_graph"
  using tone_graph_ok by (simp add: blueprint_ok_def)

lemma tone_graph_acyclic: "acyclic (set (graph_edges tone_graph))"
  by (simp add: graph_edges_def tone_graph_eq) (simp add: acyclic_def)

lemma tone_graph_single: "single_rate tone_graph"
  by (simp add: single_rate_def tone_graph_eq)

lemma tone_graph_compiles: "\<exists>s. compile tone_graph 64 = Some s"
  unfolding compile_iff [OF tone_graph_wired]
  using tone_graph_acyclic initial_rates_length
    single_rate_ok [OF tone_graph_wired tone_graph_single, of 64] by auto

section \<open>Properties\<close>

text \<open>C2: \<open>compile\<close> accepts a wired blueprint exactly when its dependencies are acyclic and its
  nodes admit a consistent assignment of rates and block sizes; every other blueprint is
  rejected.\<close>

theorem compile_accepts_iff:
  assumes "wiring_ok g"
  shows "(\<exists>s. compile g B = Some s) \<longleftrightarrow>
    acyclic (set (graph_edges g)) \<and>
    (\<exists>rt. rates_length rt (bp_size g) \<and> (\<forall>v < bp_size g. rates_ok g B rt v))"
  using assms by (rule compile_iff)

theorem compile_accepts_iff_witness:
  "\<exists>s. compile tone_graph 64 = Some s"
  unfolding compile_accepts_iff [OF tone_graph_wired]
  using tone_graph_acyclic initial_rates_length
    single_rate_ok [OF tone_graph_wired tone_graph_single, of 64] by auto

text \<open>C18: In a compiled schedule the execution order is a permutation of the nodes in which the
  source of every audio connection and of every modulation comes before its destination.\<close>

theorem compile_topological:
  assumes "wiring_ok g" and "compile g B = Some s"
  shows "distinct (cs_topo_order s) \<and> set (cs_topo_order s) = {..<bp_size g} \<and>
    (\<forall>c \<in> set (g_connections g). before (cs_topo_order s) (bc_src_node c) (bc_dst_node c)) \<and>
    (\<forall>c \<in> set (g_param_connections g). before (cs_topo_order s) (pc_src_node c) (pc_dst_node c))"
  using compile_topo [OF assms] by (auto simp: sources_of_def)

theorem compile_topological_witness:
  "\<exists>s. compile tone_graph 64 = Some s \<and> before (cs_topo_order s) 0 1"
proof -
  obtain s where s: "compile tone_graph 64 = Some s" using tone_graph_compiles by blast
  from compile_topological [OF tone_graph_wired s] have "before (cs_topo_order s) 0 1"
    by (simp add: tone_graph_eq)
  with s show ?thesis by blast
qed

text \<open>C19: With a power-of-two block size, every node of a compiled schedule produces its whole
  per-cycle stride in its calls: the samples per call times the calls are the region rate times
  the block size, all three positive, and the region rate is a power of two.\<close>

theorem compile_throughput:
  assumes "wiring_ok g" and "compile g B = Some s" and "is_power_of_two B" and "v < bp_size g"
  shows "cs_node_block s ! v * cs_calls s ! v = cs_region_rate s ! v * B \<and>
    cs_out_stride s ! v = cs_region_rate s ! v * B \<and>
    0 < cs_node_block s ! v \<and> 0 < cs_calls s ! v \<and> is_power_of_two (cs_region_rate s ! v)"
  using assms by (rule throughput)

theorem compile_throughput_witness:
  "\<exists>s. compile tone_graph 64 = Some s \<and> cs_node_block s ! 1 * cs_calls s ! 1 = cs_region_rate s ! 1 * 64"
proof -
  obtain s where s: "compile tone_graph 64 = Some s" using tone_graph_compiles by blast
  have "is_power_of_two 64" by (simp add: is_power_of_two_iff exI [of _ 6])
  with compile_throughput [OF tone_graph_wired s this, of 1] s show ?thesis
    by (simp add: tone_graph_eq)
qed

text \<open>A wired, acyclic graph whose nodes keep the sample rate and the block size compiles at
  every positive block size, and each of its nodes then runs once per cycle, at the base rate,
  on the whole block.\<close>

theorem single_rate_compiles:
  assumes "wiring_ok g" and "single_rate g" and "acyclic (set (graph_edges g))"
    and "0 < B" and "B < 2 ^ 64"
  shows "\<exists>s. compile g B = Some s \<and>
    (\<forall>v < bp_size g. cs_region_rate s ! v = 1 \<and> cs_calls s ! v = 1 \<and> cs_node_block s ! v = B)"
  using assms by (rule single_rate_each)

theorem single_rate_compiles_witness:
  "\<exists>s. compile tone_graph 64 = Some s \<and> cs_calls s ! 0 = 1 \<and> cs_node_block s ! 1 = 64"
  using single_rate_compiles [OF tone_graph_wired tone_graph_single tone_graph_acyclic, of 64]
  by (fastforce simp: tone_graph_eq)



text \<open>When every node asks for a power-of-two alignment, the state block of each stateful node
  is aligned as asked, ends inside the state region, and ends before the block of any later
  stateful node starts.\<close>

theorem state_blocks_disjoint:
  assumes "compile g B = Some s" and "\<forall>n \<in> set (g_nodes g). is_power_of_two (state_align n)"
    and "v < bp_size g" and "0 < cs_state_bytes s ! v"
  shows "state_align (g_nodes g ! v) dvd cs_state_offset s ! v \<and>
    cs_state_offset s ! v + cs_state_bytes s ! v \<le> cs_total_state_bytes s \<and>
    (\<forall>w. v < w \<and> w < bp_size g \<and> 0 < cs_state_bytes s ! w \<longrightarrow>
       cs_state_offset s ! v + cs_state_bytes s ! v \<le> cs_state_offset s ! w)"
proof -
  obtain rt where s: "s = build_schedule g B (cs_topo_order s) rt"
    using compile_Some [OF assms(1)] by metis
  have f: "cs_state_offset s = fst (state_layout 0 (g_nodes g))"
    "cs_total_state_bytes s = snd (state_layout 0 (g_nodes g))"
    "cs_state_bytes s = map state_size (g_nodes g)"
    by (subst s, simp add: build_schedule_def Let_def)+
  show ?thesis
    using state_layout_bounds [OF assms(2), of 0] state_layout_disjoint [OF assms(2), of v _ 0]
      assms(3,4)
    unfolding f by (auto simp: bp_size_def)
qed

theorem state_blocks_disjoint_witness:
  "\<exists>s. compile tone_graph 64 = Some s \<and> 8 dvd cs_state_offset s ! 0 \<and>
    cs_state_offset s ! 0 + cs_state_bytes s ! 0 \<le> cs_total_state_bytes s"
proof -
  obtain s where s: "compile tone_graph 64 = Some s" using tone_graph_compiles by blast
  obtain rt where e: "s = build_schedule tone_graph 64 (cs_topo_order s) rt"
    using compile_Some [OF s] by metis
  have "is_power_of_two 8" by (simp add: is_power_of_two_iff exI [of _ 3])
  then have a: "\<forall>n \<in> set (g_nodes tone_graph). is_power_of_two (state_align n)"
    by (simp add: tone_graph_eq)
  have b: "0 < cs_state_bytes s ! 0"
    by (subst e, simp add: build_schedule_def Let_def tone_graph_eq)
  from state_blocks_disjoint [OF s a _ b] s show ?thesis by (simp add: tone_graph_eq)
qed

text \<open>C20: The compiled wiring is the wiring of the blueprint: an audio input, or a control port, has
  a producer channel exactly when a connection from that channel drives it, and is silent when
  none does.\<close>

theorem compile_wiring:
  assumes "wiring_ok g" and "compile g B = Some s" and "v < bp_size g"
  shows "(\<forall>i < inputs_count (g_nodes g ! v).
       cs_input_source s ! v ! i = Some (u, k) \<longleftrightarrow>
       \<lparr>bc_src_node = u, bc_src_output = k, bc_dst_node = v, bc_dst_input = i\<rparr>
         \<in> set (g_connections g)) \<and>
    (\<forall>i < params_count (g_nodes g ! v).
       cs_param_source s ! v ! i = Some (u, k) \<longleftrightarrow>
       \<lparr>pc_src_node = u, pc_src_output = k, pc_dst_node = v, pc_dst_param = i\<rparr>
         \<in> set (g_param_connections g))"
  using assms by (rule wiring_tables)

theorem compile_wiring_witness:
  "\<exists>s. compile tone_graph 64 = Some s \<and> cs_input_source s ! 1 ! 0 = Some (0, 0)"
proof -
  obtain s where s: "compile tone_graph 64 = Some s" using tone_graph_compiles by blast
  with compile_wiring [OF tone_graph_wired s, of 1 0 0] show ?thesis by (simp add: tone_graph_eq)
qed

end
