(* ===== verification/Arena.thy ===== *)
theory Arena
  imports Bits
begin

text \<open>
  The memory primitives of \<open>include/xrune/util/arena.hpp\<close>.  Memory is a set of byte
  addresses; an allocator hands out the address of a block or nothing (the source's
  \<open>nullptr\<close>).  Address arithmetic is on unbounded numbers except for the end of a request,
  which the source computes in a 64-bit \<open>size_t\<close> and compares with the capacity: there the
  wrap-around is kept.
\<close>

section \<open>The bump allocator\<close>

record memory_arena =
  ar_base :: nat
  ar_capacity :: nat
  ar_offset :: nat

definition arena_reserve :: "nat \<Rightarrow> nat \<Rightarrow> memory_arena" where
  "arena_reserve base bytes = \<lparr>ar_base = base, ar_capacity = bytes, ar_offset = 0\<rparr>"

definition allocate :: "memory_arena \<Rightarrow> nat \<Rightarrow> nat \<Rightarrow> (nat \<times> memory_arena) option" where
  "allocate a bytes align =
    (if ar_capacity a = 0 then None
     else
       let aligned = align_up (ar_base a + ar_offset a) align;
           new_offset = (aligned - ar_base a + bytes) mod 2 ^ 64
       in if ar_capacity a < new_offset then None
          else Some (aligned, a\<lparr>ar_offset := new_offset\<rparr>))"

definition allocate_array :: "memory_arena \<Rightarrow> nat \<Rightarrow> nat \<Rightarrow> nat \<Rightarrow> (nat \<times> memory_arena) option" where
  "allocate_array a elem_size elem_align count = allocate a (size_mul elem_size count) elem_align"

definition arena_reset :: "memory_arena \<Rightarrow> memory_arena" where
  "arena_reset a = a\<lparr>ar_offset := 0\<rparr>"

definition arena_remaining :: "memory_arena \<Rightarrow> nat" where
  "arena_remaining a = ar_capacity a - ar_offset a"

section \<open>The block pool\<close>

record fixed_block_pool =
  fp_free :: "nat list"
  fp_block_size :: nat
  fp_block_count :: nat

text \<open>\<open>base\<close> is the address of the storage; the free list is a stack whose top is its last entry.\<close>

definition pool_init :: "nat \<Rightarrow> nat \<Rightarrow> nat \<Rightarrow> nat \<Rightarrow> fixed_block_pool" where
  "pool_init base block_bytes count align =
    (let size = align_up block_bytes align;
         aligned = align_up base align
     in \<lparr>fp_free = map (\<lambda>i. aligned + i * size) [0..<count],
         fp_block_size = size, fp_block_count = count\<rparr>)"

definition pool_acquire :: "fixed_block_pool \<Rightarrow> (nat \<times> fixed_block_pool) option" where
  "pool_acquire p =
    (if fp_free p = [] then None
     else Some (last (fp_free p), p\<lparr>fp_free := butlast (fp_free p)\<rparr>))"

definition pool_release :: "fixed_block_pool \<Rightarrow> nat option \<Rightarrow> fixed_block_pool" where
  "pool_release p b = (case b of None \<Rightarrow> p | Some q \<Rightarrow> p\<lparr>fp_free := fp_free p @ [q]\<rparr>)"

definition pool_available :: "fixed_block_pool \<Rightarrow> nat" where
  "pool_available p = length (fp_free p)"

definition pool_in_use :: "fixed_block_pool \<Rightarrow> nat" where
  "pool_in_use p = fp_block_count p - length (fp_free p)"

section \<open>What an allocator promises\<close>

text \<open>
  Both allocators hand out memory that they still owned and give it up.  From this alone,
  the blocks of any sequence of successful requests are pairwise disjoint and lie in the
  memory owned at the start.
\<close>

locale allocator =
  fixes owned :: "'s \<Rightarrow> nat set"
    and inv :: "'s \<Rightarrow> bool"
    and request :: "'s \<Rightarrow> 'r \<Rightarrow> (nat \<times> 's) option"
    and extent :: "'s \<Rightarrow> 'r \<Rightarrow> nat"
    and legal :: "'r \<Rightarrow> bool"
  assumes inv_kept: "inv s \<Longrightarrow> legal r \<Longrightarrow> request s r = Some (p, t) \<Longrightarrow> inv t"
    and block_owned: "inv s \<Longrightarrow> legal r \<Longrightarrow> request s r = Some (p, t) \<Longrightarrow>
      {p ..< p + extent s r} \<subseteq> owned s"
    and given_up: "inv s \<Longrightarrow> legal r \<Longrightarrow> request s r = Some (p, t) \<Longrightarrow>
      owned t \<subseteq> owned s - {p ..< p + extent s r}"
begin

fun request_all :: "'s \<Rightarrow> 'r list \<Rightarrow> ((nat \<times> nat) list \<times> 's) option" where
  "request_all s [] = Some ([], s)"
| "request_all s (r # rs) =
    (case request s r of
      None \<Rightarrow> None
    | Some (p, t) \<Rightarrow>
        (case request_all t rs of
          None \<Rightarrow> None
        | Some (bs, u) \<Rightarrow> Some ((p, extent s r) # bs, u)))"

definition block_of :: "nat \<times> nat \<Rightarrow> nat set" where
  "block_of b = {fst b ..< fst b + snd b}"

lemma request_all_owned:
  "request_all s rs = Some (bs, t) \<Longrightarrow> inv s \<Longrightarrow> \<forall>r \<in> set rs. legal r \<Longrightarrow>
    inv t \<and> (\<forall>b \<in> set bs. block_of b \<subseteq> owned s) \<and> owned t \<subseteq> owned s"
proof (induction rs arbitrary: s bs)
  case Nil
  then show ?case by simp
next
  case (Cons r rs)
  then obtain p u bs' where one: "request s r = Some (p, u)"
    and rest: "request_all u rs = Some (bs', t)" and bs: "bs = (p, extent s r) # bs'"
    by (auto split: option.splits)
  have u: "inv u" and b: "{p ..< p + extent s r} \<subseteq> owned s" and g: "owned u \<subseteq> owned s"
    using inv_kept block_owned given_up one Cons.prems by fastforce+
  have "block_of (p, extent s r) \<subseteq> owned s" using b by (simp add: block_of_def)
  moreover have "inv t \<and> (\<forall>b \<in> set bs'. block_of b \<subseteq> owned u) \<and> owned t \<subseteq> owned u"
    using Cons.IH [OF rest u] Cons.prems(3) by simp
  ultimately show ?case using g unfolding bs set_simps by blast
qed

lemma request_all_disjoint:
  "request_all s rs = Some (bs, t) \<Longrightarrow> inv s \<Longrightarrow> \<forall>r \<in> set rs. legal r \<Longrightarrow>
    i < j \<Longrightarrow> j < length bs \<Longrightarrow> block_of (bs ! i) \<inter> block_of (bs ! j) = {}"
proof (induction rs arbitrary: s bs i j)
  case Nil
  then show ?case by simp
next
  case (Cons r rs)
  then obtain p u bs' where one: "request s r = Some (p, u)"
    and rest: "request_all u rs = Some (bs', t)" and bs: "bs = (p, extent s r) # bs'"
    by (auto split: option.splits)
  have u: "inv u" and g: "owned u \<subseteq> owned s - {p ..< p + extent s r}"
    using inv_kept given_up one Cons.prems by fastforce+
  have all: "\<forall>b \<in> set bs'. block_of b \<subseteq> owned u"
    using request_all_owned [OF rest u] Cons.prems(3) by simp
  obtain j' where j: "j = Suc j'" using Cons.prems(4) by (cases j) auto
  show ?case
  proof (cases i)
    case 0
    have "block_of (bs' ! j') \<subseteq> owned u" using all Cons.prems(5) j bs by simp
    moreover have "owned u \<inter> block_of (p, extent s r) = {}"
      using g unfolding block_of_def fst_conv snd_conv by blast
    ultimately show ?thesis unfolding 0 j bs nth_Cons_0 nth_Cons_Suc by blast
  next
    case (Suc i')
    then show ?thesis using Cons.IH [OF rest u, of i' j'] Cons.prems(3-5) j bs by simp
  qed
qed

end

section \<open>The arena keeps the promise\<close>

text \<open>The storage is one object of the address space, so it ends below \<open>2 ^ 64\<close>.\<close>

definition arena_ok :: "memory_arena \<Rightarrow> bool" where
  "arena_ok a \<longleftrightarrow> ar_offset a \<le> ar_capacity a \<and> ar_base a + ar_capacity a < 2 ^ 63"

definition arena_owned :: "memory_arena \<Rightarrow> nat set" where
  "arena_owned a = {ar_base a + ar_offset a ..< ar_base a + ar_capacity a}"

text \<open>A request in the range where the end of the block does not wrap around.\<close>

definition legal_request :: "nat \<times> nat \<Rightarrow> bool" where
  "legal_request r \<longleftrightarrow> fst r < 2 ^ 62 \<and> is_power_of_two (snd r) \<and> snd r \<le> 2 ^ 62"

definition arena_request :: "memory_arena \<Rightarrow> nat \<times> nat \<Rightarrow> (nat \<times> memory_arena) option" where
  "arena_request a r = allocate a (fst r) (snd r)"

lemma allocate_unwrapped:
  assumes "arena_ok a" and "bytes < 2 ^ 62" and "is_power_of_two align" and "align \<le> 2 ^ 62"
  shows "(align_up (ar_base a + ar_offset a) align - ar_base a + bytes) mod 2 ^ 64 =
    align_up (ar_base a + ar_offset a) align - ar_base a + bytes"
proof -
  have "align_up (ar_base a + ar_offset a) align < ar_base a + ar_offset a + align"
    using align_up_bounds(3) [OF assms(3)] .
  then have "align_up (ar_base a + ar_offset a) align - ar_base a + bytes < 2 ^ 63 + 2 ^ 62 + 2 ^ 62"
    using assms unfolding arena_ok_def by linarith
  then show ?thesis by simp
qed

lemma allocate_Some:
  assumes "arena_ok a" and "allocate a bytes align = Some (p, b)"
    and "bytes < 2 ^ 62" and "is_power_of_two align" and "align \<le> 2 ^ 62"
  shows "align dvd p" and "ar_base a + ar_offset a \<le> p" and "p < ar_base a + ar_offset a + align"
    and "p + bytes \<le> ar_base a + ar_capacity a"
    and "b = a\<lparr>ar_offset := p - ar_base a + bytes\<rparr>" and "arena_ok b"
proof -
  note al = align_up_bounds [OF assms(4), of "ar_base a + ar_offset a"]
  have e: "p = align_up (ar_base a + ar_offset a) align"
    "p - ar_base a + bytes \<le> ar_capacity a" "b = a\<lparr>ar_offset := p - ar_base a + bytes\<rparr>"
    using assms(2) allocate_unwrapped [OF assms(1,3-5)]
    by (auto simp: allocate_def Let_def split: if_splits)
  from al e show "align dvd p" "ar_base a + ar_offset a \<le> p" "p < ar_base a + ar_offset a + align"
    "p + bytes \<le> ar_base a + ar_capacity a"
    "b = a\<lparr>ar_offset := p - ar_base a + bytes\<rparr>" by simp_all
  then show "arena_ok b" using e assms(1) by (simp add: arena_ok_def)
qed

lemma allocate_fits:
  assumes "arena_ok a" and "bytes < 2 ^ 62" and "is_power_of_two align" and "align \<le> 2 ^ 62"
    and "ar_offset a + (align - 1) + bytes \<le> ar_capacity a" and "0 < ar_capacity a"
  shows "\<exists>p b. allocate a bytes align = Some (p, b) \<and>
    ar_offset b \<le> ar_offset a + (align - 1) + bytes"
proof -
  note al = align_up_bounds [OF assms(3), of "ar_base a + ar_offset a"]
  then have "align_up (ar_base a + ar_offset a) align - ar_base a + bytes \<le>
      ar_offset a + (align - 1) + bytes" by linarith
  then show ?thesis
    using assms(5,6) allocate_unwrapped [OF assms(1-4)] by (simp add: allocate_def Let_def)
qed

interpretation arena: allocator arena_owned arena_ok arena_request "\<lambda>s r. fst r" legal_request
proof unfold_locales
  fix s r p t
  assume a: "arena_ok s" "legal_request r" "arena_request s r = Some (p, t)"
  note f = allocate_Some [OF a(1) a(3) [unfolded arena_request_def]]
  show "arena_ok t" using f a(2) by (simp add: legal_request_def)
  show "{p ..< p + fst r} \<subseteq> arena_owned s"
    using f a(2) by (auto simp: legal_request_def arena_owned_def)
  show "arena_owned t \<subseteq> arena_owned s - {p ..< p + fst r}"
    using f a(2) by (auto simp: legal_request_def arena_owned_def)
qed

text \<open>
  A sequence of requests succeeds when the room left covers each block with its worst
  alignment gap: this is how the source budgets its reservations.
\<close>

definition budget :: "(nat \<times> nat) list \<Rightarrow> nat" where
  "budget rs = sum_list (map (\<lambda>r. fst r + (snd r - 1)) rs)"

lemma request_all_fits:
  assumes "arena_ok a" and "\<forall>r \<in> set rs. legal_request r"
    and "ar_offset a + budget rs \<le> ar_capacity a" and "0 < ar_capacity a"
  shows "\<exists>bs b. arena.request_all a rs = Some (bs, b)"
  using assms
proof (induction rs arbitrary: a)
  case Nil
  then show ?case by simp
next
  case (Cons r rs)
  have r: "fst r < 2 ^ 62" "is_power_of_two (snd r)" "snd r \<le> 2 ^ 62"
    using Cons.prems(2) by (auto simp: legal_request_def)
  have room: "ar_offset a + (snd r - 1) + fst r \<le> ar_capacity a"
    using Cons.prems(3) by (simp add: budget_def)
  obtain p b where one: "allocate a (fst r) (snd r) = Some (p, b)"
    and off: "ar_offset b \<le> ar_offset a + (snd r - 1) + fst r"
    using allocate_fits [OF Cons.prems(1) r room Cons.prems(4)] by blast
  note f = allocate_Some [OF Cons.prems(1) one r]
  have "\<exists>bs c. arena.request_all b rs = Some (bs, c)"
    using f(5,6) off Cons.prems by (intro Cons.IH) (auto simp: budget_def)
  then obtain bs c where rest: "arena.request_all b rs = Some (bs, c)" by blast
  have "arena_request a r = Some (p, b)" using one by (simp add: arena_request_def)
  with rest show ?case by simp
qed

section \<open>The pool keeps the promise\<close>

definition span :: "nat \<Rightarrow> nat \<Rightarrow> nat set" where
  "span sz q = {q ..< q + sz}"

definition pool_blocks :: "fixed_block_pool \<Rightarrow> nat set" where
  "pool_blocks p = (\<Union>q \<in> set (fp_free p). span (fp_block_size p) q)"

definition apart :: "nat \<Rightarrow> nat set \<Rightarrow> bool" where
  "apart sz Q \<longleftrightarrow> (\<forall>q \<in> Q. \<forall>r \<in> Q. q \<noteq> r \<longrightarrow> span sz q \<inter> span sz r = {})"

definition pool_ok :: "fixed_block_pool \<Rightarrow> bool" where
  "pool_ok p \<longleftrightarrow> distinct (fp_free p) \<and> apart (fp_block_size p) (set (fp_free p))"

lemma apart_subset: "apart sz Q \<Longrightarrow> R \<subseteq> Q \<Longrightarrow> apart sz R"
  unfolding apart_def by blast

lemma span_multiples:
  assumes "i \<noteq> j"
  shows "span sz (a + i * sz) \<inter> span sz (a + j * sz) = {}"
proof -
  have "span sz (a + i * sz) \<inter> span sz (a + j * sz) = {}" if "i < j" for i j
  proof -
    have "Suc i * sz \<le> j * sz" using that by (intro mult_le_mono1) simp
    then show ?thesis by (auto simp: span_def)
  qed
  from this [of i j] this [of j i] show ?thesis using assms
    by (metis inf_commute nat_neq_iff)
qed

lemma pool_init_ok:
  assumes "is_power_of_two align" and "0 < block_bytes"
  shows "pool_ok (pool_init base block_bytes count align)"
proof -
  let ?s = "align_up block_bytes align" and ?a = "align_up base align"
  have s: "0 < ?s" using align_up_bounds(2) [OF assms(1), of block_bytes] assms(2) by linarith
  have "inj_on (\<lambda>i. ?a + i * ?s) {0..<count}" using s by (auto simp: inj_on_def)
  then have "distinct (map (\<lambda>i. ?a + i * ?s) [0..<count])" by (simp add: distinct_map)
  moreover have "apart ?s (set (map (\<lambda>i. ?a + i * ?s) [0..<count]))"
    unfolding apart_def
  proof (intro ballI impI)
    fix q r
    assume "q \<in> set (map (\<lambda>i. ?a + i * ?s) [0..<count])" "r \<in> set (map (\<lambda>i. ?a + i * ?s) [0..<count])"
      and ne: "q \<noteq> r"
    then obtain i j where qr: "q = ?a + i * ?s" "r = ?a + j * ?s" by (auto simp only: set_map image_iff)
    then have "i \<noteq> j" using ne by metis
    then show "span ?s q \<inter> span ?s r = {}" unfolding qr by (rule span_multiples)
  qed
  ultimately show ?thesis by (simp add: pool_ok_def pool_init_def Let_def)
qed

lemma pool_acquire_Some:
  assumes "pool_ok s" and "pool_acquire s = Some (p, t)"
  shows "fp_free s = fp_free t @ [p]" and "fp_block_size t = fp_block_size s"
    and "fp_block_count t = fp_block_count s" and "pool_ok t" and "p \<notin> set (fp_free t)"
proof -
  have ne: "fp_free s \<noteq> []" and p: "p = last (fp_free s)"
    and t: "t = s\<lparr>fp_free := butlast (fp_free s)\<rparr>"
    using assms(2) by (auto simp: pool_acquire_def split: if_splits)
  show free: "fp_free s = fp_free t @ [p]" using ne p t by simp
  show bs: "fp_block_size t = fp_block_size s" and "fp_block_count t = fp_block_count s"
    unfolding t by simp_all
  show "p \<notin> set (fp_free t)" using assms(1) free by (simp add: pool_ok_def)
  have "distinct (fp_free t)" using assms(1) free by (simp add: pool_ok_def)
  moreover have "apart (fp_block_size s) (set (fp_free t))"
  proof (rule apart_subset)
    show "apart (fp_block_size s) (set (fp_free s))" using assms(1) by (simp add: pool_ok_def)
    show "set (fp_free t) \<subseteq> set (fp_free s)" unfolding free by auto
  qed
  ultimately show "pool_ok t" unfolding pool_ok_def bs by simp
qed

interpretation block_pool: allocator pool_blocks pool_ok "\<lambda>p (u::unit). pool_acquire p"
  "\<lambda>p u. fp_block_size p" "\<lambda>u. True"
proof unfold_locales
  fix s :: fixed_block_pool and r :: unit and p t
  assume a: "pool_ok s" "pool_acquire s = Some (p, t)"
  note f = pool_acquire_Some [OF a]
  show "pool_ok t" by (rule f)
  have s: "{p ..< p + fp_block_size s} = span (fp_block_size s) p" by (simp add: span_def)
  show "{p ..< p + fp_block_size s} \<subseteq> pool_blocks s"
    unfolding s pool_blocks_def f(1) by auto
  have "span (fp_block_size s) q \<inter> span (fp_block_size s) p = {}" if "q \<in> set (fp_free t)" for q
  proof -
    have "q \<noteq> p" "q \<in> set (fp_free s)" "p \<in> set (fp_free s)" using that f(1,5) by auto
    then show ?thesis using a(1) unfolding pool_ok_def apart_def by blast
  qed
  then show "pool_blocks t \<subseteq> pool_blocks s - {p ..< p + fp_block_size s}"
    unfolding s pool_blocks_def f(1,2) by auto
qed

text \<open>Releasing a block that was acquired puts the pool back in order.\<close>

lemma pool_release_ok:
  assumes "pool_ok s" and "pool_acquire s = Some (p, t)"
  shows "pool_release t (Some p) = s"
  using pool_acquire_Some [OF assms] by (simp add: pool_release_def)

section \<open>Properties\<close>

text \<open>Whatever is allocated from an arena, at power-of-two alignments and sizes that do not wrap,
  the blocks lie in the storage that was reserved and no two of them share a byte; each block is
  aligned as asked.\<close>

theorem arena_blocks_disjoint:
  assumes "ar_offset a \<le> ar_capacity a" and "ar_base a + ar_capacity a < 2 ^ 63"
    and "\<forall>r \<in> set rs. fst r < 2 ^ 62 \<and> is_power_of_two (snd r) \<and> snd r \<le> 2 ^ 62"
    and "arena.request_all a rs = Some (bs, b)"
  shows "(\<forall>i j. i < j \<and> j < length bs \<longrightarrow>
      {fst (bs ! i) ..< fst (bs ! i) + snd (bs ! i)} \<inter> {fst (bs ! j) ..< fst (bs ! j) + snd (bs ! j)} = {}) \<and>
    (\<forall>x \<in> set bs. {fst x ..< fst x + snd x} \<subseteq> {ar_base a + ar_offset a ..< ar_base a + ar_capacity a})"
proof -
  have ok: "arena_ok a" "\<forall>r \<in> set rs. legal_request r"
    using assms(1-3) by (simp_all add: arena_ok_def legal_request_def)
  from arena.request_all_disjoint [OF assms(4) ok] arena.request_all_owned [OF assms(4) ok]
  show ?thesis by (auto simp: arena.block_of_def arena_owned_def)
qed

theorem arena_blocks_disjoint_witness:
  "\<exists>p q b. arena.request_all (arena_reserve 100 256) [(10, 64), (20, 8)] = Some ([(p, 10), (q, 20)], b) \<and>
    {p ..< p + 10} \<inter> {q ..< q + 20} = {}"
proof -
  let ?a = "arena_reserve 100 256" and ?rs = "[(10, 64), (20, 8)] :: (nat \<times> nat) list"
  have pow: "is_power_of_two 64" "is_power_of_two 8"
    by (simp_all add: is_power_of_two_iff exI [of _ 6] exI [of _ 3])
  obtain p b where 1: "arena_request ?a (10, 64) = Some (p, b)" "ar_offset b \<le> 73"
    and 3: "arena_ok b" "ar_capacity b = 256"
    using allocate_fits [of ?a 10 64] allocate_Some [of ?a 10 64] pow
    by (fastforce simp: arena_request_def arena_ok_def arena_reserve_def)
  obtain q c where 2: "arena_request b (20, 8) = Some (q, c)"
    using allocate_fits [OF 3(1), of 20 8] 1(2) 3(2) pow by (auto simp: arena_request_def)
  have all: "arena.request_all ?a ?rs = Some ([(p, 10), (q, 20)], c)" using 1(1) 2 by simp
  from arena_blocks_disjoint [OF _ _ _ all] all pow show ?thesis
    by (fastforce simp: arena_reserve_def)
qed

text \<open>The end of a request is computed modulo the size of a word, so near the top of the range an
  allocation larger than the arena succeeds: from offset 16 of an arena of 64 bytes, a request for
  all but 8 of the \<open>2 ^ 64\<close> bytes is granted, at offset 16.\<close>

theorem oversized_request_granted:
  "allocate \<lparr>ar_base = 0, ar_capacity = 64, ar_offset = 16\<rparr> (2 ^ 64 - 8) 8 =
    Some (16, \<lparr>ar_base = 0, ar_capacity = 64, ar_offset = 8\<rparr>)"
  by (simp add: allocate_def align_up_def)

text \<open>A block pool never hands out the same memory twice: from a fresh pool, blocks acquired one
  after the other do not overlap, and releasing a block right after acquiring it restores the pool.\<close>

theorem pool_blocks_disjoint:
  assumes "is_power_of_two align" and "0 < bytes"
    and "block_pool.request_all (pool_init base bytes count align) us = Some (bs, p)"
  shows "(\<forall>i j. i < j \<and> j < length bs \<longrightarrow>
      {fst (bs ! i) ..< fst (bs ! i) + snd (bs ! i)} \<inter> {fst (bs ! j) ..< fst (bs ! j) + snd (bs ! j)} = {}) \<and>
    (\<forall>q t. pool_acquire p = Some (q, t) \<longrightarrow> pool_release t (Some q) = p)"
proof -
  note ok = pool_init_ok [OF assms(1,2), of base count]
  have us: "\<forall>u \<in> set us. True" by simp
  have "pool_ok p" using block_pool.request_all_owned [OF assms(3) ok us] by simp
  with block_pool.request_all_disjoint [OF assms(3) ok us] show ?thesis
    by (auto simp: block_pool.block_of_def pool_release_ok)
qed

theorem pool_blocks_disjoint_witness:
  "\<exists>q r p. block_pool.request_all (pool_init 100 10 2 8) [(), ()] = Some ([(q, 16), (r, 16)], p) \<and>
    {q ..< q + 16} \<inter> {r ..< r + 16} = {}"
proof -
  have pow: "is_power_of_two 8" by (simp add: is_power_of_two_iff exI [of _ 3])
  have two: "[0..<2] = [0, Suc 0]" by (simp add: upt_rec)
  have init: "pool_init 100 10 2 8 = \<lparr>fp_free = [104, 120], fp_block_size = 16, fp_block_count = 2\<rparr>"
    by (simp add: pool_init_def align_up_def two Let_def)
  have acq: "pool_acquire \<lparr>fp_free = [104, 120], fp_block_size = 16, fp_block_count = 2\<rparr> =
      Some (120, \<lparr>fp_free = [104], fp_block_size = 16, fp_block_count = 2\<rparr>)"
    "pool_acquire \<lparr>fp_free = [104], fp_block_size = 16, fp_block_count = 2\<rparr> =
      Some (104, \<lparr>fp_free = [], fp_block_size = 16, fp_block_count = 2\<rparr>)"
    by (simp_all add: pool_acquire_def)
  have "block_pool.request_all (pool_init 100 10 2 8) [(), ()] =
      Some ([(120, 16), (104, 16)], \<lparr>fp_free = [], fp_block_size = 16, fp_block_count = 2\<rparr>)"
    by (simp add: init acq)
  with pool_blocks_disjoint [OF pow _ this] show ?thesis by fastforce
qed

end
