(* ===== verification/Instance.thy ===== *)
theory Instance
  imports Dsp_Facts Schedule Arena
begin

text \<open>
  A live realisation of a schedule, \<open>include/xrune/instance.hpp\<close>: its memory, the slices each
  call of a node sees, its control ports and one cycle of processing.  The source's pointers
  into the buffer pool are offsets into a list of samples; the addresses themselves matter
  only for the allocation, which runs on the arena of the preceding theory.  Byte totals are
  unbounded numbers.
\<close>

section \<open>Data\<close>

record port_control =
  ctl_current :: f64
  ctl_target :: f64

text \<open>A slice of the buffer pool, or of the block of zeros that silent inputs read.\<close>

datatype view = Pool_view nat nat | Silent_view nat

record call_ctx =
  cc_inputs :: "view list"
  cc_outputs :: "view list"
  cc_params :: "view option list"
  cc_sample_rate :: nat
  cc_block :: nat

record graph_instance =
  gi_sched :: compiled_schedule
  gi_block_size :: nat
  gi_sample_rate :: nat
  gi_pool :: "f64 list"
  gi_silent_len :: nat
  gi_states :: "node_state list"
  gi_controls :: "port_control list"
  gi_contexts :: "call_ctx list"
  gi_ramps :: "(f64 \<times> f64) list list"
  gi_finished :: bool

abbreviation sched_nodes :: "compiled_schedule \<Rightarrow> node list" where
  "sched_nodes s \<equiv> g_nodes (cs_bp s)"

section \<open>Building\<close>

definition out_offset :: "compiled_schedule \<Rightarrow> nat \<Rightarrow> nat \<Rightarrow> nat" where
  "out_offset s v ch = cs_out_base_sample s ! v + ch * cs_out_stride s ! v"

definition total_views :: "compiled_schedule \<Rightarrow> nat" where
  "total_views s = sum_list (map2 (\<lambda>c n. c * (inputs_count n + outputs_count n)) (cs_calls s) (sched_nodes s))"

definition total_param_views :: "compiled_schedule \<Rightarrow> nat" where
  "total_param_views s = sum_list (map2 (\<lambda>c n. c * params_count n) (cs_calls s) (sched_nodes s))"

definition silent_size :: "compiled_schedule \<Rightarrow> nat" where
  "silent_size s = max (cs_max_stride s) (2 * cs_block_size s)"

text \<open>
  Sizes of \<open>audio_buffer_view\<close>, \<open>node_processing_context\<close>, \<open>port_control\<close> and \<open>param_view\<close>.
\<close>

definition arena_bytes :: "compiled_schedule \<Rightarrow> nat" where
  "arena_bytes s =
    (cs_total_state_bytes s + 64) + (cs_total_output_samples s * 8 + 64) + (silent_size s * 8 + 64) +
    (total_views s * 16 + 64) + (cs_total_calls s * 64 + 64) + (cs_total_params s * 16 + 64) +
    (total_param_views s * 24 + 64) + 256"

text \<open>The allocations of \<open>build\<close>, in order; the optional ones are skipped when empty.\<close>

definition when_some :: "nat \<Rightarrow> nat \<Rightarrow> nat \<Rightarrow> (nat \<times> nat) list" where
  "when_some count elem align = (if count = 0 then [] else [(count * elem, align)])"

definition arena_requests :: "compiled_schedule \<Rightarrow> (nat \<times> nat) list" where
  "arena_requests s =
    when_some (cs_total_state_bytes s) 1 simd_align @
    when_some (cs_total_output_samples s) 8 simd_align @
    [(silent_size s * 8, simd_align)] @
    when_some (total_views s) 16 8 @
    [(cs_total_calls s * 64, 8)] @
    when_some (cs_total_params s) 16 8 @
    when_some (total_param_views s) 24 8"

definition per_call :: "compiled_schedule \<Rightarrow> nat \<Rightarrow> nat \<Rightarrow> nat" where
  "per_call s u v = cs_out_stride s ! u div cs_calls s ! v"

definition silent_in :: "compiled_schedule \<Rightarrow> nat \<Rightarrow> nat" where
  "silent_in s v =
    (let n = sched_nodes s ! v; nb = cs_node_block s ! v
     in if rate_num n \<noteq> 0 then nb * rate_den n div rate_num n else nb)"

definition source_view :: "compiled_schedule \<Rightarrow> nat \<Rightarrow> nat \<Rightarrow> nat \<times> nat \<Rightarrow> view" where
  "source_view s v k src =
    Pool_view (out_offset s (fst src) (snd src) + k * per_call s (fst src) v) (per_call s (fst src) v)"

definition build_ctx :: "compiled_schedule \<Rightarrow> nat \<Rightarrow> nat \<Rightarrow> nat \<Rightarrow> call_ctx" where
  "build_ctx s sr v k =
    (let n = sched_nodes s ! v; nb = cs_node_block s ! v
     in \<lparr>cc_inputs = map (\<lambda>c. case cs_input_source s ! v ! c of
             None \<Rightarrow> Silent_view (silent_in s v)
           | Some src \<Rightarrow> source_view s v k src) [0..<inputs_count n],
         cc_outputs = map (\<lambda>c. Pool_view (out_offset s v c + k * nb) nb) [0..<outputs_count n],
         cc_params = map (\<lambda>p. case cs_param_source s ! v ! p of
             None \<Rightarrow> None
           | Some src \<Rightarrow> Some (source_view s v k src)) [0..<params_count n],
         cc_sample_rate = sr * cs_region_rate s ! v,
         cc_block = nb\<rparr>)"

definition initial_ramps :: "node \<Rightarrow> call_ctx \<Rightarrow> (f64 \<times> f64) list" where
  "initial_ramps n cc = map2 (\<lambda>p v. if v = None then (param_default n p, f64_zero) else (f64_zero, f64_zero))
     [0..<params_count n] (cc_params cc)"

definition all_contexts :: "compiled_schedule \<Rightarrow> nat \<Rightarrow> call_ctx list" where
  "all_contexts s sr =
    concat (map (\<lambda>v. map (build_ctx s sr v) [0..<cs_calls s ! v]) [0..<bp_size (cs_bp s)])"

text \<open>\<open>base\<close> is the address the storage of the arena gets.\<close>

definition instance_of :: "env \<Rightarrow> compiled_schedule \<Rightarrow> nat \<Rightarrow> graph_instance" where
  "instance_of e s sr =
    \<lparr>gi_sched = s, gi_block_size = cs_block_size s, gi_sample_rate = sr,
     gi_pool = replicate (cs_total_output_samples s) f64_zero,
     gi_silent_len = silent_size s,
     gi_states = map (\<lambda>n. node_init e n sr (cs_block_size s)) (sched_nodes s),
     gi_controls = concat (map (\<lambda>n. map (\<lambda>p. \<lparr>ctl_current = param_default n p,
        ctl_target = param_default n p\<rparr>) [0..<params_count n]) (sched_nodes s)),
     gi_contexts = all_contexts s sr,
     gi_ramps = concat (map (\<lambda>v. map (\<lambda>k. initial_ramps (sched_nodes s ! v) (build_ctx s sr v k))
        [0..<cs_calls s ! v]) [0..<bp_size (cs_bp s)]),
     gi_finished = False\<rparr>"

definition build :: "env \<Rightarrow> nat \<Rightarrow> compiled_schedule \<Rightarrow> nat \<Rightarrow> graph_instance option" where
  "build e base s sr =
    (case arena.request_all (arena_reserve base (arena_bytes s)) (arena_requests s) of
      None \<Rightarrow> None
    | Some (blocks, a) \<Rightarrow> Some (instance_of e s sr))"

section \<open>Control ports\<close>

definition inverse_block :: "nat \<Rightarrow> f64" where
  "inverse_block bs = (if bs = 0 then f64_zero else f64_div (f64_of_int 1) (f64_of_int (int bs)))"

text \<open>The ramps of the ports that no signal drives, for the call with context index \<open>ci\<close>.\<close>

definition ramp_port :: "nat \<Rightarrow> call_ctx \<Rightarrow> nat \<Rightarrow> graph_instance \<Rightarrow> nat \<Rightarrow> graph_instance" where
  "ramp_port pbase cc ci inst p =
    (if cc_params cc ! p \<noteq> None then inst
     else
       let c = gi_controls inst ! (pbase + p)
       in inst\<lparr>gi_ramps := (gi_ramps inst)[ci := (gi_ramps inst ! ci)[p :=
                 (ctl_current c, (ctl_target c - ctl_current c) * inverse_block (cc_block cc))]],
               gi_controls := (gi_controls inst)[pbase + p := c\<lparr>ctl_current := ctl_target c\<rparr>]\<rparr>)"

definition update_control_ramps :: "graph_instance \<Rightarrow> nat \<Rightarrow> nat \<Rightarrow> graph_instance" where
  "update_control_ramps inst v ci =
    (let cc = gi_contexts inst ! ci
     in foldl (ramp_port (cs_param_base (gi_sched inst) ! v) cc ci) inst [0..<length (cc_params cc)])"

definition clamp_port :: "node \<Rightarrow> nat \<Rightarrow> f64 \<Rightarrow> f64" where
  "clamp_port n p x = (let d = params n ! p in f64_clamp x (pd_min d) (pd_max d))"

definition init_parameter :: "graph_instance \<Rightarrow> nat \<Rightarrow> nat \<Rightarrow> f64 \<Rightarrow> graph_instance option" where
  "init_parameter inst v p x =
    (if bp_size (cs_bp (gi_sched inst)) \<le> v then None
     else
       let n = sched_nodes (gi_sched inst) ! v
       in if params_count n \<le> p then Some inst
          else Some (inst\<lparr>gi_controls := (gi_controls inst)[cs_param_base (gi_sched inst) ! v + p :=
                 \<lparr>ctl_current = clamp_port n p x, ctl_target = clamp_port n p x\<rparr>]\<rparr>))"

definition set_parameter :: "graph_instance \<Rightarrow> nat \<Rightarrow> nat \<Rightarrow> f64 \<Rightarrow> graph_instance option" where
  "set_parameter inst v p x =
    (if bp_size (cs_bp (gi_sched inst)) \<le> v then None
     else
       let n = sched_nodes (gi_sched inst) ! v;
           i = cs_param_base (gi_sched inst) ! v + p
       in if params_count n \<le> p then Some inst
          else Some (inst\<lparr>gi_controls := (gi_controls inst)[i :=
                 (gi_controls inst ! i)\<lparr>ctl_target := clamp_port n p x\<rparr>]\<rparr>))"

section \<open>One cycle\<close>

fun read_view :: "graph_instance \<Rightarrow> view \<Rightarrow> f64 list" where
  "read_view inst (Pool_view off len) = take len (drop off (gi_pool inst))"
| "read_view inst (Silent_view len) = take len (replicate (gi_silent_len inst) f64_zero)"

definition write_at :: "f64 list \<Rightarrow> nat \<Rightarrow> f64 list \<Rightarrow> f64 list" where
  "write_at pool off xs = take off pool @ xs @ drop (off + length xs) pool"

fun write_view :: "f64 list \<Rightarrow> view \<times> f64 list \<Rightarrow> f64 list" where
  "write_view pool (Pool_view off len, xs) = write_at pool off xs"
| "write_view pool (Silent_view len, xs) = pool"

definition port_view :: "graph_instance \<Rightarrow> view option \<Rightarrow> f64 \<times> f64 \<Rightarrow> param_view" where
  "port_view inst v ramp =
    (case v of
      Some w \<Rightarrow> \<lparr>pv_buffer = Some (read_view inst w), pv_base = f64_zero, pv_inc = f64_zero\<rparr>
    | None \<Rightarrow> \<lparr>pv_buffer = None, pv_base = fst ramp, pv_inc = snd ramp\<rparr>)"

text \<open>What a node sees of the instance at one of its calls.\<close>

definition call_view :: "graph_instance \<Rightarrow> nat \<Rightarrow> node_ctx" where
  "call_view inst ci =
    (let cc = gi_contexts inst ! ci
     in \<lparr>nc_inputs = map (read_view inst) (cc_inputs cc),
         nc_outputs = map (read_view inst) (cc_outputs cc),
         nc_params = map2 (port_view inst) (cc_params cc) (gi_ramps inst ! ci),
         nc_sample_rate = cc_sample_rate cc, nc_block = cc_block cc\<rparr>)"

definition process_call :: "env \<Rightarrow> nat \<Rightarrow> graph_instance \<Rightarrow> nat \<Rightarrow> graph_instance option" where
  "process_call e v inst k =
    (let ci = cs_ctx_base (gi_sched inst) ! v + k;
         inst1 = update_control_ramps inst v ci
     in case node_process e (sched_nodes (gi_sched inst) ! v) (gi_states inst1 ! v) (call_view inst1 ci) of
          None \<Rightarrow> None
        | Some (st, outs) \<Rightarrow>
            Some (inst1\<lparr>gi_states := (gi_states inst1)[v := st],
                        gi_pool := foldl write_view (gi_pool inst1)
                          (zip (cc_outputs (gi_contexts inst ! ci)) outs)\<rparr>))"

fun fold_option :: "('a \<Rightarrow> 'b \<Rightarrow> 'a option) \<Rightarrow> 'a \<Rightarrow> 'b list \<Rightarrow> 'a option" where
  "fold_option f a [] = Some a"
| "fold_option f a (x # xs) = (case f a x of None \<Rightarrow> None | Some b \<Rightarrow> fold_option f b xs)"

definition process_node :: "env \<Rightarrow> graph_instance \<Rightarrow> nat \<Rightarrow> graph_instance option" where
  "process_node e inst v = fold_option (process_call e v) inst [0..<cs_calls (gi_sched inst) ! v]"

definition process :: "env \<Rightarrow> graph_instance \<Rightarrow> graph_instance option" where
  "process e inst = fold_option (process_node e) inst (cs_topo_order (gi_sched inst))"

section \<open>Terminals\<close>

definition node_output_view :: "graph_instance \<Rightarrow> nat \<Rightarrow> nat \<Rightarrow> view" where
  "node_output_view inst v ch =
    Pool_view (out_offset (gi_sched inst) v ch) (cs_out_stride (gi_sched inst) ! v)"

definition output_channels :: "graph_instance \<Rightarrow> nat" where
  "output_channels inst =
    (case g_output_node (cs_bp (gi_sched inst)) of
      None \<Rightarrow> 0
    | Some v \<Rightarrow> outputs_count (sched_nodes (gi_sched inst) ! v))"

definition output_terminal_count :: "graph_instance \<Rightarrow> nat" where
  "output_terminal_count inst = length (g_output_terminals (cs_bp (gi_sched inst)))"

definition input_terminal_count :: "graph_instance \<Rightarrow> nat" where
  "input_terminal_count inst = length (g_input_terminals (cs_bp (gi_sched inst)))"

definition output_terminal_channels :: "graph_instance \<Rightarrow> nat \<Rightarrow> nat" where
  "output_terminal_channels inst t =
    (let term = g_output_terminals (cs_bp (gi_sched inst)) ! t
     in if t_channels term \<noteq> [] then length (t_channels term)
        else outputs_count (sched_nodes (gi_sched inst) ! t_node term))"

definition input_terminal_channels :: "graph_instance \<Rightarrow> nat \<Rightarrow> nat" where
  "input_terminal_channels inst t =
    outputs_count (sched_nodes (gi_sched inst) ! t_node (g_input_terminals (cs_bp (gi_sched inst)) ! t))"

definition output_terminal_view :: "graph_instance \<Rightarrow> nat \<Rightarrow> nat \<Rightarrow> view" where
  "output_terminal_view inst t ch =
    (let term = g_output_terminals (cs_bp (gi_sched inst)) ! t
     in if t_channels term \<noteq> [] then
          (let src = t_channels term ! ch
           in if ts_silent src then Silent_view (gi_silent_len inst)
              else node_output_view inst (ts_node src) (ts_ch src))
        else node_output_view inst (t_node term) ch)"

definition input_terminal_view :: "graph_instance \<Rightarrow> nat \<Rightarrow> nat \<Rightarrow> view" where
  "input_terminal_view inst t ch =
    node_output_view inst (t_node (g_input_terminals (cs_bp (gi_sched inst)) ! t)) ch"

end
