(* ===== verification/Instance_Facts.thy ===== *)
theory Instance_Facts
  imports Instance
begin

text \<open>
  Memory safety and behaviour of a live instance: the reservation covers every allocation, the
  slices of every call lie in the pool and fit the node, a cycle is always defined, and it
  solves the dataflow equations of the graph.
\<close>

section \<open>Facts of a compiled schedule\<close>

definition sched_ok :: "compiled_schedule \<Rightarrow> bool" where
  "sched_ok s \<longleftrightarrow> wiring_ok (cs_bp s) \<and> is_power_of_two (cs_block_size s) \<and>
     compile (cs_bp s) (cs_block_size s) = Some s \<and> arena_bytes s < 2 ^ 62 \<and>
     (\<forall>n \<in> set (sched_nodes s). rate_num n < 16)"

abbreviation nodes_of :: "compiled_schedule \<Rightarrow> nat" where
  "nodes_of s \<equiv> bp_size (cs_bp s)"

text \<open>The rate a node starts from: that of its sources, or 1.\<close>

definition base_rate_of :: "compiled_schedule \<Rightarrow> nat \<Rightarrow> nat \<Rightarrow> bool" where
  "base_rate_of s v r \<longleftrightarrow>
    r * rate_num (sched_nodes s ! v) = cs_region_rate s ! v * rate_den (sched_nodes s ! v) \<and>
    0 < rate_num (sched_nodes s ! v) \<and> 0 < rate_den (sched_nodes s ! v) \<and>
    (\<forall>u \<in> set (sources_of (cs_bp s) v). cs_region_rate s ! u = r) \<and>
    (sources_of (cs_bp s) v = [] \<longrightarrow> r = 1)"

lemma foldl_max_ge: "x \<in> set xs \<or> x \<le> a \<Longrightarrow> x \<le> foldl max a (xs :: nat list)"
proof (induction xs arbitrary: a)
  case Nil
  then show ?case by simp
next
  case (Cons y ys)
  then have "x \<in> set ys \<or> x \<le> max a y" by auto
  from Cons.IH [OF this] show ?case by simp
qed

lemma sched_fields:
  assumes "sched_ok s"
  obtains rt where "rates_length rt (nodes_of s)" and "\<And>v. v < nodes_of s \<Longrightarrow> rates_ok (cs_bp s) (cs_block_size s) rt v"
    and "cs_region_rate s = rt_rate rt" "cs_node_block s = rt_block rt" "cs_calls s = rt_calls rt"
    and "cs_out_stride s = map (\<lambda>r. r * cs_block_size s) (rt_rate rt)"
    and "cs_ctx_base s = offsets_from 0 (rt_calls rt)" "cs_total_calls s = sum_list (rt_calls rt)"
    and "cs_param_base s = offsets_from 0 (map params_count (sched_nodes s))"
    and "cs_total_params s = sum_list (map params_count (sched_nodes s))"
    and "foldl max 0 (map (\<lambda>r. r * cs_block_size s) (rt_rate rt)) \<le> cs_max_stride s"
proof -
  have w: "wiring_ok (cs_bp s)" and c: "compile (cs_bp s) (cs_block_size s) = Some s"
    using assms by (simp_all add: sched_ok_def)
  obtain rt where e: "s = build_schedule (cs_bp s) (cs_block_size s) (cs_topo_order s) rt"
    and l: "rates_length rt (nodes_of s)" and ok: "\<And>v. v < nodes_of s \<Longrightarrow> rates_ok (cs_bp s) (cs_block_size s) rt v"
    by (rule compile_rates [OF w c]) blast
  show thesis
    by (rule that [OF l ok]; (subst e, simp add: build_schedule_def Let_def))
qed

lemma sched_lengths:
  assumes "sched_ok s"
  shows "length (cs_region_rate s) = nodes_of s" "length (cs_node_block s) = nodes_of s"
    "length (cs_calls s) = nodes_of s" "length (cs_out_stride s) = nodes_of s"
    "length (cs_ctx_base s) = nodes_of s" "length (sched_nodes s) = nodes_of s"
  by (rule sched_fields [OF assms]; simp add: rates_length_def bp_size_def)+

lemma sched_throughput:
  assumes "sched_ok s" and "v < nodes_of s"
  shows "cs_node_block s ! v * cs_calls s ! v = cs_out_stride s ! v"
    "cs_out_stride s ! v = cs_region_rate s ! v * cs_block_size s"
    "0 < cs_node_block s ! v" "0 < cs_calls s ! v"
proof -
  have "wiring_ok (cs_bp s)" "compile (cs_bp s) (cs_block_size s) = Some s" "is_power_of_two (cs_block_size s)"
    using assms(1) by (simp_all add: sched_ok_def)
  from throughput [OF this assms(2)] show
    "cs_node_block s ! v * cs_calls s ! v = cs_out_stride s ! v"
    "cs_out_stride s ! v = cs_region_rate s ! v * cs_block_size s"
    "0 < cs_node_block s ! v" "0 < cs_calls s ! v" by simp_all
qed

text \<open>A node that feeds another has an output buffer, so the reservation bounds its rate.\<close>

lemma sched_stride_bound:
  assumes "sched_ok s" and "u < nodes_of s" and "0 < outputs_count (sched_nodes s ! u)"
  shows "cs_out_stride s ! u < 2 ^ 59"
proof -
  have w: "wiring_ok (cs_bp s)" and c: "compile (cs_bp s) (cs_block_size s) = Some s"
    and b: "arena_bytes s < 2 ^ 62" using assms(1) by (simp_all add: sched_ok_def)
  have "cs_out_stride s ! u \<le> outputs_count (sched_nodes s ! u) * cs_out_stride s ! u"
    using assms(3) by simp
  also have "\<dots> \<le> cs_total_output_samples s"
    using output_layout [OF w c assms(2)] by linarith
  finally have "cs_out_stride s ! u * 8 \<le> cs_total_output_samples s * 8" by simp
  also have "\<dots> \<le> arena_bytes s" by (simp add: arena_bytes_def)
  finally show ?thesis using b by simp
qed

lemma source_in_range:
  assumes "wiring_ok g" and "u \<in> set (sources_of g v)"
  shows "u < bp_size g" "v < bp_size g" "0 < outputs_count (g_nodes g ! u)"
proof -
  have "u < bp_size g \<and> v < bp_size g \<and> 0 < outputs_count (g_nodes g ! u)"
    using assms
    by (auto simp: sources_of_def wiring_ok_def audio.well_wired_def modul.well_wired_def
        in_range_conn_def in_range_param_def)
  then show "u < bp_size g" "v < bp_size g" "0 < outputs_count (g_nodes g ! u)" by auto
qed

lemma sched_base_rate:
  assumes "sched_ok s" and "v < nodes_of s"
  shows "\<exists>r. base_rate_of s v r"
proof -
  have w: "wiring_ok (cs_bp s)" and num: "\<forall>n \<in> set (sched_nodes s). rate_num n < 16"
    and B: "is_power_of_two (cs_block_size s)"
    using assms(1) by (simp_all add: sched_ok_def)
  obtain rt where ok: "rates_ok (cs_bp s) (cs_block_size s) rt v" and f: "cs_region_rate s = rt_rate rt"
    by (rule sched_fields [OF assms(1)]) (use assms(2) in blast)
  let ?n = "sched_nodes s ! v"
  obtain r b where src: "\<forall>u \<in> set (sources_of (cs_bp s) v). rt_rate rt ! u = r \<and> rt_exp rt ! u = b"
    and root: "sources_of (cs_bp s) v = [] \<longrightarrow> r = 1 \<and> b = 0"
    and n: "node_rates ?n (cs_block_size s) (fst (base_of (Some (r, b)))) (snd (base_of (Some (r, b)))) =
       Some (rt_rate rt ! v, rt_exp rt ! v, rt_block rt ! v, rt_calls rt ! v)"
    using ok by (auto simp: rates_ok_def)
  have small: "r < 2 ^ 59"
  proof (cases "sources_of (cs_bp s) v")
    case Nil
    then show ?thesis using root by simp
  next
    case (Cons u us)
    then have u: "u \<in> set (sources_of (cs_bp s) v)" by simp
    note ur = source_in_range [OF w u]
    have "0 < cs_block_size s" using B by (simp add: is_power_of_two_def)
    then have "r \<le> r * cs_block_size s" by simp
    also have "\<dots> = cs_out_stride s ! u"
      using sched_throughput(2) [OF assms(1) ur(1)] src u f by simp
    also have "\<dots> < 2 ^ 59" by (rule sched_stride_bound [OF assms(1) ur(1,3)])
    finally show ?thesis .
  qed
  then have base: "fst (base_of (Some (r, b))) = r" by (simp add: base_of_def)
  have e: "rate_den ?n \<noteq> 0" "size_mul r (rate_num ?n) = rt_rate rt ! v * rate_den ?n"
    "is_power_of_two (rt_rate rt ! v)"
    using n unfolding base node_rates_iff by auto
  have "?n \<in> set (sched_nodes s)" using assms(2) by (simp add: bp_size_def)
  then have "rate_num ?n < 16" using num by blast
  then have "r * rate_num ?n \<le> r * 16" by simp
  also have "\<dots> < 2 ^ 64" using small by simp
  finally have "size_mul r (rate_num ?n) = r * rate_num ?n" by (simp add: size_mul_def)
  moreover from this e have "0 < rate_num ?n" by (cases "rate_num ?n") (auto simp: is_power_of_two_def)
  ultimately have "base_rate_of s v r"
    using e src root f by (auto simp: base_rate_of_def)
  then show ?thesis by blast
qed

text \<open>The samples a call reads of each source are those the silent input would have.\<close>

lemma base_samples:
  assumes "sched_ok s" and "v < nodes_of s" and "base_rate_of s v r"
  shows "(r * cs_block_size s) div cs_calls s ! v =
      cs_node_block s ! v * rate_den (sched_nodes s ! v) div rate_num (sched_nodes s ! v)"
proof -
  let ?num = "rate_num (sched_nodes s ! v)" and ?den = "rate_den (sched_nodes s ! v)"
  let ?C = "cs_calls s ! v" and ?nb = "cs_node_block s ! v" and ?B = "cs_block_size s"
  note t = sched_throughput [OF assms(1,2)]
  have b: "r * ?num = cs_region_rate s ! v * ?den" "0 < ?num" using assms(3) by (simp_all add: base_rate_of_def)
  have "r * ?B * ?num = cs_region_rate s ! v * ?B * ?den" using b(1) by (metis mult.assoc mult.commute)
  also have "\<dots> = ?C * (?nb * ?den)" using t(1,2) by (metis mult.assoc mult.commute)
  finally have "r * ?B = ?C * (?nb * ?den) div ?num" using b(2) by (metis nonzero_mult_div_cancel_right neq0_conv)
  then have "r * ?B div ?C = ?C * (?nb * ?den) div (?C * ?num)"
    by (simp add: div_mult2_eq [symmetric] mult.commute)
  also have "\<dots> = ?nb * ?den div ?num" using t(4) by simp
  finally show ?thesis .
qed

lemma per_call_eq:
  assumes "sched_ok s" and "v < nodes_of s" and "u \<in> set (sources_of (cs_bp s) v)"
  shows "per_call s u v = cs_node_block s ! v * rate_den (sched_nodes s ! v) div rate_num (sched_nodes s ! v)"
proof -
  obtain r where r: "base_rate_of s v r" using sched_base_rate [OF assms(1,2)] by blast
  have w: "wiring_ok (cs_bp s)" using assms(1) by (simp add: sched_ok_def)
  have "cs_out_stride s ! u = r * cs_block_size s"
    using sched_throughput(2) [OF assms(1) source_in_range(1) [OF w assms(3)]] r assms(3)
    by (simp add: base_rate_of_def)
  then show ?thesis using base_samples [OF assms(1,2) r] by (simp add: per_call_def)
qed

lemma silent_in_bound:
  assumes "sched_ok s" and "v < nodes_of s"
  shows "silent_in s v = cs_node_block s ! v * rate_den (sched_nodes s ! v) div rate_num (sched_nodes s ! v)"
    and "silent_in s v \<le> silent_size s"
proof -
  obtain r where r: "base_rate_of s v r" using sched_base_rate [OF assms] by blast
  show e: "silent_in s v = cs_node_block s ! v * rate_den (sched_nodes s ! v) div rate_num (sched_nodes s ! v)"
    using r by (simp add: silent_in_def base_rate_of_def Let_def)
  have w: "wiring_ok (cs_bp s)" using assms(1) by (simp add: sched_ok_def)
  have "silent_in s v = r * cs_block_size s div cs_calls s ! v" using base_samples [OF assms r] e by simp
  also have "\<dots> \<le> r * cs_block_size s" by simp
  also have "\<dots> \<le> silent_size s"
  proof (cases "sources_of (cs_bp s) v")
    case Nil
    then show ?thesis using r by (simp add: base_rate_of_def silent_size_def)
  next
    case (Cons u us)
    then have u: "u \<in> set (sources_of (cs_bp s) v)" by simp
    then have un: "u < nodes_of s" using source_in_range(1) [OF w] by blast
    obtain rt where l: "rates_length rt (nodes_of s)" and f: "cs_region_rate s = rt_rate rt"
      and m: "foldl max 0 (map (\<lambda>r. r * cs_block_size s) (rt_rate rt)) \<le> cs_max_stride s"
      by (rule sched_fields [OF assms(1)]) blast
    have "rt_rate rt ! u \<in> set (rt_rate rt)" using l un by (simp add: rates_length_def)
    then have "r * cs_block_size s \<in> set (map (\<lambda>r. r * cs_block_size s) (rt_rate rt))"
      using r u f by (auto simp: base_rate_of_def)
    then have "r * cs_block_size s \<le> foldl max 0 (map (\<lambda>r. r * cs_block_size s) (rt_rate rt))"
      by (intro foldl_max_ge) blast
    then show ?thesis using m by (simp add: silent_size_def)
  qed
  finally show "silent_in s v \<le> silent_size s" .
qed

section \<open>Slices lie in the pool\<close>

fun view_in_pool :: "compiled_schedule \<Rightarrow> view \<Rightarrow> bool" where
  "view_in_pool s (Pool_view off len) \<longleftrightarrow> off + len \<le> cs_total_output_samples s"
| "view_in_pool s (Silent_view len) \<longleftrightarrow> len \<le> silent_size s"

text \<open>The buffer of one output channel.\<close>

definition channel_buffer :: "compiled_schedule \<Rightarrow> nat \<Rightarrow> nat \<Rightarrow> nat set" where
  "channel_buffer s v ch = {out_offset s v ch ..< out_offset s v ch + cs_out_stride s ! v}"

fun view_cells :: "view \<Rightarrow> nat set" where
  "view_cells (Pool_view off len) = {off ..< off + len}"
| "view_cells (Silent_view len) = {}"

fun view_len :: "view \<Rightarrow> nat" where
  "view_len (Pool_view off len) = len"
| "view_len (Silent_view len) = len"

lemma channel_in_pool:
  assumes "sched_ok s" and "v < nodes_of s" and "ch < outputs_count (sched_nodes s ! v)"
  shows "out_offset s v ch + cs_out_stride s ! v \<le> cs_out_base_sample s ! v + outputs_count (sched_nodes s ! v) * cs_out_stride s ! v"
    and "out_offset s v ch + cs_out_stride s ! v \<le> cs_total_output_samples s"
proof -
  have "Suc ch * cs_out_stride s ! v \<le> outputs_count (sched_nodes s ! v) * cs_out_stride s ! v"
    using assms(3) by (intro mult_le_mono1) simp
  then show a: "out_offset s v ch + cs_out_stride s ! v \<le> cs_out_base_sample s ! v + outputs_count (sched_nodes s ! v) * cs_out_stride s ! v"
    by (simp add: out_offset_def)
  have "wiring_ok (cs_bp s)" "compile (cs_bp s) (cs_block_size s) = Some s"
    using assms(1) by (simp_all add: sched_ok_def)
  from output_layout [OF this assms(2)] a show
    "out_offset s v ch + cs_out_stride s ! v \<le> cs_total_output_samples s" by linarith
qed

lemma channels_disjoint:
  assumes "sched_ok s" and "v < nodes_of s" "ch < outputs_count (sched_nodes s ! v)"
    and "w < nodes_of s" "ch' < outputs_count (sched_nodes s ! w)" and "(v, ch) \<noteq> (w, ch')"
  shows "channel_buffer s v ch \<inter> channel_buffer s w ch' = {}"
proof -
  have wc: "wiring_ok (cs_bp s)" "compile (cs_bp s) (cs_block_size s) = Some s"
    using assms(1) by (simp_all add: sched_ok_def)
  have base: "cs_out_base_sample s ! x \<le> out_offset s x c" for x c by (simp add: out_offset_def)
  have lt: "channel_buffer s x c \<inter> channel_buffer s y c' = {}"
    if "x < y" "x < nodes_of s" "c < outputs_count (sched_nodes s ! x)" "y < nodes_of s" for x y c c'
  proof -
    have "out_offset s x c + cs_out_stride s ! x \<le> out_offset s y c'"
      using channel_in_pool(1) [OF assms(1) that(2,3)] output_layout [OF wc that(2)] that(1,4) base [of y c']
      by (meson le_trans)
    then show ?thesis by (auto simp: channel_buffer_def)
  qed
  have same: "channel_buffer s x c \<inter> channel_buffer s x c' = {}" if "c < c'" for x c c'
  proof -
    have "Suc c * cs_out_stride s ! x \<le> c' * cs_out_stride s ! x" using that by (intro mult_le_mono1) simp
    then show ?thesis by (auto simp: channel_buffer_def out_offset_def)
  qed
  consider "v < w" | "w < v" | "v = w" "ch < ch'" | "v = w" "ch' < ch"
    using assms(6) by (metis nat_neq_iff)
  then show ?thesis
    by cases (use lt [of v w ch ch'] lt [of w v ch' ch] same assms in \<open>auto simp: Int_commute\<close>)
qed

lemma slice_in_channel:
  assumes "k < C" and "C * len \<le> stride"
  shows "off + k * len + len \<le> off + (stride::nat)"
proof -
  have "Suc k * len \<le> C * len" using assms(1) by (intro mult_le_mono1) simp
  then show ?thesis using assms(2) by simp
qed

section \<open>Contexts\<close>

lemma concat_nth:
  "i < length xss \<Longrightarrow> j < length (xss ! i) \<Longrightarrow>
    concat xss ! (sum_list (map length (take i xss)) + j) = xss ! i ! j"
proof (induction xss arbitrary: i)
  case Nil
  then show ?case by simp
next
  case (Cons xs xss)
  then show ?case
  proof (cases i)
    case 0
    with Cons.prems show ?thesis by (simp add: nth_append)
  next
    case (Suc i')
    with Cons show ?thesis by (simp add: nth_append add.assoc)
  qed
qed

text \<open>A table with one row per node and one entry per call, flattened.\<close>

lemma flat_table:
  assumes "sched_ok s" and "v < nodes_of s" and "k < cs_calls s ! v"
  shows "concat (map (\<lambda>v. map (f v) [0..<cs_calls s ! v]) [0..<nodes_of s]) ! (cs_ctx_base s ! v + k) = f v k"
    and "length (concat (map (\<lambda>v. map (f v) [0..<cs_calls s ! v]) [0..<nodes_of s])) = cs_total_calls s"
    and "cs_ctx_base s ! v + k < cs_total_calls s"
proof -
  obtain rt :: rates where f: "cs_calls s = rt_calls rt" "cs_ctx_base s = offsets_from 0 (rt_calls rt)"
    "cs_total_calls s = sum_list (rt_calls rt)"
    by (rule sched_fields [OF assms(1)]) blast
  have len: "length (cs_calls s) = nodes_of s" by (rule sched_lengths [OF assms(1)])
  let ?t = "map (\<lambda>v. map (f v) [0..<cs_calls s ! v]) [0..<nodes_of s]"
  have lens: "map length ?t = cs_calls s"
    using len by (simp add: comp_def list_eq_iff_nth_eq)
  have "map length (take v ?t) = take v (cs_calls s)" using lens by (metis take_map)
  moreover have base: "cs_ctx_base s ! v = sum_list (take v (cs_calls s))"
    using assms(2) len f by (simp add: offsets_from_nth)
  ultimately show "concat ?t ! (cs_ctx_base s ! v + k) = f v k"
    using concat_nth [of v ?t k] assms(2,3) by simp
  show "length (concat ?t) = cs_total_calls s" using lens f by (simp add: length_concat)
  have "cs_ctx_base s ! v + cs_calls s ! v \<le> cs_total_calls s"
    using offsets_from_bound [of v "rt_calls rt" 0] f len assms(2) by simp
  then show "cs_ctx_base s ! v + k < cs_total_calls s" using assms(3) by simp
qed

text \<open>Every slice of a call lies in the pool, has the length the node needs, and stays inside one
  channel buffer: that of the node for outputs, that of the producer for inputs and ports.\<close>

definition slices_ok :: "compiled_schedule \<Rightarrow> nat \<Rightarrow> call_ctx \<Rightarrow> bool" where
  "slices_ok s v cc \<longleftrightarrow>
    (\<forall>w \<in> set (cc_inputs cc). view_in_pool s w \<and>
       view_len w = cs_node_block s ! v * rate_den (sched_nodes s ! v) div rate_num (sched_nodes s ! v)) \<and>
    (\<forall>w \<in> set (cc_outputs cc). view_in_pool s w \<and> view_len w = cs_node_block s ! v) \<and>
    (\<forall>w. Some w \<in> set (cc_params cc) \<longrightarrow> view_in_pool s w \<and>
       view_len w = cs_node_block s ! v * rate_den (sched_nodes s ! v) div rate_num (sched_nodes s ! v))"

lemma connection_of_input:
  assumes "sched_ok s" and "v < nodes_of s" and "i < inputs_count (sched_nodes s ! v)"
    and "cs_input_source s ! v ! i = Some (u, c)"
  shows "u \<in> set (sources_of (cs_bp s) v)" "u < nodes_of s" "c < outputs_count (sched_nodes s ! u)"
proof -
  have w: "wiring_ok (cs_bp s)" and c: "compile (cs_bp s) (cs_block_size s) = Some s"
    using assms(1) by (simp_all add: sched_ok_def)
  let ?c = "\<lparr>bc_src_node = u, bc_src_output = c, bc_dst_node = v, bc_dst_input = i\<rparr>"
  have m: "?c \<in> set (g_connections (cs_bp s))"
    using wiring_tables [OF w c assms(2), of u c] assms(3,4) by blast
  then show src: "u \<in> set (sources_of (cs_bp s) v)" by (force simp: sources_of_def)
  show "u < nodes_of s" by (rule source_in_range(1) [OF w src])
  have "in_range_conn (cs_bp s) ?c" using w m by (auto simp: wiring_ok_def audio.well_wired_def)
  then show "c < outputs_count (sched_nodes s ! u)" by (simp add: in_range_conn_def)
qed

lemma connection_of_param:
  assumes "sched_ok s" and "v < nodes_of s" and "i < params_count (sched_nodes s ! v)"
    and "cs_param_source s ! v ! i = Some (u, c)"
  shows "u \<in> set (sources_of (cs_bp s) v)" "u < nodes_of s" "c < outputs_count (sched_nodes s ! u)"
proof -
  have w: "wiring_ok (cs_bp s)" and c: "compile (cs_bp s) (cs_block_size s) = Some s"
    using assms(1) by (simp_all add: sched_ok_def)
  let ?c = "\<lparr>pc_src_node = u, pc_src_output = c, pc_dst_node = v, pc_dst_param = i\<rparr>"
  have m: "?c \<in> set (g_param_connections (cs_bp s))"
    using wiring_tables [OF w c assms(2), of u c] assms(3,4) by blast
  then show src: "u \<in> set (sources_of (cs_bp s) v)" by (force simp: sources_of_def)
  show "u < nodes_of s" by (rule source_in_range(1) [OF w src])
  have "in_range_param (cs_bp s) ?c" using w m by (auto simp: wiring_ok_def modul.well_wired_def)
  then show "c < outputs_count (sched_nodes s ! u)" by (simp add: in_range_param_def)
qed

lemma source_view_ok:
  assumes "sched_ok s" and "v < nodes_of s" and "k < cs_calls s ! v"
    and "u \<in> set (sources_of (cs_bp s) v)" "u < nodes_of s" "c < outputs_count (sched_nodes s ! u)"
  shows "view_in_pool s (source_view s v k (u, c))"
    and "view_len (source_view s v k (u, c)) =
       cs_node_block s ! v * rate_den (sched_nodes s ! v) div rate_num (sched_nodes s ! v)"
    and "view_cells (source_view s v k (u, c)) \<subseteq> channel_buffer s u c"
proof -
  have "cs_calls s ! v * per_call s u v \<le> cs_out_stride s ! u" by (simp add: per_call_def)
  from slice_in_channel [OF assms(3) this]
  have top: "out_offset s u c + k * per_call s u v + per_call s u v \<le> out_offset s u c + cs_out_stride s ! u" .
  with channel_in_pool(2) [OF assms(1,5,6)]
  show "view_in_pool s (source_view s v k (u, c))" by (simp add: source_view_def)
  show "view_len (source_view s v k (u, c)) =
       cs_node_block s ! v * rate_den (sched_nodes s ! v) div rate_num (sched_nodes s ! v)"
    using per_call_eq [OF assms(1,2,4)] by (simp add: source_view_def)
  show "view_cells (source_view s v k (u, c)) \<subseteq> channel_buffer s u c"
    using top by (auto simp: source_view_def channel_buffer_def)
qed

lemma output_slice_ok:
  assumes "sched_ok s" and "v < nodes_of s" and "k < cs_calls s ! v" and "c < outputs_count (sched_nodes s ! v)"
  shows "out_offset s v c + k * cs_node_block s ! v + cs_node_block s ! v \<le> out_offset s v c + cs_out_stride s ! v"
  using slice_in_channel [OF assms(3), of "cs_node_block s ! v" "cs_out_stride s ! v"]
    sched_throughput(1) [OF assms(1,2)] by (simp add: mult.commute)

lemma build_ctx_slices:
  assumes "sched_ok s" and "v < nodes_of s" and "k < cs_calls s ! v"
  shows "slices_ok s v (build_ctx s sr v k)"
  unfolding slices_ok_def
proof (intro conjI ballI allI impI)
  let ?n = "sched_nodes s ! v"
  fix w
  {
    assume "w \<in> set (cc_inputs (build_ctx s sr v k))"
    then obtain i where i: "i < inputs_count ?n"
      and w: "w = (case cs_input_source s ! v ! i of None \<Rightarrow> Silent_view (silent_in s v)
        | Some src \<Rightarrow> source_view s v k src)"
      by (auto simp: build_ctx_def Let_def)
    show "view_in_pool s w" "view_len w = cs_node_block s ! v * rate_den ?n div rate_num ?n"
      using w silent_in_bound [OF assms(1,2)] connection_of_input [OF assms(1,2) i] source_view_ok [OF assms]
      by (auto split: option.splits)
  next
    assume "w \<in> set (cc_outputs (build_ctx s sr v k))"
    then obtain c where c: "c < outputs_count ?n"
      and w: "w = Pool_view (out_offset s v c + k * cs_node_block s ! v) (cs_node_block s ! v)"
      by (auto simp: build_ctx_def Let_def)
    show "view_in_pool s w" "view_len w = cs_node_block s ! v"
      using w channel_in_pool(2) [OF assms(1,2) c] output_slice_ok [OF assms c] by simp_all
  next
    assume "Some w \<in> set (cc_params (build_ctx s sr v k))"
    then obtain i src where i: "i < params_count ?n" and "cs_param_source s ! v ! i = Some src"
      and w: "w = source_view s v k src"
      by (auto simp: build_ctx_def Let_def split: option.splits)
    then show "view_in_pool s w" "view_len w = cs_node_block s ! v * rate_den ?n div rate_num ?n"
      using connection_of_param [OF assms(1,2) i] source_view_ok [OF assms] by (cases src; simp)+
  }
qed

section \<open>The reservation\<close>

lemma pow2_64: "is_power_of_two simd_align" "is_power_of_two 8"
  by (simp_all add: is_power_of_two_iff simd_align_def exI [of _ 6] exI [of _ 3])

lemma when_some_budget:
  "budget (when_some c e a) \<le> c * e + (a - 1)"
  by (simp add: when_some_def budget_def)

lemma budget_append [simp]: "budget (xs @ ys) = budget xs + budget ys"
  by (simp add: budget_def)

lemma requests_budget: "budget (arena_requests s) \<le> arena_bytes s"
  using when_some_budget [of "cs_total_state_bytes s" 1 64] when_some_budget [of "cs_total_output_samples s" 8 64]
    when_some_budget [of "total_views s" 16 8] when_some_budget [of "cs_total_params s" 16 8]
    when_some_budget [of "total_param_views s" 24 8]
  by (simp add: arena_requests_def arena_bytes_def simd_align_def) (simp add: budget_def)

lemma requests_legal:
  assumes "arena_bytes s < 2 ^ 62" and "r \<in> set (arena_requests s)"
  shows "legal_request r"
proof -
  have "fst r \<le> arena_bytes s"
    using assms(2) by (auto simp: arena_requests_def arena_bytes_def when_some_def split: if_splits)
  moreover have "snd r = simd_align \<or> snd r = 8"
    using assms(2) by (auto simp: arena_requests_def when_some_def split: if_splits)
  ultimately show ?thesis
    using assms(1) pow2_64 by (auto simp: legal_request_def simd_align_def)
qed

lemma build_Some:
  assumes "arena_bytes s < 2 ^ 62" and "base < 2 ^ 62"
  shows "build e base s sr = Some (instance_of e s sr)"
proof -
  let ?a = "arena_reserve base (arena_bytes s)"
  have "arena_ok ?a" using assms by (simp add: arena_ok_def arena_reserve_def)
  moreover have "0 < ar_capacity ?a" by (simp add: arena_reserve_def arena_bytes_def)
  moreover have "ar_offset ?a + budget (arena_requests s) \<le> ar_capacity ?a"
    using requests_budget by (simp add: arena_reserve_def)
  ultimately have "\<exists>bs b. arena.request_all ?a (arena_requests s) = Some (bs, b)"
    using requests_legal [OF assms(1)] by (intro request_all_fits) auto
  then show ?thesis by (auto simp: build_def)
qed

section \<open>The invariant of an instance\<close>

definition instance_ok :: "compiled_schedule \<Rightarrow> nat \<Rightarrow> graph_instance \<Rightarrow> bool" where
  "instance_ok s sr inst \<longleftrightarrow>
    gi_sched inst = s \<and> gi_contexts inst = all_contexts s sr \<and>
    length (gi_pool inst) = cs_total_output_samples s \<and> gi_silent_len inst = silent_size s \<and>
    length (gi_states inst) = nodes_of s \<and>
    (\<forall>v < nodes_of s. state_fits (sched_nodes s ! v) (gi_states inst ! v)) \<and>
    length (gi_controls inst) = cs_total_params s \<and> length (gi_ramps inst) = cs_total_calls s \<and>
    (\<forall>v < nodes_of s. \<forall>k < cs_calls s ! v.
       length (gi_ramps inst ! (cs_ctx_base s ! v + k)) = params_count (sched_nodes s ! v))"

lemma context_at:
  assumes "sched_ok s" and "v < nodes_of s" and "k < cs_calls s ! v"
  shows "all_contexts s sr ! (cs_ctx_base s ! v + k) = build_ctx s sr v k"
  unfolding all_contexts_def by (rule flat_table(1) [OF assms])

lemma build_ctx_counts:
  "length (cc_inputs (build_ctx s sr v k)) = inputs_count (sched_nodes s ! v)"
  "length (cc_outputs (build_ctx s sr v k)) = outputs_count (sched_nodes s ! v)"
  "length (cc_params (build_ctx s sr v k)) = params_count (sched_nodes s ! v)"
  "cc_block (build_ctx s sr v k) = cs_node_block s ! v"
  by (simp_all add: build_ctx_def Let_def)

lemma instance_of_ok:
  assumes "sched_ok s"
  shows "instance_ok s sr (instance_of e s sr)"
proof -
  have states: "\<forall>v < nodes_of s. state_fits (sched_nodes s ! v) (gi_states (instance_of e s sr) ! v)"
    using sched_lengths(6) [OF assms] by (simp add: instance_of_def node_init_fits)
  let ?r = "\<lambda>v k. initial_ramps (sched_nodes s ! v) (build_ctx s sr v k)"
  have len: "length (gi_ramps (instance_of e s sr)) = cs_total_calls s"
  proof (cases "nodes_of s = 0")
    case True
    obtain rt :: rates where "cs_calls s = rt_calls rt" "cs_total_calls s = sum_list (rt_calls rt)"
      by (rule sched_fields [OF assms]) blast
    with True sched_lengths(3) [OF assms] show ?thesis by (simp add: instance_of_def)
  next
    case False
    then have "0 < cs_calls s ! 0" using sched_throughput(4) [OF assms] by simp
    with False show ?thesis
      using flat_table(2) [OF assms, of 0 0 ?r] by (simp add: instance_of_def)
  qed
  have controls: "length (gi_controls (instance_of e s sr)) = cs_total_params s"
    by (rule sched_fields [OF assms]) (simp add: instance_of_def length_concat comp_def)
  have ramps: "length (gi_ramps (instance_of e s sr) ! (cs_ctx_base s ! v + k)) = params_count (sched_nodes s ! v)"
    if "v < nodes_of s" "k < cs_calls s ! v" for v k
  proof -
    have "gi_ramps (instance_of e s sr) ! (cs_ctx_base s ! v + k) = ?r v k"
      unfolding instance_of_def graph_instance.simps by (rule flat_table(1) [OF assms that])
    then show ?thesis by (simp add: initial_ramps_def build_ctx_counts)
  qed
  show ?thesis
    using states len ramps controls sched_lengths(6) [OF assms]
    unfolding instance_ok_def by (simp add: instance_of_def)
qed

text \<open>Updating the ramps touches neither the pool nor the states.\<close>

lemma update_row_length: "length (w[a := (w ! a)[b := y]] ! v) = length (w ! v)"
  by (cases "a < length w"; cases "v = a") (simp_all add: list_update_beyond)

lemma ramp_port_frame:
  "gi_sched (ramp_port b cc ci inst p) = gi_sched inst"
  "gi_contexts (ramp_port b cc ci inst p) = gi_contexts inst"
  "gi_pool (ramp_port b cc ci inst p) = gi_pool inst"
  "gi_silent_len (ramp_port b cc ci inst p) = gi_silent_len inst"
  "gi_states (ramp_port b cc ci inst p) = gi_states inst"
  "length (gi_controls (ramp_port b cc ci inst p)) = length (gi_controls inst)"
  "length (gi_ramps (ramp_port b cc ci inst p)) = length (gi_ramps inst)"
  "length (gi_ramps (ramp_port b cc ci inst p) ! j) = length (gi_ramps inst ! j)"
  by (simp_all add: ramp_port_def Let_def update_row_length)

lemma ramps_frame:
  "gi_sched (foldl (ramp_port b cc ci) inst ps) = gi_sched inst"
  "gi_contexts (foldl (ramp_port b cc ci) inst ps) = gi_contexts inst"
  "gi_pool (foldl (ramp_port b cc ci) inst ps) = gi_pool inst"
  "gi_silent_len (foldl (ramp_port b cc ci) inst ps) = gi_silent_len inst"
  "gi_states (foldl (ramp_port b cc ci) inst ps) = gi_states inst"
  "length (gi_controls (foldl (ramp_port b cc ci) inst ps)) = length (gi_controls inst)"
  "length (gi_ramps (foldl (ramp_port b cc ci) inst ps)) = length (gi_ramps inst)"
  "length (gi_ramps (foldl (ramp_port b cc ci) inst ps) ! j) = length (gi_ramps inst ! j)"
  by (induction ps arbitrary: inst) (simp_all add: ramp_port_frame)

lemma update_ramps_frame [simp]:
  "gi_sched (update_control_ramps inst v ci) = gi_sched inst"
  "gi_contexts (update_control_ramps inst v ci) = gi_contexts inst"
  "gi_pool (update_control_ramps inst v ci) = gi_pool inst"
  "gi_silent_len (update_control_ramps inst v ci) = gi_silent_len inst"
  "gi_states (update_control_ramps inst v ci) = gi_states inst"
  "length (gi_controls (update_control_ramps inst v ci)) = length (gi_controls inst)"
  "length (gi_ramps (update_control_ramps inst v ci)) = length (gi_ramps inst)"
  "length (gi_ramps (update_control_ramps inst v ci) ! j) = length (gi_ramps inst ! j)"
  by (simp_all add: update_control_ramps_def Let_def ramps_frame)

lemma update_ramps_ok: "instance_ok s sr inst \<Longrightarrow> instance_ok s sr (update_control_ramps inst v ci)"
  by (simp add: instance_ok_def)

text \<open>One port of the ramps of a call: the other ports do not touch it.\<close>

lemma port_kept:
  assumes "q \<noteq> p"
  shows "gi_controls (ramp_port b cc ci inst q) ! (b + p) = gi_controls inst ! (b + p)"
    "ci < length (gi_ramps inst) \<Longrightarrow> gi_ramps (ramp_port b cc ci inst q) ! ci ! p = gi_ramps inst ! ci ! p"
  using assms by (simp_all add: ramp_port_def Let_def)

lemma ports_kept:
  assumes "p \<notin> set ps" and "ci < length (gi_ramps inst)"
  shows "gi_controls (foldl (ramp_port b cc ci) inst ps) ! (b + p) = gi_controls inst ! (b + p) \<and>
    gi_ramps (foldl (ramp_port b cc ci) inst ps) ! ci ! p = gi_ramps inst ! ci ! p"
  using assms
proof (induction ps arbitrary: inst)
  case Nil
  then show ?case by simp
next
  case (Cons q ps)
  then show ?case using port_kept [where q = q and p = p and b = b and cc = cc and ci = ci and inst = inst] by (simp add: ramp_port_frame)
qed

lemma ramp_of_port:
  assumes "p < length (cc_params cc)" and "cc_params cc ! p = None" and "ci < length (gi_ramps inst)"
    and "p < length (gi_ramps inst ! ci)" and "b + p < length (gi_controls inst)"
  shows "gi_ramps (foldl (ramp_port b cc ci) inst [0..<length (cc_params cc)]) ! ci ! p =
      (ctl_current (gi_controls inst ! (b + p)),
       (ctl_target (gi_controls inst ! (b + p)) - ctl_current (gi_controls inst ! (b + p))) * inverse_block (cc_block cc)) \<and>
    gi_controls (foldl (ramp_port b cc ci) inst [0..<length (cc_params cc)]) ! (b + p) =
      (gi_controls inst ! (b + p))\<lparr>ctl_current := ctl_target (gi_controls inst ! (b + p))\<rparr>"
proof -
  have split: "[0..<length (cc_params cc)] = [0..<p] @ p # [Suc p..<length (cc_params cc)]"
    using assms(1) by (metis le_add_diff_inverse less_imp_le upt_add_eq_append upt_conv_Cons zero_le)
  define i1 where "i1 = foldl (ramp_port b cc ci) inst [0..<p]"
  define i2 where "i2 = ramp_port b cc ci i1 p"
  have 1: "gi_controls i1 ! (b + p) = gi_controls inst ! (b + p)"
    "length (gi_controls i1) = length (gi_controls inst)" "length (gi_ramps i1) = length (gi_ramps inst)"
    "length (gi_ramps i1 ! ci) = length (gi_ramps inst ! ci)"
    using ports_kept [where p = p and ps = "[0..<p]" and ci = ci and inst = inst and b = b and cc = cc] assms(3) by (simp_all add: i1_def ramps_frame)
  have 2: "gi_ramps i2 ! ci ! p = (ctl_current (gi_controls inst ! (b + p)),
      (ctl_target (gi_controls inst ! (b + p)) - ctl_current (gi_controls inst ! (b + p))) * inverse_block (cc_block cc))"
    "gi_controls i2 ! (b + p) = (gi_controls inst ! (b + p))\<lparr>ctl_current := ctl_target (gi_controls inst ! (b + p))\<rparr>"
    "length (gi_ramps i2) = length (gi_ramps inst)"
    using assms 1 by (simp_all add: i2_def ramp_port_def Let_def)
  have f: "foldl (ramp_port b cc ci) inst [0..<length (cc_params cc)] =
      foldl (ramp_port b cc ci) i2 [Suc p..<length (cc_params cc)]"
    unfolding split by (simp add: i1_def i2_def)
  show ?thesis
    unfolding f using ports_kept [where p = p and ps = "[Suc p..<length (cc_params cc)]" and ci = ci and inst = i2 and b = b and cc = cc] 2 assms(3) by simp
qed

lemma read_view_length:
  assumes "instance_ok s sr inst" and "view_in_pool s w"
  shows "length (read_view inst w) = view_len w"
  using assms by (cases w) (auto simp: instance_ok_def)

text \<open>What a node sees of an instance fits it.\<close>

lemma call_view_covers:
  assumes s: "sched_ok s" and i: "instance_ok s sr inst" and v: "v < nodes_of s" and k: "k < cs_calls s ! v"
    and rate: "rate_den (sched_nodes s ! v) = 1 \<and> rate_num (sched_nodes s ! v) = 1 \<or> params_count (sched_nodes s ! v) = 0"
  shows "ctx_covers (sched_nodes s ! v) (call_view inst (cs_ctx_base s ! v + k))"
proof -
  let ?n = "sched_nodes s ! v" and ?cc = "build_ctx s sr v k"
  have cc: "gi_contexts inst ! (cs_ctx_base s ! v + k) = ?cc"
    using i context_at [OF s v k] by (simp add: instance_ok_def)
  have ramps: "length (gi_ramps inst ! (cs_ctx_base s ! v + k)) = params_count ?n"
    using i v k by (simp add: instance_ok_def)
  note sl = build_ctx_slices [OF s v k, of sr, unfolded slices_ok_def]
  have ins: "\<forall>x \<in> set (map (read_view inst) (cc_inputs ?cc)).
      length x = cs_node_block s ! v * rate_den ?n div rate_num ?n"
    using sl read_view_length [OF i] by auto
  have outs: "\<forall>x \<in> set (map (read_view inst) (cc_outputs ?cc)). length x = cs_node_block s ! v"
    using sl read_view_length [OF i] by auto
  have pars: "case pv_buffer p of None \<Rightarrow> True | Some b \<Rightarrow> cs_node_block s ! v \<le> length b"
    if p_in: "p \<in> set (map2 (port_view inst) (cc_params ?cc) (gi_ramps inst ! (cs_ctx_base s ! v + k)))" for p
  proof -
    obtain z where z: "z \<in> set (zip (cc_params ?cc) (gi_ramps inst ! (cs_ctx_base s ! v + k)))"
      and pz: "p = (case z of (w, r) \<Rightarrow> port_view inst w r)"
      using p_in unfolding set_map by blast
    obtain w r where wr: "z = (w, r)" by (cases z)
    have p: "p = port_view inst w r" using pz wr by simp
    have w: "w \<in> set (cc_params ?cc)" using z unfolding wr by (rule set_zip_leftD)
    show ?thesis
    proof (cases w)
      case None
      then show ?thesis using p by (simp add: port_view_def)
    next
      case (Some x)
      then have "view_in_pool s x \<and> view_len x = cs_node_block s ! v * rate_den ?n div rate_num ?n"
        using sl w by blast
      moreover have "rate_den ?n = 1 \<and> rate_num ?n = 1"
        using rate w build_ctx_counts(3) [of s sr v k] by auto
      ultimately show ?thesis using read_view_length [OF i] Some p by (simp add: port_view_def)
    qed
  qed
  show ?thesis
    unfolding ctx_covers_def call_view_def Let_def cc node_ctx.simps build_ctx_counts(4)
  proof (intro conjI)
    show "length (map (read_view inst) (cc_inputs ?cc)) = inputs_count ?n"
      "length (map (read_view inst) (cc_outputs ?cc)) = outputs_count ?n"
      "length (map2 (port_view inst) (cc_params ?cc) (gi_ramps inst ! (cs_ctx_base s ! v + k))) = params_count ?n"
      using ramps by (simp_all add: build_ctx_counts)
  qed (use ins outs pars in blast)+
qed

section \<open>Writing slices\<close>

lemma length_write_at [simp]:
  "off + length xs \<le> length pool \<Longrightarrow> length (write_at pool off xs) = length pool"
  by (simp add: write_at_def)

lemma nth_write_at:
  assumes "off + length xs \<le> length pool" and "i < length pool"
  shows "write_at pool off xs ! i = (if off \<le> i \<and> i < off + length xs then xs ! (i - off) else pool ! i)"
  using assms by (auto simp: write_at_def nth_append)

lemma slice_end:
  assumes "xs \<noteq> []" and "{off ..< off + length xs} \<subseteq> {..<n}"
  shows "off + length xs \<le> n"
proof -
  have "off + length xs - 1 \<in> {off ..< off + length xs}" using assms(1) by (cases xs) auto
  then have "off + length xs - 1 < n" using assms(2) by blast
  then show ?thesis by linarith
qed

lemma write_views_length:
  assumes "\<forall>(w, xs) \<in> set ws. view_len w = length xs" and "\<forall>(w, xs) \<in> set ws. view_cells w \<subseteq> {..<length pool}"
  shows "length (foldl write_view pool ws) = length pool"
  using assms
proof (induction ws arbitrary: pool)
  case Nil
  then show ?case by simp
next
  case (Cons wx ws)
  obtain w xs where wx: "wx = (w, xs)" by (cases wx)
  have "length (write_view pool (w, xs)) = length pool"
  proof (cases w)
    case (Pool_view off len)
    then have "len = length xs" "{off ..< off + len} \<subseteq> {..<length pool}" using Cons.prems wx by auto
    then show ?thesis using Pool_view slice_end [of xs off "length pool"]
      by (cases "xs = []") (simp_all add: write_at_def)
  next
    case (Silent_view len)
    then show ?thesis by simp
  qed
  then show ?case using Cons wx by simp
qed

lemma write_view_nth:
  assumes "view_len w = length xs" and "view_cells w \<subseteq> {..<length pool}" and "i < length pool"
  shows "i \<notin> view_cells w \<Longrightarrow> write_view pool (w, xs) ! i = pool ! i"
    and "w = Pool_view off len \<Longrightarrow> i \<in> view_cells w \<Longrightarrow> write_view pool (w, xs) ! i = xs ! (i - off)"
    and "length (write_view pool (w, xs)) = length pool"
proof -
  show l: "length (write_view pool (w, xs)) = length pool"
    using write_views_length [of "[(w, xs)]" pool] assms(1,2) by simp
  have r: "write_view pool (w, xs) ! i = (if i \<in> view_cells w then xs ! (i - off) else pool ! i)"
    if "w = Pool_view off len" for off len
  proof (cases "xs = []")
    case True
    then show ?thesis using that assms by (simp add: write_at_def)
  next
    case False
    then have "off + length xs \<le> length pool" using that assms(1,2) by (intro slice_end) simp_all
    then show ?thesis using that assms(1,3) by (simp add: nth_write_at)
  qed
  show "i \<notin> view_cells w \<Longrightarrow> write_view pool (w, xs) ! i = pool ! i"
    using r by (cases w) auto
  show "w = Pool_view off len \<Longrightarrow> i \<in> view_cells w \<Longrightarrow> write_view pool (w, xs) ! i = xs ! (i - off)"
    using r by simp
qed

text \<open>Writing to disjoint slices: each reads back what was written, the other cells are untouched.\<close>

definition writes_ok :: "nat \<Rightarrow> (view \<times> f64 list) list \<Rightarrow> bool" where
  "writes_ok n ws \<longleftrightarrow> (\<forall>(w, xs) \<in> set ws. view_len w = length xs \<and> view_cells w \<subseteq> {..<n})"

lemma writes_ok_Cons:
  "writes_ok n ((w, xs) # ws) \<longleftrightarrow> (view_len w = length xs \<and> view_cells w \<subseteq> {..<n}) \<and> writes_ok n ws"
  by (simp add: writes_ok_def)

lemma write_views_other:
  "writes_ok (length pool) ws \<Longrightarrow> i < length pool \<Longrightarrow> \<forall>wx \<in> set ws. i \<notin> view_cells (fst wx) \<Longrightarrow>
    foldl write_view pool ws ! i = pool ! i"
proof (induction ws arbitrary: pool)
  case Nil
  then show ?case by simp
next
  case (Cons wx ws)
  obtain w xs where wx: "wx = (w, xs)" by (cases wx)
  have h: "view_len w = length xs" "view_cells w \<subseteq> {..<length pool}"
    using Cons.prems(1) by (simp_all add: wx writes_ok_Cons)
  note at = write_view_nth [OF h Cons.prems(2)]
  have "foldl write_view (write_view pool (w, xs)) ws ! i = write_view pool (w, xs) ! i"
    using Cons.prems at(3) by (intro Cons.IH) (simp_all add: wx writes_ok_Cons)
  then show ?case using at(1) Cons.prems(3) by (simp add: wx)
qed

lemma write_views_at:
  "writes_ok (length pool) ws \<Longrightarrow> i < length pool \<Longrightarrow> j < length ws \<Longrightarrow> ws ! j = (Pool_view off len, ys) \<Longrightarrow>
    i \<in> {off ..< off + len} \<Longrightarrow> \<forall>k < length ws. k \<noteq> j \<longrightarrow> i \<notin> view_cells (fst (ws ! k)) \<Longrightarrow>
    foldl write_view pool ws ! i = ys ! (i - off)"
proof (induction ws arbitrary: pool j)
  case Nil
  then show ?case by simp
next
  case (Cons wx ws)
  obtain w xs where wx: "wx = (w, xs)" by (cases wx)
  have h: "view_len w = length xs" "view_cells w \<subseteq> {..<length pool}"
    using Cons.prems(1) by (simp_all add: wx writes_ok_Cons)
  note at = write_view_nth [OF h Cons.prems(2)]
  let ?p = "write_view pool (w, xs)"
  have ok: "writes_ok (length ?p) ws" "i < length ?p"
    using Cons.prems(1,2) at(3) by (simp_all add: wx writes_ok_Cons)
  have rest: "\<forall>k < length ws. Suc k \<noteq> j \<longrightarrow> i \<notin> view_cells (fst (ws ! k))"
    using Cons.prems(6) by (metis Suc_less_eq length_Cons nth_Cons_Suc)
  show ?case
  proof (cases j)
    case 0
    then have e: "w = Pool_view off len" "xs = ys" using Cons.prems(4) wx by simp_all
    have "\<forall>wx \<in> set ws. i \<notin> view_cells (fst wx)" using rest 0 by (metis in_set_conv_nth nat.distinct(1))
    then have "foldl write_view ?p ws ! i = ?p ! i" by (rule write_views_other [OF ok])
    also have "\<dots> = ys ! (i - off)" using at(2) [OF e(1)] Cons.prems(5) e by simp
    finally show ?thesis by (simp add: wx)
  next
    case (Suc j')
    have "foldl write_view ?p ws ! i = ys ! (i - off)"
      using Cons.prems(3-5) rest Suc by (intro Cons.IH [OF ok, of j']) simp_all
    then show ?thesis by (simp add: wx)
  qed
qed

lemma write_views_len: "writes_ok (length pool) ws \<Longrightarrow> length (foldl write_view pool ws) = length pool"
  using write_views_length [of ws pool] by (auto simp: writes_ok_def)

section \<open>A cycle is defined\<close>

text \<open>Node types whose calls need nothing of their arguments beyond views that fit.\<close>

definition node_safe :: "node \<Rightarrow> bool" where
  "node_safe n =
    (case n of
      Channel_adapter m k \<Rightarrow> adapt_defined m k
    | Sample_and_hold r \<Rightarrow> False
    | Ola_stft k \<Rightarrow> 2 \<le> k \<and> is_power_of_two k
    | Stft_forward k ch \<Rightarrow> fft_size_ok k
    | Stft_backward k ch \<Rightarrow> fft_size_ok k
    | Hosted h \<Rightarrow> False
    | _ \<Rightarrow> True)"

lemma node_safe_call: "node_safe n \<Longrightarrow> call_ok e n st c"
  by (cases n) (simp_all add: node_safe_def call_ok_def)

lemma node_safe_rate: "node_safe n \<Longrightarrow> rate_den n = 1 \<and> rate_num n = 1 \<or> params_count n = 0"
  by (cases n) (simp_all add: node_safe_def)

definition nodes_safe :: "compiled_schedule \<Rightarrow> bool" where
  "nodes_safe s \<longleftrightarrow> (\<forall>n \<in> set (sched_nodes s). node_safe n)"

lemma nodes_safe_at: "nodes_safe s \<Longrightarrow> v < nodes_of s \<Longrightarrow> node_safe (sched_nodes s ! v)"
  by (simp add: nodes_safe_def bp_size_def)

text \<open>The writes of one call: as many slices as outputs, each of the right length, in the pool.\<close>

lemma view_cells_pool:
  "view_in_pool s w \<Longrightarrow> view_cells w \<subseteq> {..<cs_total_output_samples s}"
  by (cases w) auto

lemma call_writes_ok:
  assumes "sched_ok s" and "instance_ok s sr inst" and "v < nodes_of s" and "k < cs_calls s ! v"
    and "map length os = map length (nc_outputs (call_view inst (cs_ctx_base s ! v + k)))"
  shows "writes_ok (length (gi_pool inst)) (zip (cc_outputs (build_ctx s sr v k)) os)"
    and "length os = outputs_count (sched_nodes s ! v)"
proof -
  let ?cc = "build_ctx s sr v k"
  have cc: "gi_contexts inst ! (cs_ctx_base s ! v + k) = ?cc"
    using assms(2) context_at [OF assms(1,3,4)] by (simp add: instance_ok_def)
  have m: "map length os = map (\<lambda>w. length (read_view inst w)) (cc_outputs ?cc)"
    using assms(5) by (simp add: call_view_def Let_def cc comp_def)
  then show "length os = outputs_count (sched_nodes s ! v)"
    by (metis build_ctx_counts(2) length_map)
  have pool: "length (gi_pool inst) = cs_total_output_samples s" using assms(2) by (simp add: instance_ok_def)
  have sl: "view_in_pool s w" if "w \<in> set (cc_outputs ?cc)" for w
    using build_ctx_slices [OF assms(1,3,4), of sr] that by (simp add: slices_ok_def)
  have "view_len w = length xs \<and> view_cells w \<subseteq> {..<length (gi_pool inst)}"
    if wx: "(w, xs) \<in> set (zip (cc_outputs ?cc) os)" for w xs
  proof -
    obtain i where i: "i < length (cc_outputs ?cc)" "i < length os" "w = cc_outputs ?cc ! i" "xs = os ! i"
      using wx by (auto simp: set_zip)
    have "length xs = length (read_view inst w)" using m i by (metis nth_map)
    moreover have "w \<in> set (cc_outputs ?cc)" using i by simp
    ultimately show ?thesis
      using read_view_length [OF assms(2)] sl view_cells_pool pool by metis
  qed
  then show "writes_ok (length (gi_pool inst)) (zip (cc_outputs ?cc) os)" by (auto simp: writes_ok_def)
qed

text \<open>One call in full: what it computes and what it leaves alone.\<close>

lemma process_call_Some:
  assumes s: "sched_ok s" and i: "instance_ok s sr inst" and safe: "nodes_safe s"
    and v: "v < nodes_of s" and k: "k < cs_calls s ! v"
  obtains inst1 inst' st os where "process_call e v inst k = Some inst'"
    and "inst1 = update_control_ramps inst v (cs_ctx_base s ! v + k)"
    and "node_process e (sched_nodes s ! v) (gi_states inst ! v) (call_view inst1 (cs_ctx_base s ! v + k)) = Some (st, os)"
    and "length os = outputs_count (sched_nodes s ! v)"
    and "writes_ok (length (gi_pool inst)) (zip (cc_outputs (build_ctx s sr v k)) os)"
    and "inst' = inst1\<lparr>gi_states := (gi_states inst)[v := st],
       gi_pool := foldl write_view (gi_pool inst) (zip (cc_outputs (build_ctx s sr v k)) os)\<rparr>"
    and "instance_ok s sr inst'"
proof -
  let ?ci = "cs_ctx_base s ! v + k" and ?n = "sched_nodes s ! v"
  let ?inst1 = "update_control_ramps inst v ?ci"
  have i1: "instance_ok s sr ?inst1" by (rule update_ramps_ok [OF i])
  note n = nodes_safe_at [OF safe v]
  have sched: "gi_sched inst = s" and fits: "state_fits ?n (gi_states inst ! v)"
    using i v by (simp_all add: instance_ok_def)
  obtain st os where p: "node_process e ?n (gi_states inst ! v) (call_view ?inst1 ?ci) = Some (st, os)"
    and fit': "state_fits ?n st" and len: "map length os = map length (nc_outputs (call_view ?inst1 ?ci))"
    using node_process_covered [OF call_view_covers [OF s i1 v k node_safe_rate [OF n]] fits node_safe_call [OF n]]
    by blast
  have cc: "gi_contexts inst ! ?ci = build_ctx s sr v k"
    using i context_at [OF s v k] by (simp add: instance_ok_def)
  note w = call_writes_ok [OF s i1 v k len]
  let ?inst' = "?inst1\<lparr>gi_states := (gi_states inst)[v := st],
       gi_pool := foldl write_view (gi_pool inst) (zip (cc_outputs (build_ctx s sr v k)) os)\<rparr>"
  have call: "process_call e v inst k = Some ?inst'"
    using p cc by (simp add: process_call_def Let_def sched)
  have "length (gi_pool ?inst') = length (gi_pool inst)"
    using write_views_len w(1) by simp
  moreover have "\<forall>x < nodes_of s. state_fits (sched_nodes s ! x) ((gi_states inst)[v := st] ! x)"
    using i fit' v unfolding instance_ok_def by (metis nth_list_update_eq nth_list_update_neq)
  ultimately have "instance_ok s sr ?inst'"
    using i1 by (simp add: instance_ok_def)
  with call p w show thesis by (intro that [OF _ refl]) simp_all
qed

lemma fold_option_invariant:
  assumes "\<And>a x. x \<in> set xs \<Longrightarrow> P a \<Longrightarrow> \<exists>b. f a x = Some b \<and> P b" and "P a"
  shows "\<exists>b. fold_option f a xs = Some b \<and> P b"
  using assms
proof (induction xs arbitrary: a)
  case Nil
  then show ?case by simp
next
  case (Cons x xs)
  obtain b where b: "f a x = Some b" "P b" using Cons.prems by (meson list.set_intros(1))
  have "\<exists>c. fold_option f b xs = Some c \<and> P c"
    using Cons.prems(1) by (intro Cons.IH [OF _ b(2)]) simp
  with b show ?case by simp
qed

lemma process_node_total:
  assumes "sched_ok s" and "instance_ok s sr inst" and "nodes_safe s" and "v < nodes_of s"
  shows "\<exists>inst'. process_node e inst v = Some inst' \<and> instance_ok s sr inst'"
proof -
  have "gi_sched inst = s" using assms(2) by (simp add: instance_ok_def)
  then show ?thesis
    unfolding process_node_def
    using process_call_Some [OF assms(1) _ assms(3,4)] assms(2)
    by (intro fold_option_invariant) (auto, metis)
qed

lemma topo_in_range:
  assumes "sched_ok s"
  shows "distinct (cs_topo_order s)" "set (cs_topo_order s) = {..<nodes_of s}" "sources_first (cs_bp s) (cs_topo_order s)"
proof -
  have w: "wiring_ok (cs_bp s)" "compile (cs_bp s) (cs_block_size s) = Some s"
    using assms by (simp_all add: sched_ok_def)
  note t = compile_topo [OF w]
  show "distinct (cs_topo_order s)" "set (cs_topo_order s) = {..<nodes_of s}" by (rule t)+
  show "sources_first (cs_bp s) (cs_topo_order s)" by (rule before_sources_first [OF t(1,3)])
qed

lemma process_defined:
  assumes "sched_ok s" and "instance_ok s sr inst" and "nodes_safe s"
  shows "\<exists>inst'. process e inst = Some inst' \<and> instance_ok s sr inst'"
proof -
  have "gi_sched inst = s" using assms(2) by (simp add: instance_ok_def)
  then show ?thesis
    unfolding process_def
    using process_node_total [OF assms(1) _ assms(3)] topo_in_range(2) [OF assms(1)] assms(2)
    by (intro fold_option_invariant) auto
qed

section \<open>The dataflow equations\<close>

text \<open>When every node runs once per cycle, a cycle reads as equations between whole blocks.\<close>

definition one_call :: "compiled_schedule \<Rightarrow> bool" where
  "one_call s \<longleftrightarrow> (\<forall>v < nodes_of s. cs_calls s ! v = 1)"

abbreviation node_ctx_index :: "compiled_schedule \<Rightarrow> nat \<Rightarrow> nat" where
  "node_ctx_index s v \<equiv> cs_ctx_base s ! v"

text \<open>What belongs to node \<open>w\<close>: its state, its output buffers and the ramps of its call.\<close>

definition untouched :: "compiled_schedule \<Rightarrow> graph_instance \<Rightarrow> graph_instance \<Rightarrow> nat \<Rightarrow> bool" where
  "untouched s a b w \<longleftrightarrow>
    gi_states b ! w = gi_states a ! w \<and>
    (\<forall>ch < outputs_count (sched_nodes s ! w). \<forall>i \<in> channel_buffer s w ch. gi_pool b ! i = gi_pool a ! i) \<and>
    gi_ramps b ! node_ctx_index s w = gi_ramps a ! node_ctx_index s w"

lemma untouched_refl: "untouched s a a w"
  by (simp add: untouched_def)

lemma untouched_trans: "untouched s a b w \<Longrightarrow> untouched s b c w \<Longrightarrow> untouched s a c w"
  by (simp add: untouched_def)

lemma ctx_index_distinct:
  assumes "sched_ok s" and "v < nodes_of s" "w < nodes_of s" "v \<noteq> w"
  shows "node_ctx_index s v \<noteq> node_ctx_index s w"
proof -
  obtain rt :: rates where f: "cs_calls s = rt_calls rt" "cs_ctx_base s = offsets_from 0 (rt_calls rt)"
    by (rule sched_fields [OF assms(1)]) blast
  have len: "length (rt_calls rt) = nodes_of s" using sched_lengths(3) [OF assms(1)] f by simp
  have "node_ctx_index s x < node_ctx_index s y" if "x < y" "y < nodes_of s" for x y
    using offsets_from_disjoint [of x y "rt_calls rt" 0] that len f sched_throughput(4) [OF assms(1), of x] by simp
  then show ?thesis using assms by (metis less_irrefl nat_neq_iff)
qed

lemma ramp_port_other: "j \<noteq> ci \<Longrightarrow> gi_ramps (ramp_port b cc ci inst p) ! j = gi_ramps inst ! j"
  by (simp add: ramp_port_def Let_def)

lemma ramps_other: "j \<noteq> ci \<Longrightarrow> gi_ramps (update_control_ramps inst v ci) ! j = gi_ramps inst ! j"
proof -
  assume "j \<noteq> ci"
  then have "gi_ramps (foldl (ramp_port b cc ci) inst ps) ! j = gi_ramps inst ! j" for b cc ps
    by (induction ps arbitrary: inst) (simp_all add: ramp_port_other)
  then show ?thesis by (simp add: update_control_ramps_def Let_def)
qed

lemma read_view_cong:
  assumes "length (gi_pool a) = length (gi_pool b)" and "gi_silent_len a = gi_silent_len b"
    and "\<forall>i \<in> view_cells w. gi_pool b ! i = gi_pool a ! i"
  shows "read_view b w = read_view a w"
  using assms by (cases w) (auto simp: list_eq_iff_nth_eq)

lemma output_view_eq:
  assumes "one_call s" and "sched_ok s" and "v < nodes_of s" and "ch < outputs_count (sched_nodes s ! v)"
  shows "cc_outputs (build_ctx s sr v 0) ! ch = Pool_view (out_offset s v ch) (cs_out_stride s ! v)"
    and "view_cells (cc_outputs (build_ctx s sr v 0) ! ch) = channel_buffer s v ch"
proof -
  have "cs_node_block s ! v = cs_out_stride s ! v"
    using sched_throughput(1) [OF assms(2,3)] assms(1,3) by (simp add: one_call_def)
  then show "cc_outputs (build_ctx s sr v 0) ! ch = Pool_view (out_offset s v ch) (cs_out_stride s ! v)"
    using assms(4) by (simp add: build_ctx_def Let_def)
  then show "view_cells (cc_outputs (build_ctx s sr v 0) ! ch) = channel_buffer s v ch"
    by (simp add: channel_buffer_def)
qed

text \<open>One node's turn, in a single-call schedule.\<close>

lemma node_turn:
  assumes s: "sched_ok s" and one: "one_call s" and i: "instance_ok s sr inst" and safe: "nodes_safe s"
    and v: "v < nodes_of s"
  obtains inst1 inst' st os where "process_node e inst v = Some inst'" and "instance_ok s sr inst'"
    and "inst1 = update_control_ramps inst v (node_ctx_index s v)"
    and "node_process e (sched_nodes s ! v) (gi_states inst ! v) (call_view inst1 (node_ctx_index s v)) = Some (st, os)"
    and "gi_states inst' ! v = st"
    and "map (read_view inst') (cc_outputs (build_ctx s sr v 0)) = os"
    and "gi_ramps inst' ! node_ctx_index s v = gi_ramps inst1 ! node_ctx_index s v"
    and "\<And>w. w < nodes_of s \<Longrightarrow> w \<noteq> v \<Longrightarrow> untouched s inst inst' w"
proof -
  have k: "0 < cs_calls s ! v" and C: "cs_calls s ! v = 1" using one v by (simp_all add: one_call_def)
  have sched: "gi_sched inst = s" using i by (simp add: instance_ok_def)
  obtain inst1 inst' st os where call: "process_call e v inst 0 = Some inst'"
    and i1: "inst1 = update_control_ramps inst v (cs_ctx_base s ! v + 0)"
    and p: "node_process e (sched_nodes s ! v) (gi_states inst ! v) (call_view inst1 (cs_ctx_base s ! v + 0)) = Some (st, os)"
    and len: "length os = outputs_count (sched_nodes s ! v)"
    and ok: "writes_ok (length (gi_pool inst)) (zip (cc_outputs (build_ctx s sr v 0)) os)"
    and e': "inst' = inst1\<lparr>gi_states := (gi_states inst)[v := st],
       gi_pool := foldl write_view (gi_pool inst) (zip (cc_outputs (build_ctx s sr v 0)) os)\<rparr>"
    and i': "instance_ok s sr inst'"
    by (rule process_call_Some [OF s i safe v k])
  let ?outs = "cc_outputs (build_ctx s sr v 0)"
  have lo: "length ?outs = outputs_count (sched_nodes s ! v)" by (rule build_ctx_counts)
  have pool: "length (gi_pool inst) = cs_total_output_samples s" using i by (simp add: instance_ok_def)
  have pool': "gi_pool inst' = foldl write_view (gi_pool inst) (zip ?outs os)" unfolding e' by simp
  have plen: "length (gi_pool inst') = length (gi_pool inst)" unfolding pool' by (rule write_views_len [OF ok])
  have cells: "view_cells (?outs ! ch) = channel_buffer s v ch" if "ch < outputs_count (sched_nodes s ! v)" for ch
    by (rule output_view_eq(2) [OF one s v that])
  have "process_node e inst v = Some inst'"
    using call C by (simp add: process_node_def sched)
  moreover have "gi_states inst' ! v = st"
    using i v unfolding e' by (simp add: instance_ok_def)
  moreover have "map (read_view inst') ?outs = os"
  proof (rule nth_equalityI)
    show "length (map (read_view inst') ?outs) = length os" using lo len by simp
  next
    fix ch
    assume "ch < length (map (read_view inst') ?outs)"
    then have ch: "ch < outputs_count (sched_nodes s ! v)" using lo by simp
    let ?o = "out_offset s v ch" and ?l = "cs_out_stride s ! v"
    have w: "?outs ! ch = Pool_view ?o ?l" by (rule output_view_eq(1) [OF one s v ch])
    have top: "?o + ?l \<le> cs_total_output_samples s" by (rule channel_in_pool(2) [OF s v ch])
    have z: "zip ?outs os ! ch = (Pool_view ?o ?l, os ! ch)" using w lo len ch by simp
    have "(?outs ! ch, os ! ch) \<in> set (zip ?outs os)" using lo len ch by (auto simp: set_zip)
    then have olen: "length (os ! ch) = ?l" using ok w by (force simp: writes_ok_def)
    have at: "gi_pool inst' ! j = os ! ch ! (j - ?o)" if j: "j \<in> {?o ..< ?o + ?l}" for j
      unfolding pool'
    proof (rule write_views_at [OF ok _ _ z j])
      show "j < length (gi_pool inst)" using j top pool by auto
      show "ch < length (zip ?outs os)" using lo len ch by simp
      show "\<forall>k < length (zip ?outs os). k \<noteq> ch \<longrightarrow> j \<notin> view_cells (fst (zip ?outs os ! k))"
      proof (intro allI impI)
        fix k assume "k < length (zip ?outs os)" "k \<noteq> ch"
        then have k: "k < outputs_count (sched_nodes s ! v)" "(v, k) \<noteq> (v, ch)" using lo len by auto
        have "j \<in> channel_buffer s v ch" using j by (simp add: channel_buffer_def)
        then have "j \<notin> channel_buffer s v k" using channels_disjoint [OF s v k(1) v ch k(2)] by blast
        then show "j \<notin> view_cells (fst (zip ?outs os ! k))" using k(1) lo len cells by simp
      qed
    qed
    have "read_view inst' (?outs ! ch) = os ! ch"
    proof (rule nth_equalityI)
      show "length (read_view inst' (?outs ! ch)) = length (os ! ch)" using top pool plen olen by (simp add: w)
      fix x assume "x < length (read_view inst' (?outs ! ch))"
      then show "read_view inst' (?outs ! ch) ! x = os ! ch ! x"
        using at [of "?o + x"] top pool plen by (simp add: w)
    qed
    then show "map (read_view inst') ?outs ! ch = os ! ch" using lo ch by simp
  qed
  moreover have "gi_ramps inst' ! node_ctx_index s v = gi_ramps inst1 ! node_ctx_index s v"
    unfolding e' by simp
  moreover have "untouched s inst inst' w" if w: "w < nodes_of s" "w \<noteq> v" for w
    unfolding untouched_def
  proof (intro conjI allI impI ballI)
    show "gi_states inst' ! w = gi_states inst ! w" using w(2) unfolding e' by simp
    show "gi_ramps inst' ! node_ctx_index s w = gi_ramps inst ! node_ctx_index s w"
      using ctx_index_distinct [OF s w(1) v w(2)] ramps_other unfolding e' i1 by simp
    fix ch i assume ch: "ch < outputs_count (sched_nodes s ! w)" and i: "i \<in> channel_buffer s w ch"
    show "gi_pool inst' ! i = gi_pool inst ! i"
      unfolding pool'
    proof (rule write_views_other [OF ok])
      show "i < length (gi_pool inst)"
        using i channel_in_pool(2) [OF s w(1) ch] pool by (auto simp: channel_buffer_def)
      show "\<forall>wx \<in> set (zip ?outs os). i \<notin> view_cells (fst wx)"
      proof
        fix wx assume "wx \<in> set (zip ?outs os)"
        then obtain k where k: "k < outputs_count (sched_nodes s ! v)" "fst wx = ?outs ! k"
          using lo by (auto simp: set_zip)
        have "(w, ch) \<noteq> (v, k)" using w by simp
        then have "i \<notin> channel_buffer s v k" using channels_disjoint [OF s w(1) ch v k(1)] i by blast
        then show "i \<notin> view_cells (fst wx)" using k cells by simp
      qed
    qed
  qed
  ultimately show thesis using that [OF _ i' _ _ _ _ _] p i1 by simp
qed

text \<open>
  The equation of node \<open>v\<close> between the instance before a cycle and after it: the state and
  the output blocks after are what \<open>process\<close> computes from the state and output blocks
  before and from the input blocks, port blocks and ramps after.
\<close>

definition dataflow_eq :: "env \<Rightarrow> compiled_schedule \<Rightarrow> nat \<Rightarrow> graph_instance \<Rightarrow> graph_instance \<Rightarrow> nat \<Rightarrow> bool" where
  "dataflow_eq e s sr a b v \<longleftrightarrow>
    node_process e (sched_nodes s ! v) (gi_states a ! v)
      ((call_view b (node_ctx_index s v))\<lparr>nc_outputs := map (read_view a) (cc_outputs (build_ctx s sr v 0))\<rparr>) =
    Some (gi_states b ! v, map (read_view b) (cc_outputs (build_ctx s sr v 0)))"

lemma untouched_outputs:
  assumes "sched_ok s" and "one_call s" and "instance_ok s sr a" "instance_ok s sr b" and "v < nodes_of s"
    and "untouched s a b v"
  shows "map (read_view b) (cc_outputs (build_ctx s sr v 0)) = map (read_view a) (cc_outputs (build_ctx s sr v 0))"
proof (rule map_cong [OF refl])
  fix w assume "w \<in> set (cc_outputs (build_ctx s sr v 0))"
  then obtain ch where ch: "ch < outputs_count (sched_nodes s ! v)" "w = cc_outputs (build_ctx s sr v 0) ! ch"
    by (metis build_ctx_counts(2) in_set_conv_nth)
  then have "view_cells w = channel_buffer s v ch" using output_view_eq(2) [OF assms(2,1,5)] by simp
  then show "read_view b w = read_view a w"
    using assms(3,4,6) ch(1) by (intro read_view_cong) (simp_all add: instance_ok_def untouched_def)
qed

lemma untouched_inputs:
  assumes s: "sched_ok s" and one: "one_call s" and ok: "instance_ok s sr a" "instance_ok s sr b" and v: "v < nodes_of s"
    and src: "\<forall>u \<in> set (sources_of (cs_bp s) v).
      \<forall>ch < outputs_count (sched_nodes s ! u). \<forall>i \<in> channel_buffer s u ch. gi_pool b ! i = gi_pool a ! i"
    and ramps: "gi_ramps b ! node_ctx_index s v = gi_ramps a ! node_ctx_index s v"
  shows "(call_view b (node_ctx_index s v))\<lparr>nc_outputs := x\<rparr> = (call_view a (node_ctx_index s v))\<lparr>nc_outputs := x\<rparr>"
proof -
  let ?n = "sched_nodes s ! v" and ?cc = "build_ctx s sr v 0"
  have k: "0 < cs_calls s ! v" using one v by (simp add: one_call_def)
  have cc: "gi_contexts a ! node_ctx_index s v = ?cc" "gi_contexts b ! node_ctx_index s v = ?cc"
    using ok context_at [OF s v k] by (simp_all add: instance_ok_def)
  have same: "read_view b (source_view s v 0 (u, c)) = read_view a (source_view s v 0 (u, c))"
    if "u \<in> set (sources_of (cs_bp s) v)" "u < nodes_of s" "c < outputs_count (sched_nodes s ! u)" for u c
    using ok src that source_view_ok(3) [OF s v k that] by (intro read_view_cong) (auto simp: instance_ok_def)
  have ins: "map (read_view b) (cc_inputs ?cc) = map (read_view a) (cc_inputs ?cc)"
  proof (rule map_cong [OF refl])
    fix w assume "w \<in> set (cc_inputs ?cc)"
    then obtain i where i: "i < inputs_count ?n"
      and w: "w = (case cs_input_source s ! v ! i of None \<Rightarrow> Silent_view (silent_in s v)
        | Some src \<Rightarrow> source_view s v 0 src)"
      by (auto simp: build_ctx_def Let_def)
    show "read_view b w = read_view a w"
    proof (cases "cs_input_source s ! v ! i")
      case None
      then show ?thesis using ok w by (simp add: instance_ok_def)
    next
      case (Some y)
      then show ?thesis using w connection_of_input [OF s v i] same by (cases y) simp
    qed
  qed
  have "map2 (port_view b) (cc_params ?cc) r = map2 (port_view a) (cc_params ?cc) r" for r
  proof (rule map_cong [OF refl])
    fix z assume "z \<in> set (zip (cc_params ?cc) r)"
    then obtain p y where z: "z = (p, y)" and "p \<in> set (cc_params ?cc)" by (metis set_zip_leftD surj_pair)
    then obtain i where i: "i < params_count ?n"
      and p: "p = (case cs_param_source s ! v ! i of None \<Rightarrow> None | Some src \<Rightarrow> Some (source_view s v 0 src))"
      by (auto simp: build_ctx_def Let_def)
    have "port_view b p y = port_view a p y"
    proof (cases "cs_param_source s ! v ! i")
      case None
      then show ?thesis using p by (simp add: port_view_def)
    next
      case (Some q)
      then show ?thesis using p connection_of_param [OF s v i] same by (cases q) (simp add: port_view_def)
    qed
    then show "(case z of (x, xa) \<Rightarrow> port_view b x xa) = (case z of (x, xa) \<Rightarrow> port_view a x xa)"
      using z by simp
  qed
  then show ?thesis using ins ramps by (simp add: call_view_def Let_def cc)
qed

lemma turn_equation:
  assumes s: "sched_ok s" and one: "one_call s" and i: "instance_ok s sr inst" and safe: "nodes_safe s"
    and v: "v < nodes_of s" and src: "v \<notin> set (sources_of (cs_bp s) v)"
  obtains inst' where "process_node e inst v = Some inst'" and "instance_ok s sr inst'"
    and "dataflow_eq e s sr inst inst' v"
    and "\<And>w. w < nodes_of s \<Longrightarrow> w \<noteq> v \<Longrightarrow> untouched s inst inst' w"
proof -
  obtain inst1 inst' st os where pn: "process_node e inst v = Some inst'" and i': "instance_ok s sr inst'"
    and i1: "inst1 = update_control_ramps inst v (node_ctx_index s v)"
    and p: "node_process e (sched_nodes s ! v) (gi_states inst ! v) (call_view inst1 (node_ctx_index s v)) = Some (st, os)"
    and st: "gi_states inst' ! v = st"
    and outs: "map (read_view inst') (cc_outputs (build_ctx s sr v 0)) = os"
    and ramps: "gi_ramps inst' ! node_ctx_index s v = gi_ramps inst1 ! node_ctx_index s v"
    and other: "\<And>w. w < nodes_of s \<Longrightarrow> w \<noteq> v \<Longrightarrow> untouched s inst inst' w"
    by (rule node_turn [OF s one i safe v, where e = e]) blast
  have w: "wiring_ok (cs_bp s)" using s by (simp add: sched_ok_def)
  have k: "0 < cs_calls s ! v" using one v by (simp add: one_call_def)
  have ok1: "instance_ok s sr inst1" unfolding i1 by (rule update_ramps_ok [OF i])
  have cells: "\<forall>u \<in> set (sources_of (cs_bp s) v).
      \<forall>ch < outputs_count (sched_nodes s ! u). \<forall>i \<in> channel_buffer s u ch. gi_pool inst' ! i = gi_pool inst1 ! i"
  proof
    fix u assume u: "u \<in> set (sources_of (cs_bp s) v)"
    then have "u \<noteq> v" "u < nodes_of s" using src source_in_range(1) [OF w u] by auto
    then have "untouched s inst inst' u" by (intro other)
    then show "\<forall>ch < outputs_count (sched_nodes s ! u). \<forall>i \<in> channel_buffer s u ch. gi_pool inst' ! i = gi_pool inst1 ! i"
      by (simp add: untouched_def i1)
  qed
  have same_read: "read_view inst1 x = read_view inst x" for x by (cases x) (simp_all add: i1)
  have "(call_view inst1 (node_ctx_index s v))\<lparr>nc_outputs := map (read_view inst) (cc_outputs (build_ctx s sr v 0))\<rparr> =
      call_view inst1 (node_ctx_index s v)"
    using ok1 context_at [OF s v k] same_read by (simp add: call_view_def Let_def instance_ok_def)
  then have "(call_view inst' (node_ctx_index s v))\<lparr>nc_outputs := map (read_view inst) (cc_outputs (build_ctx s sr v 0))\<rparr> =
      call_view inst1 (node_ctx_index s v)"
    using untouched_inputs [OF s one ok1 i' v cells ramps] by metis
  then have "dataflow_eq e s sr inst inst' v" using p st outs by (simp add: dataflow_eq_def)
  from that [OF pn i' this other] show thesis .
qed

lemma dataflow_cong:
  assumes s: "sched_ok s" and one: "one_call s" and v: "v < nodes_of s"
    and ok: "instance_ok s sr a" "instance_ok s sr a'" "instance_ok s sr b" "instance_ok s sr b'"
    and a: "untouched s a' a v" and b: "untouched s b b' v" "\<forall>u \<in> set (sources_of (cs_bp s) v). untouched s b b' u"
    and eq: "dataflow_eq e s sr a b v"
  shows "dataflow_eq e s sr a' b' v"
proof -
  have ins: "(call_view b' (node_ctx_index s v))\<lparr>nc_outputs := x\<rparr> = (call_view b (node_ctx_index s v))\<lparr>nc_outputs := x\<rparr>" for x
    using b by (intro untouched_inputs [OF s one ok(3,4) v]) (simp_all add: untouched_def)
  have old: "map (read_view a') (cc_outputs (build_ctx s sr v 0)) = map (read_view a) (cc_outputs (build_ctx s sr v 0))"
    by (rule untouched_outputs [OF s one ok(2,1) v a, symmetric])
  have new: "map (read_view b') (cc_outputs (build_ctx s sr v 0)) = map (read_view b) (cc_outputs (build_ctx s sr v 0))"
    by (rule untouched_outputs [OF s one ok(3,4) v b(1)])
  have "gi_states a' ! v = gi_states a ! v" "gi_states b' ! v = gi_states b ! v"
    using a b(1) by (simp_all add: untouched_def)
  with eq show ?thesis unfolding dataflow_eq_def ins old new by simp
qed

lemma turns_equations:
  assumes s: "sched_ok s" and one: "one_call s" and safe: "nodes_safe s"
  shows "instance_ok s sr inst \<Longrightarrow> sources_first (cs_bp s) vs \<Longrightarrow> set vs \<subseteq> {..<nodes_of s} \<Longrightarrow>
    \<exists>inst'. fold_option (process_node e) inst vs = Some inst' \<and> instance_ok s sr inst' \<and>
      (\<forall>v \<in> set vs. dataflow_eq e s sr inst inst' v) \<and>
      (\<forall>w < nodes_of s. w \<notin> set vs \<longrightarrow> untouched s inst inst' w)"
proof (induction vs arbitrary: inst)
  case Nil
  then show ?case by (simp add: untouched_refl)
next
  case (Cons v vs)
  note first = sources_first_ConsD [OF Cons.prems(2)]
  have v: "v < nodes_of s" "v \<notin> set (sources_of (cs_bp s) v)" using Cons.prems(3) first(3) by auto
  have w: "wiring_ok (cs_bp s)" using s by (simp add: sched_ok_def)
  obtain inst1 where p: "process_node e inst v = Some inst1" and i1: "instance_ok s sr inst1"
    and eq: "dataflow_eq e s sr inst inst1 v"
    and other: "\<And>w. w < nodes_of s \<Longrightarrow> w \<noteq> v \<Longrightarrow> untouched s inst inst1 w"
    by (rule turn_equation [OF s one Cons.prems(1) safe v, where e = e]) blast
  obtain inst' where rest: "fold_option (process_node e) inst1 vs = Some inst'" and i': "instance_ok s sr inst'"
    and eqs: "\<forall>x \<in> set vs. dataflow_eq e s sr inst1 inst' x"
    and other': "\<forall>w < nodes_of s. w \<notin> set vs \<longrightarrow> untouched s inst1 inst' w"
    using Cons.IH [OF i1 first(1)] Cons.prems(3) by auto
  have "dataflow_eq e s sr inst inst' v"
  proof (rule dataflow_cong [OF s one v(1) Cons.prems(1,1) i1 i' untouched_refl _ _ eq])
    show "untouched s inst1 inst' v" using other' v(1) first(2) by blast
    show "\<forall>u \<in> set (sources_of (cs_bp s) v). untouched s inst1 inst' u"
      using other' first(3) source_in_range(1) [OF w] by auto
  qed
  moreover have "dataflow_eq e s sr inst inst' x" if x: "x \<in> set vs" for x
  proof (rule dataflow_cong [OF s one _ i1 Cons.prems(1) i' i' _ untouched_refl])
    show xn: "x < nodes_of s" using x Cons.prems(3) by auto
    show "untouched s inst inst1 x" using other xn x first(2) by auto
    show "\<forall>u \<in> set (sources_of (cs_bp s) x). untouched s inst' inst' u" by (simp add: untouched_refl)
    show "dataflow_eq e s sr inst1 inst' x" using eqs x by blast
  qed
  moreover have "untouched s inst inst' x" if "x < nodes_of s" "x \<notin> set (v # vs)" for x
    using untouched_trans other [of x] other' that by auto
  ultimately show ?case using p rest i' by auto
qed

section \<open>Control ports\<close>

lemma control_in_range:
  assumes "sched_ok s" and "v < nodes_of s" and "p < params_count (sched_nodes s ! v)"
  shows "cs_param_base s ! v + p < cs_total_params s"
proof -
  obtain rt :: rates where f: "cs_param_base s = offsets_from 0 (map params_count (sched_nodes s))"
    "cs_total_params s = sum_list (map params_count (sched_nodes s))"
    by (rule sched_fields [OF assms(1)]) blast
  have "v < length (map params_count (sched_nodes s))" using assms(2) by (simp add: bp_size_def)
  from offsets_from_bound [OF this, of 0] show ?thesis
    using assms(2,3) unfolding f by (simp add: bp_size_def)
qed

lemma unmodulated_port:
  assumes "p < params_count (sched_nodes s ! v)"
  shows "cc_params (build_ctx s sr v k) ! p = None \<longleftrightarrow> cs_param_source s ! v ! p = None"
  using assms by (simp add: build_ctx_def Let_def split: option.split)

lemma port_ramp:
  assumes s: "sched_ok s" and i: "instance_ok s sr inst" and v: "v < nodes_of s" and k: "k < cs_calls s ! v"
    and p: "p < params_count (sched_nodes s ! v)" and free: "cs_param_source s ! v ! p = None"
  shows "gi_ramps (update_control_ramps inst v (cs_ctx_base s ! v + k)) ! (cs_ctx_base s ! v + k) ! p =
      (ctl_current (gi_controls inst ! (cs_param_base s ! v + p)),
       (ctl_target (gi_controls inst ! (cs_param_base s ! v + p)) -
        ctl_current (gi_controls inst ! (cs_param_base s ! v + p))) * inverse_block (cs_node_block s ! v)) \<and>
    gi_controls (update_control_ramps inst v (cs_ctx_base s ! v + k)) ! (cs_param_base s ! v + p) =
      (gi_controls inst ! (cs_param_base s ! v + p))
        \<lparr>ctl_current := ctl_target (gi_controls inst ! (cs_param_base s ! v + p))\<rparr>"
proof -
  let ?cc = "build_ctx s sr v k"
  have cc: "gi_contexts inst ! (cs_ctx_base s ! v + k) = ?cc" "gi_sched inst = s"
    using i context_at [OF s v k] by (simp_all add: instance_ok_def)
  have "cs_ctx_base s ! v + k < length (gi_ramps inst)" "p < length (gi_ramps inst ! (cs_ctx_base s ! v + k))"
    "cs_param_base s ! v + p < length (gi_controls inst)"
    using i flat_table(3) [OF s v k] control_in_range [OF s v p] p v k by (simp_all add: instance_ok_def)
  moreover have "p < length (cc_params ?cc)" "cc_params ?cc ! p = None" "cc_block ?cc = cs_node_block s ! v"
    using p free unmodulated_port [OF p] by (simp_all add: build_ctx_counts build_ctx_def Let_def)
  ultimately show ?thesis
    using ramp_of_port [of p ?cc "cs_ctx_base s ! v + k" inst "cs_param_base s ! v"]
    unfolding update_control_ramps_def Let_def cc by simp
qed

section \<open>An example instance\<close>

lemma tone_sched:
  obtains s where "compile tone_graph 64 = Some s" and "sched_ok s" and "one_call s" and "nodes_safe s"
    and "cs_bp s = tone_graph" and "nodes_of s = 2" and "cs_total_output_samples s = 128"
proof -
  have B: "is_power_of_two 64" by (simp add: is_power_of_two_iff exI [of _ 6])
  obtain s where s: "compile tone_graph 64 = Some s"
    and r: "\<forall>v < 2. cs_region_rate s ! v = 1 \<and> cs_calls s ! v = 1 \<and> cs_node_block s ! v = 64"
    using single_rate_each [OF tone_graph_wired tone_graph_single tone_graph_acyclic, of 64]
    by (auto simp: tone_graph_eq)
  obtain rt where e: "s = build_schedule tone_graph 64 (cs_topo_order s) rt" and l: "rates_length rt 2"
    by (rule compile_rates [OF tone_graph_wired s]) (simp add: tone_graph_eq)
  have bs: "cs_bp s = tone_graph" "cs_block_size s = 64" "cs_region_rate s = rt_rate rt" "cs_calls s = rt_calls rt"
    by (subst e, simp add: build_schedule_def Let_def)+
  have two: "xs = [xs ! 0, xs ! 1]" if "length xs = 2" for xs :: "nat list"
    using that by (cases xs; cases "tl xs") auto
  have rt: "rt_rate rt = [1, 1]" "rt_calls rt = [1, 1]"
    using two [of "rt_rate rt"] two [of "rt_calls rt"] r l bs by (simp_all add: rates_length_def)
  have sizes: "cs_total_state_bytes s = 8" "cs_total_output_samples s = 128" "cs_max_stride s = 64"
    "cs_total_calls s = 2" "cs_total_params s = 2"
    by (subst e, simp add: build_schedule_def Let_def tone_graph_eq rt align_up_def)+
  show thesis
  proof (rule that [OF s])
    show "sched_ok s"
      using s B tone_graph_wired
      by (simp add: sched_ok_def bs arena_bytes_def silent_size_def sizes total_views_def total_param_views_def
          rt tone_graph_eq)
    show "one_call s" using r by (simp add: one_call_def bs tone_graph_eq)
    show "nodes_safe s" by (simp add: nodes_safe_def bs tone_graph_eq node_safe_def)
  qed (simp_all add: bs tone_graph_eq sizes)
qed

section \<open>Properties\<close>

text \<open>C16: The one reservation that \<open>build\<close> makes covers every allocation it then performs, wherever
  the storage lands in memory: building an instance never fails for lack of room, and the instance
  it returns satisfies the invariant of an instance.\<close>

theorem build_reservation_suffices:
  assumes "sched_ok s" and "base < 2 ^ 62"
  shows "\<exists>inst. build e base s sr = Some inst \<and> instance_ok s sr inst"
proof -
  have "arena_bytes s < 2 ^ 62" using assms(1) by (simp add: sched_ok_def)
  from build_Some [OF this assms(2)] instance_of_ok [OF assms(1)] show ?thesis by blast
qed

theorem build_reservation_suffices_witness:
  "\<exists>s inst. compile tone_graph 64 = Some s \<and> build plain_env 4096 s 48000 = Some inst \<and>
     instance_ok s 48000 inst"
proof -
  obtain s where s: "compile tone_graph 64 = Some s" "sched_ok s" by (rule tone_sched)
  with build_reservation_suffices [OF s(2), of 4096 plain_env 48000] show ?thesis by auto
qed

text \<open>C22: Every slice handed to a node lies inside the buffer pool and inside the channel buffer it
  belongs to, and the slices have the lengths the node's rates call for: \<open>node_block\<close> samples for
  outputs, that many times the rate ratio for inputs.\<close>

theorem slices_safe:
  assumes "sched_ok s" and "v < nodes_of s" and "k < cs_calls s ! v"
  shows "slices_ok s v (build_ctx s sr v k)"
  using assms by (rule build_ctx_slices)

theorem slices_safe_witness:
  "\<exists>s. compile tone_graph 64 = Some s \<and> slices_ok s 1 (build_ctx s 48000 1 0)"
proof -
  obtain s where s: "compile tone_graph 64 = Some s" "sched_ok s" "one_call s" "nodes_of s = 2" by (rule tone_sched)
  with slices_safe [of s 1 0 48000] show ?thesis by (auto simp: one_call_def)
qed

text \<open>A cycle never gets stuck: processing an instance of a compiled graph of safe node types is
  defined, at every cycle, in multi-rate graphs too, and keeps the invariant of the instance.\<close>

theorem process_total:
  assumes "sched_ok s" and "instance_ok s sr inst" and "nodes_safe s"
  shows "\<exists>inst'. process e inst = Some inst' \<and> instance_ok s sr inst'"
  using assms by (rule process_defined)

theorem process_total_witness:
  "\<exists>s inst. compile tone_graph 64 = Some s \<and> process plain_env (instance_of plain_env s 48000) = Some inst"
proof -
  obtain s where s: "compile tone_graph 64 = Some s" "sched_ok s" "nodes_safe s" by (rule tone_sched)
  with process_total [OF s(2) instance_of_ok [OF s(2)] s(3)] show ?thesis by blast
qed

text \<open>C3: A cycle of a single-rate graph solves the dataflow equations of the graph: for every node,
  the state and the output blocks after the cycle are exactly what its \<open>process\<close> computes from its
  state before and from the blocks its sources produced in this same cycle.\<close>

theorem process_solves_dataflow:
  assumes "sched_ok s" and "one_call s" and "nodes_safe s" and "instance_ok s sr inst"
  shows "\<exists>inst'. process e inst = Some inst' \<and> (\<forall>v < nodes_of s. dataflow_eq e s sr inst inst' v)"
proof -
  have sched: "gi_sched inst = s" using assms(4) by (simp add: instance_ok_def)
  have all: "set (cs_topo_order s) = {..<nodes_of s}" by (rule topo_in_range(2) [OF assms(1)])
  obtain inst' where "fold_option (process_node e) inst (cs_topo_order s) = Some inst'"
    and "\<forall>v \<in> set (cs_topo_order s). dataflow_eq e s sr inst inst' v"
    using turns_equations [OF assms(1-3) assms(4) topo_in_range(3) [OF assms(1)], of e] all by auto
  then show ?thesis using sched all by (auto simp: process_def)
qed

theorem process_solves_dataflow_witness:
  "\<exists>s inst. compile tone_graph 64 = Some s \<and>
     process plain_env (instance_of plain_env s 48000) = Some inst \<and>
     dataflow_eq plain_env s 48000 (instance_of plain_env s 48000) inst 1"
proof -
  obtain s where s: "compile tone_graph 64 = Some s" "sched_ok s" "nodes_safe s" "one_call s" "nodes_of s = 2"
    by (rule tone_sched)
  from process_solves_dataflow [OF s(2,4,3) instance_of_ok [OF s(2), where e = plain_env and sr = 48000], of plain_env] s(1,5)
  show ?thesis by auto
qed



end
