(* ===== verification/Slots.thy ===== *)
theory Slots
  imports Instance_Facts
begin

text \<open>
  The pool of voices, \<open>include/xrune/instance_manager.hpp\<close>: handles with 32-bit generations,
  lifetime policies, and the slots with their free list.  A free list is a stack whose top is
  its last entry; the instance of an empty slot is \<open>None\<close>.
\<close>

section \<open>Data\<close>

record instance_handle =
  ih_slot :: nat
  ih_generation :: "32 word"

definition null_handle :: instance_handle where
  "null_handle = \<lparr>ih_slot = 0, ih_generation = 0\<rparr>"

definition handle_valid :: "instance_handle \<Rightarrow> bool" where
  "handle_valid h \<longleftrightarrow> ih_generation h \<noteq> 0"

datatype lifetime_kind = Permanent | Timed | Until_finished | Until_silent

record lifetime_policy =
  lp_kind :: lifetime_kind
  lp_ttl_blocks :: nat
  lp_silence_threshold :: f64
  lp_silence_blocks :: nat

record instance_slot =
  is_inst :: "graph_instance option"
  is_generation :: "32 word"
  is_life :: lifetime_policy
  is_age_blocks :: nat
  is_silent_run :: nat

record instance_manager =
  im_slots :: "instance_slot list"
  im_free :: "nat list"
  im_next_generation :: "32 word"

definition default_policy :: lifetime_policy where
  "default_policy = \<lparr>lp_kind = Permanent, lp_ttl_blocks = 0, lp_silence_threshold = f64_lit 1 100000,
     lp_silence_blocks = 0\<rparr>"

definition empty_slot :: instance_slot where
  "empty_slot = \<lparr>is_inst = None, is_generation = 0, is_life = default_policy, is_age_blocks = 0,
     is_silent_run = 0\<rparr>"

section \<open>Operations\<close>

definition mgr_init :: "nat \<Rightarrow> instance_manager" where
  "mgr_init n = \<lparr>im_slots = replicate n empty_slot, im_free = rev [0..<n], im_next_generation = 1\<rparr>"

definition mgr_capacity :: "instance_manager \<Rightarrow> nat" where
  "mgr_capacity m = length (im_slots m)"

definition mgr_available :: "instance_manager \<Rightarrow> nat" where
  "mgr_available m = length (im_free m)"

definition mgr_in_use :: "instance_manager \<Rightarrow> nat" where
  "mgr_in_use m = length (im_slots m) - length (im_free m)"

definition next_gen :: "32 word \<Rightarrow> 32 word" where
  "next_gen g = (if g + 1 = 0 then 1 else g + 1)"

text \<open>\<open>base\<close> is the address at which the storage of the new instance lands.\<close>

definition mgr_create :: "env \<Rightarrow> nat \<Rightarrow> instance_manager \<Rightarrow> compiled_schedule \<Rightarrow> nat \<Rightarrow> lifetime_policy
    \<Rightarrow> instance_handle \<times> instance_manager" where
  "mgr_create e base m sched sr life =
    (if im_free m = [] then (null_handle, m)
     else
       case build e base sched sr of
         None \<Rightarrow> (null_handle, m)
       | Some inst \<Rightarrow>
           (let idx = last (im_free m); gen = im_next_generation m
            in (\<lparr>ih_slot = idx, ih_generation = gen\<rparr>,
                m\<lparr>im_free := butlast (im_free m),
                  im_next_generation := next_gen gen,
                  im_slots := (im_slots m)[idx := \<lparr>is_inst = Some inst, is_generation = gen,
                    is_life = life, is_age_blocks = 0, is_silent_run = 0\<rparr>]\<rparr>)))"

definition mgr_recycle :: "nat \<Rightarrow> instance_manager \<Rightarrow> instance_manager" where
  "mgr_recycle idx m =
    (if length (im_slots m) \<le> idx then m
     else m\<lparr>im_slots := (im_slots m)[idx := (im_slots m ! idx)\<lparr>is_inst := None\<rparr>],
            im_free := im_free m @ [idx]\<rparr>)"

definition mgr_is_valid :: "instance_manager \<Rightarrow> instance_handle \<Rightarrow> bool" where
  "mgr_is_valid m h \<longleftrightarrow> handle_valid h \<and> ih_slot h < length (im_slots m) \<and>
     is_generation (im_slots m ! ih_slot h) = ih_generation h \<and>
     is_inst (im_slots m ! ih_slot h) \<noteq> None"

definition instance_at :: "instance_manager \<Rightarrow> nat \<Rightarrow> graph_instance option" where
  "instance_at m slot = (if slot < length (im_slots m) then is_inst (im_slots m ! slot) else None)"

definition mgr_get :: "instance_manager \<Rightarrow> instance_handle \<Rightarrow> graph_instance option" where
  "mgr_get m h = (if mgr_is_valid m h then is_inst (im_slots m ! ih_slot h) else None)"

section \<open>The free list\<close>

text \<open>The free slots are exactly the empty ones, each listed once.\<close>

definition mgr_ok :: "instance_manager \<Rightarrow> bool" where
  "mgr_ok m \<longleftrightarrow> distinct (im_free m) \<and> im_next_generation m \<noteq> 0 \<and>
     (\<forall>i. i \<in> set (im_free m) \<longleftrightarrow> i < length (im_slots m) \<and> is_inst (im_slots m ! i) = None)"

lemma next_gen_nonzero [simp]: "next_gen g \<noteq> 0"
  by (simp add: next_gen_def)

lemma mgr_init_ok: "mgr_ok (mgr_init n)"
  by (auto simp: mgr_ok_def mgr_init_def empty_slot_def)

lemma mgr_create_cases:
  assumes "mgr_create e base m sched sr life = (h, m')"
  obtains (full) "h = null_handle" "m' = m"
  | (made) inst idx where "build e base sched sr = Some inst" and "im_free m = im_free m' @ [idx]"
      and "h = \<lparr>ih_slot = idx, ih_generation = im_next_generation m\<rparr>"
      and "m' = m\<lparr>im_free := im_free m', im_next_generation := next_gen (im_next_generation m),
        im_slots := (im_slots m)[idx := \<lparr>is_inst = Some inst, is_generation = im_next_generation m,
          is_life = life, is_age_blocks = 0, is_silent_run = 0\<rparr>]\<rparr>"
proof (cases "im_free m = [] \<or> build e base sched sr = None")
  case True
  then have "h = null_handle" "m' = m"
    using assms by (auto simp: mgr_create_def split: if_splits)
  then show thesis by (rule full)
next
  case False
  then obtain inst where inst: "build e base sched sr = Some inst" and ne: "im_free m \<noteq> []" by auto
  have "m' = m\<lparr>im_free := butlast (im_free m), im_next_generation := next_gen (im_next_generation m),
        im_slots := (im_slots m)[last (im_free m) := \<lparr>is_inst = Some inst, is_generation = im_next_generation m,
          is_life = life, is_age_blocks = 0, is_silent_run = 0\<rparr>]\<rparr>"
    and h: "h = \<lparr>ih_slot = last (im_free m), ih_generation = im_next_generation m\<rparr>"
    using assms ne unfolding mgr_create_def inst Let_def by simp_all
  with made [OF inst _ h] ne show thesis by simp
qed

lemma mgr_create_ok:
  assumes "mgr_ok m" and "mgr_create e base m sched sr life = (h, m')"
  shows "mgr_ok m'"
  using assms(2)
proof (cases rule: mgr_create_cases)
  case full
  then show ?thesis using assms(1) by simp
next
  case (made inst idx)
  then have idx: "idx < length (im_slots m)" "idx \<notin> set (im_free m')" "distinct (im_free m')"
    using assms(1) unfolding mgr_ok_def by auto
  have slots: "im_slots m' = (im_slots m)[idx := \<lparr>is_inst = Some inst, is_generation = im_next_generation m,
      is_life = life, is_age_blocks = 0, is_silent_run = 0\<rparr>]"
    and nextg: "im_next_generation m' = next_gen (im_next_generation m)"
    by (subst made(4), simp)+
  have "i \<in> set (im_free m') \<longleftrightarrow> i < length (im_slots m') \<and> is_inst (im_slots m' ! i) = None" for i
  proof (cases "i = idx")
    case True
    then show ?thesis using idx by (simp add: slots)
  next
    case False
    then have "i \<in> set (im_free m') \<longleftrightarrow> i \<in> set (im_free m)" using made(2) by simp
    then show ?thesis using False assms(1) by (simp add: slots mgr_ok_def)
  qed
  then show ?thesis using idx(3) by (simp add: mgr_ok_def nextg)
qed

lemma mgr_recycle_ok:
  assumes "mgr_ok m" and "i < length (im_slots m)" and "is_inst (im_slots m ! i) \<noteq> None"
  shows "mgr_ok (mgr_recycle i m)"
  using assms by (auto simp: mgr_ok_def mgr_recycle_def nth_list_update)

lemma mgr_counts:
  assumes "mgr_ok m"
  shows "mgr_available m + mgr_in_use m = mgr_capacity m"
    "mgr_in_use m = card {i. i < length (im_slots m) \<and> is_inst (im_slots m ! i) \<noteq> None}"
proof -
  let ?n = "length (im_slots m)"
  have free: "set (im_free m) = {i. i < ?n \<and> is_inst (im_slots m ! i) = None}"
    using assms by (auto simp: mgr_ok_def)
  have card: "length (im_free m) = card (set (im_free m))"
    using assms by (simp add: mgr_ok_def distinct_card)
  have sub: "set (im_free m) \<subseteq> {..<?n}" unfolding free by auto
  have le: "length (im_free m) \<le> ?n" using card_mono [OF _ sub] card by simp
  then show "mgr_available m + mgr_in_use m = mgr_capacity m"
    by (simp add: mgr_available_def mgr_in_use_def mgr_capacity_def)
  have "{i. i < ?n \<and> is_inst (im_slots m ! i) \<noteq> None} = {..<?n} - set (im_free m)"
    unfolding free by auto
  then show "mgr_in_use m = card {i. i < ?n \<and> is_inst (im_slots m ! i) \<noteq> None}"
    using card_Diff_subset [OF _ sub] card by (simp add: mgr_in_use_def)
qed

section \<open>Generations\<close>

text \<open>The generations given out one after the other are distinct for \<open>2 ^ 32 - 1\<close> creations.\<close>

fun gen_after :: "32 word \<Rightarrow> nat \<Rightarrow> 32 word" where
  "gen_after g 0 = g"
| "gen_after g (Suc k) = gen_after (next_gen g) k"

lemma gen_after_add: "gen_after g (j + k) = gen_after (gen_after g j) k"
  by (induction j arbitrary: g) simp_all

lemma unat_32: "unat (g :: 32 word) < 2 ^ 32"
  using unsigned_less [of g] by simp

lemma unat_next_gen:
  assumes "g \<noteq> 0"
  shows "unat (next_gen g) = (unat g - 1 + 1) mod (2 ^ 32 - 1) + 1"
proof (cases "g + 1 = 0")
  case True
  then have "g = - 1" by (simp add: eq_neg_iff_add_eq_0)
  moreover have "unat (- 1 :: 32 word) = 2 ^ 32 - 1"
    by (simp add: unsigned_minus_1_eq_mask mask_eq_exp_minus_1)
  ultimately show ?thesis by (simp add: next_gen_def)
next
  case False
  then have s: "unat (g + 1) = unat g + 1" by (simp add: unat_add_lem [symmetric] unatSuc add.commute)
  have "unat (g + 1) < 2 ^ 32" by (rule unat_32)
  moreover have "0 < unat g" using assms by (simp add: unat_gt_0)
  ultimately show ?thesis using False s by (simp add: next_gen_def)
qed

lemma unat_gen_after:
  assumes "g \<noteq> 0"
  shows "unat (gen_after g k) = (unat g - 1 + k) mod (2 ^ 32 - 1) + 1"
  using assms
proof (induction k arbitrary: g)
  case 0
  have "unat g < 2 ^ 32" by (rule unat_32)
  moreover have "0 < unat g" using 0 by (simp add: unat_gt_0)
  ultimately show ?case by simp
next
  case (Suc k)
  have "unat (gen_after g (Suc k)) = (unat (next_gen g) - 1 + k) mod (2 ^ 32 - 1) + 1"
    using Suc.IH by simp
  also have "unat (next_gen g) - 1 = (unat g - 1 + 1) mod (2 ^ 32 - 1)"
    using unat_next_gen [OF Suc.prems] by simp
  finally show ?case by (simp add: mod_add_left_eq)
qed

lemma gen_after_distinct:
  assumes "g \<noteq> 0" and "0 < k" and "k < 2 ^ 32 - 1"
  shows "gen_after g k \<noteq> g"
proof
  assume eq: "gen_after g k = g"
  then have "(unat g - 1 + k) mod (2 ^ 32 - 1) + 1 = unat g"
    using unat_gen_after [OF assms(1), of k] eq by metis
  then have "(unat g - 1 + k) mod (2 ^ 32 - 1) = unat g - 1" by linarith
  moreover have "unat g - 1 < 2 ^ 32 - 1" using unat_32 [of g] assms(1) by (simp add: unat_gt_0)
  ultimately have "(unat g - 1 + k) mod (2 ^ 32 - 1) = (unat g - 1) mod (2 ^ 32 - 1)" by simp
  then have "2 ^ 32 - 1 dvd (unat g - 1 + k) - (unat g - 1)"
    using mod_eq_dvd_iff_nat [of "unat g - 1" "unat g - 1 + k" "2 ^ 32 - 1"] by simp
  then have "2 ^ 32 - 1 dvd k" by simp
  then show False using assms(2,3) dvd_imp_le by fastforce
qed

text \<open>A history of the pool, as the control thread makes it.\<close>

datatype mgr_op = Create nat compiled_schedule nat lifetime_policy | Recycle nat

fun mgr_run :: "env \<Rightarrow> mgr_op list \<Rightarrow> instance_manager \<Rightarrow> instance_manager" where
  "mgr_run e [] m = m"
| "mgr_run e (Create base s sr life # ops) m = mgr_run e ops (snd (mgr_create e base m s sr life))"
| "mgr_run e (Recycle i # ops) m = mgr_run e ops (mgr_recycle i m)"

text \<open>A slot that lost its instance only gets one of the generations still to come.\<close>

definition gone :: "instance_handle \<Rightarrow> nat \<Rightarrow> instance_manager \<Rightarrow> bool" where
  "gone h k m \<longleftrightarrow> (\<exists>j. j \<le> k \<and> im_next_generation m = gen_after (ih_generation h) (Suc j)) \<and>
     (ih_slot h < length (im_slots m) \<longrightarrow>
       is_inst (im_slots m ! ih_slot h) = None \<or> is_generation (im_slots m ! ih_slot h) \<noteq> ih_generation h)"

lemma gone_mono: "gone h k m \<Longrightarrow> gone h (Suc k) m"
  by (meson gone_def le_SucI)

lemma gone_step:
  assumes "gone h k m" and "ih_generation h \<noteq> 0" and "k < 2 ^ 32 - 2"
  shows "gone h (Suc k) (mgr_run e [op] m)"
proof (cases op)
  case (Recycle i)
  then have "gone h k (mgr_run e [op] m)" using assms(1)
    by (auto simp: gone_def mgr_recycle_def nth_list_update)
  then show ?thesis by (rule gone_mono)
next
  case (Create base s sr life)
  obtain h' m' where c: "mgr_create e base m s sr life = (h', m')" by fastforce
  have run: "mgr_run e [op] m = m'" using Create c by simp
  have "gone h (Suc k) m'" using c
  proof (cases rule: mgr_create_cases)
    case full
    then show ?thesis using gone_mono [OF assms(1)] by simp
  next
    case (made inst idx)
    obtain j where j: "j \<le> k" "im_next_generation m = gen_after (ih_generation h) (Suc j)"
      using assms(1) by (auto simp: gone_def)
    have "im_next_generation m \<noteq> ih_generation h"
      unfolding j(2) using assms(2,3) j(1) by (intro gen_after_distinct) simp_all
    moreover have "next_gen (im_next_generation m) = gen_after (ih_generation h) (Suc (Suc j))"
      using gen_after_add [of "ih_generation h" "Suc j" 1] j(2) by simp
    moreover have "im_next_generation m' = next_gen (im_next_generation m)"
      "im_slots m' = (im_slots m)[idx := \<lparr>is_inst = Some inst, is_generation = im_next_generation m,
        is_life = life, is_age_blocks = 0, is_silent_run = 0\<rparr>]"
      by (subst made(4), simp)+
    ultimately show ?thesis
      using assms(1) j(1) by (cases "ih_slot h = idx") (auto simp: gone_def)
  qed
  then show ?thesis by (simp add: run)
qed

lemma gone_run:
  assumes "gone h k m" and "ih_generation h \<noteq> 0" and "k + length ops < 2 ^ 32 - 1"
  shows "gone h (k + length ops) (mgr_run e ops m)"
  using assms
proof (induction ops arbitrary: k m)
  case Nil
  then show ?case by simp
next
  case (Cons op ops)
  have "gone h (Suc k) (mgr_run e [op] m)" using Cons.prems by (intro gone_step) simp_all
  from Cons.IH [OF this] Cons.prems(2,3) show ?case by (cases op) simp_all
qed

lemma next_after_run:
  "\<exists>j. j \<le> length ops \<and> im_next_generation (mgr_run e ops m) = gen_after (im_next_generation m) j"
proof (induction ops arbitrary: m)
  case Nil
  show ?case by (intro exI [of _ 0]) simp
next
  case (Cons op ops)
  define m1 where "m1 = mgr_run e [op] m"
  obtain j where j: "j \<le> length ops" "im_next_generation (mgr_run e ops m1) = gen_after (im_next_generation m1) j"
    using Cons.IH by blast
  have "im_next_generation m1 = im_next_generation m \<or> im_next_generation m1 = next_gen (im_next_generation m)"
    unfolding m1_def
    by (cases op) (auto simp: mgr_create_def mgr_recycle_def Let_def split: option.split)
  moreover have "mgr_run e (op # ops) m = mgr_run e ops m1" by (cases op) (simp_all add: m1_def)
  ultimately show ?case using j
    by (metis (no_types, lifting) Suc_le_mono gen_after.simps(2) le_SucI length_Cons)
qed

section \<open>Properties\<close>

text \<open>C17: A handle names one voice only: from the moment its slot is recycled, and through any later
  history of fewer than \<open>2 ^ 32 - 2\<close> spawns and recyclings, the handle is never valid again, even when
  its slot is reused.\<close>

theorem stale_handle_stays_stale:
  assumes "mgr_create e base m sched sr life = (h, m1)" and "handle_valid h"
    and "length ops1 + length ops2 < 2 ^ 32 - 2"
  shows "\<not> mgr_is_valid (mgr_run e ops2 (mgr_recycle (ih_slot h) (mgr_run e ops1 m1))) h"
proof -
  have g: "ih_generation h \<noteq> 0" using assms(2) by (simp add: handle_valid_def)
  have m1: "im_next_generation m1 = next_gen (ih_generation h)"
    using assms(1)
  proof (cases rule: mgr_create_cases)
    case full
    then show ?thesis using assms(2) by (simp add: handle_valid_def null_handle_def)
  next
    case (made inst idx)
    show ?thesis by (subst made(4), simp add: made(3))
  qed
  let ?m = "mgr_run e ops1 m1"
  obtain j where "j \<le> length ops1" "im_next_generation ?m = gen_after (im_next_generation m1) j"
    using next_after_run [of ops1 e m1] by blast
  then have "gone h (length ops1) (mgr_recycle (ih_slot h) ?m)"
    using m1 by (auto simp: gone_def mgr_recycle_def)
  from gone_run [OF this g, of ops2 e] assms(3)
  have "gone h (length ops1 + length ops2) (mgr_run e ops2 (mgr_recycle (ih_slot h) ?m))" by simp
  then show ?thesis by (auto simp: gone_def mgr_is_valid_def)
qed

theorem stale_handle_stays_stale_witness:
  "\<exists>s h m1. compile tone_graph 64 = Some s \<and>
    mgr_create plain_env 4096 (mgr_init 1) s 48000 default_policy = (h, m1) \<and> mgr_is_valid m1 h \<and>
    \<not> mgr_is_valid (mgr_run plain_env [Create 4096 s 48000 default_policy] (mgr_recycle (ih_slot h) m1)) h"
proof -
  obtain s inst where s: "compile tone_graph 64 = Some s" and b: "build plain_env 4096 s 48000 = Some inst"
  proof -
    obtain s where s: "compile tone_graph 64 = Some s" "sched_ok s" by (rule tone_sched)
    then have "arena_bytes s < 2 ^ 62" by (simp add: sched_ok_def)
    from build_Some [OF this, of 4096 plain_env 48000] s that show thesis by simp
  qed
  obtain h m1 where c: "mgr_create plain_env 4096 (mgr_init 1) s 48000 default_policy = (h, m1)" by fastforce
  then have v: "mgr_is_valid m1 h" "handle_valid h"
    by (auto simp: mgr_create_def mgr_init_def b Let_def mgr_is_valid_def handle_valid_def)
  from stale_handle_stays_stale [OF c v(2), of "[]" "[Create 4096 s 48000 default_policy]"] s c v(1)
  show ?thesis by simp
qed

end
