(* ===== verification/Engine.thy ===== *)
theory Engine
  imports Slots
begin

text \<open>
  The audio host, \<open>include/xrune/engine.hpp\<close> and \<open>src/engine.cpp\<close>: commands from the control
  thread, routes between voices, one block of processing, the end of voices and their recycling.
  The two lock-free queues are lists, first in first out; the telemetry queue refuses an event
  when it is full.  An access outside a buffer or a table is \<open>None\<close>.
\<close>

section \<open>Data\<close>

record route_target =
  rt_to_master :: bool
  rt_instance :: instance_handle
  rt_terminal :: nat

definition to_master_target :: route_target where
  "to_master_target = \<lparr>rt_to_master = True, rt_instance = null_handle, rt_terminal = 0\<rparr>"

definition to_target :: "instance_handle \<Rightarrow> nat \<Rightarrow> route_target" where
  "to_target h t = \<lparr>rt_to_master = False, rt_instance = h, rt_terminal = t\<rparr>"

datatype command_type = Activate | Kill | Set_parameter | Connect | Disconnect

record command_event =
  ce_type :: command_type
  ce_handle :: instance_handle
  ce_node_index :: nat
  ce_parameter_index :: nat
  ce_parameter_value :: f64
  ce_src_terminal :: nat
  ce_dest :: route_target

datatype end_reason = Killed | Finished | Timed_out | Silent

record telemetry_event =
  te_slot :: nat
  te_generation :: "32 word"
  te_reason :: end_reason

record voice_end =
  ve_handle :: instance_handle
  ve_reason :: end_reason

record active_route =
  ar_src_slot :: nat
  ar_src_gen :: "32 word"
  ar_src_terminal :: nat
  ar_to_master :: bool
  ar_dst_slot :: nat
  ar_dst_gen :: "32 word"
  ar_dst_terminal :: nat

record initial_param =
  ip_node :: nat
  ip_param :: nat
  ip_value :: f64

record engine =
  en_sample_rate :: nat
  en_block_size :: nat
  en_output_channels :: nat
  en_mgr :: instance_manager
  en_active_gen :: "32 word list"
  en_active_list :: "nat list"
  en_routes :: "active_route list"
  en_route_capacity :: nat
  en_master :: "f64 list list"
  en_commands :: "command_event list"
  en_telemetry :: "telemetry_event list"
  en_telemetry_capacity :: nat

section \<open>Initialisation\<close>

text \<open>The storage of the master arena lands at \<open>base\<close>; opening the backend is left out.\<close>

definition master_requests :: "nat \<Rightarrow> nat \<Rightarrow> (nat \<times> nat) list" where
  "master_requests bs outs = (outs * 8, 8) # replicate outs (bs * 8, simd_align)"

definition master_bytes :: "nat \<Rightarrow> nat \<Rightarrow> nat" where
  "master_bytes bs outs = outs * (bs * 8 + simd_align) + outs * 8 + simd_align"

definition engine_init :: "nat \<Rightarrow> nat \<Rightarrow> nat \<Rightarrow> nat \<Rightarrow> nat \<Rightarrow> engine option" where
  "engine_init base sr bs outs max_instances =
    (if \<not> is_power_of_two bs then None
     else
       case arena.request_all (arena_reserve base (master_bytes bs outs)) (master_requests bs outs) of
         None \<Rightarrow> None
       | Some (blocks, a) \<Rightarrow>
           Some \<lparr>en_sample_rate = sr, en_block_size = bs, en_output_channels = outs,
             en_mgr = mgr_init max_instances, en_active_gen = replicate max_instances 0,
             en_active_list = [], en_routes = [], en_route_capacity = max_instances * 4,
             en_master = replicate outs (replicate bs f64_zero),
             en_commands = [], en_telemetry = [], en_telemetry_capacity = max_instances * 4 + 16\<rparr>)"

section \<open>The control thread\<close>

definition enqueue :: "command_event \<Rightarrow> engine \<Rightarrow> engine" where
  "enqueue c eng = eng\<lparr>en_commands := en_commands eng @ [c]\<rparr>"

definition plain_command :: "command_type \<Rightarrow> instance_handle \<Rightarrow> command_event" where
  "plain_command t h = \<lparr>ce_type = t, ce_handle = h, ce_node_index = 0, ce_parameter_index = 0,
     ce_parameter_value = f64_zero, ce_src_terminal = 0, ce_dest = to_master_target\<rparr>"

definition kill :: "instance_handle \<Rightarrow> engine \<Rightarrow> engine" where
  "kill h = enqueue (plain_command Kill h)"

definition engine_set_parameter :: "instance_handle \<Rightarrow> nat \<Rightarrow> nat \<Rightarrow> f64 \<Rightarrow> engine \<Rightarrow> engine" where
  "engine_set_parameter h v p x = enqueue ((plain_command Set_parameter h)
     \<lparr>ce_node_index := v, ce_parameter_index := p, ce_parameter_value := x\<rparr>)"

definition engine_connect :: "instance_handle \<Rightarrow> nat \<Rightarrow> route_target \<Rightarrow> engine \<Rightarrow> engine" where
  "engine_connect h t dest = enqueue ((plain_command Connect h)\<lparr>ce_src_terminal := t, ce_dest := dest\<rparr>)"

definition engine_disconnect :: "instance_handle \<Rightarrow> nat \<Rightarrow> route_target \<Rightarrow> engine \<Rightarrow> engine" where
  "engine_disconnect h t dest = enqueue ((plain_command Disconnect h)\<lparr>ce_src_terminal := t, ce_dest := dest\<rparr>)"

definition event_end :: "telemetry_event \<Rightarrow> voice_end" where
  "event_end ev = \<lparr>ve_handle = \<lparr>ih_slot = te_slot ev, ih_generation = te_generation ev\<rparr>, ve_reason = te_reason ev\<rparr>"

definition reclaim :: "engine \<Rightarrow> voice_end list \<times> engine" where
  "reclaim eng = (map event_end (en_telemetry eng),
     eng\<lparr>en_telemetry := [], en_mgr := foldl (\<lambda>m ev. mgr_recycle (te_slot ev) m) (en_mgr eng) (en_telemetry eng)\<rparr>)"

definition put_instance :: "nat \<Rightarrow> graph_instance \<Rightarrow> instance_manager \<Rightarrow> instance_manager" where
  "put_instance slot g m = m\<lparr>im_slots := (im_slots m)[slot := (im_slots m ! slot)\<lparr>is_inst := Some g\<rparr>]\<rparr>"

definition spawn :: "env \<Rightarrow> nat \<Rightarrow> engine \<Rightarrow> compiled_schedule \<Rightarrow> lifetime_policy \<Rightarrow> route_target \<Rightarrow> nat
    \<Rightarrow> initial_param list \<Rightarrow> (instance_handle \<times> engine) option" where
  "spawn e base eng sched life dest src_terminal ips =
    (let eng1 = snd (reclaim eng)
     in case mgr_create e base (en_mgr eng1) sched (en_sample_rate eng1) life of
          (h, m) \<Rightarrow>
            (if \<not> handle_valid h then Some (null_handle, eng1\<lparr>en_mgr := m\<rparr>)
             else
               let m' = (case instance_at m (ih_slot h) of
                     None \<Rightarrow> Some m
                   | Some g \<Rightarrow>
                       (case fold_option (\<lambda>i p. init_parameter i (ip_node p) (ip_param p) (ip_value p)) g ips of
                         None \<Rightarrow> None
                       | Some g' \<Rightarrow> Some (put_instance (ih_slot h) g' m)))
               in case m' of
                    None \<Rightarrow> None
                  | Some m'' \<Rightarrow>
                      (let eng2 = enqueue (plain_command Activate h) (eng1\<lparr>en_mgr := m''\<rparr>)
                       in Some (h, if src_terminal < length (g_output_terminals (cs_bp sched))
                                   then engine_connect h src_terminal dest eng2 else eng2))))"

section \<open>Routes and commands on the audio thread\<close>

definition is_current :: "engine \<Rightarrow> nat \<Rightarrow> 32 word \<Rightarrow> bool" where
  "is_current eng slot gen \<longleftrightarrow> slot < length (en_active_gen eng) \<and> en_active_gen eng ! slot = gen"

definition route_live :: "engine \<Rightarrow> active_route \<Rightarrow> bool" where
  "route_live eng r \<longleftrightarrow> is_current eng (ar_src_slot r) (ar_src_gen r) \<and>
     (ar_to_master r \<or> is_current eng (ar_dst_slot r) (ar_dst_gen r))"

definition route_of :: "command_event \<Rightarrow> active_route" where
  "route_of c =
    (let d = ce_dest c; s = ce_handle c
     in if rt_to_master d
        then \<lparr>ar_src_slot = ih_slot s, ar_src_gen = ih_generation s, ar_src_terminal = ce_src_terminal c,
              ar_to_master = True, ar_dst_slot = 0, ar_dst_gen = 0, ar_dst_terminal = 0\<rparr>
        else \<lparr>ar_src_slot = ih_slot s, ar_src_gen = ih_generation s, ar_src_terminal = ce_src_terminal c,
              ar_to_master = False, ar_dst_slot = ih_slot (rt_instance d),
              ar_dst_gen = ih_generation (rt_instance d), ar_dst_terminal = rt_terminal d\<rparr>)"

definition add_route :: "command_event \<Rightarrow> engine \<Rightarrow> engine" where
  "add_route c eng =
    (if \<not> is_current eng (ih_slot (ce_handle c)) (ih_generation (ce_handle c)) then eng
     else if en_route_capacity eng \<le> length (en_routes eng) then eng
     else if \<not> rt_to_master (ce_dest c) \<and>
       \<not> is_current eng (ih_slot (rt_instance (ce_dest c))) (ih_generation (rt_instance (ce_dest c))) then eng
     else eng\<lparr>en_routes := en_routes eng @ [route_of c]\<rparr>)"

definition route_matches :: "command_event \<Rightarrow> active_route \<Rightarrow> bool" where
  "route_matches c r \<longleftrightarrow>
     ar_src_slot r = ih_slot (ce_handle c) \<and> ar_src_gen r = ih_generation (ce_handle c) \<and>
     ar_src_terminal r = ce_src_terminal c \<and> ar_to_master r = rt_to_master (ce_dest c) \<and>
     (ar_to_master r \<or>
       ar_dst_slot r = ih_slot (rt_instance (ce_dest c)) \<and>
       ar_dst_gen r = ih_generation (rt_instance (ce_dest c)) \<and> ar_dst_terminal r = rt_terminal (ce_dest c))"

definition remove_route :: "command_event \<Rightarrow> engine \<Rightarrow> engine" where
  "remove_route c eng = eng\<lparr>en_routes := filter (\<lambda>r. \<not> route_matches c r) (en_routes eng)\<rparr>"

definition touches :: "nat \<Rightarrow> active_route \<Rightarrow> bool" where
  "touches slot r \<longleftrightarrow> ar_src_slot r = slot \<or> (\<not> ar_to_master r \<and> ar_dst_slot r = slot)"

definition try_report :: "telemetry_event \<Rightarrow> engine \<Rightarrow> engine" where
  "try_report ev eng =
    (if length (en_telemetry eng) < en_telemetry_capacity eng
     then eng\<lparr>en_telemetry := en_telemetry eng @ [ev]\<rparr> else eng)"

definition release_slot :: "nat \<Rightarrow> end_reason \<Rightarrow> engine \<Rightarrow> engine" where
  "release_slot slot why eng =
    (let gen = en_active_gen eng ! slot
     in try_report \<lparr>te_slot = slot, te_generation = gen, te_reason = why\<rparr>
          (eng\<lparr>en_active_gen := (en_active_gen eng)[slot := 0],
               en_active_list := remove1 slot (en_active_list eng),
               en_routes := filter (\<lambda>r. \<not> touches slot r) (en_routes eng)\<rparr>))"

definition activate :: "instance_handle \<Rightarrow> engine \<Rightarrow> engine" where
  "activate h eng =
    (if ih_slot h < length (en_active_gen eng) \<and> en_active_gen eng ! ih_slot h = 0
     then eng\<lparr>en_active_gen := (en_active_gen eng)[ih_slot h := ih_generation h],
              en_active_list := en_active_list eng @ [ih_slot h]\<rparr>
     else eng)"

definition exec_command :: "engine \<Rightarrow> command_event \<Rightarrow> engine option" where
  "exec_command eng c =
    (let h = ce_handle c
     in case ce_type c of
          Activate \<Rightarrow> Some (activate h eng)
        | Kill \<Rightarrow> Some (if is_current eng (ih_slot h) (ih_generation h) then release_slot (ih_slot h) Killed eng else eng)
        | Set_parameter \<Rightarrow>
            (if is_current eng (ih_slot h) (ih_generation h) then
               (case instance_at (en_mgr eng) (ih_slot h) of
                 None \<Rightarrow> Some eng
               | Some g \<Rightarrow>
                   (case set_parameter g (ce_node_index c) (ce_parameter_index c) (ce_parameter_value c) of
                     None \<Rightarrow> None
                   | Some g' \<Rightarrow> Some (eng\<lparr>en_mgr := put_instance (ih_slot h) g' (en_mgr eng)\<rparr>)))
             else Some eng)
        | Connect \<Rightarrow> Some (add_route c eng)
        | Disconnect \<Rightarrow> Some (remove_route c eng))"

definition drain_commands :: "engine \<Rightarrow> engine option" where
  "drain_commands eng = fold_option exec_command (eng\<lparr>en_commands := []\<rparr>) (en_commands eng)"

section \<open>Mixing\<close>

fun read_samples :: "nat \<Rightarrow> graph_instance \<Rightarrow> view \<Rightarrow> f64 list option" where
  "read_samples nf g (Pool_view off len) =
    (if off + nf \<le> length (gi_pool g) then Some (take nf (drop off (gi_pool g))) else None)"
| "read_samples nf g (Silent_view len) =
    (if nf \<le> gi_silent_len g then Some (replicate nf f64_zero) else None)"

fun write_samples :: "graph_instance \<Rightarrow> view \<Rightarrow> f64 list \<Rightarrow> graph_instance option" where
  "write_samples g (Pool_view off len) xs =
    (if off + length xs \<le> length (gi_pool g) then Some (g\<lparr>gi_pool := write_at (gi_pool g) off xs\<rparr>) else None)"
| "write_samples g (Silent_view len) xs = None"

definition zero_input_terminals :: "nat \<Rightarrow> graph_instance \<Rightarrow> graph_instance option" where
  "zero_input_terminals nf g =
    fold_option (\<lambda>h (t, c). write_samples h (input_terminal_view h t c) (replicate nf f64_zero)) g
      (concat (map (\<lambda>t. map (Pair t) [0..<input_terminal_channels g t]) [0..<input_terminal_count g]))"

text \<open>One channel of a route; a voice routed to itself reads what it has just written.\<close>

definition add_channel :: "nat \<Rightarrow> bool \<Rightarrow> graph_instance \<Rightarrow> nat \<Rightarrow> nat \<Rightarrow> graph_instance \<Rightarrow> nat
    \<Rightarrow> graph_instance option" where
  "add_channel nf self src src_t dst_t dst c =
    (case read_samples nf (if self then dst else src) (output_terminal_view (if self then dst else src) src_t c) of
      None \<Rightarrow> None
    | Some xs \<Rightarrow>
        (case read_samples nf dst (input_terminal_view dst dst_t c) of
          None \<Rightarrow> None
        | Some ys \<Rightarrow> write_samples dst (input_terminal_view dst dst_t c) (map2 (+) ys xs)))"

definition sum_terminal_to_instance :: "nat \<Rightarrow> bool \<Rightarrow> graph_instance \<Rightarrow> nat \<Rightarrow> graph_instance \<Rightarrow> nat
    \<Rightarrow> graph_instance option" where
  "sum_terminal_to_instance nf self src src_t dst dst_t =
    (if src_t < output_terminal_count src \<and> dst_t < input_terminal_count dst then
       fold_option (add_channel nf self src src_t dst_t) dst
         [0..<min (output_terminal_channels src src_t) (input_terminal_channels dst dst_t)]
     else None)"

definition gather_route :: "engine \<Rightarrow> nat \<Rightarrow> instance_manager \<Rightarrow> nat \<Rightarrow> graph_instance \<Rightarrow> active_route
    \<Rightarrow> graph_instance option" where
  "gather_route eng nf m slot g r =
    (if ar_to_master r \<or> ar_dst_slot r \<noteq> slot \<or> \<not> route_live eng r then Some g
     else
       case instance_at m (ar_src_slot r) of
         None \<Rightarrow> Some g
       | Some src \<Rightarrow>
           sum_terminal_to_instance nf (ar_src_slot r = slot) src (ar_src_terminal r) g (ar_dst_terminal r))"

definition gather_inputs :: "engine \<Rightarrow> nat \<Rightarrow> instance_manager \<Rightarrow> nat \<Rightarrow> graph_instance \<Rightarrow> graph_instance option" where
  "gather_inputs eng nf m slot g =
    (case zero_input_terminals nf g of
      None \<Rightarrow> None
    | Some g' \<Rightarrow> fold_option (gather_route eng nf m slot) g' (en_routes eng))"

text \<open>One instance task: gather, then process.\<close>

definition run_task :: "env \<Rightarrow> engine \<Rightarrow> nat \<Rightarrow> instance_manager \<Rightarrow> nat \<Rightarrow> instance_manager option" where
  "run_task e eng nf m slot =
    (case instance_at m slot of
      None \<Rightarrow> None
    | Some g \<Rightarrow>
        (case gather_inputs eng nf m slot g of
          None \<Rightarrow> None
        | Some g1 \<Rightarrow>
            (case process e g1 of None \<Rightarrow> None | Some g2 \<Rightarrow> Some (put_instance slot g2 m))))"

section \<open>Execution order\<close>

text \<open>Live routes join active slots, so the order is never stuck for lack of fuel.\<close>

definition route_edges :: "engine \<Rightarrow> edges" where
  "route_edges eng = map (\<lambda>r. (ar_src_slot r, ar_dst_slot r))
     (filter (\<lambda>r. \<not> ar_to_master r \<and> route_live eng r) (en_routes eng))"

definition compute_order :: "engine \<Rightarrow> nat list" where
  "compute_order eng =
    (case kahn_order (en_active_list eng) (route_edges eng) of
      None \<Rightarrow> []
    | Some (deg, order) \<Rightarrow>
        if length order < length (en_active_list eng)
        then order @ filter (\<lambda>v. 0 < deg v) (en_active_list eng) else order)"

definition compute_sequential :: "env \<Rightarrow> engine \<Rightarrow> nat \<Rightarrow> instance_manager option" where
  "compute_sequential e eng nf = fold_option (run_task e eng nf) (en_mgr eng) (compute_order eng)"

section \<open>The end of voices\<close>

definition terminal_peak :: "nat \<Rightarrow> graph_instance \<Rightarrow> f64 option" where
  "terminal_peak nf g =
    (if output_terminal_count g = 0 then Some f64_zero
     else
       fold_option (\<lambda>p c.
         case read_samples nf g (output_terminal_view g 0 c) of
           None \<Rightarrow> None
         | Some xs \<Rightarrow> Some (foldl (\<lambda>q x. f64_max q (f64_abs x)) p xs))
         f64_zero [0..<output_terminal_channels g 0])"

text \<open>The slot afterwards, and the reason when the voice ends.\<close>

definition should_reap :: "instance_slot \<Rightarrow> bool \<Rightarrow> f64 \<Rightarrow> instance_slot \<times> end_reason option" where
  "should_reap s finished peak =
    (if finished then (s, Some Finished)
     else
       let s1 = s\<lparr>is_age_blocks := (is_age_blocks s + 1) mod 2 ^ 64\<rparr>;
           life = is_life s
       in case lp_kind life of
            Permanent \<Rightarrow> (s1, None)
          | Timed \<Rightarrow> (s1, if lp_ttl_blocks life \<le> is_age_blocks s1 then Some Timed_out else None)
          | Until_finished \<Rightarrow> (s1, None)
          | Until_silent \<Rightarrow>
              (let run = (if f64_lt peak (lp_silence_threshold life) then (is_silent_run s + 1) mod 2 ^ 64 else 0);
                   s2 = s1\<lparr>is_silent_run := run\<rparr>
               in (s2, if lp_silence_blocks life \<le> run then Some Silent else None)))"

definition reap_one :: "nat \<Rightarrow> instance_manager \<times> (nat \<times> end_reason) list \<Rightarrow> nat
    \<Rightarrow> (instance_manager \<times> (nat \<times> end_reason) list) option" where
  "reap_one nf acc slot =
    (case acc of (m, reaped) \<Rightarrow>
      (case instance_at m slot of
        None \<Rightarrow> None
      | Some g \<Rightarrow>
          (case terminal_peak nf g of
            None \<Rightarrow> None
          | Some peak \<Rightarrow>
              (case should_reap (im_slots m ! slot) (gi_finished g) peak of (s, why) \<Rightarrow>
                Some (m\<lparr>im_slots := (im_slots m)[slot := s]\<rparr>,
                      (case why of None \<Rightarrow> reaped | Some w \<Rightarrow> reaped @ [(slot, w)]))))))"

definition reap_pass :: "nat \<Rightarrow> engine \<Rightarrow> engine option" where
  "reap_pass nf eng =
    (case fold_option (reap_one nf) (en_mgr eng, []) (en_active_list eng) of
      None \<Rightarrow> None
    | Some (m, reaped) \<Rightarrow>
        Some (foldl (\<lambda>g (slot, why). release_slot slot why g) (eng\<lparr>en_mgr := m\<rparr>) reaped))"

section \<open>One block\<close>

definition sum_terminal_to_master :: "nat \<Rightarrow> nat \<Rightarrow> graph_instance \<Rightarrow> nat \<Rightarrow> f64 list list \<Rightarrow> f64 list list option" where
  "sum_terminal_to_master nf outs src src_t master =
    (if src_t < output_terminal_count src then
       fold_option (\<lambda>mb c.
         case read_samples nf src (output_terminal_view src src_t c) of
           None \<Rightarrow> None
         | Some xs \<Rightarrow> Some (mb[c := map2 (+) (take nf (mb ! c)) xs @ drop nf (mb ! c)]))
         master [0..<min (output_terminal_channels src src_t) outs]
     else None)"

definition mix_route :: "engine \<Rightarrow> nat \<Rightarrow> f64 list list \<Rightarrow> active_route \<Rightarrow> f64 list list option" where
  "mix_route eng nf master r =
    (if \<not> ar_to_master r \<or> \<not> route_live eng r then Some master
     else
       case instance_at (en_mgr eng) (ar_src_slot r) of
         None \<Rightarrow> Some master
       | Some src \<Rightarrow> sum_terminal_to_master nf (en_output_channels eng) src (ar_src_terminal r) master)"

definition output_frames :: "engine \<Rightarrow> nat \<Rightarrow> nat \<Rightarrow> f64 list" where
  "output_frames eng nf n_frames =
    concat (map (\<lambda>i. map (\<lambda>ch. if i < nf then en_master eng ! ch ! i else f64_zero)
      [0..<en_output_channels eng]) [0..<n_frames])"

text \<open>What follows the computation of the voices is the same for both executors.\<close>

definition finish_block :: "engine \<Rightarrow> nat \<Rightarrow> nat \<Rightarrow> (f64 list \<times> engine) option" where
  "finish_block eng nf n_frames =
    (case fold_option (mix_route eng nf) (en_master eng) (en_routes eng) of
      None \<Rightarrow> None
    | Some master \<Rightarrow>
        (case reap_pass nf (eng\<lparr>en_master := master\<rparr>) of
          None \<Rightarrow> None
        | Some eng' \<Rightarrow> Some (output_frames eng' nf n_frames, eng')))"

definition start_block :: "engine \<Rightarrow> engine option" where
  "start_block eng =
    (case drain_commands eng of
      None \<Rightarrow> None
    | Some eng1 \<Rightarrow>
        Some (eng1\<lparr>en_master := replicate (en_output_channels eng1) (replicate (en_block_size eng1) f64_zero)\<rparr>))"

definition engine_process :: "env \<Rightarrow> engine \<Rightarrow> nat \<Rightarrow> (f64 list \<times> engine) option" where
  "engine_process e eng n_frames =
    (let nf = min n_frames (en_block_size eng)
     in case start_block eng of
          None \<Rightarrow> None
        | Some eng1 \<Rightarrow>
            (case compute_sequential e eng1 nf of
              None \<Rightarrow> None
            | Some m \<Rightarrow> finish_block (eng1\<lparr>en_mgr := m\<rparr>) nf n_frames))"

definition active_count :: "engine \<Rightarrow> nat" where
  "active_count eng = length (en_active_list eng)"

definition route_count :: "engine \<Rightarrow> nat" where
  "route_count eng = length (en_routes eng)"

end
