(* ===== verification/Engine_Facts.thy ===== *)
theory Engine_Facts
  imports Engine "HOL-Library.Multiset"
begin

text \<open>
  The ownership of slots: each slot is at every moment in exactly one place (free, waiting for
  its activation, active, or reported as ended), so the control thread never touches the instance
  of a voice the audio thread runs.  With it come the order of execution and the end of voices.
\<close>

section \<open>The shape of the manager\<close>

text \<open>The audio thread changes the contents of instances, never which slots hold one.\<close>

definition mgr_shape :: "instance_manager \<Rightarrow> nat list \<times> 32 word \<times> (32 word \<times> bool) list" where
  "mgr_shape m = (im_free m, im_next_generation m,
     map (\<lambda>s. (is_generation s, is_inst s = None)) (im_slots m))"

lemma shape_facts:
  assumes "mgr_shape m = mgr_shape m'"
  shows "im_free m = im_free m'" "im_next_generation m = im_next_generation m'"
    "length (im_slots m) = length (im_slots m')"
    "i < length (im_slots m') \<Longrightarrow> is_generation (im_slots m ! i) = is_generation (im_slots m' ! i)"
    "i < length (im_slots m') \<Longrightarrow> is_inst (im_slots m ! i) = None \<longleftrightarrow> is_inst (im_slots m' ! i) = None"
proof -
  show "im_free m = im_free m'" "im_next_generation m = im_next_generation m'"
    using assms by (simp_all add: mgr_shape_def)
  have eq: "map (\<lambda>s. (is_generation s, is_inst s = None)) (im_slots m) =
      map (\<lambda>s. (is_generation s, is_inst s = None)) (im_slots m')"
    using assms by (simp add: mgr_shape_def)
  then show len: "length (im_slots m) = length (im_slots m')" by (rule map_eq_imp_length_eq)
  let ?f = "\<lambda>s. (is_generation s, is_inst s = None)"
  assume "i < length (im_slots m')"
  then have "?f (im_slots m ! i) = map ?f (im_slots m) ! i" "?f (im_slots m' ! i) = map ?f (im_slots m') ! i"
    using len by (simp_all only: nth_map)
  then have "?f (im_slots m ! i) = ?f (im_slots m' ! i)" using eq by (simp only:)
  then show "is_generation (im_slots m ! i) = is_generation (im_slots m' ! i)"
    "is_inst (im_slots m ! i) = None \<longleftrightarrow> is_inst (im_slots m' ! i) = None" by simp_all
qed

lemma shape_ok: "mgr_shape m = mgr_shape m' \<Longrightarrow> mgr_ok m' \<Longrightarrow> mgr_ok m"
  using shape_facts [of m m'] unfolding mgr_ok_def by metis

lemma update_same_map: "f x = f (xs ! i) \<Longrightarrow> map f (xs[i := x]) = map f xs"
  by (metis list_update_id map_update)

lemma put_instance_shape:
  assumes "instance_at m i = Some g"
  shows "mgr_shape (put_instance i g' m) = mgr_shape m"
  using assms by (auto simp: mgr_shape_def put_instance_def instance_at_def split: if_splits
      intro!: update_same_map)

lemma run_task_shape:
  assumes "run_task e eng nf m i = Some m'"
  shows "mgr_shape m' = mgr_shape m"
  using assms by (auto simp: run_task_def put_instance_shape split: option.splits)

lemma fold_option_keeps:
  assumes "fold_option f a xs = Some b" and "\<And>a x b. f a x = Some b \<Longrightarrow> P b = P a"
  shows "P b = P a"
  using assms(1)
proof (induction xs arbitrary: a)
  case Nil
  then show ?case by simp
next
  case (Cons x xs)
  then obtain c where "f a x = Some c" "fold_option f c xs = Some b" by (auto split: option.splits)
  then show ?case using Cons.IH assms(2) by metis
qed

lemma compute_shape: "compute_sequential e eng nf = Some m \<Longrightarrow> mgr_shape m = mgr_shape (en_mgr eng)"
  unfolding compute_sequential_def by (erule fold_option_keeps) (rule run_task_shape)

lemma should_reap_frame:
  "is_generation (fst (should_reap s fin peak)) = is_generation s"
  "is_inst (fst (should_reap s fin peak)) = is_inst s"
  by (auto simp: should_reap_def Let_def split: lifetime_kind.split)

lemma reap_one_shape:
  assumes "reap_one nf (m, r) slot = Some (m', r')"
  shows "mgr_shape m' = mgr_shape m" and "r' = r \<or> (\<exists>w. r' = r @ [(slot, w)])"
proof -
  obtain g :: graph_instance and peak s why where s: "should_reap (im_slots m ! slot) (gi_finished g) peak = (s, why)"
      "m' = m\<lparr>im_slots := (im_slots m)[slot := s]\<rparr>"
      "r' = (case why of None \<Rightarrow> r | Some w \<Rightarrow> r @ [(slot, w)])"
    using assms by (fastforce simp: reap_one_def split: option.splits prod.splits)
  have "is_generation s = is_generation (im_slots m ! slot)" "is_inst s = is_inst (im_slots m ! slot)"
    using should_reap_frame [of "im_slots m ! slot" "gi_finished g" peak] s(1) by simp_all
  then show "mgr_shape m' = mgr_shape m"
    by (simp add: s(2) mgr_shape_def update_same_map)
  show "r' = r \<or> (\<exists>w. r' = r @ [(slot, w)])" unfolding s(3) by (cases why) simp_all
qed

lemma reap_fold:
  assumes "fold_option (reap_one nf) (m, r) slots = Some (m', r')"
  shows "mgr_shape m' = mgr_shape m \<and> (\<exists>rs. r' = r @ rs \<and> set (map fst rs) \<subseteq> set slots \<and>
    (distinct slots \<longrightarrow> distinct (map fst rs)))"
  using assms
proof (induction slots arbitrary: m r)
  case Nil
  then show ?case by simp
next
  case (Cons slot slots)
  then obtain m1 r1 where one: "reap_one nf (m, r) slot = Some (m1, r1)"
    and rest: "fold_option (reap_one nf) (m1, r1) slots = Some (m', r')"
    by (auto split: option.splits)
  obtain rs where rs: "r' = r1 @ rs" "set (map fst rs) \<subseteq> set slots" "distinct slots \<longrightarrow> distinct (map fst rs)"
    and sh: "mgr_shape m' = mgr_shape m1"
    using Cons.IH [OF rest] by blast
  consider "r1 = r" | w where "r1 = r @ [(slot, w)]" using reap_one_shape(2) [OF one] by blast
  then have "\<exists>rs. r' = r @ rs \<and> set (map fst rs) \<subseteq> set (slot # slots) \<and>
      (distinct (slot # slots) \<longrightarrow> distinct (map fst rs))"
  proof cases
    case 1
    then show ?thesis using rs by (intro exI [of _ rs]) auto
  next
    case (2 w)
    then show ?thesis using rs by (intro exI [of _ "(slot, w) # rs"]) auto
  qed
  then show ?case using sh reap_one_shape(1) [OF one] by simp
qed

section \<open>Ownership of slots\<close>

definition starting :: "command_event list \<Rightarrow> nat list" where
  "starting cs = map (\<lambda>c. ih_slot (ce_handle c)) (filter (\<lambda>c. ce_type c = Activate) cs)"

definition ended :: "engine \<Rightarrow> nat list" where
  "ended eng = map te_slot (en_telemetry eng)"

text \<open>Handles that user code holds were given out by \<open>spawn\<close>, so they are not the null handle.\<close>

definition command_ok :: "instance_manager \<Rightarrow> command_event \<Rightarrow> bool" where
  "command_ok m c \<longleftrightarrow> handle_valid (ce_handle c) \<and>
     (ce_type c = Activate \<longrightarrow> is_generation (im_slots m ! ih_slot (ce_handle c)) = ih_generation (ce_handle c)) \<and>
     (rt_to_master (ce_dest c) \<or> handle_valid (rt_instance (ce_dest c)))"

definition gens_ok :: "engine \<Rightarrow> bool" where
  "gens_ok eng \<longleftrightarrow>
     length (en_active_gen eng) = length (im_slots (en_mgr eng)) \<and>
     (\<forall>i < length (en_active_gen eng). i \<in> set (en_active_list eng) \<longleftrightarrow> en_active_gen eng ! i \<noteq> 0) \<and>
     (\<forall>i \<in> set (en_active_list eng). en_active_gen eng ! i = is_generation (im_slots (en_mgr eng) ! i)) \<and>
     (\<forall>ev \<in> set (en_telemetry eng). te_generation ev = is_generation (im_slots (en_mgr eng) ! te_slot ev))"

text \<open>Every place a slot can be in, with the commands still to be executed.\<close>

definition owners :: "engine \<Rightarrow> command_event list \<Rightarrow> nat list" where
  "owners eng cs = im_free (en_mgr eng) @ starting cs @ en_active_list eng @ ended eng"

definition engine_ok :: "engine \<Rightarrow> command_event list \<Rightarrow> bool" where
  "engine_ok eng cs \<longleftrightarrow>
     mgr_ok (en_mgr eng) \<and> gens_ok eng \<and> (\<forall>c \<in> set cs. command_ok (en_mgr eng) c) \<and>
     mset (owners eng cs) = mset [0..<length (im_slots (en_mgr eng))] \<and>
     length (im_slots (en_mgr eng)) \<le> en_telemetry_capacity eng \<and>
     (\<forall>r \<in> set (en_routes eng). route_live eng r \<and> ar_src_slot r \<in> set (en_active_list eng) \<and>
        (ar_to_master r \<or> ar_dst_slot r \<in> set (en_active_list eng)))"

lemma owner_facts:
  assumes "engine_ok eng cs"
  shows "distinct (owners eng cs)" and "set (owners eng cs) = {..<length (im_slots (en_mgr eng))}"
    and "en_active_list eng \<noteq> [] \<Longrightarrow> length (en_telemetry eng) < en_telemetry_capacity eng"
proof -
  let ?n = "length (im_slots (en_mgr eng))"
  have own: "mset (owners eng cs) = mset [0..<?n]" and cap: "?n \<le> en_telemetry_capacity eng"
    using assms by (simp_all add: engine_ok_def)
  show "distinct (owners eng cs)" using mset_eq_imp_distinct_iff [OF own] by simp
  show "set (owners eng cs) = {..<?n}" using mset_eq_setD [OF own] by (simp add: atLeast0LessThan)
  have "length (owners eng cs) = ?n" using mset_eq_length [OF own] by simp
  then show "length (en_telemetry eng) < en_telemetry_capacity eng" if "en_active_list eng \<noteq> []"
    using that cap by (cases "en_active_list eng") (simp_all add: owners_def ended_def)
qed

lemma owner_parts:
  assumes "engine_ok eng cs"
  shows "distinct (en_active_list eng)" and "distinct (ended eng)"
    and "set (en_active_list eng) \<subseteq> {..<length (im_slots (en_mgr eng))}"
    and "set (ended eng) \<subseteq> {..<length (im_slots (en_mgr eng))}"
    and "set (starting cs) \<subseteq> {..<length (im_slots (en_mgr eng))}"
    and "set (ended eng) \<inter> set (im_free (en_mgr eng)) = {}"
    and "set (ended eng) \<inter> set (en_active_list eng) = {}"
    and "set (starting cs) \<inter> set (en_active_list eng) = {}"
    and "set (en_active_list eng) \<inter> set (im_free (en_mgr eng)) = {}"
  using owner_facts(1,2) [OF assms] unfolding owners_def by auto

lemma starting_Cons:
  "starting (c # cs) = (if ce_type c = Activate then ih_slot (ce_handle c) # starting cs else starting cs)"
  by (simp add: starting_def)

lemma route_live_current:
  "route_live (eng\<lparr>en_routes := rs\<rparr>) r = route_live eng r"
  "route_live (eng\<lparr>en_mgr := m\<rparr>) r = route_live eng r"
  "route_live (eng\<lparr>en_telemetry := ts\<rparr>) r = route_live eng r"
  "route_live (eng\<lparr>en_commands := cs\<rparr>) r = route_live eng r"
  "route_live (eng\<lparr>en_master := mb\<rparr>) r = route_live eng r"
  by (simp_all add: route_live_def is_current_def)

text \<open>The end of a voice moves its slot from the active list to the telemetry, which has room.\<close>

lemma release_ok:
  assumes ok: "engine_ok eng cs" and i: "i \<in> set (en_active_list eng)"
  shows "engine_ok (release_slot i why eng) cs" and "en_mgr (release_slot i why eng) = en_mgr eng"
    and "en_active_list (release_slot i why eng) = remove1 i (en_active_list eng)"
proof -
  let ?ev = "\<lparr>te_slot = i, te_generation = en_active_gen eng ! i, te_reason = why\<rparr>"
  let ?e = "release_slot i why eng"
  have room: "length (en_telemetry eng) < en_telemetry_capacity eng"
    using owner_facts(3) [OF ok] i by (cases "en_active_list eng") auto
  have e: "?e = eng\<lparr>en_active_gen := (en_active_gen eng)[i := 0], en_active_list := remove1 i (en_active_list eng),
      en_routes := filter (\<lambda>r. \<not> touches i r) (en_routes eng), en_telemetry := en_telemetry eng @ [?ev]\<rparr>"
    using room by (simp add: release_slot_def try_report_def Let_def)
  then show "en_mgr ?e = en_mgr eng" "en_active_list ?e = remove1 i (en_active_list eng)" by simp_all
  have d: "distinct (en_active_list eng)" by (rule owner_parts [OF ok])
  have g: "gens_ok eng" using ok by (simp add: engine_ok_def)
  have il: "i < length (en_active_gen eng)"
    using owner_parts(3) [OF ok] i g by (auto simp: gens_ok_def)
  have "mset (owners ?e cs) = mset (owners eng cs)"
    using i by (simp add: e owners_def ended_def)
  moreover have "gens_ok ?e"
    using g d i il by (auto simp: e gens_ok_def nth_list_update)
  moreover have "route_live ?e r \<and> ar_src_slot r \<in> set (en_active_list ?e) \<and>
      (ar_to_master r \<or> ar_dst_slot r \<in> set (en_active_list ?e))" if "r \<in> set (en_routes ?e)" for r
    using that ok d by (auto simp: e touches_def engine_ok_def route_live_def is_current_def)
  ultimately show "engine_ok ?e cs" using ok by (simp add: engine_ok_def e)
qed

lemma releases_ok:
  assumes "engine_ok eng cs" and "distinct (map fst rs)" and "set (map fst rs) \<subseteq> set (en_active_list eng)"
  shows "engine_ok (foldl (\<lambda>g (slot, why). release_slot slot why g) eng rs) cs"
  using assms
proof (induction rs arbitrary: eng)
  case Nil
  then show ?case by simp
next
  case (Cons x rs)
  obtain i why where x: "x = (i, why)" by fastforce
  have i: "i \<in> set (en_active_list eng)" using Cons.prems(3) x by simp
  note r = release_ok [OF Cons.prems(1) i, of why]
  have "set (map fst rs) \<subseteq> set (en_active_list (release_slot i why eng))"
    using Cons.prems(2,3) owner_parts(1) [OF Cons.prems(1)] x by (auto simp: r(3))
  from Cons.IH [OF r(1) _ this] Cons.prems(2) x show ?case by simp
qed

text \<open>Changes of the manager that keep its shape.\<close>

lemma shape_engine_ok:
  assumes ok: "engine_ok eng cs" and sh: "mgr_shape m = mgr_shape (en_mgr eng)"
  shows "engine_ok (eng\<lparr>en_mgr := m\<rparr>) cs"
proof -
  note f = shape_facts [OF sh]
  have sub: "set (en_active_list eng) \<subseteq> {..<length (im_slots (en_mgr eng))}"
    "set (ended eng) \<subseteq> {..<length (im_slots (en_mgr eng))}"
    "set (starting cs) \<subseteq> {..<length (im_slots (en_mgr eng))}" by (rule owner_parts [OF ok])+
  have g: "gens_ok eng" and c: "\<forall>c \<in> set cs. command_ok (en_mgr eng) c"
    using ok by (simp_all add: engine_ok_def)
  have "\<forall>i \<in> set (en_active_list eng). en_active_gen eng ! i = is_generation (im_slots m ! i)"
    using g f(4) sub(1) unfolding gens_ok_def by (metis lessThan_iff subsetD)
  moreover have "\<forall>ev \<in> set (en_telemetry eng). te_generation ev = is_generation (im_slots m ! te_slot ev)"
  proof
    fix ev assume ev: "ev \<in> set (en_telemetry eng)"
    then have "te_slot ev < length (im_slots (en_mgr eng))" using sub(2) by (auto simp: ended_def)
    then show "te_generation ev = is_generation (im_slots m ! te_slot ev)"
      using g ev f(4) by (simp add: gens_ok_def)
  qed
  ultimately have "gens_ok (eng\<lparr>en_mgr := m\<rparr>)" using g f(3) by (simp add: gens_ok_def)
  moreover have "command_ok m x" if x: "x \<in> set cs" for x
  proof (cases "ce_type x = Activate")
    case True
    then have "ih_slot (ce_handle x) < length (im_slots (en_mgr eng))"
      using sub(3) x by (auto simp: starting_def)
    then show ?thesis using c x f(4) by (simp add: command_ok_def)
  next
    case False
    then show ?thesis using c x by (simp add: command_ok_def)
  qed
  moreover have "mgr_ok m" using shape_ok [OF sh] ok by (simp add: engine_ok_def)
  ultimately show ?thesis
    using ok f(1,3) by (simp add: engine_ok_def owners_def ended_def route_live_current)
qed

section \<open>The audio thread keeps the ownership\<close>

lemma drop_command: "engine_ok eng (c # cs) \<Longrightarrow> ce_type c \<noteq> Activate \<Longrightarrow> engine_ok eng cs"
  by (simp add: engine_ok_def owners_def starting_Cons)

lemma activate_ok:
  assumes ok: "engine_ok eng (c # cs)" and c: "ce_type c = Activate"
  shows "engine_ok (activate (ce_handle c) eng) cs"
proof -
  let ?i = "ih_slot (ce_handle c)" and ?g = "ih_generation (ce_handle c)"
  let ?e = "activate (ce_handle c) eng"
  have cok: "command_ok (en_mgr eng) c" and g: "gens_ok eng" using ok by (simp_all add: engine_ok_def)
  have i: "?i < length (im_slots (en_mgr eng))" "?i \<notin> set (en_active_list eng)"
    using owner_parts(5,8) [OF ok] c by (auto simp: starting_Cons)
  then have z: "?i < length (en_active_gen eng)" "en_active_gen eng ! ?i = 0"
    using g by (auto simp: gens_ok_def)
  then have e: "?e = eng\<lparr>en_active_gen := (en_active_gen eng)[?i := ?g], en_active_list := en_active_list eng @ [?i]\<rparr>"
    by (simp add: activate_def)
  have gen: "?g \<noteq> 0" "is_generation (im_slots (en_mgr eng) ! ?i) = ?g"
    using cok c by (simp_all add: command_ok_def handle_valid_def)
  have "mset (owners ?e cs) = mset (owners eng (c # cs))"
    using c by (simp add: e owners_def ended_def starting_Cons)
  moreover have "gens_ok ?e"
    using g z gen i(2) by (auto simp: e gens_ok_def nth_list_update)
  moreover have "route_live ?e r \<and> ar_src_slot r \<in> set (en_active_list ?e) \<and>
      (ar_to_master r \<or> ar_dst_slot r \<in> set (en_active_list ?e))" if "r \<in> set (en_routes ?e)" for r
  proof -
    have keep: "is_current ?e j x" if "is_current eng j x" "j \<in> set (en_active_list eng)" for j x
    proof -
      have "j \<noteq> ?i" using that(2) i(2) by auto
      then show ?thesis using that(1) by (simp add: e is_current_def)
    qed
    have "route_live eng r" "ar_src_slot r \<in> set (en_active_list eng)"
      "ar_to_master r \<or> ar_dst_slot r \<in> set (en_active_list eng)"
      using that ok by (simp_all add: e engine_ok_def)
    then show ?thesis using keep by (auto simp: route_live_def e)
  qed
  ultimately show ?thesis using ok by (simp add: engine_ok_def e)
qed

lemma current_active:
  assumes "engine_ok eng cs" and "is_current eng i g" and "g \<noteq> 0"
  shows "i \<in> set (en_active_list eng)"
  using assms by (auto simp: engine_ok_def gens_ok_def is_current_def)

lemma add_route_ok:
  assumes ok: "engine_ok eng cs" and c: "command_ok m c"
  shows "engine_ok (add_route c eng) cs"
proof (cases "add_route c eng = eng")
  case True
  then show ?thesis using ok by simp
next
  case False
  let ?r = "route_of c"
  have e: "add_route c eng = eng\<lparr>en_routes := en_routes eng @ [?r]\<rparr>"
    and s: "is_current eng (ih_slot (ce_handle c)) (ih_generation (ce_handle c))"
    and d: "rt_to_master (ce_dest c) \<or>
      is_current eng (ih_slot (rt_instance (ce_dest c))) (ih_generation (rt_instance (ce_dest c)))"
    using False by (auto simp: add_route_def split: if_splits)
  have "route_live eng ?r" using s d by (auto simp: route_of_def Let_def route_live_def)
  moreover have "ar_src_slot ?r \<in> set (en_active_list eng)"
    using current_active [OF ok s] c by (simp add: route_of_def Let_def command_ok_def handle_valid_def)
  moreover have "ar_to_master ?r \<or> ar_dst_slot ?r \<in> set (en_active_list eng)"
    using current_active [OF ok] d c by (auto simp: route_of_def Let_def command_ok_def handle_valid_def)
  ultimately show ?thesis
    using ok by (simp add: e engine_ok_def gens_ok_def owners_def ended_def route_live_current)
qed

lemma exec_command_ok:
  assumes ok: "engine_ok eng (c # cs)" and x: "exec_command eng c = Some eng'"
  shows "engine_ok eng' cs"
proof (cases "ce_type c")
  case Activate
  then show ?thesis using activate_ok [OF ok Activate] x by (simp add: exec_command_def Let_def)
next
  case Kill
  then have rest: "engine_ok eng cs" using drop_command [OF ok] by simp
  have "ih_generation (ce_handle c) \<noteq> 0" using ok by (simp add: engine_ok_def command_ok_def handle_valid_def)
  then show ?thesis
    using x Kill rest release_ok(1) [OF rest] current_active [OF rest]
    by (auto simp: exec_command_def Let_def split: if_splits)
next
  case Set_parameter
  then have rest: "engine_ok eng cs" using drop_command [OF ok] by simp
  then show ?thesis
    using x Set_parameter shape_engine_ok [OF rest] put_instance_shape
    by (auto simp: exec_command_def Let_def split: if_splits option.splits)
next
  case Connect
  then have rest: "engine_ok eng cs" using drop_command [OF ok] by simp
  have "command_ok (en_mgr eng) c" using ok by (simp add: engine_ok_def)
  then show ?thesis using x Connect add_route_ok [OF rest] by (auto simp: exec_command_def)
next
  case Disconnect
  then have rest: "engine_ok eng cs" using drop_command [OF ok] by simp
  then show ?thesis using x Disconnect
    by (auto simp: exec_command_def remove_route_def engine_ok_def gens_ok_def owners_def ended_def route_live_current)
qed

lemma exec_commands_ok:
  "engine_ok eng cs \<Longrightarrow> fold_option exec_command eng cs = Some eng' \<Longrightarrow> engine_ok eng' []"
proof (induction cs arbitrary: eng)
  case Nil
  then show ?case by simp
next
  case (Cons c cs)
  then obtain eng1 where one: "exec_command eng c = Some eng1" and rest: "fold_option exec_command eng1 cs = Some eng'"
    by (auto split: option.splits)
  from Cons.IH [OF exec_command_ok [OF Cons.prems(1) one] rest] show ?case .
qed

lemma engine_ok_frame:
  assumes "engine_ok eng cs"
  shows "engine_ok (eng\<lparr>en_commands := xs\<rparr>) cs" and "engine_ok (eng\<lparr>en_master := mb\<rparr>) cs"
  using assms by (simp_all add: engine_ok_def gens_ok_def owners_def ended_def route_live_current)

lemma exec_command_frame:
  assumes "exec_command eng c = Some eng'"
  shows "en_commands eng' = en_commands eng \<and> en_block_size eng' = en_block_size eng \<and>
    en_output_channels eng' = en_output_channels eng"
  using assms
  by (auto simp: exec_command_def Let_def activate_def release_slot_def try_report_def add_route_def
      remove_route_def split: command_type.splits if_splits option.splits)

lemma start_block_ok:
  assumes "engine_ok eng (en_commands eng)" and "start_block eng = Some eng'"
  shows "engine_ok eng' []" and "en_commands eng' = []"
proof -
  obtain eng1 where d: "fold_option exec_command (eng\<lparr>en_commands := []\<rparr>) (en_commands eng) = Some eng1"
    and e: "eng' = eng1\<lparr>en_master := replicate (en_output_channels eng1) (replicate (en_block_size eng1) f64_zero)\<rparr>"
    using assms(2) by (auto simp: start_block_def drain_commands_def split: option.splits)
  have "engine_ok (eng\<lparr>en_commands := []\<rparr>) (en_commands eng)" using assms(1) by (rule engine_ok_frame)
  from exec_commands_ok [OF this d] show "engine_ok eng' []" unfolding e by (rule engine_ok_frame)
  have "en_commands eng1 = en_commands (eng\<lparr>en_commands := []\<rparr>)"
    using d by (rule fold_option_keeps) (use exec_command_frame in blast)
  then show "en_commands eng' = []" by (simp add: e)
qed

lemma reap_pass_ok:
  assumes ok: "engine_ok eng cs" and r: "reap_pass nf eng = Some eng'"
  shows "engine_ok eng' cs"
proof -
  obtain m rs where f: "fold_option (reap_one nf) (en_mgr eng, []) (en_active_list eng) = Some (m, rs)"
    and e: "eng' = foldl (\<lambda>g (slot, why). release_slot slot why g) (eng\<lparr>en_mgr := m\<rparr>) rs"
    using r by (auto simp: reap_pass_def split: option.splits)
  have sh: "mgr_shape m = mgr_shape (en_mgr eng)" and sub: "distinct (map fst rs)"
      "set (map fst rs) \<subseteq> set (en_active_list eng)"
    using reap_fold [OF f] owner_parts(1) [OF ok] by auto
  then show ?thesis unfolding e by (intro releases_ok shape_engine_ok ok sh) simp_all
qed

lemma release_commands: "en_commands (release_slot i why eng) = en_commands eng"
  by (simp add: release_slot_def try_report_def Let_def)

lemma finish_block_ok:
  assumes "engine_ok eng cs" and "finish_block eng nf n = Some (out, eng')"
  shows "engine_ok eng' cs"
  using assms by (auto simp: finish_block_def split: option.splits intro: reap_pass_ok engine_ok_frame)

lemma finish_block_commands:
  assumes "finish_block eng nf n = Some (out, eng')"
  shows "en_commands eng' = en_commands eng"
proof -
  have "en_commands (foldl (\<lambda>g (slot, why). release_slot slot why g) eng rs) = en_commands eng" for eng rs
    by (induction rs arbitrary: eng) (auto simp: release_commands)
  then show ?thesis using assms by (auto simp: finish_block_def reap_pass_def split: option.splits)
qed

lemma engine_process_ok:
  assumes "engine_ok eng (en_commands eng)" and "engine_process e eng n = Some (out, eng')"
  shows "engine_ok eng' (en_commands eng')"
proof -
  obtain eng1 m where s: "start_block eng = Some eng1"
    and c: "compute_sequential e eng1 (min n (en_block_size eng)) = Some m"
    and f: "finish_block (eng1\<lparr>en_mgr := m\<rparr>) (min n (en_block_size eng)) n = Some (out, eng')"
    using assms(2) by (auto simp: engine_process_def Let_def split: option.splits)
  note ok1 = start_block_ok [OF assms(1) s]
  have "engine_ok (eng1\<lparr>en_mgr := m\<rparr>) []" by (rule shape_engine_ok [OF ok1(1) compute_shape [OF c]])
  from finish_block_ok [OF this f] finish_block_commands [OF f] ok1(2) show ?thesis by simp
qed

section \<open>The control thread keeps the ownership\<close>

lemma recycles_ok:
  assumes "mgr_ok m" and "distinct is" and "set is \<subseteq> {..<length (im_slots m)}" and "set is \<inter> set (im_free m) = {}"
  shows "mgr_ok (foldl (\<lambda>m i. mgr_recycle i m) m is) \<and>
    im_free (foldl (\<lambda>m i. mgr_recycle i m) m is) = im_free m @ is \<and>
    length (im_slots (foldl (\<lambda>m i. mgr_recycle i m) m is)) = length (im_slots m) \<and>
    (\<forall>j. is_generation (im_slots (foldl (\<lambda>m i. mgr_recycle i m) m is) ! j) = is_generation (im_slots m ! j))"
  using assms
proof (induction "is" arbitrary: m)
  case Nil
  then show ?case by simp
next
  case (Cons i "is")
  let ?m = "mgr_recycle i m"
  have i: "i < length (im_slots m)" "i \<notin> set (im_free m)" using Cons.prems(3,4) by auto
  then have "is_inst (im_slots m ! i) \<noteq> None" using Cons.prems(1) by (auto simp: mgr_ok_def)
  then have ok: "mgr_ok ?m" using Cons.prems(1) i(1) by (intro mgr_recycle_ok)
  have f: "im_free ?m = im_free m @ [i]" "length (im_slots ?m) = length (im_slots m)"
    "is_generation (im_slots ?m ! j) = is_generation (im_slots m ! j)" for j
    using i(1) by (simp_all add: mgr_recycle_def nth_list_update)
  have "mgr_ok (foldl (\<lambda>m i. mgr_recycle i m) ?m is) \<and>
    im_free (foldl (\<lambda>m i. mgr_recycle i m) ?m is) = im_free ?m @ is \<and>
    length (im_slots (foldl (\<lambda>m i. mgr_recycle i m) ?m is)) = length (im_slots ?m) \<and>
    (\<forall>j. is_generation (im_slots (foldl (\<lambda>m i. mgr_recycle i m) ?m is) ! j) = is_generation (im_slots ?m ! j))"
    using Cons.prems(2-4) ok f(1,2) by (intro Cons.IH) auto
  then show ?case by (simp add: f)
qed

lemma foldl_map: "foldl g a (map f xs) = foldl (\<lambda>a x. g a (f x)) a xs"
  by (induction xs arbitrary: a) simp_all

lemma reclaim_ok:
  assumes ok: "engine_ok eng cs"
  shows "engine_ok (snd (reclaim eng)) cs"
proof -
  let ?m = "foldl (\<lambda>m i. mgr_recycle i m) (en_mgr eng) (ended eng)"
  have e: "snd (reclaim eng) = eng\<lparr>en_telemetry := [], en_mgr := ?m\<rparr>"
    by (simp add: reclaim_def ended_def foldl_map)
  have mok: "mgr_ok (en_mgr eng)" using ok by (simp add: engine_ok_def)
  have r: "mgr_ok ?m" "im_free ?m = im_free (en_mgr eng) @ ended eng"
    "length (im_slots ?m) = length (im_slots (en_mgr eng))"
    "is_generation (im_slots ?m ! j) = is_generation (im_slots (en_mgr eng) ! j)" for j
    using recycles_ok [OF mok owner_parts(2,4,6) [OF ok]] by auto
  have "mset (owners (snd (reclaim eng)) cs) = mset (owners eng cs)"
    by (simp add: e owners_def r(2)) (simp add: ended_def)
  moreover have "gens_ok (snd (reclaim eng))"
    using ok by (simp add: e engine_ok_def gens_ok_def r(3,4))
  ultimately show ?thesis
    using ok r(1) by (simp add: e engine_ok_def r(3,4) command_ok_def route_live_current)
qed

lemma enqueue_ok:
  assumes "engine_ok eng cs" and "command_ok (en_mgr eng) c" and "ce_type c \<noteq> Activate"
  shows "engine_ok eng (cs @ [c])"
  using assms by (simp add: engine_ok_def owners_def starting_def)

lemma spawned_ok:
  assumes ok: "engine_ok eng cs" and c: "mgr_create e base (en_mgr eng) sched sr life = (h, m)"
    and v: "handle_valid h"
  shows "engine_ok (eng\<lparr>en_mgr := m\<rparr>) (cs @ [plain_command Activate h])"
    and "instance_at m (ih_slot h) \<noteq> None"
proof -
  have mok: "mgr_ok (en_mgr eng)" using ok by (simp add: engine_ok_def)
  obtain inst idx where free: "im_free (en_mgr eng) = im_free m @ [idx]"
    and h: "h = \<lparr>ih_slot = idx, ih_generation = im_next_generation (en_mgr eng)\<rparr>"
    and m: "im_slots m = (im_slots (en_mgr eng))[idx := \<lparr>is_inst = Some inst,
        is_generation = im_next_generation (en_mgr eng), is_life = life, is_age_blocks = 0, is_silent_run = 0\<rparr>]"
    using c
  proof (cases rule: mgr_create_cases)
    case full
    then show ?thesis using v by (simp add: handle_valid_def null_handle_def)
  next
    case (made inst idx)
    have "im_slots m = (im_slots (en_mgr eng))[idx := \<lparr>is_inst = Some inst,
        is_generation = im_next_generation (en_mgr eng), is_life = life, is_age_blocks = 0, is_silent_run = 0\<rparr>]"
      by (subst made(4), simp)
    from that [OF made(2,3) this] show ?thesis .
  qed
  have idx: "idx < length (im_slots (en_mgr eng))" "idx \<in> set (im_free (en_mgr eng))"
    using mok free by (auto simp: mgr_ok_def)
  then show "instance_at m (ih_slot h) \<noteq> None" by (simp add: h instance_at_def m)
  have other: "idx \<notin> set (starting cs)" "idx \<notin> set (en_active_list eng)" "idx \<notin> set (ended eng)"
    using owner_facts(1) [OF ok] idx(2) by (auto simp: owners_def)
  have gen: "is_generation (im_slots m ! j) = is_generation (im_slots (en_mgr eng) ! j)" if "j \<noteq> idx" for j
    using that by (simp add: m)
  have len: "length (im_slots m) = length (im_slots (en_mgr eng))" by (simp add: m)
  have "mgr_ok m" by (rule mgr_create_ok [OF mok c])
  moreover have "gens_ok (eng\<lparr>en_mgr := m\<rparr>)"
  proof -
    have g: "gens_ok eng" using ok by (simp add: engine_ok_def)
    have "\<forall>i \<in> set (en_active_list eng). en_active_gen eng ! i = is_generation (im_slots m ! i)"
      using g gen other(2) unfolding gens_ok_def by metis
    moreover have "\<forall>ev \<in> set (en_telemetry eng). te_generation ev = is_generation (im_slots m ! te_slot ev)"
    proof
      fix ev assume ev: "ev \<in> set (en_telemetry eng)"
      then have "te_slot ev \<noteq> idx" using other(3) by (auto simp: ended_def)
      then show "te_generation ev = is_generation (im_slots m ! te_slot ev)"
        using g ev gen by (simp add: gens_ok_def)
    qed
    ultimately show ?thesis using g len by (simp add: gens_ok_def)
  qed
  moreover have "command_ok m x" if x: "x \<in> set cs" for x
  proof -
    have cx: "command_ok (en_mgr eng) x" using ok x by (simp add: engine_ok_def)
    have "ce_type x = Activate \<Longrightarrow> ih_slot (ce_handle x) \<noteq> idx" using x other(1) by (auto simp: starting_def)
    then show ?thesis using cx gen by (simp add: command_ok_def)
  qed
  moreover have "command_ok m (plain_command Activate h)"
    using idx v by (simp add: command_ok_def plain_command_def to_master_target_def h m)
  moreover have "mset (owners (eng\<lparr>en_mgr := m\<rparr>) (cs @ [plain_command Activate h])) = mset (owners eng cs)"
    by (simp add: owners_def starting_def ended_def free plain_command_def h)
  ultimately show "engine_ok (eng\<lparr>en_mgr := m\<rparr>) (cs @ [plain_command Activate h])"
    using ok by (auto simp: engine_ok_def len route_live_current)
qed

definition target_ok :: "route_target \<Rightarrow> bool" where
  "target_ok d \<longleftrightarrow> rt_to_master d \<or> handle_valid (rt_instance d)"

lemma spawn_ok:
  assumes ok: "engine_ok eng (en_commands eng)" and t: "target_ok dest"
    and sp: "spawn e base eng sched life dest term ips = Some (h, eng')"
  shows "engine_ok eng' (en_commands eng')"
proof -
  let ?e1 = "snd (reclaim eng)"
  have c1: "en_commands ?e1 = en_commands eng" by (simp add: reclaim_def)
  have ok1: "engine_ok ?e1 (en_commands eng)" by (rule reclaim_ok [OF ok])
  obtain h' m where c: "mgr_create e base (en_mgr ?e1) sched (en_sample_rate ?e1) life = (h', m)" by fastforce
  show ?thesis
  proof (cases "handle_valid h'")
    case False
    have "m = en_mgr ?e1"
      using c
    proof (cases rule: mgr_create_cases)
      case (made inst idx)
      then show ?thesis using False ok1 by (simp add: handle_valid_def engine_ok_def mgr_ok_def)
    qed
    then have "eng' = ?e1" using sp False by (simp add: spawn_def Let_def c)
    then show ?thesis using ok1 c1 by simp
  next
    case True
    note s = spawned_ok [OF ok1 c True]
    obtain g where g: "instance_at m (ih_slot h') = Some g" using s(2) by blast
    obtain g' where e': "eng' = (let eng2 = enqueue (plain_command Activate h')
          (?e1\<lparr>en_mgr := put_instance (ih_slot h') g' m\<rparr>)
        in if term < length (g_output_terminals (cs_bp sched)) then engine_connect h' term dest eng2 else eng2)"
      using sp True g by (auto simp: spawn_def Let_def c split: option.splits)
    let ?e2 = "?e1\<lparr>en_mgr := put_instance (ih_slot h') g' m\<rparr>"
    have "engine_ok (?e1\<lparr>en_mgr := m\<rparr>\<lparr>en_mgr := put_instance (ih_slot h') g' m\<rparr>)
        (en_commands eng @ [plain_command Activate h'])"
      by (rule shape_engine_ok [OF s(1)]) (simp add: put_instance_shape [OF g])
    then have ok2: "engine_ok ?e2 (en_commands eng @ [plain_command Activate h'])" by simp
    have "engine_ok ?e2 ((en_commands eng @ [plain_command Activate h']) @
        [(plain_command Connect h')\<lparr>ce_src_terminal := term, ce_dest := dest\<rparr>])"
      using t True by (intro enqueue_ok [OF ok2]) (simp_all add: command_ok_def plain_command_def target_ok_def)
    then show ?thesis
      using ok2 engine_ok_frame(1) c1
      by (simp add: e' Let_def engine_connect_def enqueue_def)
  qed
qed

section \<open>Histories of an engine\<close>

inductive engine_run :: "env \<Rightarrow> engine \<Rightarrow> engine \<Rightarrow> bool" for e eng0 where
  started: "engine_run e eng0 eng0"
| spawned: "engine_run e eng0 eng \<Longrightarrow> target_ok dest \<Longrightarrow>
    spawn e base eng sched life dest term ips = Some (h, eng') \<Longrightarrow> engine_run e eng0 eng'"
| killed: "engine_run e eng0 eng \<Longrightarrow> handle_valid h \<Longrightarrow> engine_run e eng0 (kill h eng)"
| set_parameter: "engine_run e eng0 eng \<Longrightarrow> handle_valid h \<Longrightarrow>
    engine_run e eng0 (engine_set_parameter h v p x eng)"
| connected: "engine_run e eng0 eng \<Longrightarrow> handle_valid h \<Longrightarrow> target_ok dest \<Longrightarrow>
    engine_run e eng0 (engine_connect h t dest eng)"
| disconnected: "engine_run e eng0 eng \<Longrightarrow> handle_valid h \<Longrightarrow> target_ok dest \<Longrightarrow>
    engine_run e eng0 (engine_disconnect h t dest eng)"
| reclaimed: "engine_run e eng0 eng \<Longrightarrow> engine_run e eng0 (snd (reclaim eng))"
| block: "engine_run e eng0 eng \<Longrightarrow> engine_process e eng n = Some (out, eng') \<Longrightarrow> engine_run e eng0 eng'"

lemma engine_init_ok:
  assumes "engine_init base sr bs outs n = Some eng"
  shows "engine_ok eng (en_commands eng)" and "length (im_slots (en_mgr eng)) = n"
proof -
  have e: "eng = \<lparr>en_sample_rate = sr, en_block_size = bs, en_output_channels = outs,
      en_mgr = mgr_init n, en_active_gen = replicate n 0, en_active_list = [], en_routes = [],
      en_route_capacity = n * 4, en_master = replicate outs (replicate bs f64_zero),
      en_commands = [], en_telemetry = [], en_telemetry_capacity = n * 4 + 16\<rparr>"
    using assms by (auto simp: engine_init_def split: if_splits option.splits)
  have "mset (rev [0..<n]) = mset [0..<n]" by (rule mset_rev)
  then show "engine_ok eng (en_commands eng)"
    using mgr_init_ok [of n]
    by (simp add: e engine_ok_def gens_ok_def owners_def starting_def ended_def) (simp add: mgr_init_def)
  show "length (im_slots (en_mgr eng)) = n" by (simp add: e mgr_init_def)
qed

lemma engine_run_ok:
  assumes "engine_run e eng0 eng" and "engine_ok eng0 (en_commands eng0)"
  shows "engine_ok eng (en_commands eng)"
  using assms
proof (induction rule: engine_run.induct)
  case started
  then show ?case .
next
  case (spawned eng dest base sched life "term" ips h eng')
  then show ?case using spawn_ok by blast
next
  case (killed eng h)
  then have "engine_ok eng (en_commands eng @ [plain_command Kill h])"
    by (intro enqueue_ok) (simp_all add: command_ok_def plain_command_def to_master_target_def)
  then show ?case by (simp add: kill_def enqueue_def engine_ok_frame)
next
  case (set_parameter eng h v p x)
  then have "engine_ok eng (en_commands eng @ [(plain_command Set_parameter h)
      \<lparr>ce_node_index := v, ce_parameter_index := p, ce_parameter_value := x\<rparr>])"
    by (intro enqueue_ok) (simp_all add: command_ok_def plain_command_def to_master_target_def)
  then show ?case by (simp add: engine_set_parameter_def enqueue_def engine_ok_frame)
next
  case (connected eng h dest t)
  then have "engine_ok eng (en_commands eng @ [(plain_command Connect h)\<lparr>ce_src_terminal := t, ce_dest := dest\<rparr>])"
    by (intro enqueue_ok) (simp_all add: command_ok_def plain_command_def target_ok_def)
  then show ?case by (simp add: engine_connect_def enqueue_def engine_ok_frame)
next
  case (disconnected eng h dest t)
  then have "engine_ok eng (en_commands eng @ [(plain_command Disconnect h)\<lparr>ce_src_terminal := t, ce_dest := dest\<rparr>])"
    by (intro enqueue_ok) (simp_all add: command_ok_def plain_command_def target_ok_def)
  then show ?case by (simp add: engine_disconnect_def enqueue_def engine_ok_frame)
next
  case (reclaimed eng)
  then show ?case using reclaim_ok by (simp add: reclaim_def)
next
  case (block eng n out eng')
  then show ?case using engine_process_ok by blast
qed

lemma engine_init_Some:
  assumes "is_power_of_two bs" and "bs < 2 ^ 40" and "outs < 2 ^ 10" and "base < 2 ^ 62"
  obtains eng where "engine_init base sr bs outs n = Some eng"
proof -
  have p: "is_power_of_two 8" "is_power_of_two simd_align"
    by (simp_all add: is_power_of_two_iff simd_align_def exI [of _ 3] exI [of _ 6])
  have m: "outs * (bs * 8 + 64) < 2 ^ 10 * (2 ^ 40 * 8 + 64)" using assms(2,3) by (intro mult_strict_mono) simp_all
  then have cap: "master_bytes bs outs < 2 ^ 54" using assms(3) by (simp add: master_bytes_def simd_align_def)
  have "ar_offset (arena_reserve base (master_bytes bs outs)) + budget (master_requests bs outs) \<le>
      ar_capacity (arena_reserve base (master_bytes bs outs))"
    by (simp add: budget_def master_requests_def master_bytes_def arena_reserve_def sum_list_replicate simd_align_def
        algebra_simps)
  moreover have "arena_ok (arena_reserve base (master_bytes bs outs))"
    using assms(4) cap by (simp add: arena_ok_def arena_reserve_def)
  moreover have "\<forall>r \<in> set (master_requests bs outs). legal_request r"
    using assms(2,3) p by (auto simp: master_requests_def legal_request_def simd_align_def)
  moreover have "0 < ar_capacity (arena_reserve base (master_bytes bs outs))"
    by (simp add: arena_reserve_def master_bytes_def simd_align_def)
  ultimately obtain x where "arena.request_all (arena_reserve base (master_bytes bs outs)) (master_requests bs outs) = Some x"
    using request_all_fits by metis
  then show thesis using that assms(1) by (cases x) (simp add: engine_init_def)
qed

section \<open>The order of execution\<close>

lemma route_edges_active:
  assumes "engine_ok eng cs"
  shows "\<forall>(a, b) \<in> set (route_edges eng). a \<in> set (en_active_list eng) \<and> b \<in> set (en_active_list eng)"
  using assms by (auto simp: route_edges_def engine_ok_def)

lemma compute_order_ok:
  assumes ok: "engine_ok eng cs"
  shows "mset (compute_order eng) = mset (en_active_list eng)"
    and "acyclic (set (route_edges eng)) \<Longrightarrow> (u, v) \<in> set (route_edges eng) \<Longrightarrow> before (compute_order eng) u v"
proof -
  let ?ns = "en_active_list eng" and ?E = "route_edges eng"
  have d: "distinct ?ns" by (rule owner_parts [OF ok])
  note ends = route_edges_active [OF ok]
  obtain deg topo where k: "kahn_order ?ns ?E = Some (deg, topo)" and inv: "kahn_inv ?ns ?E deg [] topo"
    by (rule kahn_order_total [OF d ends])
  note f = kahn_inv_final [OF inv]
  have len: "length topo < length ?ns \<longleftrightarrow> set topo \<noteq> set ?ns"
    using d f(1,2) by (metis card_subset_eq distinct_card finite_set linorder_neqE_nat psubset_card_mono
        psubset_eq nat_neq_iff)
  have rest: "set (filter (\<lambda>v. 0 < deg v) ?ns) = set ?ns - set topo" using f(4) by auto
  show "mset (compute_order eng) = mset ?ns"
  proof (cases "set topo = set ?ns")
    case True
    then show ?thesis using k len d f(1) by (simp add: compute_order_def set_eq_iff_mset_eq_distinct)
  next
    case False
    have "distinct (topo @ filter (\<lambda>v. 0 < deg v) ?ns)" using d f(1) rest by auto
    moreover have "set (topo @ filter (\<lambda>v. 0 < deg v) ?ns) = set ?ns" using rest f(2) by auto
    ultimately have "mset (topo @ filter (\<lambda>v. 0 < deg v) ?ns) = mset ?ns"
      using d set_eq_iff_mset_eq_distinct by blast
    then show ?thesis using k len False by (simp add: compute_order_def)
  qed
  assume "acyclic (set ?E)" and e: "(u, v) \<in> set ?E"
  then have all: "set topo = set ?ns" using kahn_complete_iff [OF inv ends] by simp
  then have "compute_order eng = topo" using k len by (simp add: compute_order_def)
  then show "before (compute_order eng) u v" using f(3) [OF e] ends e all by auto
qed

section \<open>The life of a voice\<close>

text \<open>A voice lives through a sequence of blocks, given the peak of each, when none of them ends it.\<close>

fun survives :: "instance_slot \<Rightarrow> f64 list \<Rightarrow> bool" where
  "survives s [] = True"
| "survives s (p # ps) = (case should_reap s False p of (s', why) \<Rightarrow> why = None \<and> survives s' ps)"

lemma survives_timed:
  assumes "lp_kind (is_life s) = Timed" and "is_age_blocks s + length ps < 2 ^ 64"
  shows "survives s ps \<longleftrightarrow> ps = [] \<or> is_age_blocks s + length ps < lp_ttl_blocks (is_life s)"
  using assms
proof (induction ps arbitrary: s)
  case Nil
  then show ?case by simp
next
  case (Cons p ps)
  let ?s = "s\<lparr>is_age_blocks := Suc (is_age_blocks s)\<rparr>"
  have r: "should_reap s False p = (?s, if lp_ttl_blocks (is_life s) \<le> Suc (is_age_blocks s) then Some Timed_out else None)"
    using Cons.prems by (simp add: should_reap_def Let_def)
  have "survives ?s ps \<longleftrightarrow> ps = [] \<or> is_age_blocks ?s + length ps < lp_ttl_blocks (is_life ?s)"
    using Cons.prems by (intro Cons.IH) simp_all
  then show ?case using r by auto
qed

definition quiet_run :: "nat \<Rightarrow> bool list \<Rightarrow> bool" where
  "quiet_run n bs \<longleftrightarrow> (\<exists>i. i + n \<le> length bs \<and> (\<forall>j < n. bs ! (i + j)))"

lemma quiet_run_map:
  "quiet_run n (map f xs) \<longleftrightarrow> (\<exists>i. i + n \<le> length xs \<and> (\<forall>j < n. f (xs ! (i + j))))"
  unfolding quiet_run_def by (rule ex_cong1) auto

lemma quiet_run_here: "n \<le> r \<Longrightarrow> quiet_run n (replicate r True @ bs)"
  by (auto simp: quiet_run_def nth_append intro!: exI [of _ 0])

lemma quiet_run_short: "r < n \<Longrightarrow> \<not> quiet_run n (replicate r True)"
  by (simp add: quiet_run_def)

lemma quiet_run_break:
  assumes "r < n"
  shows "quiet_run n (replicate r True @ False # bs) \<longleftrightarrow> quiet_run n bs"
proof
  assume "quiet_run n (replicate r True @ False # bs)"
  then obtain i where i: "i + n \<le> r + Suc (length bs)" "\<And>j. j < n \<Longrightarrow> (replicate r True @ False # bs) ! (i + j)"
    by (auto simp: quiet_run_def)
  have "r < i"
  proof (rule ccontr)
    assume "\<not> r < i"
    then have "r - i < n" "i + (r - i) = r" using assms by linarith+
    then show False using i(2) [of "r - i"] by (simp add: nth_append)
  qed
  then obtain k where k: "i = r + Suc k" using less_imp_Suc_add by (metis add_Suc_right)
  have "bs ! (k + j)" if "j < n" for j using i(2) [OF that] by (simp add: k nth_append)
  then show "quiet_run n bs" using i(1) k by (auto simp: quiet_run_def intro!: exI [of _ k])
next
  assume "quiet_run n bs"
  then obtain k where "k + n \<le> length bs" "\<forall>j < n. bs ! (k + j)" by (auto simp: quiet_run_def)
  then show "quiet_run n (replicate r True @ False # bs)"
    by (auto simp: quiet_run_def nth_append intro!: exI [of _ "r + Suc k"])
qed

lemma survives_silent:
  assumes "lp_kind (is_life s) = Until_silent" and "lp_silence_blocks (is_life s) = n" and "n < 2 ^ 64"
    and "is_silent_run s < n"
  shows "survives s ps \<longleftrightarrow>
    \<not> quiet_run n (replicate (is_silent_run s) True @ map (\<lambda>p. f64_lt p (lp_silence_threshold (is_life s))) ps)"
  using assms
proof (induction ps arbitrary: s)
  case Nil
  then show ?case by (simp add: quiet_run_short)
next
  case (Cons p ps)
  let ?t = "lp_silence_threshold (is_life s)" and ?r = "is_silent_run s"
  let ?run = "if f64_lt p ?t then Suc ?r else 0"
  define a where "a = (is_age_blocks s + 1) mod 2 ^ 64"
  have m: "(?r + 1) mod 2 ^ 64 = Suc ?r" using Cons.prems(3,4) by simp
  have r: "should_reap s False p = (s\<lparr>is_age_blocks := a, is_silent_run := ?run\<rparr>,
      if n \<le> ?run then Some Silent else None)"
    unfolding should_reap_def Let_def m a_def using Cons.prems(1,2) by simp
  let ?s = "s\<lparr>is_age_blocks := a, is_silent_run := ?run\<rparr>"
  show ?case
  proof (cases "n \<le> ?run")
    case True
    then have "f64_lt p ?t" "n \<le> Suc ?r" using Cons.prems(4) by (auto split: if_splits)
    then have "quiet_run n (replicate ?r True @ True # map (\<lambda>p. f64_lt p ?t) ps)"
      using quiet_run_here [of n "Suc ?r" "map (\<lambda>p. f64_lt p ?t) ps"] by (simp add: replicate_app_Cons_same)
    then show ?thesis using r True \<open>f64_lt p ?t\<close> by simp
  next
    case False
    have "survives ?s ps \<longleftrightarrow> \<not> quiet_run n (replicate (is_silent_run ?s) True @ map (\<lambda>p. f64_lt p (lp_silence_threshold (is_life ?s))) ps)"
      using Cons.prems False by (intro Cons.IH) simp_all
    then show ?thesis
      using r False Cons.prems(4) quiet_run_break [of ?r n "map (\<lambda>p. f64_lt p ?t) ps"]
      by (auto simp: replicate_app_Cons_same)
  qed
qed

section \<open>An example voice\<close>

definition tone_handle :: instance_handle where
  "tone_handle = \<lparr>ih_slot = 0, ih_generation = 1\<rparr>"

text \<open>A fresh engine on which the tone graph has been spawned.\<close>

lemma tone_spawned:
  obtains s eng0 m where "engine_init 4096 48000 64 2 3 = Some eng0"
    and "engine_run plain_env eng0 (enqueue (plain_command Activate tone_handle) (eng0\<lparr>en_mgr := m\<rparr>))"
    and "en_active_gen eng0 = replicate 3 0" "en_active_list eng0 = []" "en_routes eng0 = []"
      "en_commands eng0 = []" "en_route_capacity eng0 = 12"
    and "instance_at m 0 = Some (instance_of plain_env s 48000)"
    and "sched_ok s" "nodes_safe s" "cs_bp s = tone_graph"
proof -
  obtain s where s: "sched_ok s" "nodes_safe s" "cs_bp s = tone_graph" by (rule tone_sched)
  let ?g = "instance_of plain_env s 48000"
  have "arena_bytes s < 2 ^ 62" using s(1) by (simp add: sched_ok_def)
  then have b: "build plain_env 4096 s 48000 = Some ?g" by (rule build_Some) simp
  have t: "g_output_terminals (cs_bp s) = []"
    by (simp add: s(3) tone_graph_def connect_def add_named_def empty_blueprint_def)
  have "is_power_of_two 64" by (simp add: is_power_of_two_iff exI [of _ 6])
  then obtain eng0 where i: "engine_init 4096 48000 64 2 3 = Some eng0"
    by (rule engine_init_Some [of 64 2 4096 48000 3]) simp_all
  then have e0: "eng0 = \<lparr>en_sample_rate = 48000, en_block_size = 64, en_output_channels = 2,
      en_mgr = mgr_init 3, en_active_gen = replicate 3 0, en_active_list = [], en_routes = [],
      en_route_capacity = 12, en_master = replicate 2 (replicate 64 f64_zero),
      en_commands = [], en_telemetry = [], en_telemetry_capacity = 28\<rparr>"
    by (auto simp: engine_init_def split: if_splits option.splits)
  have last: "last (rev [0..<3]) = (0 :: nat)" by (simp add: last_rev)
  obtain m where c: "mgr_create plain_env 4096 (mgr_init 3) s 48000 default_policy = (tone_handle, m)"
    and m: "instance_at m 0 = Some ?g" "0 < length (im_slots m)"
    by (simp add: mgr_create_def mgr_init_def b Let_def tone_handle_def last instance_at_def)
  let ?m = "put_instance 0 ?g m"
  have sp: "spawn plain_env 4096 eng0 s default_policy to_master_target 0 [] =
      Some (tone_handle, enqueue (plain_command Activate tone_handle) (eng0\<lparr>en_mgr := ?m\<rparr>))"
    using c m(1) by (simp add: spawn_def Let_def reclaim_def e0 tone_handle_def handle_valid_def t)
  have run: "engine_run plain_env eng0 (enqueue (plain_command Activate tone_handle) (eng0\<lparr>en_mgr := ?m\<rparr>))"
    by (rule engine_run.spawned [OF engine_run.started _ sp]) (simp add: target_ok_def to_master_target_def)
  have at: "instance_at ?m 0 = Some ?g" using m(2) by (simp add: instance_at_def put_instance_def)
  show thesis by (rule that [OF i run _ _ _ _ _ at s]) (simp_all add: e0)
qed

lemma tone_voice:
  obtains s eng0 eng eng1 where "engine_init 4096 48000 64 2 3 = Some eng0" and "engine_run plain_env eng0 eng"
    and "start_block eng = Some eng1" and "en_active_list eng1 = [0]" and "en_routes eng1 = []"
    and "instance_at (en_mgr eng1) 0 = Some (instance_of plain_env s 48000)"
    and "sched_ok s" "nodes_safe s" "cs_bp s = tone_graph"
proof -
  obtain s eng0 m where e: "engine_init 4096 48000 64 2 3 = Some eng0"
    "engine_run plain_env eng0 (enqueue (plain_command Activate tone_handle) (eng0\<lparr>en_mgr := m\<rparr>))"
    "en_active_gen eng0 = replicate 3 0" "en_active_list eng0 = []" "en_routes eng0 = []"
    "en_commands eng0 = []" "en_route_capacity eng0 = 12"
    "instance_at m 0 = Some (instance_of plain_env s 48000)" "sched_ok s" "nodes_safe s" "cs_bp s = tone_graph"
    by (rule tone_spawned)
  let ?e = "enqueue (plain_command Activate tone_handle) (eng0\<lparr>en_mgr := m\<rparr>)"
  obtain e1 where s1: "start_block ?e = Some e1" and a1: "en_active_list e1 = [0]" "en_routes e1 = []" "en_mgr e1 = m"
    by (simp add: start_block_def drain_commands_def enqueue_def exec_command_def plain_command_def
        activate_def tone_handle_def Let_def e)
  show thesis by (rule that [OF e(1,2) s1 a1(1,2) _ e(9-11)]) (simp add: a1 e)
qed

text \<open>The same voice, with a route from itself to itself.\<close>

lemma tone_loop:
  obtains eng0 eng eng1 where "engine_init 4096 48000 64 2 3 = Some eng0" and "engine_run plain_env eng0 eng"
    and "start_block eng = Some eng1" and "en_active_list eng1 = [0]" and "route_edges eng1 = [(0, 0)]"
proof -
  obtain eng0 m where e: "engine_init 4096 48000 64 2 3 = Some eng0"
    "engine_run plain_env eng0 (enqueue (plain_command Activate tone_handle) (eng0\<lparr>en_mgr := m\<rparr>))"
    "en_active_gen eng0 = replicate 3 0" "en_active_list eng0 = []" "en_routes eng0 = []"
    "en_commands eng0 = []" "en_route_capacity eng0 = 12"
    by (rule tone_spawned)
  let ?e = "engine_connect tone_handle 0 (to_target tone_handle 0)
    (enqueue (plain_command Activate tone_handle) (eng0\<lparr>en_mgr := m\<rparr>))"
  have run: "engine_run plain_env eng0 ?e"
    using e(2) by (rule engine_run.connected) (simp_all add: tone_handle_def handle_valid_def target_ok_def to_target_def)
  obtain e1 where s1: "start_block ?e = Some e1" and a1: "en_active_list e1 = [0]" "route_edges e1 = [(0, 0)]"
    by (simp add: start_block_def drain_commands_def enqueue_def exec_command_def plain_command_def engine_connect_def
        activate_def tone_handle_def Let_def e add_route_def is_current_def to_target_def route_of_def route_edges_def
        route_live_def)
  show thesis by (rule that [OF e(1) run s1 a1])
qed

section \<open>Properties\<close>

text \<open>C11: Ownership of slots, in every history of an engine whose callers use handles they were given: each
  slot is in exactly one of the free list, the pending activations, the active list and the reported
  ends; an active slot holds an instance of the generation the audio thread knows, a free slot holds
  none, and every route joins active voices.\<close>

theorem slot_ownership:
  assumes "engine_init base sr bs outs n = Some eng0" and "engine_run e eng0 eng"
  shows "distinct (im_free (en_mgr eng) @ starting (en_commands eng) @ en_active_list eng @ ended eng) \<and>
    set (im_free (en_mgr eng) @ starting (en_commands eng) @ en_active_list eng @ ended eng) =
      {..<mgr_capacity (en_mgr eng)} \<and>
    (\<forall>i \<in> set (en_active_list eng). mgr_is_valid (en_mgr eng) \<lparr>ih_slot = i, ih_generation = en_active_gen eng ! i\<rparr>) \<and>
    (\<forall>i \<in> set (im_free (en_mgr eng)). instance_at (en_mgr eng) i = None) \<and>
    (\<forall>r \<in> set (en_routes eng). route_live eng r \<and> ar_src_slot r \<in> set (en_active_list eng) \<and>
      (ar_to_master r \<or> ar_dst_slot r \<in> set (en_active_list eng)))"
proof -
  have ok: "engine_ok eng (en_commands eng)"
    by (rule engine_run_ok [OF assms(2) engine_init_ok(1) [OF assms(1)]])
  have m: "mgr_ok (en_mgr eng)" and g: "gens_ok eng" using ok by (simp_all add: engine_ok_def)
  have "mgr_is_valid (en_mgr eng) \<lparr>ih_slot = i, ih_generation = en_active_gen eng ! i\<rparr>"
    if i: "i \<in> set (en_active_list eng)" for i
  proof -
    have "i < length (im_slots (en_mgr eng))" "i \<notin> set (im_free (en_mgr eng))"
      using owner_parts(3,9) [OF ok] i by auto
    moreover have "en_active_gen eng ! i = is_generation (im_slots (en_mgr eng) ! i)"
      using g i unfolding gens_ok_def by blast
    moreover have "en_active_gen eng ! i \<noteq> 0"
      using g i calculation(1) unfolding gens_ok_def by metis
    moreover have "is_inst (im_slots (en_mgr eng) ! i) \<noteq> None"
      using m calculation(1,2) by (simp add: mgr_ok_def)
    ultimately show ?thesis by (simp add: mgr_is_valid_def handle_valid_def)
  qed
  moreover have "\<forall>i \<in> set (im_free (en_mgr eng)). instance_at (en_mgr eng) i = None"
    using m by (auto simp: mgr_ok_def instance_at_def)
  moreover have "\<forall>r \<in> set (en_routes eng). route_live eng r \<and> ar_src_slot r \<in> set (en_active_list eng) \<and>
      (ar_to_master r \<or> ar_dst_slot r \<in> set (en_active_list eng))"
    using ok by (simp add: engine_ok_def)
  ultimately show ?thesis
    using owner_facts(1,2) [OF ok] unfolding owners_def mgr_capacity_def by blast
qed

theorem slot_ownership_witness:
  "\<exists>eng0. engine_init 4096 48000 64 2 3 = Some eng0 \<and>
     distinct (im_free (en_mgr (snd (reclaim eng0))) @ starting (en_commands (snd (reclaim eng0))) @
       en_active_list (snd (reclaim eng0)) @ ended (snd (reclaim eng0)))"
proof -
  have "is_power_of_two 64" by (simp add: is_power_of_two_iff exI [of _ 6])
  then obtain eng0 where e: "engine_init 4096 48000 64 2 3 = Some eng0"
    by (rule engine_init_Some [of 64 2 4096 48000 3]) simp_all
  have "engine_run plain_env eng0 (snd (reclaim eng0))"
    by (rule engine_run.reclaimed [OF engine_run.started])
  with slot_ownership [OF e this] e show ?thesis by blast
qed



text \<open>C33: In every block each active voice is processed exactly once, whatever the routes, and when the
  live routes have no cycle a voice is processed before the voices it feeds.\<close>

theorem execution_order:
  assumes "engine_init base sr bs outs n = Some eng0" and "engine_run e eng0 eng" and "start_block eng = Some eng1"
  shows "mset (compute_order eng1) = mset (en_active_list eng1) \<and>
    (acyclic (set (route_edges eng1)) \<longrightarrow>
      (\<forall>(u, v) \<in> set (route_edges eng1). before (compute_order eng1) u v))"
proof -
  have "engine_ok eng (en_commands eng)"
    by (rule engine_run_ok [OF assms(2) engine_init_ok(1) [OF assms(1)]])
  from start_block_ok(1) [OF this assms(3)] have "engine_ok eng1 []" .
  from compute_order_ok [OF this] show ?thesis by auto
qed

theorem execution_order_witness:
  "\<exists>eng0 eng eng1. engine_init 4096 48000 64 2 3 = Some eng0 \<and> engine_run plain_env eng0 eng \<and>
    start_block eng = Some eng1 \<and> compute_order eng1 = [0]"
proof -
  obtain eng0 eng eng1 where e: "engine_init 4096 48000 64 2 3 = Some eng0" "engine_run plain_env eng0 eng"
    "start_block eng = Some eng1" "en_active_list eng1 = [0]" by (rule tone_voice)
  from execution_order [OF e(1-3)] e show ?thesis by auto
qed



text \<open>A kill of the null handle is not ignored: on a fresh engine it releases slot 0, which is not
  active, and the next reclaim puts that slot into the free list a second time, so two voices will
  share it.\<close>

theorem null_kill_frees_twice:
  assumes "engine_init base sr bs outs n = Some eng" and "0 < n"
  shows "\<exists>eng1. start_block (kill null_handle eng) = Some eng1 \<and>
    im_free (en_mgr (snd (reclaim eng1))) = rev [0..<n] @ [0] \<and> rev [0..<n] ! (n - 1) = 0"
proof -
  have e: "eng = \<lparr>en_sample_rate = sr, en_block_size = bs, en_output_channels = outs,
      en_mgr = mgr_init n, en_active_gen = replicate n 0, en_active_list = [], en_routes = [],
      en_route_capacity = n * 4, en_master = replicate outs (replicate bs f64_zero),
      en_commands = [], en_telemetry = [], en_telemetry_capacity = n * 4 + 16\<rparr>"
    using assms(1) by (auto simp: engine_init_def split: if_splits option.splits)
  show ?thesis
    using assms(2)
    by (simp add: e kill_def enqueue_def plain_command_def start_block_def drain_commands_def exec_command_def
        is_current_def null_handle_def release_slot_def try_report_def reclaim_def mgr_recycle_def mgr_init_def
        Let_def rev_nth)
qed

theorem null_kill_frees_twice_witness:
  "\<exists>eng eng1. engine_init 4096 48000 64 2 3 = Some eng \<and> start_block (kill null_handle eng) = Some eng1 \<and>
    im_free (en_mgr (snd (reclaim eng1))) = [2, 1, 0, 0]"
proof -
  have "is_power_of_two 64" by (simp add: is_power_of_two_iff exI [of _ 6])
  then obtain eng where e: "engine_init 4096 48000 64 2 3 = Some eng"
    by (rule engine_init_Some [of 64 2 4096 48000 3]) simp_all
  from null_kill_frees_twice [OF e] e show ?thesis by (simp add: upt_rec numeral_2_eq_2)
qed

end
