(* ===== verification/Parallel.thy ===== *)
theory Parallel
  imports Engine_Facts
begin

text \<open>
  The parallel executor of \<open>src/engine.cpp\<close> (\<open>compute_parallel\<close>, \<open>execute_instance_task\<close>) as
  steps that the audio thread and the workers interleave freely: seeding the ready queue, taking a
  slot from it, gathering, processing, releasing one route, and finishing.  Each atomic operation of
  the source is one step.  The ready queue is a list, first in first out; the theory of the queue
  proves that its implementation behaves so.
\<close>

section \<open>States and steps\<close>

datatype task_phase = Popped | Gathered | Releasing "active_route list"

text \<open>\<open>ps_pushed\<close> and \<open>ps_finished\<close> only record history: every slot ever queued, every finished task.\<close>

record par_state =
  ps_mgr :: instance_manager
  ps_dep :: "nat \<Rightarrow> int"
  ps_seed :: "nat list"
  ps_queue :: "nat list"
  ps_tasks :: "(nat \<times> task_phase) list"
  ps_remaining :: int
  ps_pushed :: "nat list"
  ps_finished :: "nat list"

definition releases :: "engine \<Rightarrow> nat \<Rightarrow> active_route \<Rightarrow> bool" where
  "releases eng slot r \<longleftrightarrow> \<not> ar_to_master r \<and> ar_src_slot r = slot \<and> route_live eng r"

definition push_ready :: "nat \<Rightarrow> par_state \<Rightarrow> par_state" where
  "push_ready v s = s\<lparr>ps_queue := ps_queue s @ [v], ps_pushed := ps_pushed s @ [v]\<rparr>"

definition release_route :: "engine \<Rightarrow> nat \<Rightarrow> active_route \<Rightarrow> par_state \<Rightarrow> par_state" where
  "release_route eng slot r s =
    (if \<not> releases eng slot r then s
     else
       let v = ar_dst_slot r; old = ps_dep s v; s1 = s\<lparr>ps_dep := (ps_dep s)(v := old - 1)\<rparr>
       in if old = 1 then push_ready v s1 else s1)"

text \<open>What the audio thread sets up before it turns the workers loose.\<close>

definition par_begin :: "engine \<Rightarrow> par_state" where
  "par_begin eng = \<lparr>ps_mgr = en_mgr eng, ps_dep = indegree (route_edges eng), ps_seed = en_active_list eng,
     ps_queue = [], ps_tasks = [], ps_remaining = int (length (en_active_list eng)),
     ps_pushed = [], ps_finished = []\<rparr>"

inductive par_step :: "env \<Rightarrow> engine \<Rightarrow> nat \<Rightarrow> par_state \<Rightarrow> par_state \<Rightarrow> bool" for e eng nf where
  seed: "ps_seed s = v # vs \<Longrightarrow>
    par_step e eng nf s ((if ps_dep s v = 0 then push_ready v s else s)\<lparr>ps_seed := vs\<rparr>)"
| pop: "ps_queue s = v # q \<Longrightarrow>
    par_step e eng nf s (s\<lparr>ps_queue := q, ps_tasks := ps_tasks s @ [(v, Popped)]\<rparr>)"
| gather: "ps_tasks s = ts @ (v, Popped) # us \<Longrightarrow> instance_at (ps_mgr s) v = Some g \<Longrightarrow>
    gather_inputs eng nf (ps_mgr s) v g = Some g' \<Longrightarrow>
    par_step e eng nf s (s\<lparr>ps_tasks := ts @ (v, Gathered) # us, ps_mgr := put_instance v g' (ps_mgr s)\<rparr>)"
| run: "ps_tasks s = ts @ (v, Gathered) # us \<Longrightarrow> instance_at (ps_mgr s) v = Some g \<Longrightarrow>
    process e g = Some g' \<Longrightarrow>
    par_step e eng nf s (s\<lparr>ps_tasks := ts @ (v, Releasing (en_routes eng)) # us, ps_mgr := put_instance v g' (ps_mgr s)\<rparr>)"
| release: "ps_tasks s = ts @ (v, Releasing (r # rs)) # us \<Longrightarrow>
    par_step e eng nf s (release_route eng v r (s\<lparr>ps_tasks := ts @ (v, Releasing rs) # us\<rparr>))"
| finish: "ps_tasks s = ts @ (v, Releasing []) # us \<Longrightarrow>
    par_step e eng nf s (s\<lparr>ps_tasks := ts @ us, ps_remaining := ps_remaining s - 1, ps_finished := ps_finished s @ [v]\<rparr>)"

inductive par_run :: "env \<Rightarrow> engine \<Rightarrow> nat \<Rightarrow> par_state \<Rightarrow> par_state \<Rightarrow> bool" for e eng nf s0 where
  here: "par_run e eng nf s0 s0"
| step: "par_run e eng nf s0 s \<Longrightarrow> par_step e eng nf s t \<Longrightarrow> par_run e eng nf s0 t"

text \<open>The state in which the audio thread has seeded the queue before any other thread took from it.\<close>

definition par_seeded :: "engine \<Rightarrow> par_state" where
  "par_seeded eng =
    (let q = filter (\<lambda>v. indegree (route_edges eng) v = 0) (en_active_list eng)
     in (par_begin eng)\<lparr>ps_seed := [], ps_queue := q, ps_pushed := q\<rparr>)"

lemma par_run_trans: "par_run e eng nf s1 s2 \<Longrightarrow> par_run e eng nf s0 s1 \<Longrightarrow> par_run e eng nf s0 s2"
  by (induction rule: par_run.induct) (auto intro: par_run.step)

lemma seeding:
  "ps_seed s = vs \<Longrightarrow> par_run e eng nf s (s\<lparr>ps_seed := [],
     ps_queue := ps_queue s @ filter (\<lambda>v. ps_dep s v = 0) vs,
     ps_pushed := ps_pushed s @ filter (\<lambda>v. ps_dep s v = 0) vs\<rparr>)"
proof (induction vs arbitrary: s)
  case Nil
  then have "s\<lparr>ps_seed := [], ps_queue := ps_queue s @ [], ps_pushed := ps_pushed s @ []\<rparr> = s" by simp
  then show ?case using par_run.here by simp
next
  case (Cons v vs)
  let ?t = "(if ps_dep s v = 0 then push_ready v s else s)\<lparr>ps_seed := vs\<rparr>"
  have "par_run e eng nf s ?t" by (rule par_run.step [OF par_run.here par_step.seed [OF Cons.prems]])
  moreover have "par_run e eng nf ?t (?t\<lparr>ps_seed := [],
     ps_queue := ps_queue ?t @ filter (\<lambda>v. ps_dep ?t v = 0) vs,
     ps_pushed := ps_pushed ?t @ filter (\<lambda>v. ps_dep ?t v = 0) vs\<rparr>)" by (rule Cons.IH) simp
  ultimately show ?case using par_run_trans by (simp add: push_ready_def split: if_splits)
qed

lemma par_seeded_reachable: "par_run e eng nf (par_begin eng) (par_seeded eng)"
  using seeding [of "par_begin eng" "en_active_list eng" e eng nf]
  by (simp add: par_begin_def par_seeded_def Let_def)

section \<open>Degrees and releases\<close>

text \<open>The routes that the task of \<open>u\<close> has not released yet.\<close>

definition todo :: "engine \<Rightarrow> par_state \<Rightarrow> nat \<Rightarrow> active_route list" where
  "todo eng s u =
    (if u \<in> set (ps_finished s) then []
     else case map_of (ps_tasks s) u of Some (Releasing rs) \<Rightarrow> rs | _ \<Rightarrow> en_routes eng)"

definition open_routes :: "engine \<Rightarrow> par_state \<Rightarrow> nat \<Rightarrow> nat \<Rightarrow> int" where
  "open_routes eng s u v = int (length (filter (\<lambda>r. releases eng u r \<and> ar_dst_slot r = v) (todo eng s u)))"

definition started :: "par_state \<Rightarrow> nat list" where
  "started s = ps_queue s @ map fst (ps_tasks s) @ ps_finished s"

definition par_inv :: "engine \<Rightarrow> par_state \<Rightarrow> bool" where
  "par_inv eng s \<longleftrightarrow>
    ps_seed s = [] \<and> distinct (started s) \<and> mset (ps_pushed s) = mset (started s) \<and>
    set (started s) \<subseteq> set (en_active_list eng) \<and> (\<forall>u. set (todo eng s u) \<subseteq> set (en_routes eng)) \<and>
    (\<forall>v. ps_dep s v = (\<Sum>u \<in> set (en_active_list eng). open_routes eng s u v)) \<and>
    (\<forall>v \<in> set (en_active_list eng). v \<in> set (started s) \<longleftrightarrow> ps_dep s v = 0) \<and>
    ps_remaining s = int (length (en_active_list eng)) - int (length (ps_finished s)) \<and>
    (\<forall>(u, v) \<in> set (route_edges eng). v \<in> set (ps_pushed s) \<longrightarrow> before (ps_pushed s) u v)"

lemma edge_releases:
  "(u, v) \<in> set (route_edges eng) \<longleftrightarrow> (\<exists>r \<in> set (en_routes eng). releases eng u r \<and> ar_dst_slot r = v)"
  by (auto simp: route_edges_def releases_def)

lemma open_routes_zero:
  assumes "open_routes eng s u v = 0" and "(u, v) \<in> set (route_edges eng)"
  shows "u \<in> set (ps_finished s) \<or> (\<exists>rs. map_of (ps_tasks s) u = Some (Releasing rs))"
proof (rule ccontr)
  assume "\<not> ?thesis"
  then have "todo eng s u = en_routes eng"
    by (auto simp: todo_def split: option.split task_phase.split)
  then show False
    using assms by (auto simp: open_routes_def edge_releases filter_empty_conv)
qed

lemma sum_indicator:
  assumes "finite S" and "a \<in> S"
  shows "(\<Sum>u \<in> S. if u = a then 1 else 0) = (1 :: int)"
  using assms by simp

lemma indegree_sum:
  assumes "\<forall>r \<in> set rs. \<not> ar_to_master r \<and> route_live eng r \<longrightarrow> ar_src_slot r \<in> S" and "finite S"
  shows "(\<Sum>u \<in> S. int (length (filter (\<lambda>r. releases eng u r \<and> ar_dst_slot r = v) rs))) =
    indegree (map (\<lambda>r. (ar_src_slot r, ar_dst_slot r)) (filter (\<lambda>r. \<not> ar_to_master r \<and> route_live eng r) rs)) v"
  using assms(1)
proof (induction rs)
  case Nil
  then show ?case by (simp add: indegree_def)
next
  case (Cons r rs)
  have IH: "(\<Sum>u \<in> S. int (length (filter (\<lambda>r. releases eng u r \<and> ar_dst_slot r = v) rs))) =
    indegree (map (\<lambda>r. (ar_src_slot r, ar_dst_slot r)) (filter (\<lambda>r. \<not> ar_to_master r \<and> route_live eng r) rs)) v"
    using Cons by simp
  show ?case
  proof (cases "\<not> ar_to_master r \<and> route_live eng r \<and> ar_dst_slot r = v")
    case True
    then have src: "ar_src_slot r \<in> S" using Cons.prems by simp
    have "int (length (filter (\<lambda>r. releases eng u r \<and> ar_dst_slot r = v) (r # rs))) =
        int (length (filter (\<lambda>r. releases eng u r \<and> ar_dst_slot r = v) rs)) +
        (if u = ar_src_slot r then 1 else 0)" for u
      using True by (auto simp: releases_def)
    then show ?thesis
      using True IH sum_indicator [OF assms(2) src] by (simp add: sum.distrib indegree_def)
  next
    case False
    then have "filter (\<lambda>r. releases eng u r \<and> ar_dst_slot r = v) (r # rs) =
        filter (\<lambda>r. releases eng u r \<and> ar_dst_slot r = v) rs" for u
      by (auto simp: releases_def)
    then show ?thesis using False IH by (auto simp: indegree_def)
  qed
qed

lemma sum_change:
  assumes "finite S" and "a \<in> S" and "g a = f a - (d :: int)" and "\<And>u. u \<in> S \<Longrightarrow> u \<noteq> a \<Longrightarrow> g u = f u"
  shows "sum g S = sum f S - d"
proof -
  have "sum g (S - {a}) = sum f (S - {a})" using assms(4) by (intro sum.cong) auto
  then show ?thesis using assms(1-3) by (simp add: sum.remove)
qed

lemma par_seeded_inv:
  assumes ok: "engine_ok eng cs"
  shows "par_inv eng (par_seeded eng)"
proof -
  have todo: "todo eng (par_seeded eng) u = en_routes eng" for u
    by (simp add: todo_def par_seeded_def par_begin_def Let_def)
  then have dep: "(\<Sum>u \<in> set (en_active_list eng). open_routes eng (par_seeded eng) u v) = indegree (route_edges eng) v" for v
    unfolding open_routes_def route_edges_def
    using ok by (simp only:) (intro indegree_sum, auto simp: engine_ok_def)
  have "distinct (en_active_list eng)" by (rule owner_parts [OF ok])
  moreover have "\<not> (u, v) \<in> set (route_edges eng)" if "indegree (route_edges eng) v = 0" for u v
    using that by (auto simp: indegree_def filter_empty_conv)
  ultimately show ?thesis
    using dep todo by (auto simp: par_inv_def started_def par_seeded_def par_begin_def Let_def)
qed

section \<open>The invariant of the scheduling\<close>

lemma par_inv_same:
  assumes "par_inv eng s" and "ps_seed s' = []" and "mset (started s') = mset (started s)"
    and "ps_pushed s' = ps_pushed s" and "ps_dep s' = ps_dep s"
    and "\<And>u v. open_routes eng s' u v = open_routes eng s u v" and "\<And>u. set (todo eng s' u) \<subseteq> set (todo eng s u)"
    and "ps_remaining s' + int (length (ps_finished s')) = ps_remaining s + int (length (ps_finished s))"
  shows "par_inv eng s'"
proof -
  have "distinct (started s')" "set (started s') = set (started s)"
    using assms(1) mset_eq_imp_distinct_iff [OF assms(3)] mset_eq_setD [OF assms(3)] by (simp_all add: par_inv_def)
  moreover have "\<forall>u. set (todo eng s' u) \<subseteq> set (en_routes eng)"
    using assms(1,7) by (meson par_inv_def subset_trans)
  ultimately show ?thesis using assms(1-6,8) by (simp add: par_inv_def)
qed

text \<open>Replacing the phase of a task.\<close>

lemma phase_change:
  assumes inv: "par_inv eng s" and ts: "ps_tasks s = ts @ (v, ph) # us"
  shows "v \<notin> set (ps_finished s)" and "map_of (ps_tasks s) v = Some ph" and "v \<in> set (en_active_list eng)"
    and "map_of (ts @ (v, ph') # us) v = Some ph'"
    and "u \<noteq> v \<Longrightarrow> map_of (ts @ (v, ph') # us) u = map_of (ps_tasks s) u"
    and "u \<noteq> v \<Longrightarrow> map_of (ts @ us) u = map_of (ps_tasks s) u"
proof -
  have d: "distinct (started s)" using inv by (simp add: par_inv_def)
  then have n: "v \<notin> fst ` set ts" "v \<notin> fst ` set us" "v \<notin> set (ps_finished s)"
    by (auto simp: started_def ts)
  then show "v \<notin> set (ps_finished s)" by simp
  have z: "map_of ts v = None" using n(1) by (simp add: map_of_eq_None_iff)
  then show "map_of (ps_tasks s) v = Some ph" "map_of (ts @ (v, ph') # us) v = Some ph'"
    by (simp_all add: ts map_add_def)
  show "v \<in> set (en_active_list eng)" using inv by (auto simp: par_inv_def started_def ts)
  show "map_of (ts @ (v, ph') # us) u = map_of (ps_tasks s) u" "map_of (ts @ us) u = map_of (ps_tasks s) u"
    if "u \<noteq> v" using that by (cases "map_of ts u"; simp add: ts map_add_def)+
qed

lemma phase_todo:
  assumes inv: "par_inv eng s" and ts: "ps_tasks s = ts @ (v, ph) # us"
    and same: "(case ph' of Releasing rs \<Rightarrow> rs | _ \<Rightarrow> en_routes eng) = (case ph of Releasing rs \<Rightarrow> rs | _ \<Rightarrow> en_routes eng)"
  shows "todo eng (s\<lparr>ps_tasks := ts @ (v, ph') # us, ps_mgr := m\<rparr>) u = todo eng s u"
proof (cases "u = v")
  case True
  then show ?thesis using phase_change(1,2,4) [OF inv ts] same by (simp add: todo_def split: task_phase.splits)
next
  case False
  then show ?thesis using phase_change(5) [OF inv ts False] by (simp add: todo_def)
qed

lemma open_routes_nonneg: "0 \<le> open_routes eng s u v"
  by (simp add: open_routes_def)

lemma release_inv:
  assumes ok: "engine_ok eng cs" and inv: "par_inv eng s" and ts: "ps_tasks s = ts @ (v, Releasing (r # rs)) # us"
  shows "par_inv eng (release_route eng v r (s\<lparr>ps_tasks := ts @ (v, Releasing rs) # us\<rparr>))"
proof -
  let ?s1 = "s\<lparr>ps_tasks := ts @ (v, Releasing rs) # us\<rparr>" and ?A = "set (en_active_list eng)"
  note pc = phase_change [OF inv ts]
  have here: "todo eng s v = r # rs" "todo eng ?s1 v = rs"
    using pc(1,2,4) by (simp_all add: todo_def)
  have there: "todo eng ?s1 u = todo eng s u" if "u \<noteq> v" for u
    using pc(5) [OF that] by (simp add: todo_def)
  have same_started: "started ?s1 = started s" by (simp add: started_def ts)
  show ?thesis
  proof (cases "releases eng v r")
    case False
    have "open_routes eng ?s1 u w = open_routes eng s u w" for u w
      using False here there by (cases "u = v") (simp_all add: open_routes_def)
    moreover have "set (todo eng ?s1 u) \<subseteq> set (todo eng s u)" for u
      using here there by (cases "u = v") auto
    ultimately have "par_inv eng ?s1"
      using inv same_started by (intro par_inv_same [OF inv]) (simp_all add: par_inv_def)
    then show ?thesis using False by (simp add: release_route_def)
  next
    case True
    define w where "w = ar_dst_slot r"
    define d where "d = (ps_dep s)(w := ps_dep s w - 1)"
    have d_w: "d w = ps_dep s w - 1" and d_other: "x \<noteq> w \<Longrightarrow> d x = ps_dep s x" for x by (simp_all add: d_def)
    let ?s2 = "?s1\<lparr>ps_dep := d\<rparr>"
    have todo2: "todo eng ?s2 u = todo eng ?s1 u" for u by (simp add: todo_def)
    have open2: "open_routes eng ?s2 u x = open_routes eng s u x - (if u = v \<and> x = w then 1 else 0)" for u x
      unfolding open_routes_def todo2
      using True here there by (cases "u = v") (simp_all add: w_def)
    have "r \<in> set (en_routes eng)" using inv here(1) unfolding par_inv_def by (metis list.set_intros(1) subsetD)
    then have w: "w \<in> ?A" using True ok by (auto simp: releases_def engine_ok_def w_def)
    have dep: "ps_dep s x = (\<Sum>u \<in> ?A. open_routes eng s u x)" for x using inv by (simp add: par_inv_def)
    have dep2: "d x = (\<Sum>u \<in> ?A. open_routes eng ?s2 u x)" for x
    proof (cases "x = w")
      case x: True
      have "(\<Sum>u \<in> ?A. open_routes eng ?s2 u x) = (\<Sum>u \<in> ?A. open_routes eng s u x) - 1"
        using pc(3) open2 x by (intro sum_change [where a = v]) auto
      then show ?thesis using dep x d_w by simp
    next
      case x: False
      then have "open_routes eng ?s2 u x = open_routes eng s u x" for u using open2 by simp
      then show ?thesis using dep x d_other by simp
    qed
    have nonneg: "0 \<le> d x" for x by (subst dep2) (intro sum_nonneg open_routes_nonneg)
    then have pos: "1 \<le> ps_dep s w" using nonneg [of w] d_w by simp
    then have new: "w \<notin> set (started s)" using inv w by (auto simp: par_inv_def)
    have sub2: "set (todo eng ?s2 u) \<subseteq> set (en_routes eng)" for u
    proof -
      have "set (todo eng s u) \<subseteq> set (en_routes eng)" using inv by (simp add: par_inv_def)
      then show ?thesis unfolding todo2 using here there by (cases "u = v") auto
    qed
    have rest: "ps_seed s = []" "distinct (started s)" "mset (ps_pushed s) = mset (started s)"
      "set (started s) \<subseteq> ?A" "\<forall>x \<in> ?A. x \<in> set (started s) \<longleftrightarrow> ps_dep s x = 0"
      "ps_remaining s = int (length (en_active_list eng)) - int (length (ps_finished s))"
      "\<forall>(u, x) \<in> set (route_edges eng). x \<in> set (ps_pushed s) \<longrightarrow> before (ps_pushed s) u x"
      using inv by (simp_all add: par_inv_def)
    show ?thesis
    proof (cases "ps_dep s w = 1")
      case False
      then have r: "release_route eng v r ?s1 = ?s2" using True by (simp add: release_route_def Let_def w_def d_def)
      have "\<forall>x \<in> ?A. x \<in> set (started s) \<longleftrightarrow> d x = 0" using rest(5) new False d_w d_other by (metis diff_eq_eq add_0)
      then show ?thesis
        unfolding r par_inv_def using rest dep2 sub2 same_started by (simp add: started_def)
    next
      case one: True
      then have r: "release_route eng v r ?s1 = push_ready w ?s2" using True by (simp add: release_route_def Let_def w_def d_def)
      let ?s3 = "push_ready w ?s2"
      have todo3: "todo eng ?s3 u = todo eng ?s2 u" "open_routes eng ?s3 u x = open_routes eng ?s2 u x" for u x
        by (simp_all add: todo_def open_routes_def push_ready_def)
      have m: "mset (started ?s3) = add_mset w (mset (started s))"
        by (simp add: started_def push_ready_def ts)
      then have d3: "distinct (started ?s3)" and set3: "set (started ?s3) = insert w (set (started s))"
        using new rest(2) by (simp_all add: mset_eq_imp_distinct_iff [of "started ?s3" "w # started s"]
            mset_eq_setD [of "started ?s3" "w # started s"])
      have p3: "ps_pushed ?s3 = ps_pushed s @ [w]" by (simp add: push_ready_def)
      have "before (ps_pushed s @ [w]) u x" if e: "(u, x) \<in> set (route_edges eng)" "x \<in> set (ps_pushed s @ [w])" for u x
      proof (cases "x \<in> set (ps_pushed s)")
        case True
        then show ?thesis using rest(7) e(1) by (auto intro: before_append)
      next
        case False
        then have x: "x = w" using e(2) by simp
        have u: "u \<in> ?A" using route_edges_active [OF ok] e(1) by auto
        have "(\<Sum>u \<in> ?A. open_routes eng ?s2 u w) = 0" using dep2 [of w] one d_w by simp
        then have "open_routes eng ?s2 u w = 0"
          using sum_nonneg_eq_0_iff [of ?A "\<lambda>u. open_routes eng ?s2 u w"] open_routes_nonneg u by auto
        then have "u \<in> set (ps_finished ?s2) \<or> (\<exists>rs. map_of (ps_tasks ?s2) u = Some (Releasing rs))"
          using open_routes_zero e(1) x by blast
        then have "u \<in> set (started ?s1)" by (auto simp: started_def dest!: map_of_SomeD intro: rev_image_eqI)
        then have "u \<in> set (ps_pushed s)" using mset_eq_setD [OF rest(3)] same_started by simp
        then show ?thesis unfolding x by (rule before_last)
      qed
      then have b3: "\<forall>(u, x) \<in> set (route_edges eng). x \<in> set (ps_pushed ?s3) \<longrightarrow> before (ps_pushed ?s3) u x"
        unfolding p3 by auto
      have "\<forall>x \<in> ?A. x \<in> set (started ?s3) \<longleftrightarrow> d x = 0" unfolding set3 using rest(5) one d_w d_other by (metis cancel_comm_monoid_add_class.diff_cancel insert_iff)
      moreover have "mset (ps_pushed ?s3) = mset (started ?s3)" unfolding m p3 using rest(3) by simp
      moreover have "ps_dep ?s3 = d" "ps_seed ?s3 = []" "ps_remaining ?s3 = ps_remaining s" "ps_finished ?s3 = ps_finished s"
        using rest(1) by (simp_all add: push_ready_def)
      ultimately show ?thesis
        unfolding r par_inv_def using d3 b3 dep2 sub2 rest(4,6) w todo3 set3 by simp
    qed
  qed
qed

lemma par_step_inv:
  assumes ok: "engine_ok eng cs" and inv: "par_inv eng s" and st: "par_step e eng nf s t"
  shows "par_inv eng t"
  using st
proof cases
  case (seed v vs)
  then show ?thesis using inv by (simp add: par_inv_def)
next
  case (pop v q)
  have v: "v \<notin> fst ` set (ps_tasks s)" "v \<notin> set (ps_finished s)"
    using inv pop(2) by (auto simp: par_inv_def started_def)
  have "todo eng t u = todo eng s u" for u
  proof (cases "u = v")
    case True
    have "map_of (ps_tasks s) v = None" using v(1) by (simp add: map_of_eq_None_iff)
    then show ?thesis using True v(2) by (simp add: todo_def pop(1) map_add_def)
  next
    case False
    then show ?thesis by (simp add: todo_def pop(1) map_add_def split: option.split)
  qed
  then show ?thesis
    using inv pop(2) by (intro par_inv_same [OF inv]) (simp_all add: pop(1) par_inv_def started_def open_routes_def)
next
  case (gather ts v us g g')
  have "todo eng t u = todo eng s u" for u
    unfolding gather(1) by (rule phase_todo [OF inv gather(2)]) simp
  then show ?thesis
    using inv gather(2) by (intro par_inv_same [OF inv]) (simp_all add: gather(1) par_inv_def started_def open_routes_def)
next
  case (run ts v us g g')
  have "todo eng t u = todo eng s u" for u
    unfolding run(1) by (rule phase_todo [OF inv run(2)]) simp
  then show ?thesis
    using inv run(2) by (intro par_inv_same [OF inv]) (simp_all add: run(1) par_inv_def started_def open_routes_def)
next
  case (release ts v r rs us)
  then show ?thesis using release_inv [OF ok inv release(2)] by simp
next
  case (finish ts v us)
  note pc = phase_change [OF inv finish(2)]
  have "todo eng t u = todo eng s u" for u
    using pc(1,2) pc(6) [of u] by (cases "u = v") (simp_all add: todo_def finish(1))
  then show ?thesis
    using inv finish(2) by (intro par_inv_same [OF inv]) (simp_all add: finish(1) par_inv_def started_def open_routes_def)
qed

lemma par_run_inv:
  assumes "par_run e eng nf s0 s" and "engine_ok eng cs" and "par_inv eng s0"
  shows "par_inv eng s"
  using assms by (induction rule: par_run.induct) (auto intro: par_step_inv)

section \<open>The sequential block as equations\<close>

lemma fold_option_cong: "(\<And>a x. x \<in> set xs \<Longrightarrow> f a x = g a x) \<Longrightarrow> fold_option f a xs = fold_option g a xs"
  by (induction xs arbitrary: a) (auto split: option.split)

text \<open>Gathering depends only on the voices that feed the slot.\<close>

lemma gather_cong:
  assumes "\<And>u. (u, v) \<in> set (route_edges eng) \<Longrightarrow> instance_at m u = instance_at m' u"
  shows "gather_inputs eng nf m v g = gather_inputs eng nf m' v g"
proof -
  have "gather_route eng nf m v h r = gather_route eng nf m' v h r" if "r \<in> set (en_routes eng)" for h r
  proof (cases "ar_to_master r \<or> ar_dst_slot r \<noteq> v \<or> \<not> route_live eng r")
    case True
    then show ?thesis by (simp add: gather_route_def)
  next
    case False
    then have "(ar_src_slot r, v) \<in> set (route_edges eng)" using that by (auto simp: route_edges_def)
    then show ?thesis using assms by (simp add: gather_route_def)
  qed
  then have "fold_option (gather_route eng nf m v) h (en_routes eng) =
      fold_option (gather_route eng nf m' v) h (en_routes eng)" for h
    by (intro fold_option_cong)
  then show ?thesis by (simp add: gather_inputs_def split: option.split)
qed

lemma put_instance_at:
  "i \<noteq> v \<Longrightarrow> im_slots (put_instance v g m) ! i = im_slots m ! i"
  "instance_at m v = Some h \<Longrightarrow> im_slots (put_instance v g m) ! v = (im_slots m ! v)\<lparr>is_inst := Some g\<rparr>"
  "length (im_slots (put_instance v g m)) = length (im_slots m)"
  "im_free (put_instance v g m) = im_free m" "im_next_generation (put_instance v g m) = im_next_generation m"
  by (auto simp: put_instance_def instance_at_def split: if_splits)

lemma instance_at_cong:
  "length (im_slots m) = length (im_slots m') \<Longrightarrow> im_slots m ! i = im_slots m' ! i \<Longrightarrow> instance_at m i = instance_at m' i"
  by (simp add: instance_at_def)

text \<open>What a block makes of a slot: \<open>m0\<close> is the manager before, \<open>mf\<close> the one after.\<close>

definition task_equation :: "env \<Rightarrow> engine \<Rightarrow> nat \<Rightarrow> instance_manager \<Rightarrow> instance_manager \<Rightarrow> nat \<Rightarrow> bool" where
  "task_equation e eng nf m0 mf v \<longleftrightarrow>
    (\<exists>g g1 g2. instance_at m0 v = Some g \<and> gather_inputs eng nf mf v g = Some g1 \<and> process e g1 = Some g2 \<and>
      im_slots mf ! v = (im_slots m0 ! v)\<lparr>is_inst := Some g2\<rparr>)"

fun ordered :: "edges \<Rightarrow> nat list \<Rightarrow> bool" where
  "ordered E [] = True"
| "ordered E (v # vs) = ((\<forall>u. (u, v) \<in> set E \<longrightarrow> u \<notin> set (v # vs)) \<and> ordered E vs)"

lemma before_ordered:
  assumes "distinct (us @ vs)" and "\<forall>(u, v) \<in> set E. before (us @ vs) u v"
  shows "ordered E vs"
  using assms
proof (induction vs arbitrary: us)
  case Nil
  then show ?case by simp
next
  case (Cons v vs)
  have "u \<notin> set (v # vs)" if "(u, v) \<in> set E" for u
  proof -
    have "before (us @ v # vs) u v" using Cons.prems(2) that by auto
    then obtain as bs where "us @ v # vs = as @ v # bs" "u \<in> set as" by (auto simp: before_def)
    then have "u \<in> set us" using distinct_split_unique [OF Cons.prems(1)] by simp
    then show ?thesis using Cons.prems(1) by auto
  qed
  moreover have "ordered E vs" using Cons.IH [of "us @ [v]"] Cons.prems by simp
  ultimately show ?case by simp
qed

lemma sequential_equations:
  assumes "fold_option (run_task e eng nf) m vs = Some mf" and "distinct vs" and "ordered (route_edges eng) vs"
  shows "(\<forall>v \<in> set vs. task_equation e eng nf m mf v) \<and> (\<forall>v. v \<notin> set vs \<longrightarrow> im_slots mf ! v = im_slots m ! v) \<and>
    length (im_slots mf) = length (im_slots m) \<and> im_free mf = im_free m \<and> im_next_generation mf = im_next_generation m"
  using assms
proof (induction vs arbitrary: m)
  case Nil
  then show ?case by simp
next
  case (Cons v vs)
  obtain g g1 g2 where g: "instance_at m v = Some g" "gather_inputs eng nf m v g = Some g1" "process e g1 = Some g2"
    and rest: "fold_option (run_task e eng nf) (put_instance v g2 m) vs = Some mf"
  proof -
    obtain m1 where m1: "run_task e eng nf m v = Some m1" and r: "fold_option (run_task e eng nf) m1 vs = Some mf"
      using Cons.prems(1) by (auto split: option.splits)
    from m1 obtain g g1 g2 where "instance_at m v = Some g" "gather_inputs eng nf m v g = Some g1"
      "process e g1 = Some g2" "m1 = put_instance v g2 m"
      by (auto simp: run_task_def split: option.splits)
    with r that show thesis by simp
  qed
  let ?m = "put_instance v g2 m"
  have IH: "\<forall>v \<in> set vs. task_equation e eng nf ?m mf v" "\<And>v. v \<notin> set vs \<Longrightarrow> im_slots mf ! v = im_slots ?m ! v"
    "length (im_slots mf) = length (im_slots m)" "im_free mf = im_free m" "im_next_generation mf = im_next_generation m"
    using Cons.IH [OF rest] Cons.prems(2,3) put_instance_at(3-5) [of v g2 m] by auto
  have new: "v \<notin> set vs" using Cons.prems(2) by simp
  have "gather_inputs eng nf mf v g = gather_inputs eng nf m v g"
  proof (rule gather_cong)
    fix u assume "(u, v) \<in> set (route_edges eng)"
    then have "u \<notin> set vs" "u \<noteq> v" using Cons.prems(3) by auto
    then show "instance_at mf u = instance_at m u"
      using IH(2,3) put_instance_at(1) by (intro instance_at_cong) simp_all
  qed
  then have "task_equation e eng nf m mf v"
    using g IH(2) [OF new] put_instance_at(2) [OF g(1)] by (simp add: task_equation_def)
  moreover have "task_equation e eng nf m mf w" if w: "w \<in> set vs" for w
  proof -
    have "w \<noteq> v" using w new by auto
    then have s: "im_slots ?m ! w = im_slots m ! w" by (rule put_instance_at)
    then have "instance_at ?m w = instance_at m w" by (intro instance_at_cong) (simp_all add: put_instance_at)
    then show ?thesis using IH(1) w s unfolding task_equation_def by metis
  qed
  moreover have "im_slots mf ! w = im_slots m ! w" if "w \<notin> set (v # vs)" for w
    using that IH(2) put_instance_at(1) by simp
  ultimately show ?case using IH(3-5) by auto
qed

lemma sequential_block:
  assumes ok: "engine_ok eng cs" and ac: "acyclic (set (route_edges eng))"
    and seq: "compute_sequential e eng nf = Some mf"
  shows "\<forall>v \<in> set (en_active_list eng). task_equation e eng nf (en_mgr eng) mf v"
    and "\<And>v. v \<notin> set (en_active_list eng) \<Longrightarrow> im_slots mf ! v = im_slots (en_mgr eng) ! v"
    and "length (im_slots mf) = length (im_slots (en_mgr eng))" "im_free mf = im_free (en_mgr eng)"
    "im_next_generation mf = im_next_generation (en_mgr eng)"
proof -
  have m: "mset (compute_order eng) = mset (en_active_list eng)" by (rule compute_order_ok(1) [OF ok])
  have d: "distinct (compute_order eng)" using owner_parts(1) [OF ok] mset_eq_imp_distinct_iff [OF m] by simp
  have "ordered (route_edges eng) (compute_order eng)"
    using before_ordered [of "[]"] d compute_order_ok(2) [OF ok ac] by auto
  from sequential_equations [OF seq [unfolded compute_sequential_def] d this] mset_eq_setD [OF m]
  show "\<forall>v \<in> set (en_active_list eng). task_equation e eng nf (en_mgr eng) mf v"
    "\<And>v. v \<notin> set (en_active_list eng) \<Longrightarrow> im_slots mf ! v = im_slots (en_mgr eng) ! v"
    "length (im_slots mf) = length (im_slots (en_mgr eng))" "im_free mf = im_free (en_mgr eng)"
    "im_next_generation mf = im_next_generation (en_mgr eng)" by auto
qed

section \<open>The data during a parallel block\<close>

definition slot_state :: "env \<Rightarrow> engine \<Rightarrow> nat \<Rightarrow> instance_manager \<Rightarrow> par_state \<Rightarrow> nat \<Rightarrow> bool" where
  "slot_state e eng nf mf s v \<longleftrightarrow>
    (if v \<in> set (ps_finished s) then im_slots (ps_mgr s) ! v = im_slots mf ! v
     else
       case map_of (ps_tasks s) v of
         Some (Releasing rs) \<Rightarrow> im_slots (ps_mgr s) ! v = im_slots mf ! v
       | Some Gathered \<Rightarrow>
           (\<exists>g g1. instance_at (en_mgr eng) v = Some g \<and> gather_inputs eng nf mf v g = Some g1 \<and>
             im_slots (ps_mgr s) ! v = (im_slots (en_mgr eng) ! v)\<lparr>is_inst := Some g1\<rparr>)
       | _ \<Rightarrow> im_slots (ps_mgr s) ! v = im_slots (en_mgr eng) ! v)"

definition data_inv :: "env \<Rightarrow> engine \<Rightarrow> nat \<Rightarrow> instance_manager \<Rightarrow> par_state \<Rightarrow> bool" where
  "data_inv e eng nf mf s \<longleftrightarrow>
    length (im_slots (ps_mgr s)) = length (im_slots (en_mgr eng)) \<and> im_free (ps_mgr s) = im_free (en_mgr eng) \<and>
    im_next_generation (ps_mgr s) = im_next_generation (en_mgr eng) \<and> (\<forall>v. slot_state e eng nf mf s v)"

text \<open>Every source of a started slot has its final value.\<close>

lemma sources_final:
  assumes ok: "engine_ok eng cs" and inv: "par_inv eng s" and d: "data_inv e eng nf mf s"
    and v: "v \<in> set (started s)" and u: "(u, v) \<in> set (route_edges eng)"
  shows "im_slots (ps_mgr s) ! u = im_slots mf ! u"
proof -
  let ?A = "set (en_active_list eng)"
  have "v \<in> ?A" "u \<in> ?A" using route_edges_active [OF ok] u by auto
  then have "(\<Sum>u \<in> ?A. open_routes eng s u v) = 0" using inv v by (simp add: par_inv_def)
  then have "open_routes eng s u v = 0"
    using sum_nonneg_eq_0_iff [of ?A "\<lambda>u. open_routes eng s u v"] open_routes_nonneg \<open>u \<in> ?A\<close> by auto
  then have "u \<in> set (ps_finished s) \<or> (\<exists>rs. map_of (ps_tasks s) u = Some (Releasing rs))"
    using open_routes_zero u by blast
  moreover have "slot_state e eng nf mf s u" using d by (simp add: data_inv_def)
  ultimately show ?thesis by (auto simp: slot_state_def split: if_splits)
qed

lemma gather_final:
  assumes "engine_ok eng cs" and "par_inv eng s" and d: "data_inv e eng nf mf s" and "v \<in> set (started s)"
    and "length (im_slots mf) = length (im_slots (en_mgr eng))"
  shows "gather_inputs eng nf (ps_mgr s) v g = gather_inputs eng nf mf v g"
  using sources_final [OF assms(1-4)] assms(5) d
  by (intro gather_cong instance_at_cong) (simp_all add: data_inv_def)

lemma slot_state_frame:
  assumes "slot_state e eng nf mf s u" and "im_slots (ps_mgr t) ! u = im_slots (ps_mgr s) ! u"
    and "u \<in> set (ps_finished t) \<longleftrightarrow> u \<in> set (ps_finished s)" and "map_of (ps_tasks t) u = map_of (ps_tasks s) u"
  shows "slot_state e eng nf mf t u"
  using assms(1) unfolding slot_state_def assms(2-4) .

lemma data_inv_step:
  assumes ok: "engine_ok eng cs" and inv: "par_inv eng s" and d: "data_inv e eng nf mf s"
    and eqs: "\<forall>v \<in> set (en_active_list eng). task_equation e eng nf (en_mgr eng) mf v"
    and len: "length (im_slots mf) = length (im_slots (en_mgr eng))"
    and st: "par_step e eng nf s t"
  shows "data_inv e eng nf mf t"
proof -
  have frame: "length (im_slots (ps_mgr s)) = length (im_slots (en_mgr eng))" "im_free (ps_mgr s) = im_free (en_mgr eng)"
    "im_next_generation (ps_mgr s) = im_next_generation (en_mgr eng)"
    and slots: "slot_state e eng nf mf s u" for u
    using d by (simp_all add: data_inv_def)
  show ?thesis
    using st
  proof cases
    case (seed v vs)
    then show ?thesis using inv by (simp add: par_inv_def)
  next
    case (pop v q)
    have v: "v \<notin> fst ` set (ps_tasks s)" "v \<notin> set (ps_finished s)"
      using inv pop(2) by (auto simp: par_inv_def started_def)
    have n: "map_of (ps_tasks s) v = None" using v(1) by (simp add: map_of_eq_None_iff)
    have "slot_state e eng nf mf t u" for u
    proof (cases "u = v")
      case True
      then show ?thesis using slots [of v] v(2) n by (simp add: slot_state_def pop(1) map_add_def)
    next
      case False
      then show ?thesis
        by (intro slot_state_frame [OF slots]) (simp_all add: pop(1) map_add_def split: option.split)
    qed
    then show ?thesis using frame by (simp add: data_inv_def pop(1))
  next
    case (gather ts v us g g')
    note pc = phase_change [OF inv gather(2)]
    have v: "im_slots (ps_mgr s) ! v = im_slots (en_mgr eng) ! v"
      using slots [of v] pc(1,2) by (simp add: slot_state_def)
    then have g0: "instance_at (en_mgr eng) v = Some g"
      using gather(3) frame(1) by (metis instance_at_cong)
    have "v \<in> set (started s)" by (simp add: started_def gather(2))
    then have g1: "gather_inputs eng nf mf v g = Some g'"
      using gather(4) gather_final [OF ok inv d _ len] by simp
    have "slot_state e eng nf mf t u" for u
    proof (cases "u = v")
      case True
      have "map_of (ps_tasks t) v = Some Gathered" using pc(4) by (simp add: gather(1))
      moreover have "v \<notin> set (ps_finished t)" using pc(1) by (simp add: gather(1))
      moreover have "im_slots (ps_mgr t) ! v = (im_slots (en_mgr eng) ! v)\<lparr>is_inst := Some g'\<rparr>"
        using put_instance_at(2) [OF gather(3)] v by (simp add: gather(1))
      ultimately show ?thesis using True g0 g1 by (simp add: slot_state_def)
    next
      case False
      then show ?thesis
        by (intro slot_state_frame [OF slots]) (simp_all add: gather(1) put_instance_at pc(5) del: map_of_append)
    qed
    then show ?thesis using frame by (simp add: data_inv_def gather(1) put_instance_at)
  next
    case (run ts v us g g')
    note pc = phase_change [OF inv run(2)]
    obtain g0 g1 where g0: "instance_at (en_mgr eng) v = Some g0" and g1: "gather_inputs eng nf mf v g0 = Some g1"
      and v: "im_slots (ps_mgr s) ! v = (im_slots (en_mgr eng) ! v)\<lparr>is_inst := Some g1\<rparr>"
      using slots [of v] pc(1,2) by (auto simp: slot_state_def)
    have g: "g = g1" using run(3) v by (simp add: instance_at_def split: if_splits)
    obtain h h1 h2 where "instance_at (en_mgr eng) v = Some h" "gather_inputs eng nf mf v h = Some h1"
      "process e h1 = Some h2" "im_slots mf ! v = (im_slots (en_mgr eng) ! v)\<lparr>is_inst := Some h2\<rparr>"
      using eqs pc(3) unfolding task_equation_def by blast
    then have fin: "im_slots mf ! v = (im_slots (en_mgr eng) ! v)\<lparr>is_inst := Some g'\<rparr>"
      using g0 g1 g run(4) by simp
    have "slot_state e eng nf mf t u" for u
    proof (cases "u = v")
      case True
      have "map_of (ps_tasks t) v = Some (Releasing (en_routes eng))" using pc(4) by (simp add: run(1))
      moreover have "v \<notin> set (ps_finished t)" using pc(1) by (simp add: run(1))
      moreover have "im_slots (ps_mgr t) ! v = im_slots mf ! v"
        using put_instance_at(2) [OF run(3)] v fin by (simp add: run(1))
      ultimately show ?thesis using True by (simp add: slot_state_def)
    next
      case False
      then show ?thesis
        by (intro slot_state_frame [OF slots]) (simp_all add: run(1) put_instance_at pc(5) del: map_of_append)
    qed
    then show ?thesis using frame by (simp add: data_inv_def run(1) put_instance_at)
  next
    case (release ts v r rs us)
    note pc = phase_change [OF inv release(2)]
    have t: "ps_mgr t = ps_mgr s" "ps_finished t = ps_finished s" "ps_tasks t = ts @ (v, Releasing rs) # us"
      by (simp_all add: release(1) release_route_def push_ready_def Let_def)
    have "slot_state e eng nf mf t u" for u
    proof (cases "u = v")
      case True
      then show ?thesis using slots [of v] pc(1,2,4) by (simp add: slot_state_def t)
    next
      case False
      then show ?thesis by (intro slot_state_frame [OF slots]) (simp_all add: t pc(5) del: map_of_append)
    qed
    then show ?thesis using frame by (simp add: data_inv_def t)
  next
    case (finish ts v us)
    note pc = phase_change [OF inv finish(2)]
    have "slot_state e eng nf mf t u" for u
    proof (cases "u = v")
      case True
      then show ?thesis using slots [of v] pc(1,2) by (simp add: slot_state_def finish(1))
    next
      case False
      then show ?thesis by (intro slot_state_frame [OF slots]) (simp_all add: finish(1) pc(6) del: map_of_append)
    qed
    then show ?thesis using frame by (simp add: data_inv_def finish(1))
  qed
qed

lemma data_inv_run:
  assumes "par_run e eng nf s0 s" and ok: "engine_ok eng cs" and "par_inv eng s0" "data_inv e eng nf mf s0"
    and eqs: "\<forall>v \<in> set (en_active_list eng). task_equation e eng nf (en_mgr eng) mf v"
    and len: "length (im_slots mf) = length (im_slots (en_mgr eng))"
  shows "data_inv e eng nf mf s"
  using assms(1,3,4)
proof (induction rule: par_run.induct)
  case here
  then show ?case by simp
next
  case (step s t)
  have "par_inv eng s" using par_run_inv step ok by blast
  then show ?case using data_inv_step [OF ok _ _ eqs len] step by blast
qed

lemma data_inv_seeded: "data_inv e eng nf mf (par_seeded eng)"
  by (simp add: data_inv_def slot_state_def par_seeded_def par_begin_def Let_def)

section \<open>Completion\<close>

text \<open>A state with tasks remaining has a next step.\<close>

lemma block_progress:
  assumes ok: "engine_ok eng cs" and inv: "par_inv eng s" and d: "data_inv e eng nf mf s"
    and ac: "acyclic (set (route_edges eng))"
    and eqs: "\<forall>v \<in> set (en_active_list eng). task_equation e eng nf (en_mgr eng) mf v"
    and len: "length (im_slots mf) = length (im_slots (en_mgr eng))"
    and rem: "0 < ps_remaining s"
  shows "\<exists>t. par_step e eng nf s t"
proof (cases "ps_tasks s")
  case (Cons x us)
  obtain v ph where x: "x = (v, ph)" by fastforce
  have ts: "ps_tasks s = [] @ (v, ph) # us" using Cons x by simp
  note pc = phase_change [OF inv ts]
  have slot: "slot_state e eng nf mf s v" and frame: "length (im_slots (ps_mgr s)) = length (im_slots (en_mgr eng))"
    using d by (simp_all add: data_inv_def)
  obtain g g1 g2 where g: "instance_at (en_mgr eng) v = Some g" "gather_inputs eng nf mf v g = Some g1"
    "process e g1 = Some g2"
    using eqs pc(3) unfolding task_equation_def by blast
  show ?thesis
  proof (cases ph)
    case Popped
    then have "im_slots (ps_mgr s) ! v = im_slots (en_mgr eng) ! v"
      using slot pc(1,2) by (simp add: slot_state_def)
    then have "instance_at (ps_mgr s) v = Some g" using g(1) frame by (metis instance_at_cong)
    moreover have "gather_inputs eng nf (ps_mgr s) v g = Some g1"
      using gather_final [OF ok inv d _ len] g(2) by (simp add: started_def ts)
    ultimately show ?thesis using par_step.gather ts Popped by metis
  next
    case Gathered
    then obtain h h1 where "instance_at (en_mgr eng) v = Some h" "gather_inputs eng nf mf v h = Some h1"
      and v: "im_slots (ps_mgr s) ! v = (im_slots (en_mgr eng) ! v)\<lparr>is_inst := Some h1\<rparr>"
      using slot pc(1,2) by (auto simp: slot_state_def)
    then have "h1 = g1" using g by simp
    then have "instance_at (ps_mgr s) v = Some g1"
      using g(1) v frame by (simp add: instance_at_def split: if_splits)
    then show ?thesis using par_step.run ts Gathered g(3) by metis
  next
    case (Releasing rs)
    then show ?thesis using par_step.release par_step.finish ts by (metis neq_Nil_conv)
  qed
next
  case Nil
  show ?thesis
  proof (cases "ps_queue s")
    case (Cons v q)
    then show ?thesis using par_step.pop by blast
  next
    case q: Nil
    have st: "started s = ps_finished s" using q Nil by (simp add: started_def)
    have "length (ps_finished s) < length (en_active_list eng)" using inv rem by (simp add: par_inv_def)
    then have "\<not> set (en_active_list eng) \<subseteq> set (started s)"
      using card_mono [of "set (started s)" "set (en_active_list eng)"] owner_parts(1) [OF ok] card_length [of "started s"] st
      by (auto simp: distinct_card)
    then obtain z where z: "z \<in> set (en_active_list eng) - set (started s)" by blast
    have "wf (set (route_edges eng))" using ac by (simp add: finite_acyclic_wf)
    then obtain v where v: "v \<in> set (en_active_list eng) - set (started s)"
      and mn: "\<And>u. (u, v) \<in> set (route_edges eng) \<Longrightarrow> u \<notin> set (en_active_list eng) - set (started s)"
      using z by (metis wfE_min)
    have "open_routes eng s u v = 0" if u: "u \<in> set (en_active_list eng)" for u
    proof (cases "u \<in> set (ps_finished s)")
      case True
      then show ?thesis by (simp add: open_routes_def todo_def)
    next
      case False
      then have "(u, v) \<notin> set (route_edges eng)" using mn [of u] u st by auto
      then show ?thesis using inv by (auto simp: open_routes_def edge_releases filter_empty_conv par_inv_def)
    qed
    then have "(\<Sum>u \<in> set (en_active_list eng). open_routes eng s u v) = 0" by simp
    moreover have "ps_dep s v = (\<Sum>u \<in> set (en_active_list eng). open_routes eng s u v)"
      using inv unfolding par_inv_def by blast
    ultimately have "ps_dep s v = 0" by simp
    then have "v \<in> set (started s)" using inv v unfolding par_inv_def by blast
    then show ?thesis using v by simp
  qed
qed

lemma block_result:
  assumes ok: "engine_ok eng cs" and inv: "par_inv eng s" and d: "data_inv e eng nf mf s"
    and other: "\<And>v. v \<notin> set (en_active_list eng) \<Longrightarrow> im_slots mf ! v = im_slots (en_mgr eng) ! v"
    and frame: "length (im_slots mf) = length (im_slots (en_mgr eng))" "im_free mf = im_free (en_mgr eng)"
      "im_next_generation mf = im_next_generation (en_mgr eng)"
    and rem: "ps_remaining s = 0"
  shows "ps_mgr s = mf"
proof -
  have sub: "distinct (ps_finished s)" "set (started s) \<subseteq> set (en_active_list eng)"
    using inv by (simp_all add: par_inv_def started_def)
  have "length (ps_finished s) = length (en_active_list eng)" using inv rem by (simp add: par_inv_def)
  then have "card (set (ps_finished s)) = card (set (en_active_list eng))"
    using sub(1) owner_parts(1) [OF ok] by (simp add: distinct_card)
  then have all: "set (ps_finished s) = set (en_active_list eng)"
    using sub(2) by (intro card_subset_eq) (auto simp: started_def)
  have dist: "distinct (started s)" using inv by (simp add: par_inv_def)
  have "im_slots (ps_mgr s) ! v = im_slots mf ! v" for v
  proof (cases "v \<in> set (en_active_list eng)")
    case True
    then show ?thesis using d all by (simp add: data_inv_def slot_state_def)
  next
    case False
    then have "map_of (ps_tasks s) v = None" using sub(2) by (auto simp: started_def map_of_eq_None_iff)
    then have "im_slots (ps_mgr s) ! v = im_slots (en_mgr eng) ! v"
    proof -
      have "slot_state e eng nf mf s v" using d unfolding data_inv_def by blast
      moreover have "v \<notin> set (ps_finished s)" using False all by simp
      ultimately show ?thesis using \<open>map_of (ps_tasks s) v = None\<close> by (simp add: slot_state_def)
    qed
    then show ?thesis using other [OF False] by simp
  qed
  moreover have parts: "length (im_slots (ps_mgr s)) = length (im_slots mf)" "im_free (ps_mgr s) = im_free mf"
    "im_next_generation (ps_mgr s) = im_next_generation mf"
    using d frame unfolding data_inv_def by metis+
  ultimately have "im_slots (ps_mgr s) = im_slots mf" by (intro nth_equalityI) simp_all
  with parts(2,3) show ?thesis by (intro instance_manager.equality) simp_all
qed

text \<open>Each step uses up some of a bounded amount of work.\<close>

fun phase_cost :: "nat \<Rightarrow> task_phase \<Rightarrow> nat" where
  "phase_cost n Popped = n + 3"
| "phase_cost n Gathered = n + 2"
| "phase_cost n (Releasing rs) = length rs + 1"

definition work_left :: "engine \<Rightarrow> par_state \<Rightarrow> nat" where
  "work_left eng s =
    (length (en_active_list eng) - (length (ps_tasks s) + length (ps_finished s))) * (length (en_routes eng) + 4) +
    sum_list (map (\<lambda>x. phase_cost (length (en_routes eng)) (snd x)) (ps_tasks s))"

lemma work_decreases:
  assumes ok: "engine_ok eng cs" and inv: "par_inv eng s" and st: "par_step e eng nf s t"
  shows "work_left eng t < work_left eng s"
  using st
proof cases
  case (seed v vs)
  then show ?thesis using inv by (simp add: par_inv_def)
next
  case (pop v q)
  have d: "distinct (started s)" "set (started s) \<subseteq> set (en_active_list eng)" using inv by (simp_all add: par_inv_def)
  then have "length (started s) \<le> length (en_active_list eng)"
    using card_mono [OF _ d(2)] owner_parts(1) [OF ok] by (simp add: distinct_card)
  then have "length (ps_tasks s) + length (ps_finished s) < length (en_active_list eng)"
    by (simp add: started_def pop(2))
  then obtain k where "length (en_active_list eng) = Suc (length (ps_tasks s) + length (ps_finished s) + k)"
    using less_imp_Suc_add by blast
  then show ?thesis by (simp add: work_left_def pop(1))
next
  case (release ts v r rs us)
  then show ?thesis by (simp add: work_left_def release_route_def push_ready_def Let_def)
qed (simp_all add: work_left_def)

lemma tone_block_defined:
  assumes "en_active_list eng = [0]" "en_routes eng = []" "instance_at (en_mgr eng) 0 = Some (instance_of plain_env s 48000)"
    "sched_ok s" "nodes_safe s" "cs_bp s = tone_graph"
  obtains mf where "compute_sequential plain_env eng 64 = Some mf"
proof -
  let ?g = "instance_of plain_env s 48000"
  obtain g2 where p: "process plain_env ?g = Some g2"
    using process_defined [OF assms(4) instance_of_ok [OF assms(4)] assms(5)] by blast
  have "gi_sched ?g = s" by (simp add: instance_of_def)
  then have "input_terminal_count ?g = 0"
    by (simp add: input_terminal_count_def assms(6) tone_graph_def connect_def add_named_def empty_blueprint_def)
  then have "gather_inputs eng 64 (en_mgr eng) 0 ?g = Some ?g"
    by (simp add: gather_inputs_def zero_input_terminals_def assms(2))
  moreover have "compute_order eng = [0]"
    by (simp add: compute_order_def kahn_order_def assms(1,2) route_edges_def indegree_def successors_def)
  ultimately show thesis using that p assms(3) by (simp add: compute_sequential_def run_task_def)
qed

section \<open>Properties\<close>





text \<open>C37: The seeding races with the workers: \<open>compute_parallel\<close> opens the block before it has finished
  seeding, so with one voice feeding another a worker can release the second one before the audio
  thread looks at it, and both then queue it: the voice runs twice in one block.\<close>

theorem seeding_race:
  assumes "en_active_list eng = [a, b]" and "en_routes eng = [r]" and "releases eng a r" and "ar_dst_slot r = b" and "a \<noteq> b"
    and "instance_at (en_mgr eng) a = Some g" and "gather_inputs eng nf (en_mgr eng) a g = Some g1" and "process e g1 = Some g2"
  shows "\<exists>s. par_run e eng nf (par_begin eng) s \<and> ps_pushed s = [a, b, b] \<and> ps_queue s = [b, b]"
proof -
  have edges: "route_edges eng = [(a, b)]" using assms(2-4) by (simp add: route_edges_def releases_def)
  define m1 where "m1 = put_instance a g1 (en_mgr eng)"
  define m2 where "m2 = put_instance a g2 m1"
  let ?s0 = "par_begin eng"
  let ?s1 = "?s0\<lparr>ps_seed := [b], ps_queue := [a], ps_pushed := [a]\<rparr>"
  let ?s2 = "?s1\<lparr>ps_queue := [], ps_tasks := [(a, Popped)]\<rparr>"
  let ?s3 = "?s2\<lparr>ps_tasks := [(a, Gathered)], ps_mgr := m1\<rparr>"
  let ?s4 = "?s3\<lparr>ps_tasks := [(a, Releasing [r])], ps_mgr := m2\<rparr>"
  let ?s5 = "?s4\<lparr>ps_tasks := [(a, Releasing [])], ps_dep := (indegree [(a, b)])(b := 0), ps_queue := [b], ps_pushed := [a, b]\<rparr>"
  let ?s6 = "?s5\<lparr>ps_seed := [], ps_queue := [b, b], ps_pushed := [a, b, b]\<rparr>"
  have deg: "indegree [(a, b)] a = 0" "indegree [(a, b)] b = 1" using assms(5) by (simp_all add: indegree_def)
  have 1: "par_step e eng nf ?s0 ?s1"
    using par_step.seed [of ?s0 a "[b]" e eng nf] deg
    by (simp add: par_begin_def assms(1) edges push_ready_def)
  have 2: "par_step e eng nf ?s1 ?s2"
    using par_step.pop [of ?s1 a "[]" e eng nf] by (simp add: par_begin_def)
  have 3: "par_step e eng nf ?s2 ?s3"
    using par_step.gather [of ?s2 "[]" a "[]" g eng nf g1 e] assms(6,7) by (simp add: par_begin_def m1_def)
  have "instance_at m1 a = Some g1"
    using assms(6) by (simp add: m1_def put_instance_def instance_at_def split: if_splits)
  then have 4: "par_step e eng nf ?s3 ?s4"
    using par_step.run [of ?s3 "[]" a "[]" g1 e g2 eng nf] assms(2,8) by (simp add: par_begin_def m2_def)
  have 5: "par_step e eng nf ?s4 ?s5"
    using par_step.release [of ?s4 "[]" a r "[]" "[]" e eng nf] assms(3,4) deg
    by (simp add: par_begin_def release_route_def push_ready_def edges Let_def)
  have 6: "par_step e eng nf ?s5 ?s6"
    using par_step.seed [of ?s5 b "[]" e eng nf] by (simp add: par_begin_def push_ready_def)
  note run = par_run.here [of e eng nf ?s0]
  note run = par_run.step [OF run 1]
  note run = par_run.step [OF run 2]
  note run = par_run.step [OF run 3]
  note run = par_run.step [OF run 4]
  note run = par_run.step [OF run 5]
  note run = par_run.step [OF run 6]
  then have "par_run e eng nf ?s0 ?s6" .
  then show ?thesis by (intro exI [of _ ?s6]) (simp add: par_begin_def)
qed

theorem seeding_race_witness:
  "\<exists>eng s. en_active_list eng = [0, 1] \<and> par_run plain_env eng 64 (par_begin eng) s \<and> ps_queue s = [1, 1]"
proof -
  obtain s where s: "sched_ok s" "nodes_safe s" "cs_bp s = tone_graph" by (rule tone_sched)
  let ?g = "instance_of plain_env s 48000"
  define r where "r = \<lparr>ar_src_slot = 0, ar_src_gen = 1, ar_src_terminal = 0, ar_to_master = False,
     ar_dst_slot = 1, ar_dst_gen = 2, ar_dst_terminal = 0\<rparr>"
  define eng where "eng = \<lparr>en_sample_rate = 48000, en_block_size = 64, en_output_channels = 2,
      en_mgr = (mgr_init 2)\<lparr>im_slots := replicate 2 (empty_slot\<lparr>is_inst := Some ?g\<rparr>)\<rparr>, en_active_gen = [1, 2],
      en_active_list = [0, 1], en_routes = [r], en_route_capacity = 12, en_master = [],
      en_commands = [], en_telemetry = [], en_telemetry_capacity = 28\<rparr>"
  obtain g2 where p: "process plain_env ?g = Some g2"
    using process_defined [OF s(1) instance_of_ok [OF s(1)] s(2)] by blast
  have "gi_sched ?g = s" by (simp add: instance_of_def)
  then have "input_terminal_count ?g = 0"
    by (simp add: input_terminal_count_def s(3) tone_graph_def connect_def add_named_def empty_blueprint_def)
  then have gather: "gather_inputs eng 64 (en_mgr eng) 0 ?g = Some ?g"
    by (simp add: gather_inputs_def zero_input_terminals_def eng_def gather_route_def r_def)
  have "releases eng 0 r" by (simp add: releases_def r_def eng_def route_live_def is_current_def)
  moreover have act: "en_active_list eng = [0, 1]" "en_routes eng = [r]" "instance_at (en_mgr eng) 0 = Some ?g" "ar_dst_slot r = 1"
    by (simp_all add: eng_def r_def instance_at_def)
  ultimately obtain s' where "par_run plain_env eng 64 (par_begin eng) s'" "ps_queue s' = [1, 1]"
    using seeding_race [of eng 0 1 r ?g 64 ?g plain_env g2, OF act(1,2) _ act(4) _ act(3) gather p] by auto
  then show ?thesis using act(1) by blast
qed

end
