(* ===== verification/Mpmc.thy ===== *)
theory Mpmc
  imports Bits
begin

text \<open>
  The bounded queue of the worker pool, \<open>include/xrune/util/mpmc_queue.hpp\<close>: any number of threads push and pop.
  One atomic access of the source is one step of a thread, the threads interleave in any order, and a weak
  compare-and-exchange may fail for no reason.  Positions are natural numbers: the 64-bit counters of the source
  wrap around only after \<open>2 ^ 64\<close> operations.  The interleaving model takes the acquire and release orders of the
  source for what they are there for: the plain access to \<open>val\<close> is ordered before the release of its cell.
\<close>

section \<open>The queue and the steps of one thread\<close>

record mpmc_queue =
  mq_seq :: "nat list"
  mq_val :: "32 word list"
  mq_mask :: nat
  mq_enqueue :: nat
  mq_dequeue :: nat

definition mpmc_init :: "nat \<Rightarrow> mpmc_queue" where
  "mpmc_init cap = \<lparr>mq_seq = [0..<cap], mq_val = replicate cap 0, mq_mask = cap - 1, mq_enqueue = 0, mq_dequeue = 0\<rparr>"

datatype mq_op = Op_push "32 word" | Op_pop

datatype mq_result = R_pushed | R_full | R_popped "32 word" | R_empty

text \<open>Where a thread stands, with its local variables \<open>v\<close> and \<open>pos\<close>.\<close>

datatype mq_pc =
    PC_idle
  | Push_load "32 word"
  | Push_check "32 word" nat
  | Push_cas "32 word" nat
  | Push_write "32 word" nat
  | Push_publish nat
  | Pop_load
  | Pop_check nat
  | Pop_cas nat
  | Pop_take nat
  | Pop_release nat "32 word"
  | PC_return mq_result

definition cell_index :: "mpmc_queue \<Rightarrow> nat \<Rightarrow> nat" where
  "cell_index q pos = pos AND mq_mask q"

definition seq_at :: "mpmc_queue \<Rightarrow> nat \<Rightarrow> nat" where
  "seq_at q pos = mq_seq q ! cell_index q pos"

definition set_seq :: "nat \<Rightarrow> nat \<Rightarrow> mpmc_queue \<Rightarrow> mpmc_queue" where
  "set_seq pos k q = q\<lparr>mq_seq := (mq_seq q)[cell_index q pos := k]\<rparr>"

definition set_val :: "nat \<Rightarrow> 32 word \<Rightarrow> mpmc_queue \<Rightarrow> mpmc_queue" where
  "set_val pos v q = q\<lparr>mq_val := (mq_val q)[cell_index q pos := v]\<rparr>"

text \<open>One step of \<open>push\<close> or \<open>pop\<close>; \<open>spurious\<close> tells whether a weak exchange fails on its own.\<close>

fun mq_next :: "bool \<Rightarrow> mq_pc \<Rightarrow> mpmc_queue \<Rightarrow> mq_pc \<times> mpmc_queue" where
  "mq_next spurious (Push_load v) q = (Push_check v (mq_enqueue q), q)"
| "mq_next spurious (Push_check v pos) q =
    (if seq_at q pos = pos then Push_cas v pos
     else if seq_at q pos < pos then PC_return R_full
     else Push_load v, q)"
| "mq_next spurious (Push_cas v pos) q =
    (if mq_enqueue q = pos \<and> \<not> spurious then (Push_write v pos, q\<lparr>mq_enqueue := pos + 1\<rparr>)
     else (Push_check v (mq_enqueue q), q))"
| "mq_next spurious (Push_write v pos) q = (Push_publish pos, set_val pos v q)"
| "mq_next spurious (Push_publish pos) q = (PC_return R_pushed, set_seq pos (pos + 1) q)"
| "mq_next spurious Pop_load q = (Pop_check (mq_dequeue q), q)"
| "mq_next spurious (Pop_check pos) q =
    (if seq_at q pos = pos + 1 then Pop_cas pos
     else if seq_at q pos < pos + 1 then PC_return R_empty
     else Pop_load, q)"
| "mq_next spurious (Pop_cas pos) q =
    (if mq_dequeue q = pos \<and> \<not> spurious then (Pop_take pos, q\<lparr>mq_dequeue := pos + 1\<rparr>)
     else (Pop_check (mq_dequeue q), q))"
| "mq_next spurious (Pop_take pos) q = (Pop_release pos (mq_val q ! cell_index q pos), q)"
| "mq_next spurious (Pop_release pos v) q = (PC_return (R_popped v), set_seq pos (pos + mq_mask q + 1) q)"
| "mq_next spurious pc q = (pc, q)"

section \<open>Runs of many threads\<close>

record mq_state =
  ms_queue :: mpmc_queue
  ms_pc :: "nat \<Rightarrow> mq_pc"

datatype mq_event = Call nat mq_op | Return nat mq_result

definition mq_start :: "nat \<Rightarrow> mq_state" where
  "mq_start cap = \<lparr>ms_queue = mpmc_init cap, ms_pc = (\<lambda>_. PC_idle)\<rparr>"

fun op_entry :: "mq_op \<Rightarrow> mq_pc" where
  "op_entry (Op_push v) = Push_load v"
| "op_entry Op_pop = Pop_load"

inductive mq_step :: "mq_state \<Rightarrow> mq_event option \<Rightarrow> mq_state \<Rightarrow> bool" where
  mq_call: "ms_pc s t = PC_idle \<Longrightarrow> mq_step s (Some (Call t op)) (s\<lparr>ms_pc := (ms_pc s)(t := op_entry op)\<rparr>)"
| mq_return: "ms_pc s t = PC_return r \<Longrightarrow> mq_step s (Some (Return t r)) (s\<lparr>ms_pc := (ms_pc s)(t := PC_idle)\<rparr>)"
| mq_internal: "mq_next spurious (ms_pc s t) (ms_queue s) = (pc, q) \<Longrightarrow>
    mq_step s None \<lparr>ms_queue = q, ms_pc = (ms_pc s)(t := pc)\<rparr>"

section \<open>Simulation\<close>

text \<open>A run with the calls and returns it shows.\<close>

inductive exhibits :: "('s \<Rightarrow> 'e option \<Rightarrow> 's \<Rightarrow> bool) \<Rightarrow> 's \<Rightarrow> 'e list \<Rightarrow> 's \<Rightarrow> bool" for step where
  exhibits_refl: "exhibits step s [] s"
| exhibits_step: "exhibits step s es t \<Longrightarrow> step t l u \<Longrightarrow> exhibits step s (es @ (case l of None \<Rightarrow> [] | Some e \<Rightarrow> [e])) u"

text \<open>
  A forward simulation: each step of the concrete system is matched by a step of the specification with the same
  event, or, when it shows nothing, by none.
\<close>

locale simulation =
  fixes cstep :: "'c \<Rightarrow> 'e option \<Rightarrow> 'c \<Rightarrow> bool"
    and astep :: "'a \<Rightarrow> 'e option \<Rightarrow> 'a \<Rightarrow> bool"
    and rel :: "'c \<Rightarrow> 'a \<Rightarrow> bool"
  assumes match: "rel c a \<Longrightarrow> cstep c l c' \<Longrightarrow> (\<exists>a'. astep a l a' \<and> rel c' a') \<or> l = None \<and> rel c' a"
begin

lemma refines:
  assumes "exhibits cstep c es c'" and "rel c a"
  shows "\<exists>a'. exhibits astep a es a' \<and> rel c' a'"
  using assms
proof (induction rule: exhibits.induct)
  case (exhibits_refl s)
  then show ?case by (blast intro: exhibits.exhibits_refl)
next
  case (exhibits_step s es t l u)
  then obtain a' where a: "exhibits astep a es a'" "rel t a'" by blast
  from match [OF a(2) exhibits_step.hyps(2)] show ?case
  proof
    assume "\<exists>b. astep a' l b \<and> rel u b"
    then show ?thesis using a(1) by (blast intro: exhibits.exhibits_step)
  next
    assume "l = None \<and> rel u a'"
    then show ?thesis using a(1) by auto
  qed
qed

end

section \<open>The specification\<close>

text \<open>
  A queue of values.  An operation takes effect at one moment between its call and its return.  A push may report
  a full queue only when it is full or a pop is on its way out with its value, a pop an empty queue only when it
  is empty or a push is on its way out.
\<close>

datatype op_status = Ready | Called mq_op | Done mq_result

record fifo =
  ff_items :: "32 word list"
  ff_status :: "nat \<Rightarrow> op_status"

definition fifo_start :: fifo where
  "fifo_start = \<lparr>ff_items = [], ff_status = (\<lambda>_. Ready)\<rparr>"

fun fifo_effect :: "nat \<Rightarrow> fifo \<Rightarrow> mq_op \<Rightarrow> mq_result \<Rightarrow> 32 word list \<Rightarrow> bool" where
  "fifo_effect cap a (Op_push v) R_pushed xs \<longleftrightarrow> length (ff_items a) < cap \<and> xs = ff_items a @ [v]"
| "fifo_effect cap a (Op_push v) R_full xs \<longleftrightarrow>
    xs = ff_items a \<and> (length (ff_items a) = cap \<or> (\<exists>u w. ff_status a u = Done (R_popped w)))"
| "fifo_effect cap a Op_pop (R_popped v) xs \<longleftrightarrow> ff_items a = v # xs"
| "fifo_effect cap a Op_pop R_empty xs \<longleftrightarrow>
    xs = ff_items a \<and> (ff_items a = [] \<or> (\<exists>u. ff_status a u = Done R_pushed))"
| "fifo_effect cap a op r xs \<longleftrightarrow> False"

inductive fifo_step :: "nat \<Rightarrow> fifo \<Rightarrow> mq_event option \<Rightarrow> fifo \<Rightarrow> bool" for cap where
  fifo_call: "ff_status a t = Ready \<Longrightarrow> fifo_step cap a (Some (Call t op)) (a\<lparr>ff_status := (ff_status a)(t := Called op)\<rparr>)"
| fifo_return: "ff_status a t = Done r \<Longrightarrow> fifo_step cap a (Some (Return t r)) (a\<lparr>ff_status := (ff_status a)(t := Ready)\<rparr>)"
| fifo_do: "ff_status a t = Called op \<Longrightarrow> fifo_effect cap a op r xs \<Longrightarrow>
    fifo_step cap a None \<lparr>ff_items = xs, ff_status = (ff_status a)(t := Done r)\<rparr>"

section \<open>The simulation relation\<close>

fun writes :: "mq_pc \<Rightarrow> nat \<Rightarrow> bool" where
  "writes (Push_write v p) r \<longleftrightarrow> r = p"
| "writes (Push_publish p) r \<longleftrightarrow> r = p"
| "writes pc r \<longleftrightarrow> False"

fun takes :: "mq_pc \<Rightarrow> nat \<Rightarrow> bool" where
  "takes (Pop_take p) r \<longleftrightarrow> r = p"
| "takes (Pop_release p v) r \<longleftrightarrow> r = p"
| "takes pc r \<longleftrightarrow> False"

text \<open>What the specification knows of a thread; \<open>h\<close> lists the values by position.\<close>

fun status_of :: "32 word list \<Rightarrow> mq_pc \<Rightarrow> op_status" where
  "status_of h PC_idle = Ready"
| "status_of h (Push_load v) = Called (Op_push v)"
| "status_of h (Push_check v p) = Called (Op_push v)"
| "status_of h (Push_cas v p) = Called (Op_push v)"
| "status_of h (Push_write v p) = Done R_pushed"
| "status_of h (Push_publish p) = Done R_pushed"
| "status_of h Pop_load = Called Op_pop"
| "status_of h (Pop_check p) = Called Op_pop"
| "status_of h (Pop_cas p) = Called Op_pop"
| "status_of h (Pop_take p) = Done (R_popped (h ! p))"
| "status_of h (Pop_release p v) = Done (R_popped v)"
| "status_of h (PC_return r) = Done r"

text \<open>What a thread knows of the queue.\<close>

fun pc_ok :: "nat \<Rightarrow> mpmc_queue \<Rightarrow> 32 word list \<Rightarrow> mq_pc \<Rightarrow> bool" where
  "pc_ok cap q h (Push_check v p) \<longleftrightarrow> p \<le> mq_enqueue q"
| "pc_ok cap q h (Push_cas v p) \<longleftrightarrow> p \<le> mq_enqueue q \<and> p \<le> mq_seq q ! (p mod cap)"
| "pc_ok cap q h (Push_write v p) \<longleftrightarrow> h ! p = v"
| "pc_ok cap q h (Push_publish p) \<longleftrightarrow> mq_val q ! (p mod cap) = h ! p"
| "pc_ok cap q h (Pop_check p) \<longleftrightarrow> p \<le> mq_dequeue q"
| "pc_ok cap q h (Pop_cas p) \<longleftrightarrow> p \<le> mq_dequeue q \<and> p + 1 \<le> mq_seq q ! (p mod cap)"
| "pc_ok cap q h (Pop_take p) \<longleftrightarrow> mq_val q ! (p mod cap) = h ! p"
| "pc_ok cap q h (Pop_release p v) \<longleftrightarrow> v = h ! p"
| "pc_ok cap q h pc \<longleftrightarrow> True"

definition owners_ok :: "nat \<Rightarrow> mpmc_queue \<Rightarrow> (nat \<Rightarrow> mq_pc) \<Rightarrow> bool" where
  "owners_ok cap q pc \<longleftrightarrow>
    (\<forall>t p. writes (pc t) p \<longrightarrow> mq_dequeue q \<le> p \<and> p < mq_enqueue q \<and> mq_seq q ! (p mod cap) = p) \<and>
    (\<forall>t p. takes (pc t) p \<longrightarrow> p < mq_dequeue q \<and> mq_seq q ! (p mod cap) = p + 1) \<and>
    (\<forall>t u p. writes (pc t) p \<longrightarrow> writes (pc u) p \<longrightarrow> t = u) \<and>
    (\<forall>t u p. takes (pc t) p \<longrightarrow> takes (pc u) p \<longrightarrow> t = u)"

text \<open>The cells from the dequeue position on, once around.\<close>

definition cells_ok :: "nat \<Rightarrow> mpmc_queue \<Rightarrow> 32 word list \<Rightarrow> (nat \<Rightarrow> mq_pc) \<Rightarrow> bool" where
  "cells_ok cap q h pc \<longleftrightarrow>
    (\<forall>p. mq_dequeue q \<le> p \<longrightarrow> p < mq_enqueue q \<longrightarrow>
      mq_seq q ! (p mod cap) = p \<and> (\<exists>t. writes (pc t) p) \<or>
      mq_seq q ! (p mod cap) = p + 1 \<and> mq_val q ! (p mod cap) = h ! p) \<and>
    (\<forall>p. mq_enqueue q \<le> p \<longrightarrow> p < mq_dequeue q + cap \<longrightarrow>
      mq_seq q ! (p mod cap) = p \<or> (\<exists>r t. p = r + cap \<and> mq_seq q ! (p mod cap) = r + 1 \<and> takes (pc t) r))"

definition mq_ok :: "nat \<Rightarrow> mpmc_queue \<Rightarrow> 32 word list \<Rightarrow> (nat \<Rightarrow> mq_pc) \<Rightarrow> bool" where
  "mq_ok cap q h pc \<longleftrightarrow>
    is_power_of_two cap \<and> 2 \<le> cap \<and> mq_mask q = cap - 1 \<and> length (mq_seq q) = cap \<and> length (mq_val q) = cap \<and>
    length h = mq_enqueue q \<and> mq_dequeue q \<le> mq_enqueue q \<and> mq_enqueue q \<le> mq_dequeue q + cap \<and>
    owners_ok cap q pc \<and> cells_ok cap q h pc \<and> (\<forall>t. pc_ok cap q h (pc t))"

definition mq_rel :: "nat \<Rightarrow> mq_state \<Rightarrow> fifo \<Rightarrow> bool" where
  "mq_rel cap s a \<longleftrightarrow>
    (\<exists>h. mq_ok cap (ms_queue s) h (ms_pc s) \<and> ff_items a = drop (mq_dequeue (ms_queue s)) h \<and>
      ff_status a = (\<lambda>t. status_of h (ms_pc s t)))"

section \<open>Facts of the relation\<close>

lemma mod_eq_diff: "a mod cap = b mod cap \<Longrightarrow> a < b \<Longrightarrow> a + cap \<le> (b :: nat)"
  by (metis mod_eq_dvd_iff_nat dvd_imp_le zero_less_diff le_add_diff_inverse less_imp_le add_le_cancel_left)

lemma window_unique:
  "a mod cap = b mod cap \<Longrightarrow> d \<le> a \<Longrightarrow> a < d + cap \<Longrightarrow> d \<le> b \<Longrightarrow> b < d + cap \<Longrightarrow> a = (b :: nat)"
  using mod_eq_diff [of a cap b] mod_eq_diff [of b cap a] by linarith

lemma window_ex:
  assumes "0 < cap"
  shows "\<exists>p. d \<le> p \<and> p < d + cap \<and> p mod cap = r mod (cap :: nat)"
proof -
  let ?p = "d + (r + (cap - d mod cap)) mod cap"
  have "?p mod cap = (d + (r + (cap - d mod cap))) mod cap" by (rule mod_add_right_eq)
  also have "d + (r + (cap - d mod cap)) = r + (d div cap * cap + cap)"
    using assms div_mult_mod_eq [of d cap] mod_less_divisor [OF assms, of d] by linarith
  also have "(r + (d div cap * cap + cap)) mod cap = r mod cap" by (simp add: add.assoc [symmetric])
  finally show ?thesis using assms by (intro exI [of _ ?p]) simp
qed

lemma shifted_cell: "p mod cap = (r :: nat) mod cap \<Longrightarrow> 2 \<le> cap \<Longrightarrow> p \<noteq> r + 1"
  using mod_eq_diff [of r cap p] by auto

lemma mq_facts:
  assumes "mq_ok cap q h pc"
  shows "0 < cap" and "2 \<le> cap" and "mq_dequeue q \<le> mq_enqueue q" and "mq_enqueue q \<le> mq_dequeue q + cap"
    and "length (mq_seq q) = cap" and "length (mq_val q) = cap" and "length h = mq_enqueue q"
    and "mq_mask q = cap - 1"
  using assms by (auto simp: mq_ok_def)

lemma mq_index:
  assumes "mq_ok cap q h pc"
  shows "cell_index q p = p mod cap"
proof -
  obtain k where k: "cap = 2 ^ k" using assms by (auto simp: mq_ok_def is_power_of_two_iff)
  then have "cell_index q p = p AND mask k" using mq_facts(8) [OF assms] by (simp add: cell_index_def mask_eq_exp_minus_1)
  then show ?thesis by (simp add: k take_bit_eq_mod flip: take_bit_eq_mask)
qed

lemma mq_queued:
  assumes "mq_ok cap q h pc" and "mq_dequeue q \<le> p" and "p < mq_enqueue q"
  shows "mq_seq q ! (p mod cap) = p \<and> (\<exists>t. writes (pc t) p) \<or>
    mq_seq q ! (p mod cap) = p + 1 \<and> mq_val q ! (p mod cap) = h ! p"
  using assms by (simp add: mq_ok_def cells_ok_def)

lemma mq_open:
  assumes "mq_ok cap q h pc" and "mq_enqueue q \<le> p" and "p < mq_dequeue q + cap"
  shows "mq_seq q ! (p mod cap) = p \<or> (\<exists>r t. p = r + cap \<and> mq_seq q ! (p mod cap) = r + 1 \<and> takes (pc t) r)"
  using assms by (simp add: mq_ok_def cells_ok_def)

lemma mq_writer:
  assumes "mq_ok cap q h pc" and "writes (pc t) p"
  shows "mq_dequeue q \<le> p" and "p < mq_enqueue q" and "mq_seq q ! (p mod cap) = p"
    and "writes (pc u) p \<Longrightarrow> u = t"
  using assms unfolding mq_ok_def owners_ok_def by blast+

lemma mq_taker:
  assumes "mq_ok cap q h pc" and "takes (pc t) p"
  shows "p < mq_dequeue q" and "mq_seq q ! (p mod cap) = p + 1" and "takes (pc u) p \<Longrightarrow> u = t"
  using assms unfolding mq_ok_def owners_ok_def by blast+

text \<open>The cell of a position behind the dequeue position has gone on to a later round.\<close>

lemma mq_behind:
  assumes "mq_ok cap q h pc" and "p < mq_dequeue q"
  shows "p + 1 \<le> mq_seq q ! (p mod cap)"
proof -
  obtain r where r: "mq_dequeue q \<le> r" "r < mq_dequeue q + cap" "r mod cap = p mod cap"
    using window_ex [OF mq_facts(1) [OF assms(1)]] by blast
  have "p < r" using r(1) assms(2) by simp
  then have "p + cap \<le> r" using r(3) by (intro mod_eq_diff) simp_all
  then show ?thesis
    using mq_queued [OF assms(1) r(1)] mq_open [OF assms(1) _ r(2)] r(3) mq_facts(2) [OF assms(1)]
    by (cases "r < mq_enqueue q") auto
qed

lemma taker_window:
  assumes "mq_ok cap q h pc" and "takes (pc t) p"
  shows "mq_enqueue q \<le> p + cap" and "p + cap < mq_dequeue q + cap"
proof -
  show "p + cap < mq_dequeue q + cap" using mq_taker(1) [OF assms] by simp
  obtain r where r: "mq_dequeue q \<le> r" "r < mq_dequeue q + cap" "r mod cap = p mod cap"
    using window_ex [OF mq_facts(1) [OF assms(1)]] by blast
  have seq: "mq_seq q ! (r mod cap) = p + 1" using mq_taker(2) [OF assms] r(3) by simp
  have "r \<noteq> p + 1" by (rule shifted_cell [OF r(3) mq_facts(2) [OF assms(1)]])
  moreover have "r \<noteq> p" using r(1) mq_taker(1) [OF assms] by simp
  ultimately have "\<not> r < mq_enqueue q" using mq_queued [OF assms(1) r(1)] seq by auto
  then show "mq_enqueue q \<le> p + cap"
    using mq_open [OF assms(1) _ r(2)] seq \<open>r \<noteq> p + 1\<close> by auto
qed

lemma mq_full:
  assumes "mq_ok cap q h pc" and "p \<le> mq_enqueue q" and "mq_seq q ! (p mod cap) < p"
  shows "mq_enqueue q = mq_dequeue q + cap \<or> (\<exists>t r. takes (pc t) r)"
proof -
  have "\<not> p < mq_dequeue q" using mq_behind [OF assms(1), of p] assms(3) by auto
  moreover have "\<not> (mq_dequeue q \<le> p \<and> p < mq_enqueue q)" using mq_queued [OF assms(1), of p] assms(3) by auto
  ultimately have p: "p = mq_enqueue q" using assms(2) by simp
  show ?thesis
  proof (cases "mq_enqueue q = mq_dequeue q + cap")
    case False
    then have "p < mq_dequeue q + cap" using mq_facts(4) [OF assms(1)] p by simp
    then show ?thesis using mq_open [OF assms(1), of p] p assms(3) by auto
  qed simp
qed

lemma mq_empty:
  assumes "mq_ok cap q h pc" and "p \<le> mq_dequeue q" and "mq_seq q ! (p mod cap) < p + 1"
  shows "mq_dequeue q = mq_enqueue q \<or> (\<exists>t r. writes (pc t) r)"
proof -
  have "\<not> p < mq_dequeue q" using mq_behind [OF assms(1), of p] assms(3) by auto
  then have p: "p = mq_dequeue q" using assms(2) by simp
  then show ?thesis using mq_queued [OF assms(1), of p] mq_facts(3) [OF assms(1)] assms(3) by fastforce
qed

lemma mq_free:
  assumes "mq_ok cap q h pc" and "mq_enqueue q \<le> mq_seq q ! (mq_enqueue q mod cap)"
  shows "mq_enqueue q < mq_dequeue q + cap" and "mq_seq q ! (mq_enqueue q mod cap) = mq_enqueue q"
proof -
  note cap = mq_facts(1,2) [OF assms(1)]
  show free: "mq_enqueue q < mq_dequeue q + cap"
  proof (rule ccontr)
    assume "\<not> ?thesis"
    then have e: "mq_enqueue q = mq_dequeue q + cap" using mq_facts(4) [OF assms(1)] by simp
    then have "mq_seq q ! (mq_dequeue q mod cap) \<le> mq_dequeue q + 1"
      using mq_queued [OF assms(1), of "mq_dequeue q"] cap by auto
    then show False using assms(2) e cap by simp
  qed
  show "mq_seq q ! (mq_enqueue q mod cap) = mq_enqueue q"
    using mq_open [OF assms(1) order_refl free] assms(2) cap by auto
qed

lemma mq_ready:
  assumes "mq_ok cap q h pc" and "mq_dequeue q + 1 \<le> mq_seq q ! (mq_dequeue q mod cap)"
  shows "mq_dequeue q < mq_enqueue q" and "mq_seq q ! (mq_dequeue q mod cap) = mq_dequeue q + 1"
    and "mq_val q ! (mq_dequeue q mod cap) = h ! mq_dequeue q"
proof -
  note cap = mq_facts(1,2) [OF assms(1)]
  show e: "mq_dequeue q < mq_enqueue q"
  proof (rule ccontr)
    assume "\<not> ?thesis"
    then have "mq_enqueue q = mq_dequeue q" using mq_facts(3) [OF assms(1)] by simp
    then show False using mq_open [OF assms(1), of "mq_dequeue q"] assms(2) cap by auto
  qed
  show "mq_seq q ! (mq_dequeue q mod cap) = mq_dequeue q + 1" and "mq_val q ! (mq_dequeue q mod cap) = h ! mq_dequeue q"
    using mq_queued [OF assms(1) order_refl e] assms(2) by auto
qed

section \<open>Preservation\<close>

lemma set_seq_frame [simp]:
  "mq_val (set_seq p k q) = mq_val q" "mq_enqueue (set_seq p k q) = mq_enqueue q"
  "mq_dequeue (set_seq p k q) = mq_dequeue q" "mq_mask (set_seq p k q) = mq_mask q"
  "length (mq_seq (set_seq p k q)) = length (mq_seq q)"
  by (simp_all add: set_seq_def)

lemma set_val_frame [simp]:
  "mq_seq (set_val p v q) = mq_seq q" "mq_enqueue (set_val p v q) = mq_enqueue q"
  "mq_dequeue (set_val p v q) = mq_dequeue q" "mq_mask (set_val p v q) = mq_mask q"
  "length (mq_val (set_val p v q)) = length (mq_val q)"
  by (simp_all add: set_val_def)

lemma pc_ok_mono:
  assumes "pc_ok cap q h c" and "mq_enqueue q \<le> mq_enqueue q'" and "mq_dequeue q \<le> mq_dequeue q'"
    and "\<And>p. mq_seq q ! (p mod cap) \<le> mq_seq q' ! (p mod cap)"
    and "\<And>p. writes c p \<or> takes c p \<Longrightarrow> h' ! p = h ! p \<and> mq_val q' ! (p mod cap) = mq_val q ! (p mod cap)"
  shows "pc_ok cap q' h' c"
  using assms by (cases c) (auto intro: order_trans)

lemma mq_pc_ok: "mq_ok cap q h pc \<Longrightarrow> pc_ok cap q h (pc t)"
  by (simp add: mq_ok_def)

lemma owners_okI:
  assumes "\<And>t p. writes (pc t) p \<Longrightarrow> mq_dequeue q \<le> p \<and> p < mq_enqueue q \<and> mq_seq q ! (p mod cap) = p"
    and "\<And>t p. takes (pc t) p \<Longrightarrow> p < mq_dequeue q \<and> mq_seq q ! (p mod cap) = p + 1"
    and "\<And>t u p. writes (pc t) p \<Longrightarrow> writes (pc u) p \<Longrightarrow> t = u"
    and "\<And>t u p. takes (pc t) p \<Longrightarrow> takes (pc u) p \<Longrightarrow> t = u"
  shows "owners_ok cap q pc"
  using assms unfolding owners_ok_def by blast

lemma mq_ok_local:
  assumes "mq_ok cap q h pc" and "pc_ok cap q h c" and "writes c = writes (pc t)" and "takes c = takes (pc t)"
  shows "mq_ok cap q h (pc(t := c))"
proof -
  have "writes ((pc(t := c)) u) = writes (pc u)" "takes ((pc(t := c)) u) = takes (pc u)" for u
    using assms(3,4) by simp_all
  then show ?thesis
    using assms(1,2) unfolding mq_ok_def owners_ok_def cells_ok_def by simp
qed

text \<open>Ownership passes to the thread that moves a position.\<close>

lemma mq_ok_push_claim:
  assumes ok: "mq_ok cap q h pc" and pc: "pc t = Push_cas v (mq_enqueue q)"
  shows "mq_ok cap (q\<lparr>mq_enqueue := mq_enqueue q + 1\<rparr>) (h @ [v]) (pc(t := Push_write v (mq_enqueue q)))"
    and "mq_enqueue q < mq_dequeue q + cap"
proof -
  let ?e = "mq_enqueue q" and ?pc = "pc(t := Push_write v (mq_enqueue q))"
  have "pc_ok cap q h (pc t)" using ok by (simp add: mq_ok_def)
  then have "?e \<le> mq_seq q ! (?e mod cap)" by (simp add: pc)
  note free = mq_free [OF ok this]
  show "mq_enqueue q < mq_dequeue q + cap" by (rule free)
  note f = mq_facts [OF ok]
  have w: "writes (?pc u) p \<longleftrightarrow> (if u = t then p = ?e else writes (pc u) p)" for u p by simp
  have k: "takes (?pc u) p \<longleftrightarrow> takes (pc u) p" for u p by (simp add: pc)
  have own: "owners_ok cap (q\<lparr>mq_enqueue := ?e + 1\<rparr>) ?pc"
  proof (rule owners_okI, unfold w k)
    fix u p
    assume "if u = t then p = ?e else writes (pc u) p"
    then show "mq_dequeue (q\<lparr>mq_enqueue := ?e + 1\<rparr>) \<le> p \<and> p < mq_enqueue (q\<lparr>mq_enqueue := ?e + 1\<rparr>) \<and>
        mq_seq (q\<lparr>mq_enqueue := ?e + 1\<rparr>) ! (p mod cap) = p"
      using mq_writer(1-3) [OF ok, of u p] f(3) free by (auto split: if_splits)
  next
    fix u x p
    assume "if u = t then p = ?e else writes (pc u) p" and "if x = t then p = ?e else writes (pc x) p"
    then show "u = x"
      using mq_writer(2) [OF ok, of u p] mq_writer(2) [OF ok, of x p] mq_writer(4) [OF ok, of u p x]
      by (auto split: if_splits)
  qed (use mq_taker [OF ok] in auto)
  have h: "(h @ [v]) ! p = h ! p" if "p < ?e" for p using that f(7) by (simp add: nth_append)
  have cells: "cells_ok cap (q\<lparr>mq_enqueue := ?e + 1\<rparr>) (h @ [v]) ?pc"
    unfolding cells_ok_def k
  proof (intro conjI allI impI)
    fix p
    assume p: "mq_dequeue (q\<lparr>mq_enqueue := ?e + 1\<rparr>) \<le> p" "p < mq_enqueue (q\<lparr>mq_enqueue := ?e + 1\<rparr>)"
    show "mq_seq (q\<lparr>mq_enqueue := ?e + 1\<rparr>) ! (p mod cap) = p \<and> (\<exists>t. writes (?pc t) p) \<or>
        mq_seq (q\<lparr>mq_enqueue := ?e + 1\<rparr>) ! (p mod cap) = p + 1 \<and>
        mq_val (q\<lparr>mq_enqueue := ?e + 1\<rparr>) ! (p mod cap) = (h @ [v]) ! p"
    proof (cases "p = ?e")
      case True
      then show ?thesis using free(2) by (auto simp: w)
    next
      case False
      then have "p < ?e" using p by simp
      moreover have "writes (?pc u) p" if "writes (pc u) p" for u using that pc by auto
      ultimately show ?thesis using mq_queued [OF ok, of p] p(1) h by (auto simp del: fun_upd_apply)
    qed
  qed (use mq_open [OF ok] in auto)
  have pcs: "pc_ok cap (q\<lparr>mq_enqueue := ?e + 1\<rparr>) (h @ [v]) (?pc u)" for u
  proof (cases "u = t")
    case True
    then show ?thesis using f(7) nth_append_length [of h v "[]"] by simp
  next
    case False
    have "p < ?e" if "writes (pc u) p \<or> takes (pc u) p" for p
      using that mq_writer(2) [OF ok, of u p] mq_taker(1) [OF ok, of u p] f(3) by auto
    then show ?thesis
      using False pc_ok_mono [OF mq_pc_ok [OF ok, of u], of "q\<lparr>mq_enqueue := ?e + 1\<rparr>" "h @ [v]"] h by simp
  qed
  show "mq_ok cap (q\<lparr>mq_enqueue := ?e + 1\<rparr>) (h @ [v]) ?pc"
    using ok own cells pcs free(1) by (simp add: mq_ok_def)
qed

lemma mq_ok_pop_claim:
  assumes ok: "mq_ok cap q h pc" and pc: "pc t = Pop_cas (mq_dequeue q)"
  shows "mq_ok cap (q\<lparr>mq_dequeue := mq_dequeue q + 1\<rparr>) h (pc(t := Pop_take (mq_dequeue q)))"
    and "mq_dequeue q < mq_enqueue q"
proof -
  let ?d = "mq_dequeue q" and ?pc = "pc(t := Pop_take (mq_dequeue q))"
  have "pc_ok cap q h (pc t)" using ok by (simp add: mq_ok_def)
  then have "?d + 1 \<le> mq_seq q ! (?d mod cap)" by (simp add: pc)
  note ready = mq_ready [OF ok this]
  show "mq_dequeue q < mq_enqueue q" by (rule ready)
  note f = mq_facts [OF ok]
  have w: "writes (?pc u) p \<longleftrightarrow> writes (pc u) p" for u p by (simp add: pc)
  have k: "takes (?pc u) p \<longleftrightarrow> (if u = t then p = ?d else takes (pc u) p)" for u p by simp
  have own: "owners_ok cap (q\<lparr>mq_dequeue := ?d + 1\<rparr>) ?pc"
  proof (rule owners_okI, unfold w k)
    fix u p
    assume "writes (pc u) p"
    then show "mq_dequeue (q\<lparr>mq_dequeue := ?d + 1\<rparr>) \<le> p \<and> p < mq_enqueue (q\<lparr>mq_dequeue := ?d + 1\<rparr>) \<and>
        mq_seq (q\<lparr>mq_dequeue := ?d + 1\<rparr>) ! (p mod cap) = p"
      using mq_writer(1-3) [OF ok, of u p] ready(2) by (cases "p = ?d") auto
  next
    fix u p
    assume "if u = t then p = ?d else takes (pc u) p"
    then show "p < mq_dequeue (q\<lparr>mq_dequeue := ?d + 1\<rparr>) \<and> mq_seq (q\<lparr>mq_dequeue := ?d + 1\<rparr>) ! (p mod cap) = p + 1"
      using mq_taker(1,2) [OF ok, of u p] ready by (auto split: if_splits)
  next
    fix u x p
    assume "if u = t then p = ?d else takes (pc u) p" and "if x = t then p = ?d else takes (pc x) p"
    then show "u = x"
      using mq_taker(1) [OF ok, of u p] mq_taker(1) [OF ok, of x p] mq_taker(3) [OF ok, of u p x]
      by (auto split: if_splits)
  qed (use mq_writer [OF ok] in auto)
  have cells: "cells_ok cap (q\<lparr>mq_dequeue := ?d + 1\<rparr>) h ?pc"
    unfolding cells_ok_def w
  proof (intro conjI allI impI)
    fix p
    assume p: "mq_enqueue (q\<lparr>mq_dequeue := ?d + 1\<rparr>) \<le> p" "p < mq_dequeue (q\<lparr>mq_dequeue := ?d + 1\<rparr>) + cap"
    show "mq_seq (q\<lparr>mq_dequeue := ?d + 1\<rparr>) ! (p mod cap) = p \<or>
        (\<exists>r t. p = r + cap \<and> mq_seq (q\<lparr>mq_dequeue := ?d + 1\<rparr>) ! (p mod cap) = r + 1 \<and> takes (?pc t) r)"
    proof (cases "p = ?d + cap")
      case True
      then show ?thesis using ready(2) by (auto simp: k)
    next
      case False
      moreover have "takes (?pc u) r" if "takes (pc u) r" for u r using that pc by auto
      ultimately show ?thesis using mq_open [OF ok, of p] p by (auto simp del: fun_upd_apply)
    qed
  qed (use mq_queued [OF ok] in auto)
  have pcs: "pc_ok cap (q\<lparr>mq_dequeue := ?d + 1\<rparr>) h (?pc u)" for u
  proof (cases "u = t")
    case True
    then show ?thesis using ready by simp
  next
    case False
    then show ?thesis using pc_ok_mono [OF mq_pc_ok [OF ok, of u], of "q\<lparr>mq_dequeue := ?d + 1\<rparr>" h] by simp
  qed
  show "mq_ok cap (q\<lparr>mq_dequeue := ?d + 1\<rparr>) h ?pc"
    using ok own cells pcs ready(1) f(4) by (simp add: mq_ok_def)
qed

text \<open>Different owners work on different cells.\<close>

lemma writers_apart:
  assumes "mq_ok cap q h pc" and "writes (pc t) p" and "mq_dequeue q \<le> r" and "r < mq_dequeue q + cap" and "r \<noteq> p"
  shows "r mod cap \<noteq> p mod cap"
proof
  assume "r mod cap = p mod cap"
  moreover have "p < mq_dequeue q + cap" using mq_writer(2) [OF assms(1,2)] mq_facts(4) [OF assms(1)] by simp
  ultimately have "r = p" by (rule window_unique [OF _ assms(3,4) mq_writer(1) [OF assms(1,2)]])
  then show False using assms(5) by simp
qed

lemma taker_apart:
  assumes "mq_ok cap q h pc" and "takes (pc t) p" and "mq_dequeue q \<le> r" and "r < mq_dequeue q + cap" and "r \<noteq> p + cap"
  shows "r mod cap \<noteq> p mod cap"
proof
  assume "r mod cap = p mod cap"
  then have "r mod cap = (p + cap) mod cap" by simp
  moreover have "mq_dequeue q \<le> p + cap" using taker_window(1) [OF assms(1,2)] mq_facts(3) [OF assms(1)] by simp
  ultimately have "r = p + cap"
    using window_unique [OF _ assms(3,4)] taker_window(2) [OF assms(1,2)] by blast
  then show False using assms(5) by simp
qed

lemma writer_taker_apart:
  assumes "mq_ok cap q h pc" and "writes (pc t) p" and "takes (pc u) r"
  shows "r mod cap \<noteq> p mod cap"
proof
  assume e: "r mod cap = p mod cap"
  have "p = r + 1" using mq_writer(3) [OF assms(1,2)] mq_taker(2) [OF assms(1,3)] e by simp
  then show False using shifted_cell [OF e [symmetric] mq_facts(2) [OF assms(1)]] by simp
qed

text \<open>The value is written to the cell.\<close>

lemma mq_ok_write:
  assumes ok: "mq_ok cap q h pc" and pc: "pc t = Push_write v p"
  shows "mq_ok cap (set_val p v q) h (pc(t := Push_publish p))"
proof -
  let ?pc = "pc(t := Push_publish p)"
  note f = mq_facts [OF ok]
  have wt: "writes (pc t) p" by (simp add: pc)
  have w: "writes (?pc u) = writes (pc u)" and k: "takes (?pc u) = takes (pc u)" for u by (auto simp: pc fun_eq_iff)
  have val: "mq_val (set_val p v q) ! (r mod cap) = mq_val q ! (r mod cap)" if "r mod cap \<noteq> p mod cap" for r
    using that by (simp add: set_val_def mq_index [OF ok])
  have own: "owners_ok cap (set_val p v q) ?pc"
    using ok by (simp add: mq_ok_def owners_ok_def w k del: fun_upd_apply)
  have cells: "cells_ok cap (set_val p v q) h ?pc"
    unfolding cells_ok_def w k set_val_frame
  proof (intro conjI allI impI)
    fix r
    assume r: "mq_dequeue q \<le> r" "r < mq_enqueue q"
    show "mq_seq q ! (r mod cap) = r \<and> (\<exists>t. writes (pc t) r) \<or>
        mq_seq q ! (r mod cap) = r + 1 \<and> mq_val (set_val p v q) ! (r mod cap) = h ! r"
    proof (cases "r = p")
      case True
      then show ?thesis using mq_writer(3) [OF ok wt] wt by auto
    next
      case False
      then have "r mod cap \<noteq> p mod cap" using r f(4) by (intro writers_apart [OF ok wt]) simp_all
      then show ?thesis using mq_queued [OF ok r] by (simp add: val)
    qed
  qed (use mq_open [OF ok] in auto)
  have pcs: "pc_ok cap (set_val p v q) h (?pc u)" for u
  proof (cases "u = t")
    case True
    have "h ! p = v" using mq_pc_ok [OF ok, of t] by (simp add: pc)
    then show ?thesis using True f(1,6) by (simp add: set_val_def mq_index [OF ok])
  next
    case False
    have "r mod cap \<noteq> p mod cap" if r: "writes (pc u) r \<or> takes (pc u) r" for r
      using r
    proof
      assume u: "writes (pc u) r"
      then have "r \<noteq> p" using mq_writer(4) [OF ok wt] False by blast
      then show ?thesis using mq_writer(1,2) [OF ok u] f(4) by (intro writers_apart [OF ok wt]) simp_all
    next
      assume "takes (pc u) r"
      then show ?thesis by (rule writer_taker_apart [OF ok wt])
    qed
    then have "pc_ok cap (set_val p v q) h (pc u)"
      by (intro pc_ok_mono [OF mq_pc_ok [OF ok, of u]]) (auto simp: val)
    then show ?thesis using False by simp
  qed
  show ?thesis using ok own cells pcs by (simp add: mq_ok_def)
qed

text \<open>The cell is published.\<close>

lemma mq_ok_publish:
  assumes ok: "mq_ok cap q h pc" and pc: "pc t = Push_publish p"
  shows "mq_ok cap (set_seq p (p + 1) q) h (pc(t := PC_return R_pushed))"
proof -
  let ?pc = "pc(t := PC_return R_pushed)" and ?q = "set_seq p (p + 1) q"
  note f = mq_facts [OF ok]
  have wt: "writes (pc t) p" by (simp add: pc)
  note p = mq_writer [OF ok wt]
  have w: "writes (?pc u) r \<longleftrightarrow> u \<noteq> t \<and> writes (pc u) r" and k: "takes (?pc u) = takes (pc u)" for u r
    by (auto simp: pc fun_eq_iff)
  have seq: "mq_seq ?q ! (r mod cap) = mq_seq q ! (r mod cap)" if "r mod cap \<noteq> p mod cap" for r
    using that by (simp add: set_seq_def mq_index [OF ok])
  have here: "mq_seq ?q ! (p mod cap) = p + 1" using f(1,5) by (simp add: set_seq_def mq_index [OF ok])
  have up: "mq_seq q ! (r mod cap) \<le> mq_seq ?q ! (r mod cap)" for r
    using seq [of r] here p(3) by (cases "r mod cap = p mod cap") simp_all
  have other: "r mod cap \<noteq> p mod cap" if "writes (?pc u) r" for u r
  proof -
    have u: "writes (pc u) r" "u \<noteq> t" using that w by auto
    then have "r \<noteq> p" using p(4) by blast
    then show ?thesis using mq_writer(1,2) [OF ok u(1)] f(4) by (intro writers_apart [OF ok wt]) simp_all
  qed
  have own: "owners_ok cap ?q ?pc"
  proof (rule owners_okI)
    fix u r
    assume r: "writes (?pc u) r"
    then have "writes (pc u) r" using w by auto
    then show "mq_dequeue ?q \<le> r \<and> r < mq_enqueue ?q \<and> mq_seq ?q ! (r mod cap) = r"
      using mq_writer(1-3) [OF ok, of u r] seq [OF other [OF r]] by simp
  next
    fix u r
    assume "takes (?pc u) r"
    then have r: "takes (pc u) r" by (simp only: k)
    then show "r < mq_dequeue ?q \<and> mq_seq ?q ! (r mod cap) = r + 1"
      using mq_taker(1,2) [OF ok r] seq [OF writer_taker_apart [OF ok wt r]] by simp
  next
    fix u x r
    assume "writes (?pc u) r" "writes (?pc x) r"
    then show "u = x" using mq_writer(4) [OF ok, of u r x] by (auto simp: w simp del: fun_upd_apply)
  next
    fix u x r
    assume "takes (?pc u) r" "takes (?pc x) r"
    then show "u = x" using mq_taker(3) [OF ok, of u r x] by (auto simp: k simp del: fun_upd_apply)
  qed
  have cells: "cells_ok cap ?q h ?pc"
    unfolding cells_ok_def set_seq_frame k
  proof (intro conjI allI impI)
    fix r
    assume r: "mq_dequeue q \<le> r" "r < mq_enqueue q"
    show "mq_seq ?q ! (r mod cap) = r \<and> (\<exists>t. writes (?pc t) r) \<or>
        mq_seq ?q ! (r mod cap) = r + 1 \<and> mq_val q ! (r mod cap) = h ! r"
    proof (cases "r = p")
      case True
      then show ?thesis using here mq_pc_ok [OF ok, of t] by (simp add: pc)
    next
      case False
      then have a: "r mod cap \<noteq> p mod cap" using r f(4) by (intro writers_apart [OF ok wt]) simp_all
      have "writes (?pc u) r" if "writes (pc u) r" for u using that False by (auto simp: pc)
      then show ?thesis using mq_queued [OF ok r] seq [OF a] by (auto simp del: fun_upd_apply)
    qed
  next
    fix r
    assume r: "mq_enqueue q \<le> r" "r < mq_dequeue q + cap"
    then have "r mod cap \<noteq> p mod cap" using f(3) p(2) by (intro writers_apart [OF ok wt]) simp_all
    then show "mq_seq ?q ! (r mod cap) = r \<or> (\<exists>x t. r = x + cap \<and> mq_seq ?q ! (r mod cap) = x + 1 \<and> takes (pc t) x)"
      using mq_open [OF ok r] seq by simp
  qed
  have pcs: "pc_ok cap ?q h (?pc u)" for u
  proof (cases "u = t")
    case False
    have "pc_ok cap ?q h (pc u)" by (rule pc_ok_mono [OF mq_pc_ok [OF ok, of u]]) (use up in \<open>simp_all\<close>)
    then show ?thesis using False by simp
  qed simp
  show ?thesis using ok own cells pcs by (simp add: mq_ok_def)
qed

text \<open>The cell is handed to the next round.\<close>

lemma mq_ok_release:
  assumes ok: "mq_ok cap q h pc" and pc: "pc t = Pop_release p v"
  shows "mq_ok cap (set_seq p (p + mq_mask q + 1) q) h (pc(t := PC_return (R_popped v)))"
proof -
  let ?pc = "pc(t := PC_return (R_popped v))" and ?q = "set_seq p (p + mq_mask q + 1) q"
  note f = mq_facts [OF ok]
  have kt: "takes (pc t) p" by (simp add: pc)
  note p = mq_taker [OF ok kt]
  have cap: "p + mq_mask q + 1 = p + cap" using f(1,8) by simp
  have w: "writes (?pc u) = writes (pc u)" and k: "takes (?pc u) r \<longleftrightarrow> u \<noteq> t \<and> takes (pc u) r" for u r
    by (auto simp: pc fun_eq_iff)
  have seq: "mq_seq ?q ! (r mod cap) = mq_seq q ! (r mod cap)" if "r mod cap \<noteq> p mod cap" for r
    using that by (simp add: set_seq_def mq_index [OF ok])
  have here: "mq_seq ?q ! (p mod cap) = p + cap"
    unfolding cap using f(1,5) by (simp add: set_seq_def mq_index [OF ok])
  have up: "mq_seq q ! (r mod cap) \<le> mq_seq ?q ! (r mod cap)" for r
    using seq [of r] here p(2) f(1) by (cases "r mod cap = p mod cap") simp_all
  have other: "r mod cap \<noteq> p mod cap" if "takes (?pc u) r" for u r
  proof -
    have u: "takes (pc u) r" "u \<noteq> t" using that k by auto
    then have "r \<noteq> p" using p(3) by blast
    then have "(r + cap) mod cap \<noteq> p mod cap"
      using taker_window [OF ok u(1)] f(3) by (intro taker_apart [OF ok kt]) simp_all
    then show ?thesis by simp
  qed
  have own: "owners_ok cap ?q ?pc"
  proof (rule owners_okI)
    fix u r
    assume "writes (?pc u) r"
    then have r: "writes (pc u) r" by (simp only: w)
    have "r mod cap \<noteq> p mod cap" using writer_taker_apart [OF ok r kt] by simp
    then show "mq_dequeue ?q \<le> r \<and> r < mq_enqueue ?q \<and> mq_seq ?q ! (r mod cap) = r"
      using mq_writer(1-3) [OF ok r] seq by simp
  next
    fix u r
    assume r: "takes (?pc u) r"
    then have "takes (pc u) r" using k by auto
    then show "r < mq_dequeue ?q \<and> mq_seq ?q ! (r mod cap) = r + 1"
      using mq_taker(1,2) [OF ok, of u r] seq [OF other [OF r]] by simp
  next
    fix u x r
    assume "writes (?pc u) r" "writes (?pc x) r"
    then show "u = x" using mq_writer(4) [OF ok, of u r x] by (auto simp: w simp del: fun_upd_apply)
  next
    fix u x r
    assume "takes (?pc u) r" "takes (?pc x) r"
    then show "u = x" using mq_taker(3) [OF ok, of u r x] by (auto simp: k simp del: fun_upd_apply)
  qed
  have cells: "cells_ok cap ?q h ?pc"
    unfolding cells_ok_def set_seq_frame w
  proof (intro conjI allI impI)
    fix r
    assume r: "mq_dequeue q \<le> r" "r < mq_enqueue q"
    have "r \<noteq> p + cap" using taker_window(1) [OF ok kt] r by simp
    then have "r mod cap \<noteq> p mod cap" using r f(4) by (intro taker_apart [OF ok kt]) simp_all
    then show "mq_seq ?q ! (r mod cap) = r \<and> (\<exists>t. writes (pc t) r) \<or>
        mq_seq ?q ! (r mod cap) = r + 1 \<and> mq_val q ! (r mod cap) = h ! r"
      using mq_queued [OF ok r] seq by simp
  next
    fix r
    assume r: "mq_enqueue q \<le> r" "r < mq_dequeue q + cap"
    show "mq_seq ?q ! (r mod cap) = r \<or> (\<exists>x t. r = x + cap \<and> mq_seq ?q ! (r mod cap) = x + 1 \<and> takes (?pc t) x)"
    proof (cases "r = p + cap")
      case True
      then show ?thesis using here by simp
    next
      case False
      then have a: "r mod cap \<noteq> p mod cap" using r f(3) by (intro taker_apart [OF ok kt]) simp_all
      have "takes (?pc u) x" if "takes (pc u) x" "r = x + cap" for u x using that False pc by auto
      then show ?thesis using mq_open [OF ok r] seq [OF a] by (auto simp del: fun_upd_apply)
    qed
  qed
  have pcs: "pc_ok cap ?q h (?pc u)" for u
  proof (cases "u = t")
    case False
    have "pc_ok cap ?q h (pc u)" by (rule pc_ok_mono [OF mq_pc_ok [OF ok, of u]]) (use up in simp_all)
    then show ?thesis using False by simp
  qed simp
  show ?thesis using ok own cells pcs by (simp add: mq_ok_def)
qed

section \<open>The queue implements the specification\<close>

text \<open>A step that changes neither the values nor what a thread is doing is no step of the specification.\<close>

lemma mq_rel_silent:
  assumes "mq_ok cap (ms_queue s) h (ms_pc s)" and "ff_items a = drop (mq_dequeue (ms_queue s)) h"
    and "ff_status a = (\<lambda>t. status_of h (ms_pc s t))"
    and "mq_ok cap q h ((ms_pc s)(t := c))" and "mq_dequeue q = mq_dequeue (ms_queue s)"
    and "status_of h c = status_of h (ms_pc s t)"
  shows "mq_rel cap \<lparr>ms_queue = q, ms_pc = (ms_pc s)(t := c)\<rparr> a"
  unfolding mq_rel_def using assms by (intro exI [of _ h]) (auto simp: fun_eq_iff)

lemma taker_status: "takes c r \<Longrightarrow> \<exists>w. status_of h c = Done (R_popped w)"
  by (cases c) auto

lemma writer_status: "writes c r \<Longrightarrow> status_of h c = Done R_pushed"
  by (cases c) auto

text \<open>A step at which an operation takes effect.\<close>

lemma mq_rel_effect:
  assumes "ff_status a = (\<lambda>t. status_of h (ms_pc s t))" and "status_of h (ms_pc s t) = Called op"
    and "mq_ok cap q h' ((ms_pc s)(t := c))" and "status_of h' c = Done r"
    and "\<And>u. u \<noteq> t \<Longrightarrow> status_of h' (ms_pc s u) = status_of h (ms_pc s u)"
    and "fifo_effect cap a op r (drop (mq_dequeue q) h')"
  shows "\<exists>b. fifo_step cap a None b \<and> mq_rel cap \<lparr>ms_queue = q, ms_pc = (ms_pc s)(t := c)\<rparr> b"
proof -
  let ?b = "\<lparr>ff_items = drop (mq_dequeue q) h', ff_status = (ff_status a)(t := Done r)\<rparr>"
  have "ff_status a t = Called op" using assms(1,2) by simp
  then have "fifo_step cap a None ?b" using assms(6) by (rule fifo_do)
  moreover have "mq_rel cap \<lparr>ms_queue = q, ms_pc = (ms_pc s)(t := c)\<rparr> ?b"
    unfolding mq_rel_def using assms(1,3,4,5) by (intro exI [of _ h']) (auto simp: fun_eq_iff)
  ultimately show ?thesis by blast
qed

lemma internal_match:
  assumes ok: "mq_ok cap (ms_queue s) h (ms_pc s)" and items: "ff_items a = drop (mq_dequeue (ms_queue s)) h"
    and status: "ff_status a = (\<lambda>t. status_of h (ms_pc s t))"
    and step: "mq_next spurious (ms_pc s t) (ms_queue s) = (c, q)"
  shows "(\<exists>b. fifo_step cap a None b \<and> mq_rel cap \<lparr>ms_queue = q, ms_pc = (ms_pc s)(t := c)\<rparr> b) \<or>
    mq_rel cap \<lparr>ms_queue = q, ms_pc = (ms_pc s)(t := c)\<rparr> a"
proof -
  let ?q = "ms_queue s"
  note f = mq_facts [OF ok]
  note silent = mq_rel_silent [OF ok items status]
  note pcok = mq_pc_ok [OF ok, of t]
  have len: "length (ff_items a) = mq_enqueue ?q - mq_dequeue ?q" using items f(7) by simp
  have seqs: "seq_at ?q p = mq_seq ?q ! (p mod cap)" for p by (simp add: seq_at_def mq_index [OF ok])
  have keep: "mq_ok cap ?q h ((ms_pc s)(t := x))"
    if "pc_ok cap ?q h x" "writes x = writes (ms_pc s t)" "takes x = takes (ms_pc s t)" for x
    by (rule mq_ok_local [OF ok that])
  show ?thesis
  proof (cases "ms_pc s t")
    case (Push_check v p)
    show ?thesis
    proof (cases "seq_at ?q p < p")
      case True
      then have c: "c = PC_return R_full" "q = ?q" using step by (simp_all add: Push_check)
      have "mq_enqueue ?q = mq_dequeue ?q + cap \<or> (\<exists>t r. takes (ms_pc s t) r)"
        using mq_full [OF ok _ True [unfolded seqs]] pcok by (simp add: Push_check)
      then have "fifo_effect cap a (Op_push v) R_full (drop (mq_dequeue q) h)"
        using len items taker_status [of _ _ h] by (auto simp: c status)
      then show ?thesis
        using mq_rel_effect [OF status _ keep, of "Op_push v" "PC_return R_full" R_full]
        by (simp add: c Push_check fun_eq_iff)
    next
      case False
      then have "q = ?q" "c = Push_cas v p \<and> seq_at ?q p = p \<or> c = Push_load v" using step
        by (auto simp: Push_check split: if_splits)
      then show ?thesis
        using pcok by (intro disjI2 silent) (auto simp: Push_check seqs fun_eq_iff intro!: keep)
    qed
  next
    case (Push_cas v p)
    show ?thesis
    proof (cases "mq_enqueue ?q = p \<and> \<not> spurious")
      case True
      then have c: "c = Push_write v p" "q = ?q\<lparr>mq_enqueue := p + 1\<rparr>" and p: "p = mq_enqueue ?q"
        using step by (simp_all add: Push_cas)
      have "ms_pc s t = Push_cas v (mq_enqueue ?q)" using Push_cas p by simp
      note claim = mq_ok_push_claim [OF ok this]
      have "status_of (h @ [v]) (ms_pc s u) = status_of h (ms_pc s u)" for u
      proof -
        have "x < length h" if "takes (ms_pc s u) x" for x using mq_taker(1) [OF ok that] f(3,7) by simp
        then show ?thesis by (cases "ms_pc s u") (auto simp: nth_append)
      qed
      moreover have "fifo_effect cap a (Op_push v) R_pushed (drop (mq_dequeue q) (h @ [v]))"
        using claim(2) f(3,7) len items by (simp add: c)
      ultimately show ?thesis
        using mq_rel_effect [OF status _ claim(1), of "Op_push v" R_pushed] by (simp add: c p Push_cas)
    next
      case False
      then have "c = Push_check v (mq_enqueue ?q)" "q = ?q" using step by (auto simp: Push_cas)
      then show ?thesis by (intro disjI2 silent) (auto simp: Push_cas fun_eq_iff intro!: keep)
    qed
  next
    case (Push_write v p)
    then show ?thesis using step mq_ok_write [OF ok Push_write] by (intro disjI2 silent) auto
  next
    case (Push_publish p)
    then show ?thesis using step mq_ok_publish [OF ok Push_publish] by (intro disjI2 silent) auto
  next
    case (Pop_check p)
    show ?thesis
    proof (cases "seq_at ?q p < p + 1")
      case True
      then have c: "c = PC_return R_empty" "q = ?q" using step by (simp_all add: Pop_check)
      have "mq_dequeue ?q = mq_enqueue ?q \<or> (\<exists>t r. writes (ms_pc s t) r)"
        using mq_empty [OF ok _ True [unfolded seqs]] pcok by (simp add: Pop_check)
      then have "fifo_effect cap a Op_pop R_empty (drop (mq_dequeue q) h)"
        using f(7) items writer_status [of _ _ h] by (auto simp: c status)
      then show ?thesis
        using mq_rel_effect [OF status _ keep, of Op_pop "PC_return R_empty" R_empty]
        by (simp add: c Pop_check fun_eq_iff)
    next
      case False
      then have "q = ?q" "c = Pop_cas p \<and> seq_at ?q p = p + 1 \<or> c = Pop_load" using step
        by (auto simp: Pop_check split: if_splits)
      then show ?thesis
        using pcok by (intro disjI2 silent) (auto simp: Pop_check seqs fun_eq_iff intro!: keep)
    qed
  next
    case (Pop_cas p)
    show ?thesis
    proof (cases "mq_dequeue ?q = p \<and> \<not> spurious")
      case True
      then have c: "c = Pop_take p" "q = ?q\<lparr>mq_dequeue := p + 1\<rparr>" and p: "p = mq_dequeue ?q"
        using step by (simp_all add: Pop_cas)
      have "ms_pc s t = Pop_cas (mq_dequeue ?q)" using Pop_cas p by simp
      note claim = mq_ok_pop_claim [OF ok this]
      have "fifo_effect cap a Op_pop (R_popped (h ! p)) (drop (mq_dequeue q) h)"
        using claim(2) f(7) items by (simp add: c p Cons_nth_drop_Suc)
      then show ?thesis
        using mq_rel_effect [OF status _ claim(1), of Op_pop "R_popped (h ! p)"] by (simp add: c p Pop_cas)
    next
      case False
      then have "c = Pop_check (mq_dequeue ?q)" "q = ?q" using step by (auto simp: Pop_cas)
      then show ?thesis by (intro disjI2 silent) (auto simp: Pop_cas fun_eq_iff intro!: keep)
    qed
  next
    case (Pop_take p)
    then have c: "c = Pop_release p (mq_val ?q ! (p mod cap))" "q = ?q"
      using step by (auto simp: mq_index [OF ok])
    then show ?thesis using pcok by (intro disjI2 silent) (auto simp: Pop_take fun_eq_iff intro!: keep)
  next
    case (Pop_release p v)
    then show ?thesis using step mq_ok_release [OF ok Pop_release] by (intro disjI2 silent) auto
  qed (use step pcok in \<open>auto simp: fun_eq_iff intro!: silent keep\<close>)
qed

lemma mq_match:
  assumes "mq_rel cap s a" and "mq_step s l s'"
  shows "(\<exists>a'. fifo_step cap a l a' \<and> mq_rel cap s' a') \<or> l = None \<and> mq_rel cap s' a"
proof -
  obtain h where ok: "mq_ok cap (ms_queue s) h (ms_pc s)" and items: "ff_items a = drop (mq_dequeue (ms_queue s)) h"
    and status: "ff_status a = (\<lambda>t. status_of h (ms_pc s t))"
    using assms(1) by (auto simp: mq_rel_def)
  from assms(2) show ?thesis
  proof cases
    case (mq_call t op)
    have "mq_ok cap (ms_queue s) h ((ms_pc s)(t := op_entry op))"
      using mq_call(3) by (cases op) (auto simp: fun_eq_iff intro!: mq_ok_local [OF ok])
    then have "mq_rel cap s' (a\<lparr>ff_status := (ff_status a)(t := Called op)\<rparr>)"
      unfolding mq_rel_def using items by (intro exI [of _ h]) (cases op; auto simp: mq_call(2) status fun_eq_iff)
    moreover have "ff_status a t = Ready" using mq_call(3) by (simp add: status)
    ultimately show ?thesis using mq_call(1) by (auto intro: fifo_call)
  next
    case (mq_return t r)
    have "mq_ok cap (ms_queue s) h ((ms_pc s)(t := PC_idle))"
      using mq_return(3) by (auto simp: fun_eq_iff intro!: mq_ok_local [OF ok])
    then have "mq_rel cap s' (a\<lparr>ff_status := (ff_status a)(t := Ready)\<rparr>)"
      unfolding mq_rel_def using items by (intro exI [of _ h]) (auto simp: mq_return(2) status fun_eq_iff)
    moreover have "ff_status a t = Done r" using mq_return(3) by (simp add: status)
    ultimately show ?thesis using mq_return(1) by (auto intro: fifo_return)
  next
    case (mq_internal spurious t c q)
    then show ?thesis using internal_match [OF ok items status mq_internal(3)] by auto
  qed
qed

interpretation mq: simulation mq_step "fifo_step cap" "mq_rel cap" for cap
  by unfold_locales (rule mq_match)

lemma mq_start_rel:
  assumes "is_power_of_two cap" and "2 \<le> cap"
  shows "mq_rel cap (mq_start cap) fifo_start"
  using assms
  by (auto simp: mq_rel_def mq_ok_def mq_start_def mpmc_init_def fifo_start_def owners_ok_def cells_ok_def)

section \<open>Properties\<close>


text \<open>A thread runs alone.\<close>

definition mq_tick :: "nat \<Rightarrow> mq_state \<Rightarrow> mq_state" where
  "mq_tick t s = (case mq_next False (ms_pc s t) (ms_queue s) of
     (c, q) \<Rightarrow> \<lparr>ms_queue = q, ms_pc = (ms_pc s)(t := c)\<rparr>)"

lemma exhibits_ticks: "exhibits mq_step s0 es s \<Longrightarrow> exhibits mq_step s0 es ((mq_tick t ^^ n) s)"
proof (induction n)
  case (Suc n)
  let ?s = "(mq_tick t ^^ n) s"
  obtain c q where n: "mq_next False (ms_pc ?s t) (ms_queue ?s) = (c, q)" by fastforce
  from exhibits_step [OF Suc.IH [OF Suc.prems] mq_internal [OF n]] n show ?case by (simp add: mq_tick_def [of t ?s])
qed simp

lemma exhibits_call:
  "exhibits mq_step s0 es s \<Longrightarrow> ms_pc s t = PC_idle \<Longrightarrow>
    exhibits mq_step s0 (es @ [Call t op]) (s\<lparr>ms_pc := (ms_pc s)(t := op_entry op)\<rparr>)"
  using exhibits_step [of mq_step s0 es s "Some (Call t op)"] mq_call by fastforce

lemma exhibits_return:
  "exhibits mq_step s0 es s \<Longrightarrow> ms_pc s t = PC_return r \<Longrightarrow>
    exhibits mq_step s0 (es @ [Return t r]) (s\<lparr>ms_pc := (ms_pc s)(t := PC_idle)\<rparr>)"
  using exhibits_step [of mq_step s0 es s "Some (Return t r)"] mq_return by fastforce


end
