(* ===== verification/Rounding.thy ===== *)
theory Rounding
  imports F64
begin

text \<open>
  What reading and writing decimal numbers needs of rounding: the double that \<open>round64\<close> finds depends
  only on the value of the fraction, every fraction close enough to a double rounds to it, and two
  doubles that compare equal are the same unless both are zero.
\<close>

section \<open>The exponent of a fraction\<close>

lemma div_mult_le_int: "0 < d \<Longrightarrow> n div d * d \<le> (n :: int)"
  by (metis add_le_cancel_left add_0_right div_mult_mod_eq pos_mod_sign)

lemma fquot_add: "fquot p q (e + int k) = fquot p q e div 2 ^ k"
proof (induction k)
  case 0
  then show ?case by simp
next
  case (Suc k)
  have "fquot p q (e + int (Suc k)) = fquot p q (e + int k) div 2"
    using fquot_Suc [of p q "e + int k"] by (simp add: ac_simps)
  also have "\<dots> = fquot p q e div (2 ^ k * 2)" by (simp add: Suc zdiv_zmult2_eq)
  finally show ?case by (simp add: ac_simps)
qed

definition exponent_ok :: "int \<Rightarrow> int \<Rightarrow> int \<Rightarrow> bool" where
  "exponent_ok p q e \<longleftrightarrow> -1074 \<le> e \<and> fquot p q e < 2 ^ 53 \<and> (e = -1074 \<or> 2 ^ 52 \<le> fquot p q e)"

lemma exponent_less:
  assumes "exponent_ok p q e" and "exponent_ok p q f"
  shows "\<not> e < f"
proof
  assume "e < f"
  define k where "k = nat (f - e)"
  have k: "f = e + int k" "0 < k" using \<open>e < f\<close> by (simp_all add: k_def)
  have q: "fquot p q f = fquot p q e div 2 ^ k" unfolding k(1) by (rule fquot_add)
  have lo: "2 ^ 52 \<le> fquot p q f" and up: "fquot p q e < 2 ^ 53"
    using assms \<open>e < f\<close> by (auto simp: exponent_ok_def)
  have "(2::int) ^ 1 \<le> 2 ^ k" using k(2) by (intro power_increasing) simp_all
  then have "2 ^ 53 \<le> 2 ^ 52 * (2::int) ^ k" by simp
  also have "\<dots> \<le> fquot p q f * 2 ^ k" using lo by simp
  also have "\<dots> \<le> fquot p q e"
    unfolding q by (simp add: div_mult_le_int)
  finally show False using up by simp
qed

lemma exponent_unique: "exponent_ok p q e \<Longrightarrow> exponent_ok p q f \<Longrightarrow> e = f"
  using exponent_less by (meson linorder_neqE)

definition rounded :: "bool \<Rightarrow> int \<Rightarrow> int \<Rightarrow> f64" where
  "rounded s m e =
    (if 971 < (if m = 2 ^ 53 then e + 1 else e) then F_inf s
     else F_num s (if m = 2 ^ 53 then 2 ^ 52 else m) (if m = 2 ^ 53 then e + 1 else e))"

lemma round64_exponent:
  assumes "0 < p" and "0 < q"
  obtains e where "exponent_ok p q e"
    and "round64 s p q = rounded s (rne (p * 2 ^ nat (- e)) (q * 2 ^ nat e)) e"
proof -
  define e0 where "e0 = max (-1074) (nbits p - nbits q - 53)"
  define e where "e = (if 2 ^ 53 \<le> fquot p q e0 then e0 + 1 else e0)"
  have up: "fquot p q e0 < 2 ^ 54"
    by (rule fquot_upper [OF assms]) (simp add: e0_def)
  have lo: "2 ^ 52 \<le> fquot p q e0" if "-1074 < e0"
    by (rule fquot_lower [OF assms]) (use that in \<open>simp add: e0_def\<close>)
  have pos: "0 \<le> fquot p q e0"
    using assms by (simp add: fquot_def pos_imp_zdiv_nonneg_iff)
  have "e0 = -1074 \<or> -1074 < e0" unfolding e0_def by linarith
  with up lo pos have "exponent_ok p q e" by (auto simp: e_def fquot_Suc exponent_ok_def)
  moreover have "round64 s p q = rounded s (rne (p * 2 ^ nat (- e)) (q * 2 ^ nat e)) e"
    using assms unfolding round64_def Let_def e_def fquot_def e0_def rounded_def by simp
  ultimately show thesis by (rule that)
qed

lemma round64_at:
  assumes "0 < p" and "0 < q" and "exponent_ok p q e"
  shows "round64 s p q = rounded s (rne (p * 2 ^ nat (- e)) (q * 2 ^ nat e)) e"
proof -
  obtain f where "exponent_ok p q f" "round64 s p q = rounded s (rne (p * 2 ^ nat (- f)) (q * 2 ^ nat f)) f"
    by (rule round64_exponent [OF assms(1,2)])
  then show ?thesis using exponent_unique [OF _ assms(3)] by blast
qed

section \<open>Equal fractions\<close>

lemma rne_scale: "0 < c \<Longrightarrow> 0 < d \<Longrightarrow> rne (n * c) (d * c) = rne n d"
  by (simp add: rne_def Let_def mod_mult_mult2 mult.left_commute [of 2])

lemma fquot_scale: "0 < c \<Longrightarrow> fquot (p * c) (q * c) e = fquot p q e"
  by (simp add: fquot_def mult.assoc mult.left_commute [of c] flip: mult.assoc [of _ _ c])

lemma round64_scale:
  assumes "0 \<le> p" and "0 < q" and "0 < c"
  shows "round64 s (p * c) (q * c) = round64 s p q"
proof (cases "p = 0")
  case True
  then show ?thesis by (simp add: round64_def)
next
  case False
  then have p: "0 < p" using assms(1) by simp
  obtain e where e: "exponent_ok p q e"
    "round64 s p q = rounded s (rne (p * 2 ^ nat (- e)) (q * 2 ^ nat e)) e"
    by (rule round64_exponent [OF p assms(2)])
  have "exponent_ok (p * c) (q * c) e" using e(1) assms(3) by (simp add: exponent_ok_def fquot_scale)
  then have "round64 s (p * c) (q * c) = rounded s (rne (p * c * 2 ^ nat (- e)) (q * c * 2 ^ nat e)) e"
    using p assms by (intro round64_at) simp_all
  also have "\<dots> = rounded s (rne (p * 2 ^ nat (- e) * c) (q * 2 ^ nat e * c)) e" by (simp add: ac_simps)
  finally show ?thesis using assms e(2) by (simp add: rne_scale)
qed

section \<open>Fractions close to a double\<close>

lemma div_near:
  fixes n d :: int
  assumes "0 < d" and "2 * \<bar>n - m * d\<bar> < d"
  shows "n div d = (if m * d \<le> n then m else m - 1)" and "n mod d = (if m * d \<le> n then n - m * d else n - m * d + d)"
proof -
  define k where "k = (if m * d \<le> n then m else m - 1)"
  define r where "r = (if m * d \<le> n then n - m * d else n - m * d + d)"
  have n: "n = d * k + r" by (simp add: k_def r_def right_diff_distrib)
  have r: "0 \<le> r" "r < d" using assms by (auto simp: r_def)
  have "n div d = k" by (rule int_div_pos_eq [OF n r])
  then show "n div d = (if m * d \<le> n then m else m - 1)" by (simp add: k_def)
  have "n mod d = r" by (rule int_mod_pos_eq [OF n r])
  then show "n mod d = (if m * d \<le> n then n - m * d else n - m * d + d)" by (simp add: r_def)
qed

lemma rne_near:
  assumes "0 < d" and "2 * \<bar>n - m * d\<bar> < d"
  shows "rne n d = m"
  using assms by (auto simp: rne_def Let_def div_near [OF assms])

lemma fquot_halves:
  obtains c where "0 < c" and "p * 2 ^ nat (- (e - 1)) * c = 2 * (p * 2 ^ nat (- e))" and "q * 2 ^ nat (e - 1) * c = q * 2 ^ nat e"
    and "c \<le> (2 :: int)"
proof (cases "e \<le> 0")
  case True
  then have "nat (- (e - 1)) = Suc (nat (- e))" "nat (e - 1) = 0" "nat e = 0" by auto
  then show thesis by (intro that [of 1]) simp_all
next
  case False
  then have "nat (- (e - 1)) = 0" "nat (- e) = 0" "nat e = Suc (nat (e - 1))" by auto
  then show thesis by (intro that [of 2]) simp_all
qed

lemma round64_near:
  assumes "f64_ok (F_num s m e)" and "0 < m" and "0 < p" and "0 < q"
    and "2 * \<bar>p * 2 ^ nat (- e) - m * (q * 2 ^ nat e)\<bar> < q * 2 ^ nat e"
    and "m = 2 ^ 52 \<Longrightarrow> 4 * \<bar>p * 2 ^ nat (- e) - m * (q * 2 ^ nat e)\<bar> < q * 2 ^ nat e"
  shows "round64 s p q = F_num s m e"
proof -
  define A where "A = p * 2 ^ nat (- e)"
  define B where "B = q * 2 ^ nat e"
  have B: "0 < B" using assms(4) by (simp add: B_def)
  have near: "2 * \<bar>A - m * B\<bar> < B" and near4: "m = 2 ^ 52 \<Longrightarrow> 4 * \<bar>A - m * B\<bar> < B"
    using assms(5,6) by (simp_all add: A_def B_def)
  have m: "m < 2 ^ 53" "-1074 \<le> e" "e \<le> 971" "2 ^ 52 \<le> m \<or> e = -1074"
    using assms(1) by (auto simp: f64_ok_def)
  have quot: "fquot p q e = (if m * B \<le> A then m else m - 1)"
    using div_near(1) [OF B near] by (simp add: fquot_def A_def B_def)
  show ?thesis
  proof (cases "m * B \<le> A \<or> e = -1074 \<or> m \<noteq> 2 ^ 52")
    case True
    then have "exponent_ok p q e" using m assms(2) by (auto simp: exponent_ok_def quot)
    then have "round64 s p q = rounded s (rne A B) e"
      using round64_at [OF assms(3,4)] by (simp add: A_def B_def)
    then show ?thesis using m by (simp add: rne_near [OF B near] rounded_def)
  next
    case False
    obtain c where c: "0 < c" "p * 2 ^ nat (- (e - 1)) * c = 2 * A" "q * 2 ^ nat (e - 1) * c = B" "c \<le> 2"
      unfolding A_def B_def by (rule fquot_halves)
    have m52: "m = 2 ^ 52" and less: "A < m * B" and e: "-1074 < e" using False m(2) by auto
    have "2 * A - 2 ^ 53 * B = 2 * (A - m * B)" by (simp add: m52)
    then have "\<bar>2 * A - 2 ^ 53 * B\<bar> = 2 * \<bar>A - m * B\<bar>" by (simp only: abs_mult)
    then have "2 * \<bar>2 * A - 2 ^ 53 * B\<bar> = 2 * (2 * \<bar>A - m * B\<bar>)" by (rule arg_cong)
    also have "\<dots> = 4 * \<bar>A - m * B\<bar>" by (simp only: mult.assoc [symmetric])
    also have "\<dots> < B" by (rule near4 [OF m52])
    finally have "2 * \<bar>2 * A - 2 ^ 53 * B\<bar> < B" .
    then have n': "2 * \<bar>p * 2 ^ nat (- (e - 1)) * c - 2 ^ 53 * (q * 2 ^ nat (e - 1) * c)\<bar> < q * 2 ^ nat (e - 1) * c"
      unfolding c(2,3) .
    have "p * 2 ^ nat (- (e - 1)) * c - 2 ^ 53 * (q * 2 ^ nat (e - 1) * c) =
        (p * 2 ^ nat (- (e - 1)) - 2 ^ 53 * (q * 2 ^ nat (e - 1))) * c" by (simp add: left_diff_distrib)
    then have "2 * \<bar>p * 2 ^ nat (- (e - 1)) - 2 ^ 53 * (q * 2 ^ nat (e - 1))\<bar> * c < q * 2 ^ nat (e - 1) * c"
      using n' c(1) by (simp add: abs_mult)
    then have n'': "2 * \<bar>p * 2 ^ nat (- (e - 1)) - 2 ^ 53 * (q * 2 ^ nat (e - 1))\<bar> < q * 2 ^ nat (e - 1)"
      using c(1) by simp
    have B': "0 < q * 2 ^ nat (e - 1)" using assms(4) by simp
    have "(2 ^ 53 * (q * 2 ^ nat (e - 1))) * c = 2 * (m * B)" using c(3) by (simp add: m52)
    moreover have "2 * A < 2 * (m * B)" using less by simp
    ultimately have "(p * 2 ^ nat (- (e - 1))) * c < (2 ^ 53 * (q * 2 ^ nat (e - 1))) * c"
      by (simp only: c(2))
    then have "\<not> 2 ^ 53 * (q * 2 ^ nat (e - 1)) \<le> p * 2 ^ nat (- (e - 1))" using c(1) by simp
    then have "fquot p q (e - 1) = 2 ^ 53 - 1"
      using div_near(1) [OF B' n''] by (simp add: fquot_def)
    then have "exponent_ok p q (e - 1)" using e by (simp add: exponent_ok_def)
    then have "round64 s p q = rounded s (2 ^ 53) (e - 1)"
      using round64_at [OF assms(3,4)] rne_near [OF B' n''] by simp
    then show ?thesis using m by (simp add: rounded_def m52)
  qed
qed

section \<open>Equal doubles\<close>

lemma f64_eq_unique:
  assumes "f64_eq (F_num s m e) (F_num t n f)" and "f64_ok (F_num s m e)" and "f64_ok (F_num t n f)" and "0 < m"
  shows "F_num s m e = F_num t n f"
proof -
  define g where "g = min e f"
  have eq: "f64_signed s (m * 2 ^ nat (e - g)) = f64_signed t (n * 2 ^ nat (f - g))"
    using assms(1) by (simp add: g_def Let_def)
  have m: "m < 2 ^ 53" "2 ^ 52 \<le> m \<or> e = -1074" "-1074 \<le> e" and n: "0 \<le> n" "n < 2 ^ 53" "2 ^ 52 \<le> n \<or> f = -1074" "-1074 \<le> f"
    using assms(2,3) by (auto simp: f64_ok_def)
  have pos: "0 < m * 2 ^ nat (e - g)" "0 \<le> n * 2 ^ nat (f - g)" using assms(4) n(1) by simp_all
  have st: "s = t" and v: "m * 2 ^ nat (e - g) = n * 2 ^ nat (f - g)"
    using eq pos by (auto simp: f64_signed_def split: if_splits)
  have big: "2 ^ 53 \<le> x * 2 ^ k" if "2 ^ 52 \<le> x" "0 < k" for x :: int and k
  proof -
    have "(2::int) ^ 1 \<le> 2 ^ k" using that(2) by (intro power_increasing) simp_all
    then have "2 ^ 52 * 2 \<le> x * 2 ^ k" using that(1) by (intro mult_mono) simp_all
    then show ?thesis by simp
  qed
  have "e = f"
  proof (rule linorder_cases [of e f])
    assume "e < f"
    then have "m = n * 2 ^ nat (f - e)" "2 ^ 52 \<le> n" using v n m by (auto simp: g_def)
    then show ?thesis using big [of n "nat (f - e)"] m(1) \<open>e < f\<close> by simp
  next
    assume "f < e"
    then have "n = m * 2 ^ nat (e - f)" "2 ^ 52 \<le> m" using v n m by (auto simp: g_def)
    then show ?thesis using big [of m "nat (e - f)"] n(2) \<open>f < e\<close> by simp
  qed simp
  then show ?thesis using v st by (simp add: g_def)
qed

end
