(* ===== verification/Numtext.thy ===== *)
theory Numtext
  imports Rounding
begin

text \<open>
  The C library functions that the source reads and writes numbers with: \<open>strtod\<close> and \<open>strtoul\<close> in the C
  locale, \<open>std::to_string\<close>, and the \<open>%g\<close>, \<open>%f\<close> and \<open>%lld\<close> conversions of \<open>snprintf\<close>.  Every conversion
  between text and double is correctly rounded.  Strings are lists of bytes.  The results used by the
  clients: decimal text reads back as the rounded fraction it denotes, and 17 significant digits
  determine a double.
\<close>

section \<open>Quotes and lines\<close>

definition quoted :: "string \<Rightarrow> string" where
  "quoted s = [CHR 0x27] @ s @ [CHR 0x27]"

abbreviation dq :: string where
  "dq \<equiv> [CHR 0x22]"

abbreviation nl :: string where
  "nl \<equiv> [CHR 0x0A]"

section \<open>Digits\<close>

definition digit_char :: "nat \<Rightarrow> char" where
  "digit_char d = char_of (48 + d)"

definition is_digit :: "char \<Rightarrow> bool" where
  "is_digit c \<longleftrightarrow> 48 \<le> (of_char c :: nat) \<and> (of_char c :: nat) \<le> 57"

definition digit_val :: "char \<Rightarrow> nat" where
  "digit_val c = of_char c - 48"

definition is_xdigit :: "char \<Rightarrow> bool" where
  "is_xdigit c \<longleftrightarrow> is_digit c \<or> (let n = of_char c :: nat in 65 \<le> n \<and> n \<le> 70 \<or> 97 \<le> n \<and> n \<le> 102)"

definition xdigit_val :: "char \<Rightarrow> nat" where
  "xdigit_val c = (if is_digit c then digit_val c
     else let n = of_char c in if 97 \<le> n then n - 87 else n - 55)"

definition is_alpha :: "char \<Rightarrow> bool" where
  "is_alpha c \<longleftrightarrow> (let n = of_char c :: nat in 65 \<le> n \<and> n \<le> 90 \<or> 97 \<le> n \<and> n \<le> 122)"

definition is_alnum :: "char \<Rightarrow> bool" where
  "is_alnum c \<longleftrightarrow> is_alpha c \<or> is_digit c"

definition is_space :: "char \<Rightarrow> bool" where
  "is_space c \<longleftrightarrow> (let n = of_char c :: nat in n = 32 \<or> 9 \<le> n \<and> n \<le> 13)"

function show_digits :: "int \<Rightarrow> string" where
  "show_digits n = (if n < 10 then [digit_char (nat n)] else show_digits (n div 10) @ [digit_char (nat (n mod 10))])"
  by pat_completeness auto
termination
  by (relation "measure nat") auto

declare show_digits.simps [simp del]

definition show_int :: "int \<Rightarrow> string" where
  "show_int i = (if i < 0 then ''-'' @ show_digits (- i) else show_digits i)"

definition show_nat :: "nat \<Rightarrow> string" where
  "show_nat n = show_digits (int n)"

definition digits_val :: "string \<Rightarrow> int" where
  "digits_val s = foldl (\<lambda>a c. 10 * a + int (digit_val c)) 0 s"

definition xdigits_val :: "string \<Rightarrow> int" where
  "xdigits_val s = foldl (\<lambda>a c. 16 * a + int (xdigit_val c)) 0 s"

section \<open>Reading a double\<close>

definition scan_sign :: "string \<Rightarrow> bool \<times> string" where
  "scan_sign s = (case s of
      [] \<Rightarrow> (False, [])
    | c # r \<Rightarrow> if c = CHR ''-'' then (True, r) else if c = CHR ''+'' then (False, r) else (False, s))"

text \<open>The digits of an integer and fraction part, and what follows.\<close>

definition scan_fraction :: "(char \<Rightarrow> bool) \<Rightarrow> string \<Rightarrow> string \<times> string \<times> string" where
  "scan_fraction P s =
    (let ip = takeWhile P s; r = dropWhile P s
     in case r of
          [] \<Rightarrow> (ip, [], r)
        | c # r' \<Rightarrow>
            if c = CHR ''.'' \<and> (ip \<noteq> [] \<or> takeWhile P r' \<noteq> []) then (ip, takeWhile P r', dropWhile P r')
            else (ip, [], r))"

definition scan_exponent :: "char list \<Rightarrow> string \<Rightarrow> int \<times> string" where
  "scan_exponent marks s =
    (case s of
      [] \<Rightarrow> (0, [])
    | c # r \<Rightarrow>
        if c \<notin> set marks then (0, s)
        else (case scan_sign r of (neg, r') \<Rightarrow>
          let ds = takeWhile is_digit r' in
          if ds = [] then (0, s)
          else (if neg then - digits_val ds else digits_val ds, dropWhile is_digit r')))"

text \<open>The double nearest to \<open>M * 10 ^ x\<close>, and to \<open>M * 2 ^ x\<close>.\<close>

definition decimal64 :: "bool \<Rightarrow> int \<Rightarrow> int \<Rightarrow> f64" where
  "decimal64 s M x = round64 s (M * 10 ^ nat x) (10 ^ nat (- x))"

definition binary64 :: "bool \<Rightarrow> int \<Rightarrow> int \<Rightarrow> f64" where
  "binary64 s M x = round64 s (M * 2 ^ nat x) (2 ^ nat (- x))"

definition lower_char :: "char \<Rightarrow> char" where
  "lower_char c = (let n = of_char c :: nat in if 65 \<le> n \<and> n \<le> 90 then char_of (n + 32) else c)"

definition has_prefix :: "string \<Rightarrow> string \<Rightarrow> bool" where
  "has_prefix p s \<longleftrightarrow> map lower_char (take (length p) s) = p"

definition after_nan :: "string \<Rightarrow> string" where
  "after_nan r = (case r of
      [] \<Rightarrow> r
    | c # r' \<Rightarrow>
        if c = CHR ''('' then
          (case dropWhile (\<lambda>d. is_alnum d \<or> d = CHR ''_'') r' of
            [] \<Rightarrow> r
          | d # r'' \<Rightarrow> if d = CHR '')'' then r'' else r)
        else r)"

definition strtod_decimal :: "bool \<Rightarrow> string \<Rightarrow> (f64 \<times> string) option" where
  "strtod_decimal neg s =
    (case scan_fraction is_digit s of (ip, fp, r) \<Rightarrow>
      if ip = [] \<and> fp = [] then None
      else case scan_exponent ''eE'' r of (x, r') \<Rightarrow>
        Some (decimal64 neg (digits_val (ip @ fp)) (x - int (length fp)), r'))"

definition strtod_hex :: "bool \<Rightarrow> string \<Rightarrow> (f64 \<times> string) option" where
  "strtod_hex neg s =
    (case scan_fraction is_xdigit s of (ip, fp, r) \<Rightarrow>
      if ip = [] \<and> fp = [] then None
      else case scan_exponent ''pP'' r of (x, r') \<Rightarrow>
        Some (binary64 neg (xdigits_val (ip @ fp)) (x - 4 * int (length fp)), r'))"

text \<open>
  The value and the unread text; no conversion returns zero and the whole text.  \<open>''0x''\<close> without a
  hexadecimal digit is the number zero before an \<open>x\<close>.
\<close>

definition strtod :: "string \<Rightarrow> f64 \<times> string" where
  "strtod s =
    (case scan_sign (dropWhile is_space s) of (neg, r) \<Rightarrow>
      if has_prefix ''infinity'' r then (F_inf neg, drop 8 r)
      else if has_prefix ''inf'' r then (F_inf neg, drop 3 r)
      else if has_prefix ''nan'' r then (F_nan, after_nan (drop 3 r))
      else if has_prefix ''0x'' r \<and> strtod_hex neg (drop 2 r) \<noteq> None then the (strtod_hex neg (drop 2 r))
      else (case strtod_decimal neg r of None \<Rightarrow> (f64_zero, s) | Some v \<Rightarrow> v))"

text \<open>\<open>strtoul\<close> in base 16: a minus sign negates in \<open>unsigned long\<close>.\<close>

definition strtoul16 :: "string \<Rightarrow> int" where
  "strtoul16 s =
    (case scan_sign (dropWhile is_space s) of (neg, r) \<Rightarrow>
      let r' = (if has_prefix ''0x'' r \<and> drop 2 r \<noteq> [] \<and> is_xdigit (hd (drop 2 r)) then drop 2 r else r);
          v = min (xdigits_val (takeWhile is_xdigit r')) (2 ^ 64 - 1)
      in if neg then (2 ^ 64 - v) mod 2 ^ 64 else v)"

section \<open>Writing a double\<close>

text \<open>The decimal exponent of \<open>p / q\<close>.\<close>

function log10_up :: "int \<Rightarrow> int \<Rightarrow> nat" where
  "log10_up p q = (if q \<le> 0 \<or> p < 10 * q then 0 else Suc (log10_up p (10 * q)))"
  by pat_completeness auto
termination
  by (relation "measure (\<lambda>(p, q). nat (p - q))") auto

function log10_down :: "int \<Rightarrow> int \<Rightarrow> nat" where
  "log10_down p q = (if p \<le> 0 \<or> q \<le> p then 0 else Suc (log10_down (10 * p) q))"
  by pat_completeness auto
termination
  by (relation "measure (\<lambda>(p, q). nat (q - p))") auto

declare log10_up.simps [simp del] log10_down.simps [simp del]

definition log10_floor :: "int \<Rightarrow> int \<Rightarrow> int" where
  "log10_floor p q = (if q \<le> p then int (log10_up p q) else - int (log10_down p q))"

text \<open>The \<open>P\<close> significant decimal digits of \<open>p / q\<close> and the exponent of the first one.\<close>

definition decimal_digits :: "nat \<Rightarrow> int \<Rightarrow> int \<Rightarrow> int \<times> int" where
  "decimal_digits P p q =
    (let x = log10_floor p q;
         k = int P - 1 - x;
         n = rne (p * 10 ^ nat k) (q * 10 ^ nat (- k))
     in if n = 10 ^ P then (10 ^ (P - 1), x + 1) else (n, x))"

definition strip_zeros :: "string \<Rightarrow> string" where
  "strip_zeros s = rev (dropWhile (\<lambda>c. c = CHR ''0'') (rev s))"

definition with_fraction :: "string \<Rightarrow> string \<Rightarrow> string" where
  "with_fraction ip fp = (if fp = [] then ip else ip @ ''.'' @ fp)"

definition show_exponent :: "int \<Rightarrow> string" where
  "show_exponent x = (if x < 0 then ''e-'' else ''e+'') @
     (if \<bar>x\<bar> < 10 then ''0'' else []) @ show_digits \<bar>x\<bar>"

definition layout_g :: "nat \<Rightarrow> int \<Rightarrow> int \<Rightarrow> string" where
  "layout_g P n x =
    (let ds = show_digits n in
     if -4 \<le> x \<and> x < int P then
       (if 0 \<le> x then with_fraction (take (nat x + 1) ds) (strip_zeros (drop (nat x + 1) ds))
        else with_fraction ''0'' (replicate (nat (- x) - 1) (CHR ''0'') @ strip_zeros ds))
     else with_fraction (take 1 ds) (strip_zeros (drop 1 ds)) @ show_exponent x)"

fun fmt_g :: "nat \<Rightarrow> f64 \<Rightarrow> string" where
  "fmt_g P F_nan = ''nan''"
| "fmt_g P (F_inf s) = (if s then ''-inf'' else ''inf'')"
| "fmt_g P (F_num s m e) =
    (if s then ''-'' else []) @
    (if m = 0 then ''0''
     else case decimal_digits P (m * 2 ^ nat e) (2 ^ nat (- e)) of (n, x) \<Rightarrow> layout_g P n x)"

text \<open>\<open>%f\<close>, with six decimals.\<close>

fun fmt_f :: "f64 \<Rightarrow> string" where
  "fmt_f F_nan = ''nan''"
| "fmt_f (F_inf s) = (if s then ''-inf'' else ''inf'')"
| "fmt_f (F_num s m e) =
    (let ds = show_digits (rne (m * 2 ^ nat e * 10 ^ 6) (2 ^ nat (- e)));
         ds' = replicate (7 - length ds) (CHR ''0'') @ ds
     in (if s then ''-'' else []) @ take (length ds' - 6) ds' @ ''.'' @ drop (length ds' - 6) ds')"

fun f64_floor :: "f64 \<Rightarrow> f64" where
  "f64_floor F_nan = F_nan"
| "f64_floor (F_inf s) = F_inf s"
| "f64_floor (F_num s m e) =
    (let k = f64_signed s (m * 2 ^ nat e) div 2 ^ nat (- e)
     in if k = 0 then F_num s 0 (-1074) else f64_of_int k)"

fun f64_finite :: "f64 \<Rightarrow> bool" where
  "f64_finite (F_num s m e) = True"
| "f64_finite x = False"

end
