(* ===== verification/Numtext_Facts.thy ===== *)
theory Numtext_Facts
  imports Numtext
begin

text \<open>
  Reading back what was written: the digits of a number denote it, the layouts of \<open>%g\<close> are read as the
  decimal fraction they show, and the shortest of 15 to 17 significant digits that reads back equal
  determines the double.
\<close>

section \<open>Digits\<close>

lemma of_digit_char: "d < 10 \<Longrightarrow> of_char (digit_char d) = 48 + d"
  by (simp add: digit_char_def)

lemma digit_char_simps [simp]:
  "d < 10 \<Longrightarrow> is_digit (digit_char d)"
  "d < 10 \<Longrightarrow> digit_val (digit_char d) = d"
  by (simp_all add: is_digit_def digit_val_def of_digit_char)

lemma digits_val_append: "digits_val (a @ b) = digits_val a * 10 ^ length b + digits_val b"
proof (induction b rule: rev_induct)
  case Nil
  then show ?case by (simp add: digits_val_def)
next
  case (snoc c b)
  then show ?case by (simp add: digits_val_def algebra_simps flip: append_assoc)
qed

lemma digits_val_Nil [simp]: "digits_val [] = 0"
  by (simp add: digits_val_def)

lemma digits_val_nonneg: "0 \<le> digits_val s"
  by (induction s rule: rev_induct) (simp_all add: digits_val_append digits_val_def)

lemma digits_val_zeros [simp]: "digits_val (replicate k (CHR ''0'')) = 0"
proof (induction k)
  case (Suc k)
  have "replicate (Suc k) (CHR ''0'') = replicate k (CHR ''0'') @ [CHR ''0'']" by (simp add: replicate_append_same)
  then show ?case using Suc by (simp only: digits_val_append) (simp add: digits_val_def digit_val_def)
qed simp

lemma show_digits_props:
  "0 \<le> n \<Longrightarrow> (\<forall>c \<in> set (show_digits n). is_digit c) \<and> show_digits n \<noteq> [] \<and> digits_val (show_digits n) = n"
proof (induction n rule: show_digits.induct)
  case (1 n)
  show ?case
  proof (cases "n < 10")
    case True
    then have "show_digits n = [digit_char (nat n)]" by (simp add: show_digits.simps [of n])
    then show ?thesis using 1(2) True by (simp add: digits_val_def)
  next
    case False
    then have s: "show_digits n = show_digits (n div 10) @ [digit_char (nat (n mod 10))]" by (simp add: show_digits.simps [of n])
    have r: "digits_val [digit_char (nat (n mod 10))] = n mod 10" by (simp add: digits_val_def)
    show ?thesis using 1(1) [OF False] 1(2) by (simp add: s digits_val_append r)
  qed
qed

lemma show_digits_length:
  "0 \<le> n \<Longrightarrow> n < 10 ^ Suc k \<Longrightarrow> length (show_digits n) \<le> Suc k"
proof (induction k arbitrary: n)
  case 0
  then show ?case by (simp add: show_digits.simps [of n])
next
  case (Suc k)
  show ?case
  proof (cases "n < 10")
    case True
    then show ?thesis by (simp add: show_digits.simps [of n])
  next
    case False
    have "n div 10 < 10 ^ Suc k" using Suc.prems(2) by (simp add: div_less_iff_less_mult)
    then have "length (show_digits (n div 10)) \<le> Suc k" using Suc.IH Suc.prems(1) by simp
    then show ?thesis using False by (simp add: show_digits.simps [of n])
  qed
qed

lemma digits_val_less: "(\<forall>c \<in> set s. is_digit c) \<Longrightarrow> digits_val s < 10 ^ length s"
proof (induction s rule: rev_induct)
  case (snoc c s)
  have "digit_val c \<le> 9" using snoc.prems by (auto simp: is_digit_def digit_val_def)
  then show ?case using snoc by (simp add: digits_val_append) (simp add: digits_val_def)
qed simp

lemma show_digits_length_eq:
  assumes "10 ^ k \<le> n" and "n < 10 ^ Suc k"
  shows "length (show_digits n) = Suc k"
proof -
  have "(0::int) < 10 ^ k" by simp
  then have n: "0 \<le> n" using assms(1) by linarith
  have "n < 10 ^ length (show_digits n)"
    using show_digits_props [OF n] digits_val_less [of "show_digits n"] by simp
  then have "(10::int) ^ k < 10 ^ length (show_digits n)" using assms(1) by linarith
  then have "k < length (show_digits n)" by simp
  then show ?thesis using show_digits_length [OF n assms(2)] by simp
qed

lemma strip_zeros_split: obtains k where "s = strip_zeros s @ replicate k (CHR ''0'')"
proof -
  let ?z = "takeWhile (\<lambda>c. c = CHR ''0'') (rev s)"
  have "rev s = ?z @ rev (strip_zeros s)" by (simp add: strip_zeros_def)
  then have "s = strip_zeros s @ rev ?z" by (metis rev_append rev_rev_ident)
  moreover have "replicate (length ?z) (CHR ''0'') = ?z"
    by (rule replicate_length_same) (auto dest: set_takeWhileD)
  ultimately show thesis using that [of "length ?z"] by (metis rev_replicate)
qed

section \<open>Reading numerals\<close>

definition num_stop :: "string \<Rightarrow> bool" where
  "num_stop r \<longleftrightarrow> r = [] \<or> \<not> is_digit (hd r) \<and> hd r \<notin> set ''.eExX''"

lemma take_digits:
  assumes "\<forall>c \<in> set ds. is_digit c" and "r = [] \<or> \<not> is_digit (hd r)"
  shows "takeWhile is_digit (ds @ r) = ds" and "dropWhile is_digit (ds @ r) = r"
  using assms by (cases r; simp add: takeWhile_tail dropWhile_append3)+

lemma not_digit_marks [simp]:
  "\<not> is_digit (CHR ''.'')" "\<not> is_digit (CHR ''e'')" "\<not> is_digit (CHR ''+'')" "\<not> is_digit (CHR ''-'')"
  by (simp_all add: is_digit_def)

lemma scan_fraction_digits:
  assumes "\<forall>c \<in> set (ip @ fp). is_digit c" and "ip \<noteq> []" and "r = [] \<or> \<not> is_digit (hd r) \<and> hd r \<noteq> CHR ''.''"
  shows "scan_fraction is_digit (with_fraction ip fp @ r) = (ip, fp, r)"
proof (cases "fp = []")
  case True
  have e: "with_fraction ip fp @ r = ip @ r" using True by (simp add: with_fraction_def)
  have d: "takeWhile is_digit (ip @ r) = ip" "dropWhile is_digit (ip @ r) = r"
    using take_digits [of ip r] assms(1,3) by auto
  show ?thesis unfolding scan_fraction_def Let_def e d using assms(3) True by (cases r) simp_all
next
  case False
  have "takeWhile is_digit (ip @ CHR ''.'' # fp @ r) = ip" "dropWhile is_digit (ip @ CHR ''.'' # fp @ r) = CHR ''.'' # fp @ r"
    using take_digits [of ip "CHR ''.'' # fp @ r"] assms(1) by simp_all
  moreover have "takeWhile is_digit (fp @ r) = fp" "dropWhile is_digit (fp @ r) = r"
    using take_digits [of fp r] assms(1,3) by auto
  ultimately show ?thesis using False assms(2) by (simp add: scan_fraction_def with_fraction_def)
qed

lemma scan_exponent_show:
  assumes "r = [] \<or> \<not> is_digit (hd r)"
  shows "scan_exponent ''eE'' (show_exponent x @ r) = (x, r)"
proof -
  define ds where "ds = (if \<bar>x\<bar> < 10 then ''0'' else []) @ show_digits \<bar>x\<bar>"
  have z: "is_digit (CHR ''0'')" "digit_val (CHR ''0'') = 0" by (simp_all add: is_digit_def digit_val_def)
  have ds: "\<forall>c \<in> set ds. is_digit c" "ds \<noteq> []" "digits_val ds = \<bar>x\<bar>"
    using show_digits_props [of "\<bar>x\<bar>"] z by (auto simp: ds_def digits_val_append digits_val_def [of "''0''"])
  have e: "show_exponent x = (if x < 0 then ''e-'' else ''e+'') @ ds" by (simp add: show_exponent_def ds_def)
  show ?thesis using take_digits [OF ds(1) assms] ds
    by (simp add: scan_exponent_def e scan_sign_def)
qed

lemma digit_not:
  assumes "is_digit c"
  shows "\<not> is_space c" "c \<noteq> CHR ''-''" "c \<noteq> CHR ''+''" "lower_char c = c" "c \<noteq> CHR ''i''" "c \<noteq> CHR ''n''" "c \<noteq> CHR ''x''"
  using assms by (auto simp: is_digit_def is_space_def lower_char_def Let_def)

lemma lower_char_x:
  assumes "lower_char c = CHR ''x''"
  shows "c = CHR ''x'' \<or> c = CHR ''X''"
proof (cases "65 \<le> (of_char c :: nat) \<and> (of_char c :: nat) \<le> 90")
  case True
  then have "(of_char (lower_char c) :: nat) = of_char c + 32" by (simp add: lower_char_def)
  moreover have "(of_char (lower_char c) :: nat) = 120" by (simp add: assms)
  ultimately have "(of_char c :: nat) = of_char (CHR ''X'')" by simp
  then have "c = CHR ''X''" by (simp only: of_char_eq_iff)
  then show ?thesis ..
next
  case False
  then show ?thesis using assms by (auto simp: lower_char_def Let_def)
qed

lemma strtod_digits:
  assumes "is_digit c" and "t = [] \<or> hd t \<notin> set ''xX''"
  shows "strtod ((if s then ''-'' else []) @ c # t) =
    (case strtod_decimal s (c # t) of None \<Rightarrow> (f64_zero, (if s then ''-'' else []) @ c # t) | Some v \<Rightarrow> v)"
proof -
  note c = digit_not [OF assms(1)]
  have "\<not> is_space (CHR ''-'')" by (simp add: is_space_def)
  then have sign: "scan_sign (dropWhile is_space ((if s then ''-'' else []) @ c # t)) = (s, c # t)"
    using c by (simp add: scan_sign_def)
  have "\<not> has_prefix ''infinity'' (c # t)" "\<not> has_prefix ''inf'' (c # t)" "\<not> has_prefix ''nan'' (c # t)"
    using c by (simp_all add: has_prefix_def)
  moreover have "\<not> has_prefix ''0x'' (c # t)"
    using assms(2) by (cases t) (auto simp: has_prefix_def dest: lower_char_x)
  ultimately show ?thesis by (simp add: strtod_def sign)
qed

lemma show_exponent_Cons: "show_exponent x = CHR ''e'' # tl (show_exponent x)"
  by (simp add: show_exponent_def)

lemma strtod_numeral:
  assumes digits: "\<forall>c \<in> set (ip @ fp). is_digit c" "ip \<noteq> []" and stop: "num_stop r" and ex: "ex = [] \<and> x = 0 \<or> ex = show_exponent x"
  shows "strtod ((if s then ''-'' else []) @ with_fraction ip fp @ ex @ r) = (decimal64 s (digits_val (ip @ fp)) (x - int (length fp)), r)"
proof -
  obtain c t where t: "with_fraction ip fp @ ex @ r = c # t" and c: "is_digit c" and ht: "t = [] \<or> hd t \<notin> set ''xX''"
  proof -
    obtain c ip' where ip: "ip = c # ip'" using digits(2) by (cases ip) auto
    define t where "t = (if fp = [] then ip' else ip' @ ''.'' @ fp) @ ex @ r"
    have "ex = [] \<or> hd (ex @ r) = CHR ''e''" using ex show_exponent_Cons [of x] by (metis hd_append2 list.sel(1))
    then have "t = [] \<or> is_digit (hd t) \<or> hd t = CHR ''.'' \<or> hd t = CHR ''e'' \<or> t = r"
      using digits(1) by (cases ip') (auto simp: t_def ip)
    then have "t = [] \<or> hd t \<notin> set ''xX''" using stop by (auto simp: num_stop_def is_digit_def)
    then show thesis using that [of c t] digits(1) by (simp add: t_def ip with_fraction_def)
  qed
  have r: "r = [] \<or> \<not> is_digit (hd r)" using stop by (auto simp: num_stop_def)
  have exr: "ex @ r = [] \<or> \<not> is_digit (hd (ex @ r)) \<and> hd (ex @ r) \<noteq> CHR ''.''"
  proof (cases "ex = []")
    case True
    then show ?thesis using stop by (auto simp: num_stop_def)
  next
    case False
    then have "ex @ r = CHR ''e'' # tl (show_exponent x) @ r" using ex show_exponent_Cons [of x] by (metis append_Cons)
    then show ?thesis by simp
  qed
  have "scan_exponent ''eE'' (ex @ r) = (x, r)"
  proof (cases "ex = []")
    case True
    then have "x = 0" using ex show_exponent_Cons [of x] by auto
    then show ?thesis using True stop by (cases r) (auto simp: scan_exponent_def num_stop_def)
  next
    case False
    then show ?thesis using scan_exponent_show [OF r] ex by simp
  qed
  then have "strtod_decimal s (c # t) = Some (decimal64 s (digits_val (ip @ fp)) (x - int (length fp)), r)"
    using scan_fraction_digits [OF digits exr] digits(2) by (simp add: strtod_decimal_def flip: t)
  then show ?thesis using strtod_digits [OF c ht, of s] by (simp add: t)
qed

section \<open>Reading the layouts of %g\<close>

lemma decimal64_shift:
  assumes "0 \<le> M"
  shows "decimal64 s (M * 10 ^ k) x = decimal64 s M (x + int k)"
proof (cases "0 \<le> x")
  case True
  then have "nat (x + int k) = nat x + k" "nat (- x) = 0" "nat (- (x + int k)) = 0" by simp_all
  then show ?thesis by (simp add: decimal64_def power_add ac_simps)
next
  case False
  show ?thesis
  proof (cases "0 \<le> x + int k")
    case True
    then have k: "k = nat (x + int k) + nat (- x)" using False by simp
    have "round64 s (M * 10 ^ nat (x + int k) * 10 ^ nat (- x)) (1 * 10 ^ nat (- x)) = round64 s (M * 10 ^ nat (x + int k)) 1"
      using assms by (intro round64_scale) simp_all
    moreover have "M * 10 ^ nat (x + int k) * 10 ^ nat (- x) = M * 10 ^ k"
      by (subst (2) k) (simp add: power_add)
    ultimately show ?thesis using True False by (simp add: decimal64_def)
  next
    case neg: False
    then have k: "nat (- x) = nat (- (x + int k)) + k" using False by simp
    have "round64 s (M * 10 ^ k) (10 ^ nat (- (x + int k)) * 10 ^ k) = round64 s M (10 ^ nat (- (x + int k)))"
      using assms by (intro round64_scale) simp_all
    then show ?thesis using neg False by (simp add: decimal64_def k power_add)
  qed
qed

text \<open>Dropping trailing zeros of the fraction does not change the number.\<close>

lemma strtod_stripped:
  assumes "\<forall>c \<in> set (ip @ fp). is_digit c" and "ip \<noteq> []" and "num_stop r" and "ex = [] \<and> x = 0 \<or> ex = show_exponent x"
  shows "strtod ((if s then ''-'' else []) @ with_fraction ip (strip_zeros fp) @ ex @ r) =
    (decimal64 s (digits_val (ip @ fp)) (x - int (length fp)), r)"
proof -
  obtain k where k: "fp = strip_zeros fp @ replicate k (CHR ''0'')" by (rule strip_zeros_split)
  have d: "\<forall>c \<in> set (ip @ strip_zeros fp). is_digit c"
    using assms(1) by (subst (asm) k) auto
  have v: "digits_val (ip @ fp) = digits_val (ip @ strip_zeros fp) * 10 ^ k"
    by (subst k) (simp add: digits_val_append [of "ip @ strip_zeros fp"] flip: append_assoc)
  have l: "int (length fp) = int (length (strip_zeros fp)) + int k"
    by (subst k) simp
  show ?thesis
    using strtod_numeral [OF d assms(2-4), of s] decimal64_shift [OF digits_val_nonneg]
    by (simp add: v l)
qed

lemma layout_g_reads:
  assumes n: "10 ^ k \<le> n" "n < 10 ^ Suc k" and stop: "num_stop r"
  shows "strtod ((if s then ''-'' else []) @ layout_g (Suc k) n x @ r) = (decimal64 s n (x - int k), r)"
proof -
  define ds where "ds = show_digits n"
  have "(0::int) < 10 ^ k" by simp
  then have "0 \<le> n" using n(1) by linarith
  then have ds: "\<forall>c \<in> set ds. is_digit c" "ds \<noteq> []" "digits_val ds = n" "length ds = Suc k"
    using show_digits_props show_digits_length_eq [OF n] by (simp_all add: ds_def)
  show ?thesis
  proof (cases "-4 \<le> x \<and> x < int (Suc k)")
    case fixed: True
    show ?thesis
    proof (cases "0 \<le> x")
      case True
      let ?j = "nat x + 1"
      have "strtod ((if s then ''-'' else []) @ with_fraction (take ?j ds) (strip_zeros (drop ?j ds)) @ [] @ r) =
          (decimal64 s (digits_val (take ?j ds @ drop ?j ds)) (0 - int (length (drop ?j ds))), r)"
        using ds stop by (intro strtod_stripped) (auto dest: in_set_takeD in_set_dropD)
      moreover have "0 - int (length (drop ?j ds)) = x - int k" using True fixed ds(4) by simp
      ultimately show ?thesis using True fixed ds(3) by (simp add: layout_g_def Let_def flip: ds_def)
    next
      case False
      let ?z = "replicate (nat (- x) - 1) (CHR ''0'')"
      have z: "is_digit (CHR ''0'')" by (simp add: is_digit_def)
      obtain j where j: "ds = strip_zeros ds @ replicate j (CHR ''0'')" by (rule strip_zeros_split)
      have d: "\<forall>c \<in> set (''0'' @ (?z @ strip_zeros ds)). is_digit c"
        using ds(1) z by (subst (asm) j) auto
      have "strtod ((if s then ''-'' else []) @ with_fraction ''0'' (?z @ strip_zeros ds) @ [] @ r) =
          (decimal64 s (digits_val (''0'' @ ?z @ strip_zeros ds)) (0 - int (length (?z @ strip_zeros ds))), r)"
        using d stop by (intro strtod_numeral) simp_all
      also have "digits_val (''0'' @ ?z @ strip_zeros ds) = digits_val (strip_zeros ds)"
      proof -
        have "digits_val ''0'' = 0" using digits_val_zeros [of 1] by simp
        then show ?thesis by (simp only: digits_val_append digits_val_zeros)
      qed
      also have "decimal64 s (digits_val (strip_zeros ds)) (0 - int (length (?z @ strip_zeros ds))) =
          decimal64 s (digits_val (strip_zeros ds) * 10 ^ j) (0 - int (length (?z @ strip_zeros ds)) - int j)"
        using decimal64_shift [OF digits_val_nonneg] by simp
      also have "digits_val (strip_zeros ds) * 10 ^ j = digits_val ds"
        by (subst j) (simp add: digits_val_append)
      also have "0 - int (length (?z @ strip_zeros ds)) - int j = x - int k"
      proof -
        have "Suc k = length (strip_zeros ds) + j" using ds(4) by (subst (asm) j) simp
        then show ?thesis using False by simp
      qed
      finally show ?thesis using False fixed ds(3) by (simp add: layout_g_def Let_def flip: ds_def)
    qed
  next
    case False
    have "strtod ((if s then ''-'' else []) @ with_fraction (take 1 ds) (strip_zeros (drop 1 ds)) @ show_exponent x @ r) =
        (decimal64 s (digits_val (take 1 ds @ drop 1 ds)) (x - int (length (drop 1 ds))), r)"
      using ds stop by (intro strtod_stripped) (auto dest: in_set_takeD in_set_dropD)
    moreover have "x - int (length (drop 1 ds)) = x - int k" using ds(4) by simp
    moreover have "layout_g (Suc k) n x = with_fraction (take 1 ds) (strip_zeros (drop 1 ds)) @ show_exponent x"
      using False by (simp only: layout_g_def Let_def if_False ds_def)
    ultimately show ?thesis using ds(3) by simp
  qed
qed

section \<open>The decimal digits of a fraction\<close>

lemma log10_up_bounds:
  "0 < q \<Longrightarrow> q \<le> p \<Longrightarrow> q * 10 ^ log10_up p q \<le> p \<and> p < q * 10 ^ Suc (log10_up p q)"
proof (induction p q rule: log10_up.induct)
  case (1 p q)
  then show ?case
    by (cases "p < 10 * q") (simp_all add: log10_up.simps [of p q])
qed

lemma log10_down_bounds:
  "0 < p \<Longrightarrow> p < q \<Longrightarrow>
    0 < log10_down p q \<and> q \<le> p * 10 ^ log10_down p q \<and> p * 10 ^ (log10_down p q - 1) < q"
proof (induction p q rule: log10_down.induct)
  case (1 p q)
  show ?case
  proof (cases "q \<le> 10 * p")
    case True
    then have "log10_down (10 * p) q = 0" by (simp add: log10_down.simps)
    then show ?thesis using 1(2,3) True by (simp add: log10_down.simps [of p q])
  next
    case False
    then have IH: "0 < log10_down (10 * p) q \<and> q \<le> 10 * p * 10 ^ log10_down (10 * p) q \<and> 10 * p * 10 ^ (log10_down (10 * p) q - 1) < q"
      using 1 by simp
    then obtain k where "log10_down (10 * p) q = Suc k" by (cases "log10_down (10 * p) q") auto
    then show ?thesis using IH 1(2,3) by (simp add: log10_down.simps [of p q])
  qed
qed

lemma pow10_shift:
  assumes "a + nat (- t) = b + nat t"
  shows "x * 10 ^ a * 10 ^ nat (- t) = x * 10 ^ b * (10 :: int) ^ nat t"
  using assms by (simp add: mult.assoc flip: power_add)

lemma log10_floor_bounds:
  assumes "0 < p" and "0 < q" and "x = log10_floor p q"
  shows "q * 10 ^ nat x \<le> p * 10 ^ nat (- x)" and "p * 10 ^ nat (- x) < 10 * (q * 10 ^ nat x)"
proof -
  show "q * 10 ^ nat x \<le> p * 10 ^ nat (- x)"
    using assms log10_up_bounds [of q p] log10_down_bounds [of p q]
    by (auto simp: log10_floor_def)
  show "p * 10 ^ nat (- x) < 10 * (q * 10 ^ nat x)"
  proof (cases "q \<le> p")
    case True
    then show ?thesis using assms log10_up_bounds [of q p] by (simp add: log10_floor_def)
  next
    case False
    then have d: "0 < log10_down p q" "p * 10 ^ (log10_down p q - 1) < q" using assms log10_down_bounds [of p q] by auto
    then obtain k where k: "log10_down p q = Suc k" by (cases "log10_down p q") auto
    have x: "x = - int (Suc k)" using assms(3) False by (simp add: log10_floor_def k)
    have "nat (- x) = Suc k" unfolding x by (simp only: minus_minus nat_int)
    then have "p * 10 ^ nat (- x) = 10 * (p * 10 ^ k)" "10 * (q * 10 ^ nat x) = 10 * q" by (simp_all add: x)
    moreover have "p * 10 ^ k < q" using d(2) by (simp add: k)
    ultimately show ?thesis by linarith
  qed
qed

text \<open>Both sides scaled so that the digits asked for are the integer part.\<close>

lemma scaled_bounds:
  assumes "0 < p" and "0 < q" and "x = log10_floor p q" and "t = int k - x"
  shows "10 ^ k * (q * 10 ^ nat (- t)) \<le> p * 10 ^ nat t" and "p * 10 ^ nat t < 10 ^ Suc k * (q * 10 ^ nat (- t))"
proof -
  have e: "nat t + nat x = k + nat (- t) + nat (- x)" using assms(4) by linarith
  define c where "c = (10::int) ^ nat (- x)"
  define d where "d = (10::int) ^ nat x"
  have cd: "0 < c" "0 < d" by (simp_all add: c_def d_def)
  have f: "10 ^ nat t * d = 10 ^ k * 10 ^ nat (- t) * c" using e by (simp add: c_def d_def flip: power_add)
  have "10 ^ k * (q * 10 ^ nat (- t)) * c = 10 ^ nat t * (q * d)" using f by (simp add: ac_simps)
  also have "\<dots> \<le> 10 ^ nat t * (p * c)"
    using log10_floor_bounds(1) [OF assms(1-3)] by (simp add: c_def d_def)
  finally have "10 ^ k * (q * 10 ^ nat (- t)) * c \<le> p * 10 ^ nat t * c" by (simp add: ac_simps)
  then show "10 ^ k * (q * 10 ^ nat (- t)) \<le> p * 10 ^ nat t" using cd by simp
  have "p * 10 ^ nat t * c = 10 ^ nat t * (p * c)" by (simp add: ac_simps)
  also have "\<dots> < 10 ^ nat t * (10 * (q * d))"
    using log10_floor_bounds(2) [OF assms(1-3)] by (simp add: c_def d_def)
  also have "\<dots> = 10 ^ Suc k * (q * 10 ^ nat (- t)) * c" using f by (simp add: ac_simps)
  finally show "p * 10 ^ nat t < 10 ^ Suc k * (q * 10 ^ nat (- t))" using cd by simp
qed

lemma rne_error: "0 < d \<Longrightarrow> 2 * \<bar>n - rne n d * d\<bar> \<le> d"
proof -
  assume d: "0 < d"
  define k where "k = n div d"
  define r where "r = n mod d"
  have n: "n = k * d + r" and r: "0 \<le> r" "r < d" using d by (simp_all add: k_def r_def)
  show ?thesis using n r by (auto simp: rne_def Let_def algebra_simps simp flip: k_def r_def)
qed

lemma rne_range:
  assumes "0 < d" and "a * d \<le> n" and "n < b * d"
  shows "a \<le> rne n d" and "rne n d \<le> b"
  using rne_bounds [of n d] int_le_div [OF assms(1,2)] int_div_lt [OF assms(1,3)] by linarith+

lemma decimal_digits_spec:
  assumes "0 < p" and "0 < q" and "decimal_digits (Suc k) p q = (n, y)"
  obtains N t where "10 ^ k \<le> n" and "n < 10 ^ Suc k" and "decimal64 s n (y - int k) = decimal64 s N (- t)"
    and "10 ^ k * (q * 10 ^ nat (- t)) \<le> p * 10 ^ nat t"
    and "2 * \<bar>p * 10 ^ nat t - N * (q * 10 ^ nat (- t))\<bar> \<le> q * 10 ^ nat (- t)" and "0 < N"
proof -
  define x where "x = log10_floor p q"
  define t where "t = int k - x"
  define N where "N = rne (p * 10 ^ nat t) (q * 10 ^ nat (- t))"
  have b: "10 ^ k * (q * 10 ^ nat (- t)) \<le> p * 10 ^ nat t" "p * 10 ^ nat t < 10 ^ Suc k * (q * 10 ^ nat (- t))"
    using scaled_bounds [OF assms(1,2) x_def t_def] .
  have d: "0 < q * 10 ^ nat (- t)" using assms(2) by simp
  have N: "10 ^ k \<le> N" "N \<le> 10 ^ Suc k" using rne_range [OF d b] by (simp_all add: N_def)
  have pos: "(0::int) < 10 ^ k" by simp
  have ny: "(n, y) = (if N = 10 ^ Suc k then (10 ^ k, x + 1) else (N, x))"
  proof -
    have t: "int (Suc k) - 1 - log10_floor p q = t" by (simp add: t_def x_def)
    show ?thesis unfolding assms(3) [symmetric] decimal_digits_def Let_def t N_def x_def by simp
  qed
  have "decimal64 s n (y - int k) = decimal64 s N (- t)"
  proof (cases "N = 10 ^ Suc k")
    case True
    then have "decimal64 s N (- t) = decimal64 s (10 ^ k * 10 ^ 1) (- t)" by (simp add: ac_simps)
    also have "\<dots> = decimal64 s (10 ^ k) (- t + 1)" by (subst decimal64_shift) simp_all
    finally show ?thesis using True ny by (simp add: t_def algebra_simps)
  next
    case False
    then show ?thesis using ny by (simp add: t_def)
  qed
  moreover have "10 ^ k \<le> n" "n < 10 ^ Suc k" using N ny by (auto split: if_splits)
  ultimately show thesis using that b(1) rne_error [OF d] N(1) pos by (simp add: N_def)
qed

lemma decimal_digits_range:
  assumes "0 < p" and "0 < q" and "decimal_digits (Suc k) p q = (n, y)"
  shows "10 ^ k \<le> n \<and> n < 10 ^ Suc k"
proof -
  obtain N t where "10 ^ k \<le> n" "n < 10 ^ Suc k" "decimal64 True n (y - int k) = decimal64 True N (- t)"
    by (rule decimal_digits_spec [OF assms])
  then show ?thesis by simp
qed

lemma fmt_g_reads:
  assumes "f64_ok (F_num s m e)" and "0 < m" and "num_stop r"
  obtains N t where "strtod (fmt_g (Suc k) (F_num s m e) @ r) = (decimal64 s N (- t), r)"
    and "10 ^ k * (2 ^ nat (- e) * 10 ^ nat (- t)) \<le> m * 2 ^ nat e * 10 ^ nat t"
    and "2 * \<bar>m * 2 ^ nat e * 10 ^ nat t - N * (2 ^ nat (- e) * 10 ^ nat (- t))\<bar> \<le> 2 ^ nat (- e) * 10 ^ nat (- t)"
    and "0 < N"
proof -
  obtain n y where ny: "decimal_digits (Suc k) (m * 2 ^ nat e) (2 ^ nat (- e)) = (n, y)" by (metis surj_pair)
  have p: "0 < m * 2 ^ nat e" "(0::int) < 2 ^ nat (- e)" using assms(2) by simp_all
  obtain N t where n: "10 ^ k \<le> n" "n < 10 ^ Suc k" "decimal64 s n (y - int k) = decimal64 s N (- t)"
    and N: "10 ^ k * (2 ^ nat (- e) * 10 ^ nat (- t)) \<le> m * 2 ^ nat e * 10 ^ nat t"
      "2 * \<bar>m * 2 ^ nat e * 10 ^ nat t - N * (2 ^ nat (- e) * 10 ^ nat (- t))\<bar> \<le> 2 ^ nat (- e) * 10 ^ nat (- t)"
      "0 < N"
    by (rule decimal_digits_spec [OF p ny])
  have "strtod (fmt_g (Suc k) (F_num s m e) @ r) = (decimal64 s n (y - int k), r)"
    using layout_g_reads [OF n(1,2) assms(3), of s y] ny assms(2) by simp
  then show thesis using that N n(3) by simp
qed

text \<open>Seventeen digits determine a double.\<close>

lemma fmt_17_reads:
  assumes ok: "f64_ok (F_num s m e)" and m: "0 < m" and "num_stop r"
  shows "strtod (fmt_g 17 (F_num s m e) @ r) = (F_num s m e, r)"
proof -
  have s: "Suc 16 = 17" by simp
  obtain N t where read: "strtod (fmt_g 17 (F_num s m e) @ r) = (decimal64 s N (- t), r)"
    and lo: "10 ^ 16 * (2 ^ nat (- e) * 10 ^ nat (- t)) \<le> m * 2 ^ nat e * 10 ^ nat t"
    and err: "2 * \<bar>m * 2 ^ nat e * 10 ^ nat t - N * (2 ^ nat (- e) * 10 ^ nat (- t))\<bar> \<le> 2 ^ nat (- e) * 10 ^ nat (- t)"
    and N: "0 < N"
    using fmt_g_reads [OF assms, of 16] unfolding s by blast
  define u where "u = (2::int) ^ nat (- e) * 10 ^ nat (- t)"
  define w where "w = (2::int) ^ nat e * 10 ^ nat t"
  define D where "D = \<bar>m * w - N * u\<bar>"
  have uw: "0 < u" "0 < w" by (simp_all add: u_def w_def)
  have lo': "10 ^ 16 * u \<le> m * w" and err': "2 * D \<le> u"
    using lo err by (simp_all add: u_def w_def D_def ac_simps)
  have m53: "m < 2 ^ 53" using ok by (simp add: f64_ok_def)
  have "m * w \<le> 2 ^ 53 * w" using m53 uw by (intro mult_right_mono) simp_all
  then have "10 ^ 16 * u \<le> 2 ^ 53 * w" using lo' by (rule order_trans [rotated])
  then have "10000000000000000 * u \<le> 9007199254740992 * w" by simp
  then have near2: "2 * D < w" using err' uw by linarith
  have near4: "4 * D < w" if "m = 2 ^ 52"
  proof -
    have "10 ^ 16 * u \<le> 2 ^ 52 * w" using lo' that by simp
    then have "10000000000000000 * u \<le> 4503599627370496 * w" by simp
    then show ?thesis using err' uw by linarith
  qed
  have d: "\<bar>N * 10 ^ nat (- t) * 2 ^ nat (- e) - m * w\<bar> = D"
    unfolding D_def u_def by (subst abs_minus_commute) (simp add: ac_simps)
  have w: "10 ^ nat t * 2 ^ nat e = w" by (simp add: w_def)
  have "round64 s (N * 10 ^ nat (- t)) (10 ^ nat t) = F_num s m e"
  proof (rule round64_near [OF ok m])
    show "2 * \<bar>N * 10 ^ nat (- t) * 2 ^ nat (- e) - m * (10 ^ nat t * 2 ^ nat e)\<bar> < 10 ^ nat t * 2 ^ nat e"
      unfolding w d by (rule near2)
    show "4 * \<bar>N * 10 ^ nat (- t) * 2 ^ nat (- e) - m * (10 ^ nat t * 2 ^ nat e)\<bar> < 10 ^ nat t * 2 ^ nat e" if "m = 2 ^ 52"
      unfolding w d by (rule near4 [OF that])
  qed (use N in simp_all)
  then show ?thesis using read by (simp add: decimal64_def)
qed

lemma fmt_g_reads_same:
  assumes "f64_ok (F_num s m e)" and "0 < m" and "num_stop r" and "0 < P"
    and "f64_eq (fst (strtod (fmt_g P (F_num s m e)))) (F_num s m e)"
  shows "strtod (fmt_g P (F_num s m e) @ r) = (F_num s m e, r)"
proof -
  obtain k where P: "P = Suc k" using assms(4) by (cases P) auto
  obtain n y where ny: "decimal_digits (Suc k) (m * 2 ^ nat e) (2 ^ nat (- e)) = (n, y)" by (metis surj_pair)
  have p: "0 < m * 2 ^ nat e" "(0::int) < 2 ^ nat (- e)" using assms(2) by simp_all
  have n: "10 ^ k \<le> n" "n < 10 ^ Suc k" using decimal_digits_range [OF p ny] by simp_all
  have read: "strtod (fmt_g P (F_num s m e) @ r') = (decimal64 s n (y - int k), r')" if "num_stop r'" for r'
    using layout_g_reads [OF n that, of s y] ny assms(2) by (simp add: P)
  have "(0::int) < 10 ^ k" by simp
  then have "0 < n" using n(1) by linarith
  then have ok: "f64_ok (decimal64 s n (y - int k))" by (simp add: decimal64_def round64_ok)
  have eq: "f64_eq (decimal64 s n (y - int k)) (F_num s m e)"
    using assms(5) read [of "[]"] by (simp add: num_stop_def)
  then obtain t n' f where d: "decimal64 s n (y - int k) = F_num t n' f"
    by (cases "decimal64 s n (y - int k)") auto
  have "f64_eq (F_num s m e) (F_num t n' f)" using eq by (simp add: d Let_def min.commute eq_commute)
  then have "F_num s m e = decimal64 s n (y - int k)"
    using f64_eq_unique [OF _ assms(1) ok [unfolded d] assms(2)] d by simp
  then show ?thesis using read [OF assms(3)] by simp
qed

section \<open>Integers\<close>

lemma show_int_reads:
  assumes "num_stop r"
  shows "strtod (show_int i @ r) = (f64_of_int i, r)"
proof -
  have "strtod ((if i < 0 then ''-'' else []) @ with_fraction (show_digits \<bar>i\<bar>) [] @ [] @ r) =
      (decimal64 (i < 0) (digits_val (show_digits \<bar>i\<bar> @ [])) (0 - int (length ([] :: string))), r)"
    using show_digits_props [of "\<bar>i\<bar>"] assms by (intro strtod_numeral) simp_all
  then show ?thesis
    using show_digits_props [of "\<bar>i\<bar>"]
    by (cases "i < 0") (simp_all add: show_int_def with_fraction_def decimal64_def f64_of_int_def)
qed

text \<open>A double below \<open>10^15\<close> that equals its floor is an integer.\<close>

lemma div_shrinks:
  assumes "0 < (m :: int)" and "1 \<le> d"
  shows "\<bar>m div d\<bar> \<le> m" and "\<bar>- m div d\<bar> \<le> m"
proof -
  have "0 \<le> m div d" using assms by (simp add: pos_imp_zdiv_nonneg_iff)
  moreover have "m div d \<le> m" using zdiv_mono2 [of m 1 d] assms by simp
  ultimately show "\<bar>m div d\<bar> \<le> m" by simp
  have "- m * d \<le> - m" using assms mult_left_mono [of 1 d m] by simp
  then have "- m \<le> - m div d" using assms by (intro int_le_div) simp_all
  moreover have "- m div d < 1" using assms by (intro int_div_lt) simp_all
  ultimately show "\<bar>- m div d\<bar> \<le> m" by simp
qed

lemma integral_double:
  assumes ok: "f64_ok (F_num s m e)" and m: "0 < m" and int: "f64_eq (F_num s m e) (f64_floor (F_num s m e))"
    and small: "f64_lt (f64_abs (F_num s m e)) (f64_lit (10 ^ 15) 1)"
  obtains i where "f64_trunc (F_num s m e) = Some i" and "F_num s m e = f64_of_int i"
proof -
  have lit: "f64_lit (10 ^ 15) 1 = F_num False (10 ^ 15 * 8) (- 3)" by code_simp
  have m53: "m < 2 ^ 53" "2 ^ 52 \<le> m \<or> e = -1074" using ok by (auto simp: f64_ok_def)
  have "e < 0"
  proof (rule ccontr)
    assume "\<not> e < 0"
    then have e: "0 \<le> e" "min e (-3) = -3" "2 ^ 52 \<le> m" using m53(2) by auto
    have "f64_lt (F_num False m e) (F_num False (10 ^ 15 * 8) (- 3))" using small unfolding lit by simp
    then have "m * 2 ^ nat (e + 3) < 10 ^ 15 * 8"
      using e by (simp add: Let_def f64_signed_def)
    moreover have "m * 2 ^ 3 \<le> m * 2 ^ nat (e + 3)" using e m by (intro mult_left_mono power_increasing) simp_all
    ultimately show False using e(3) by simp
  qed
  then have e: "nat e = 0" "nat (- e) \<noteq> 0" by simp_all
  define k where "k = f64_signed s m div 2 ^ nat (- e)"
  have "k \<noteq> 0"
  proof
    assume "k = 0"
    then have "f64_floor (F_num s m e) = F_num s 0 (-1074)" by (simp add: k_def e)
    then show False using int m by (simp add: Let_def f64_signed_def split: if_splits)
  qed
  then have fl: "f64_floor (F_num s m e) = f64_of_int k" by (simp add: k_def e)
  have "(1::int) \<le> 2 ^ nat (- e)" by simp
  then have "\<bar>k\<bar> \<le> m" using div_shrinks [OF m] by (simp add: k_def f64_signed_def)
  then have k: "\<bar>k\<bar> < 2 ^ 53" using m53(1) by linarith
  obtain t n f where kf: "f64_of_int k = F_num t n f"
    using f64_trunc_of_int [OF k] by (cases "f64_of_int k") auto
  have okk: "f64_ok (F_num t n f)"
    using round64_ok [of "\<bar>k\<bar>" 1 "k < 0"] kf by (simp add: f64_of_int_def)
  have "f64_eq (F_num s m e) (F_num t n f)" using int by (simp only: fl kf)
  then have "F_num s m e = f64_of_int k"
    using f64_eq_unique [OF _ ok okk m] by (simp only: kf)
  then show thesis using that f64_trunc_of_int [OF k] by simp
qed


end
