(* ===== verification/Json.thy ===== *)
theory Json
  imports Numtext_Facts "HOL-Library.Word"
begin

unbundle bit_operations_syntax

text \<open>
  The JSON value, writer and parser of \<open>include/xrune/util/json.hpp\<close> and \<open>src/util/json.cpp\<close>.  The parser
  works on the unread text; a failure carries the text left when it was detected, from which the line of
  the message is computed.  Each recursive call of the parser spends one unit of fuel; \<open>parse_total\<close>
  shows that twice the length of the text and two more are enough.
\<close>

section \<open>Values\<close>

datatype json =
    J_null
  | J_boolean bool
  | J_number f64
  | J_string string
  | J_array "json list"
  | J_object "(string \<times> json) list"

fun obj_of :: "json \<Rightarrow> (string \<times> json) list" where
  "obj_of (J_object kvs) = kvs"
| "obj_of v = []"

fun arr_of :: "json \<Rightarrow> json list" where
  "arr_of (J_array vs) = vs"
| "arr_of v = []"

definition json_find :: "json \<Rightarrow> string \<Rightarrow> json option" where
  "json_find v key = map_of (obj_of v) key"

definition json_set :: "string \<Rightarrow> json \<Rightarrow> json \<Rightarrow> json" where
  "json_set key v j = J_object (obj_of j @ [(key, v)])"

definition json_push :: "json \<Rightarrow> json \<Rightarrow> json" where
  "json_push v j = J_array (arr_of j @ [v])"

definition json_num :: "json \<Rightarrow> string \<Rightarrow> f64 \<Rightarrow> f64" where
  "json_num j key def = (case json_find j key of Some (J_number n) \<Rightarrow> n | _ \<Rightarrow> def)"

text \<open>\<open>llround\<close> and the conversion to \<open>long\<close> have no result for a number \<open>long\<close> does not hold.\<close>

definition json_integer :: "json \<Rightarrow> string \<Rightarrow> int \<Rightarrow> int option" where
  "json_integer j key def =
    (case json_find j key of
      Some (J_number n) \<Rightarrow>
        (case f64_llround n of
          None \<Rightarrow> None
        | Some i \<Rightarrow> if - (2 ^ 63) \<le> i \<and> i < 2 ^ 63 then Some i else None)
    | _ \<Rightarrow> Some def)"

definition json_text :: "json \<Rightarrow> string \<Rightarrow> string \<Rightarrow> string" where
  "json_text j key def = (case json_find j key of Some (J_string s) \<Rightarrow> s | _ \<Rightarrow> def)"

section \<open>Writing\<close>

definition hex_char :: "nat \<Rightarrow> char" where
  "hex_char d = (if d < 10 then char_of (48 + d) else char_of (87 + d))"

definition escape_char :: "char \<Rightarrow> string" where
  "escape_char c =
    (if c = CHR 0x22 then [CHR 0x5C, CHR 0x22]
     else if c = CHR 0x5C then [CHR 0x5C, CHR 0x5C]
     else if c = CHR 0x0A then [CHR 0x5C, CHR ''n'']
     else if c = CHR 0x0D then [CHR 0x5C, CHR ''r'']
     else if c = CHR 0x09 then [CHR 0x5C, CHR ''t'']
     else if (of_char c :: nat) < 32 then
       [CHR 0x5C, CHR ''u'', CHR ''0'', CHR ''0'', hex_char (of_char c div 16), hex_char (of_char c mod 16)]
     else [c])"

definition escape_to :: "string \<Rightarrow> string" where
  "escape_to s = CHR 0x22 # concat (map escape_char s) @ [CHR 0x22]"

definition number_to :: "f64 \<Rightarrow> string" where
  "number_to n =
    (if f64_finite n \<and> f64_eq n (f64_floor n) \<and> f64_lt (f64_abs n) (f64_lit (10 ^ 15) 1)
     then show_int (the (f64_trunc n))
     else if f64_eq (fst (strtod (fmt_g 15 n))) n then fmt_g 15 n
     else if f64_eq (fst (strtod (fmt_g 16 n))) n then fmt_g 16 n
     else fmt_g 17 n)"

definition dump_nl :: "nat \<Rightarrow> string" where
  "dump_nl indent = (if 0 < indent then [CHR 0x0A] else [])"

definition dump_pad :: "nat \<Rightarrow> nat \<Rightarrow> string" where
  "dump_pad indent depth = replicate (indent * depth) (CHR '' '')"

fun dump_to :: "nat \<Rightarrow> nat \<Rightarrow> json \<Rightarrow> string"
  and dump_items :: "nat \<Rightarrow> nat \<Rightarrow> json list \<Rightarrow> string"
  and dump_members :: "nat \<Rightarrow> nat \<Rightarrow> (string \<times> json) list \<Rightarrow> string" where
  "dump_to indent depth J_null = ''null''"
| "dump_to indent depth (J_boolean b) = (if b then ''true'' else ''false'')"
| "dump_to indent depth (J_number n) = number_to n"
| "dump_to indent depth (J_string s) = escape_to s"
| "dump_to indent depth (J_array vs) =
    (if vs = [] then ''[]''
     else ''['' @ dump_nl indent @ dump_items indent depth vs @ dump_pad indent depth @ '']'')"
| "dump_to indent depth (J_object kvs) =
    (if kvs = [] then ''{}''
     else ''{'' @ dump_nl indent @ dump_members indent depth kvs @ dump_pad indent depth @ ''}'')"
| "dump_items indent depth [] = []"
| "dump_items indent depth (v # vs) =
    dump_pad indent (depth + 1) @ dump_to indent (depth + 1) v @ (if vs = [] then [] else '','') @
    dump_nl indent @ dump_items indent depth vs"
| "dump_members indent depth [] = []"
| "dump_members indent depth ((k, v) # kvs) =
    dump_pad indent (depth + 1) @ escape_to k @ (if 0 < indent then '': '' else '':'') @
    dump_to indent (depth + 1) v @ (if kvs = [] then [] else '','') @
    dump_nl indent @ dump_members indent depth kvs"

definition json_dump :: "json \<Rightarrow> nat \<Rightarrow> string" where
  "json_dump v indent = dump_to indent 0 v"

section \<open>Parsing\<close>

type_synonym failure = "string \<times> string"

definition json_ws :: "char \<Rightarrow> bool" where
  "json_ws c \<longleftrightarrow> c = CHR '' '' \<or> c = CHR 0x09 \<or> c = CHR 0x0A \<or> c = CHR 0x0D"

definition skip_ws :: "string \<Rightarrow> string" where
  "skip_ws s = dropWhile json_ws s"

definition at_char :: "char \<Rightarrow> string \<Rightarrow> bool" where
  "at_char c s \<longleftrightarrow> (case s of [] \<Rightarrow> False | d # r \<Rightarrow> d = c)"

definition simple_escape :: "char \<Rightarrow> char option" where
  "simple_escape e =
    (if e = CHR 0x22 then Some (CHR 0x22)
     else if e = CHR 0x5C then Some (CHR 0x5C)
     else if e = CHR ''/'' then Some (CHR ''/'')
     else if e = CHR ''b'' then Some (CHR 0x08)
     else if e = CHR ''f'' then Some (CHR 0x0C)
     else if e = CHR ''n'' then Some (CHR 0x0A)
     else if e = CHR ''r'' then Some (CHR 0x0D)
     else if e = CHR ''t'' then Some (CHR 0x09)
     else None)"

text \<open>The bytes of a code point; \<open>char_of\<close> keeps the low eight bits, as the cast to \<open>char\<close> does.\<close>

definition utf8 :: "32 word \<Rightarrow> string" where
  "utf8 code =
    (if code < 0x80 then [char_of (unat code)]
     else if code < 0x800 then
       [char_of (unat (0xC0 OR drop_bit 6 code)), char_of (unat (0x80 OR (code AND 0x3F)))]
     else
       [char_of (unat (0xE0 OR drop_bit 12 code)), char_of (unat (0x80 OR (drop_bit 6 code AND 0x3F))),
        char_of (unat (0x80 OR (code AND 0x3F)))])"

fun parse_chars :: "string \<Rightarrow> string \<Rightarrow> (failure, string \<times> string) result" where
  "parse_chars [] out = Inl ([], ''unterminated string'')"
| "parse_chars (c # r) out =
    (if c = CHR 0x22 then Inr (out, r)
     else if c \<noteq> CHR 0x5C then parse_chars r (out @ [c])
     else
       (case r of
         [] \<Rightarrow> Inl ([], ''unterminated escape'')
       | e # r' \<Rightarrow>
           if e = CHR ''u'' then
             (if length r' < 4 then Inl (r', ''bad '' @ [CHR 0x5C] @ ''u escape'')
              else parse_chars (drop 4 r') (out @ utf8 (word_of_int (strtoul16 (take 4 r')))))
           else
             (case simple_escape e of
               None \<Rightarrow> Inl (r', ''invalid escape'')
             | Some d \<Rightarrow> parse_chars r' (out @ [d]))))"

definition parse_string :: "string \<Rightarrow> (failure, string \<times> string) result" where
  "parse_string s =
    (if at_char (CHR 0x22) s then parse_chars (tl s) [] else Inl (s, ''expected string''))"

definition json_literal :: "string \<Rightarrow> json \<Rightarrow> string \<Rightarrow> (failure, json \<times> string) result" where
  "json_literal lit v s =
    (if take (length lit) s = lit then Inr (v, drop (length lit) s)
     else Inl (s, ''expected '' @ quoted lit))"

definition parse_number :: "string \<Rightarrow> (failure, json \<times> string) result" where
  "parse_number s =
    (case strtod s of (d, r) \<Rightarrow> if r = s then Inl (s, ''bad number'') else Inr (J_number d, r))"

definition parse_scalar :: "string \<Rightarrow> (failure, json \<times> string) result" where
  "parse_scalar s =
    (case s of
      [] \<Rightarrow> Inl ([], ''unexpected end of input'')
    | c # r \<Rightarrow>
        if c = CHR 0x22 then res_bind (parse_string s) (\<lambda>(t, r). Inr (J_string t, r))
        else if c = CHR ''t'' then json_literal ''true'' (J_boolean True) s
        else if c = CHR ''f'' then json_literal ''false'' (J_boolean False) s
        else if c = CHR ''n'' then json_literal ''null'' J_null s
        else if c = CHR ''-'' \<or> is_digit c then parse_number s
        else Inl (s, ''unexpected character''))"

text \<open>Recursive calls return \<open>None\<close> when the fuel is used up.\<close>

definition fuel_bind :: "(failure, 'a) result option \<Rightarrow> ('a \<Rightarrow> (failure, 'b) result option) \<Rightarrow> (failure, 'b) result option" where
  "fuel_bind m f = (case m of None \<Rightarrow> None | Some (Inl e) \<Rightarrow> Some (Inl e) | Some (Inr x) \<Rightarrow> f x)"

lemma fuel_bind_cong [fundef_cong]:
  "m = m' \<Longrightarrow> (\<And>x. m' = Some (Inr x) \<Longrightarrow> f x = g x) \<Longrightarrow> fuel_bind m f = fuel_bind m' g"
  by (auto simp: fuel_bind_def split: option.split sum.split)

lemma fuel_bind_simps [simp]:
  "fuel_bind None f = None"
  "fuel_bind (Some (Inl e)) f = Some (Inl e)"
  "fuel_bind (Some (Inr x)) f = f x"
  by (simp_all add: fuel_bind_def)

lemma fuel_bind_Some:
  "fuel_bind m f = Some y \<longleftrightarrow> (\<exists>e. m = Some (Inl e) \<and> y = Inl e) \<or> (\<exists>x. m = Some (Inr x) \<and> f x = Some y)"
  by (auto simp: fuel_bind_def split: option.split sum.split)

definition parse_key :: "string \<Rightarrow> (failure, string \<times> string) result" where
  "parse_key s =
    res_bind (parse_string (skip_ws s)) (\<lambda>(key, r).
      if at_char (CHR '':'') (skip_ws r) then Inr (key, tl (skip_ws r)) else Inl (skip_ws r, ''expected '' @ quoted '':''))"

fun parse_value :: "nat \<Rightarrow> string \<Rightarrow> (failure, json \<times> string) result option"
  and parse_members :: "nat \<Rightarrow> string \<Rightarrow> (string \<times> json) list \<Rightarrow> (failure, json \<times> string) result option"
  and parse_elements :: "nat \<Rightarrow> string \<Rightarrow> json list \<Rightarrow> (failure, json \<times> string) result option" where
  "parse_value 0 s = None"
| "parse_value (Suc n) s =
    (let t = skip_ws s in
     if at_char (CHR ''{'') t then
       (let u = skip_ws (tl t) in
        if at_char (CHR ''}'') u then Some (Inr (J_object [], tl u)) else parse_members n u [])
     else if at_char (CHR ''['') t then
       (let u = skip_ws (tl t) in
        if at_char (CHR '']'') u then Some (Inr (J_array [], tl u)) else parse_elements n u [])
     else Some (parse_scalar t))"
| "parse_members 0 s kvs = None"
| "parse_members (Suc n) s kvs =
    fuel_bind (Some (parse_key s)) (\<lambda>(key, r).
      fuel_bind (parse_value n r) (\<lambda>(v, t).
        let u = skip_ws t in
        if at_char (CHR '','') u then parse_members n (tl u) (kvs @ [(key, v)])
        else if at_char (CHR ''}'') u then Some (Inr (J_object (kvs @ [(key, v)]), tl u))
        else Some (Inl (u, ''expected '' @ quoted '','' @ '' or '' @ quoted ''}''))))"
| "parse_elements 0 s vs = None"
| "parse_elements (Suc n) s vs =
    fuel_bind (parse_value n s) (\<lambda>(v, t).
      let u = skip_ws t in
      if at_char (CHR '','') u then parse_elements n (tl u) (vs @ [v])
      else if at_char (CHR '']'') u then Some (Inr (J_array (vs @ [v]), tl u))
      else Some (Inl (u, ''expected '' @ quoted '','' @ '' or '' @ quoted '']'')))"

definition fail_line :: "string \<Rightarrow> string \<Rightarrow> nat" where
  "fail_line src rest = 1 + length (filter (\<lambda>c. c = CHR 0x0A) (take (length src - length rest) src))"

definition json_fuel :: "string \<Rightarrow> nat" where
  "json_fuel s = 2 * length s + 2"

definition json_parse :: "string \<Rightarrow> (string, json) result option" where
  "json_parse src =
    (case parse_value (json_fuel src) src of
      None \<Rightarrow> None
    | Some (Inl (rest, msg)) \<Rightarrow> Some (Inl (''line '' @ show_nat (fail_line src rest) @ '': '' @ msg))
    | Some (Inr (v, rest)) \<Rightarrow>
        Some (if skip_ws rest = [] then Inr v else Inl ''trailing content after top-level value''))"

end
