(* ===== verification/Json_Facts.thy ===== *)
theory Json_Facts
  imports Json
begin

text \<open>
  The JSON parser always returns, more fuel does not change its answer, and it reads back every value
  the writer prints, at any indentation.
\<close>

section \<open>Fuel\<close>

lemma parse_value_cases:
  obtains (object) "\<And>n. parse_value (Suc n) s = parse_members n (skip_ws (tl (skip_ws s))) []"
      and "at_char (CHR ''{'') (skip_ws s)" and "\<not> at_char (CHR ''}'') (skip_ws (tl (skip_ws s)))"
    | (array) "\<And>n. parse_value (Suc n) s = parse_elements n (skip_ws (tl (skip_ws s))) []"
      and "\<not> at_char (CHR ''{'') (skip_ws s)" and "at_char (CHR ''['') (skip_ws s)"
      and "\<not> at_char (CHR '']'') (skip_ws (tl (skip_ws s)))"
    | (empty) c v where "\<And>n. parse_value (Suc n) s = Some (Inr (v, tl (skip_ws (tl (skip_ws s)))))"
      and "at_char c (skip_ws s)"
    | (scalar) "\<And>n. parse_value (Suc n) s = Some (parse_scalar (skip_ws s))"
proof -
  let ?t = "skip_ws s"
  let ?u = "skip_ws (tl ?t)"
  consider "at_char (CHR ''{'') ?t" "\<not> at_char (CHR ''}'') ?u"
    | "\<not> at_char (CHR ''{'') ?t" "at_char (CHR ''['') ?t" "\<not> at_char (CHR '']'') ?u"
    | "at_char (CHR ''{'') ?t" "at_char (CHR ''}'') ?u"
    | "\<not> at_char (CHR ''{'') ?t" "at_char (CHR ''['') ?t" "at_char (CHR '']'') ?u"
    | "\<not> at_char (CHR ''{'') ?t" "\<not> at_char (CHR ''['') ?t" by blast
  then show thesis
  proof cases
    case 1
    then show thesis by (intro object) (simp_all only: parse_value.simps Let_def if_True if_False simp_thms)
  next
    case 2
    then show thesis by (intro array) (simp_all only: parse_value.simps Let_def if_True if_False simp_thms)
  next
    case 3
    then show thesis by (intro empty [of "J_object []"]) (simp_all only: parse_value.simps Let_def if_True if_False simp_thms)
  next
    case 4
    then show thesis by (intro empty [of "J_array []"]) (simp_all only: parse_value.simps Let_def if_True if_False simp_thms)
  next
    case 5
    then show thesis by (intro scalar) (simp_all only: parse_value.simps Let_def if_True if_False simp_thms)
  qed
qed

lemma fuel_mono:
  "(parse_value n s = Some x \<longrightarrow> n \<le> m \<longrightarrow> parse_value m s = Some x)"
  "(parse_members n s kvs = Some x \<longrightarrow> n \<le> m \<longrightarrow> parse_members m s kvs = Some x)"
  "(parse_elements n s vs = Some x \<longrightarrow> n \<le> m \<longrightarrow> parse_elements m s vs = Some x)"
proof (induction n s and n s kvs and n s vs arbitrary: m x and m x and m x rule: parse_value_parse_members_parse_elements.induct)
  case (2 n s)
  show ?case
  proof (intro impI)
    assume p: "parse_value (Suc n) s = Some x" and "Suc n \<le> m"
    then obtain m' where m: "m = Suc m'" "n \<le> m'" by (cases m) auto
    show "parse_value m s = Some x"
    proof (cases rule: parse_value_cases [of s])
      case object
      then show ?thesis using p 2(1) [OF refl _ refl] m(2) unfolding m(1) object(1) by blast
    next
      case array
      then show ?thesis using p "2.IH"(2) [OF refl _ _ refl] m(2) unfolding m(1) array(1) by blast
    next
      case (empty c v)
      then show ?thesis using p unfolding m(1) empty(1) by blast
    next
      case scalar
      then show ?thesis using p unfolding m(1) scalar(1) by blast
    qed
  qed
next
  case (4 n s kvs)
  show ?case
  proof (intro impI)
    assume p: "parse_members (Suc n) s kvs = Some x" and "Suc n \<le> m"
    then obtain m' where m: "m = Suc m'" "n \<le> m'" by (cases m) auto
    show "parse_members m s kvs = Some x"
    proof (cases "parse_key s")
      case (Inl e)
      then show ?thesis using p by (simp add: m)
    next
      case (Inr kr)
      then obtain k r where k: "parse_key s = Inr (k, r)" by (cases kr) auto
      obtain y where y: "parse_value n r = Some y" using p by (auto simp: k fuel_bind_Some)
      have y': "parse_value m' r = Some y" using 4(1) [of "(k, r)" k r] k y m(2) by blast
      show ?thesis
      proof (cases y)
        case (Inl e)
        then have "x = Inl e" using p y by (simp add: k)
        then show ?thesis using y' Inl by (simp add: m k)
      next
        case (Inr vt)
        then obtain v t where y2: "y = Inr (v, t)" by (cases vt) auto
        have step: "parse_members m' (tl (skip_ws t)) (kvs @ [(k, v)]) = Some x"
          if "at_char (CHR '','') (skip_ws t)" "parse_members n (tl (skip_ws t)) (kvs @ [(k, v)]) = Some x"
          using 4(2) [of "(k, r)" k r "(v, t)" v t "skip_ws t"] k y y2 that m(2) by blast
        have yt: "parse_value n r = Some (Inr (v, t))" "parse_value m' r = Some (Inr (v, t))" using y y' y2 by simp_all
        show ?thesis
        proof (cases "at_char (CHR '','') (skip_ws t)")
          case True
          then have "parse_members n (tl (skip_ws t)) (kvs @ [(k, v)]) = Some x" using p by (simp add: k yt Let_def)
          then show ?thesis using step [OF True] True by (simp add: m(1) k yt Let_def)
        next
          case False
          then show ?thesis using p by (simp add: m(1) k yt Let_def)
        qed
      qed
    qed
  qed
next
  case (6 n s vs)
  show ?case
  proof (intro impI)
    assume p: "parse_elements (Suc n) s vs = Some x" and "Suc n \<le> m"
    then obtain m' where m: "m = Suc m'" "n \<le> m'" by (cases m) auto
    obtain y where y: "parse_value n s = Some y" using p by (auto simp: fuel_bind_Some)
    have y': "parse_value m' s = Some y" using 6(1) y m(2) by blast
    show "parse_elements m s vs = Some x"
    proof (cases y)
      case (Inl e)
      then have "x = Inl e" using p y by simp
      then show ?thesis using y' Inl by (simp add: m)
    next
      case (Inr vt)
      then obtain v t where y2: "y = Inr (v, t)" by (cases vt) auto
      have step: "parse_elements m' (tl (skip_ws t)) (vs @ [v]) = Some x"
        if "at_char (CHR '','') (skip_ws t)" "parse_elements n (tl (skip_ws t)) (vs @ [v]) = Some x"
        using 6(2) [of "(v, t)" v t "skip_ws t"] y y2 that m(2) by blast
      have yt: "parse_value n s = Some (Inr (v, t))" "parse_value m' s = Some (Inr (v, t))" using y y' y2 by simp_all
      show ?thesis
      proof (cases "at_char (CHR '','') (skip_ws t)")
        case True
        then have "parse_elements n (tl (skip_ws t)) (vs @ [v]) = Some x" using p by (simp add: yt Let_def)
        then show ?thesis using step [OF True] True by (simp add: m(1) yt Let_def)
      next
        case False
        then show ?thesis using p by (simp add: m(1) yt Let_def)
      qed
    qed
  qed
qed simp_all

section \<open>Consumption\<close>

lemma skip_ws_length: "length (skip_ws s) \<le> length s"
  by (simp add: skip_ws_def length_dropWhile_le)

lemma skip_ws_idem [simp]: "skip_ws (skip_ws s) = skip_ws s"
  by (induction s) (simp_all add: skip_ws_def)

lemma at_char_Cons: "at_char c s \<longleftrightarrow> (\<exists>r. s = c # r)"
  by (cases s) (auto simp: at_char_def)

lemma at_char_skip: "at_char c (skip_ws s) \<Longrightarrow> length (tl (skip_ws s)) < length s"
  using skip_ws_length [of s] by (auto simp: at_char_Cons)

lemma parse_chars_length: "parse_chars s out = Inr (t, r) \<Longrightarrow> length r < length s"
proof (induction s out rule: parse_chars.induct)
  case (2 c r' out)
  show ?case
  proof (cases "c = CHR 0x5C")
    case False
    then show ?thesis using 2(1) 2(4) by (cases "c = CHR 0x22") (simp_all add: less_SucI)
  next
    case True
    then show ?thesis
    proof (cases r')
      case Nil
      then show ?thesis using 2(4) True by simp
    next
      case (Cons e r'')
      show ?thesis
      proof (cases "e = CHR ''u''")
        case u: True
        then have long: "4 \<le> length r''" using 2(4) True Cons by (simp split: if_split_asm)
        then have "length r < length (drop 4 r'')"
          using 2(2) [OF _ _ Cons u] 2(4) True Cons u by simp
        then show ?thesis using Cons by simp
      next
        case False
        then obtain d where d: "simple_escape e = Some d" using 2(4) True Cons by (auto split: option.split_asm)
        then have "length r < length r''" using 2(3) [OF _ _ Cons False d] 2(4) True Cons False by simp
        then show ?thesis using Cons by simp
      qed
    qed
  qed
qed simp

lemma parse_string_length: "parse_string s = Inr (t, r) \<Longrightarrow> length r < length s"
  using parse_chars_length [of "tl s" "[]" t r]
  by (cases s) (auto simp: parse_string_def at_char_def split: if_splits)

lemma dropWhile_tl_length: "length (dropWhile P (tl s)) \<le> length s"
  using length_dropWhile_le [of P "tl s"] by simp

lemma scan_sign_length: "length (snd (scan_sign s)) \<le> length s"
  by (simp add: scan_sign_def split: list.split)

lemma scan_exponent_length: "length (snd (scan_exponent ms s)) \<le> length s"
proof (cases s)
  case (Cons c r)
  obtain b u where u: "scan_sign r = (b, u)" by (cases "scan_sign r")
  then have "length (dropWhile is_digit u) \<le> length r"
    using length_dropWhile_le [of is_digit u] scan_sign_length [of r] by simp
  then show ?thesis by (simp add: scan_exponent_def Cons u Let_def)
qed (simp add: scan_exponent_def)

lemma scan_fraction_length:
  "scan_fraction P s = (ip, fp, r) \<Longrightarrow> length ip + length fp + length r \<le> length s"
proof -
  assume s: "scan_fraction P s = (ip, fp, r)"
  have l: "length (takeWhile P t) + length (dropWhile P t) = length t" for t
    by (metis length_append takeWhile_dropWhile_id)
  show ?thesis
  proof (cases "dropWhile P s")
    case (Cons c t)
    then have ls: "length (takeWhile P s) + Suc (length t) = length s" using l [of s] by simp
    have "(ip, fp, r) = (takeWhile P s, takeWhile P t, dropWhile P t) \<or> (ip, fp, r) = (takeWhile P s, [], c # t)"
      using s by (simp add: scan_fraction_def Cons Let_def split: if_split_asm)
    then show ?thesis using ls l [of t] by auto
  next
    case Nil
    then show ?thesis using s l [of s] unfolding scan_fraction_def Let_def Nil by simp
  qed
qed

lemma strtod_decimal_length:
  assumes "strtod_decimal b s = Some v"
  shows "length (snd v) < length s"
proof -
  obtain i f u where u: "scan_fraction is_digit s = (i, f, u)" by (metis surj_pair)
  obtain x w where w: "scan_exponent ''eE'' u = (x, w)" by (metis surj_pair)
  have v: "snd v = w" and n: "i \<noteq> [] \<or> f \<noteq> []" using assms by (auto simp: strtod_decimal_def u w split: if_split_asm)
  have "0 < length i + length f" using n by auto
  then show ?thesis using scan_fraction_length [OF u] scan_exponent_length [of "''eE''" u] unfolding v w snd_conv by linarith
qed

lemma strtod_hex_length:
  assumes "strtod_hex b s = Some v"
  shows "length (snd v) \<le> length s"
proof -
  obtain i f u where u: "scan_fraction is_xdigit s = (i, f, u)" by (metis surj_pair)
  obtain x w where w: "scan_exponent ''pP'' u = (x, w)" by (metis surj_pair)
  have "snd v = w" using assms by (auto simp: strtod_hex_def u w split: if_split_asm)
  then show ?thesis using scan_fraction_length [OF u] scan_exponent_length [of "''pP''" u] by (simp add: w)
qed

lemma after_nan_length: "length (after_nan s) \<le> length s"
proof (cases s)
  case (Cons c r)
  show ?thesis
  proof (cases "dropWhile (\<lambda>d. is_alnum d \<or> d = CHR ''_'') r")
    case Nil
    show ?thesis unfolding after_nan_def Cons list.case Nil by simp
  next
    case w: (Cons d u)
    have "Suc (length u) \<le> length r" using length_dropWhile_le [of "\<lambda>d. is_alnum d \<or> d = CHR ''_''" r] by (simp add: w)
    then show ?thesis by (simp add: after_nan_def Cons w)
  qed
qed (simp add: after_nan_def)

lemma has_prefix_length: "has_prefix p s \<Longrightarrow> length p \<le> length s"
  unfolding has_prefix_def by (metis length_map length_take min.cobounded1)

lemma strtod_length: "snd (strtod s) = s \<or> length (snd (strtod s)) < length s"
proof -
  obtain b r where r: "scan_sign (dropWhile is_space s) = (b, r)" by (metis surj_pair)
  have l: "length r \<le> length s"
    using scan_sign_length [of "dropWhile is_space s"] length_dropWhile_le [of is_space s] by (simp add: r)
  have d: "length (drop k r) < length s" if "has_prefix p r" "0 < k" "k \<le> length p" for p k
    using l has_prefix_length [OF that(1)] that(2,3) by simp
  consider "has_prefix ''infinity'' r" | "\<not> has_prefix ''infinity'' r" "has_prefix ''inf'' r"
    | "\<not> has_prefix ''infinity'' r" "\<not> has_prefix ''inf'' r" "has_prefix ''nan'' r"
    | v where "\<not> has_prefix ''infinity'' r" "\<not> has_prefix ''inf'' r" "\<not> has_prefix ''nan'' r"
        "has_prefix ''0x'' r" "strtod_hex b (drop 2 r) = Some v"
    | "\<not> has_prefix ''infinity'' r" "\<not> has_prefix ''inf'' r" "\<not> has_prefix ''nan'' r"
        "\<not> (has_prefix ''0x'' r \<and> strtod_hex b (drop 2 r) \<noteq> None)"
    by blast
  then show ?thesis
  proof cases
    case 1
    then show ?thesis using d [of "''infinity''" 8] by (simp add: strtod_def r)
  next
    case 2
    then show ?thesis using d [of "''inf''" 3] by (simp add: strtod_def r)
  next
    case 3
    then show ?thesis using le_less_trans [OF after_nan_length d [of "''nan''" 3]] by (simp add: strtod_def r)
  next
    case 4
    then show ?thesis using le_less_trans [OF strtod_hex_length d [of "''0x''" 2]] by (simp add: strtod_def r)
  next
    case 5
    then have "strtod s = (case strtod_decimal b r of None \<Rightarrow> (f64_zero, s) | Some v \<Rightarrow> v)"
      unfolding strtod_def r prod.case by (simp only: if_False)
    then show ?thesis using less_le_trans [OF strtod_decimal_length l] by (cases "strtod_decimal b r") simp_all
  qed
qed

lemma parse_key_length:
  assumes "parse_key s = Inr (k, r)"
  shows "length r < length s"
proof -
  obtain u where u: "parse_string (skip_ws s) = Inr (k, u)" "at_char (CHR '':'') (skip_ws u)" "r = tl (skip_ws u)"
    using assms by (auto simp: parse_key_def res_bind_Inr_iff split: if_split_asm)
  have "length u < length s" using parse_string_length [OF u(1)] skip_ws_length [of s] by simp
  then show ?thesis using at_char_skip [OF u(2)] u(3) by simp
qed

lemma parse_scalar_length:
  assumes "parse_scalar s = Inr (v, r)"
  shows "length r < length s"
proof (cases s)
  case Nil
  then show ?thesis using assms by (simp add: parse_scalar_def)
next
  case (Cons c t)
  have lit: "length r < length s" if "json_literal l w s = Inr (v, r)" "l \<noteq> []" for l w
    using that Cons by (auto simp: json_literal_def split: if_split_asm)
  have num: "length r < length s" if n: "parse_number s = Inr (v, r)"
  proof -
    obtain d u where u: "strtod s = (d, u)" by (metis surj_pair)
    then have "r = u" "u \<noteq> s" using n by (auto simp: parse_number_def split: if_split_asm)
    then show ?thesis using strtod_length [of s] by (simp add: u)
  qed
  consider "c = CHR 0x22" | "c \<noteq> CHR 0x22" "c = CHR ''t''" | "c \<noteq> CHR 0x22" "c = CHR ''f''"
    | "c \<noteq> CHR 0x22" "c = CHR ''n''"
    | "c \<notin> {CHR 0x22, CHR ''t'', CHR ''f'', CHR ''n''}" by blast
  then show ?thesis
  proof cases
    case 1
    then show ?thesis using assms Cons parse_string_length [of s] by (auto simp: parse_scalar_def res_bind_Inr_iff)
  next
    case 5
    then show ?thesis using assms Cons num by (auto simp: parse_scalar_def split: if_split_asm)
  qed (use assms Cons lit in \<open>simp_all add: parse_scalar_def\<close>)
qed


section \<open>The parser always returns\<close>

lemma parse_consumes:
  "(parse_value n s = Some (Inr (v, r)) \<longrightarrow> length r < length s)"
  "(parse_members n s kvs = Some (Inr (v, r)) \<longrightarrow> length r < length s)"
  "(parse_elements n s vs = Some (Inr (v, r)) \<longrightarrow> length r < length s)"
proof (induction n s and n s kvs and n s vs arbitrary: v r and v r and v r rule: parse_value_parse_members_parse_elements.induct)
  case (2 n s)
  show ?case
  proof (intro impI)
    assume p: "parse_value (Suc n) s = Some (Inr (v, r))"
    have less: "length (skip_ws (tl (skip_ws s))) < length s" if "at_char c (skip_ws s)" for c
      using le_less_trans [OF skip_ws_length at_char_skip [OF that]] .
    show "length r < length s"
    proof (cases rule: parse_value_cases [of s])
      case object
      then show ?thesis using p 2(1) [OF refl _ refl] less unfolding object(1) by (meson less_trans)
    next
      case array
      then show ?thesis using p "2.IH"(2) [OF refl _ _ refl] less unfolding array(1) by (meson less_trans)
    next
      case (empty c w)
      then have "r = tl (skip_ws (tl (skip_ws s)))" using p unfolding empty(1) by simp
      then show ?thesis using less [OF empty(2)] by simp
    next
      case scalar
      then have "length r < length (skip_ws s)" using p parse_scalar_length unfolding scalar(1) by blast
      then show ?thesis using skip_ws_length [of s] by simp
    qed
  qed
next
  case (4 n s kvs)
  show ?case
  proof (intro impI)
    assume p: "parse_members (Suc n) s kvs = Some (Inr (v, r))"
    then obtain k u w t where k: "parse_key s = Inr (k, u)" and w: "parse_value n u = Some (Inr (w, t))"
      by (auto simp: fuel_bind_Some)
    have l: "length t < length s"
    proof -
      have "length t < length u" using 4(1) [of "(k, u)" k u] k w by auto
      then show ?thesis using parse_key_length [OF k] by simp
    qed
    show "length r < length s"
    proof (cases "at_char (CHR '','') (skip_ws t)")
      case True
      then have "length r < length (tl (skip_ws t))"
        using p 4(2) [of "(k, u)" k u "(w, t)" w t "skip_ws t"] k w by (simp add: Let_def)
      then show ?thesis using l at_char_skip [OF True] by simp
    next
      case False
      then have "at_char (CHR ''}'') (skip_ws t)" "r = tl (skip_ws t)"
        using p k w by (simp_all add: Let_def split: if_split_asm)
      then show ?thesis using l at_char_skip by (metis less_trans)
    qed
  qed
next
  case (6 n s vs)
  show ?case
  proof (intro impI)
    assume p: "parse_elements (Suc n) s vs = Some (Inr (v, r))"
    then obtain w t where w: "parse_value n s = Some (Inr (w, t))" by (auto simp: fuel_bind_Some)
    have l: "length t < length s" using 6(1) w by blast
    show "length r < length s"
    proof (cases "at_char (CHR '','') (skip_ws t)")
      case True
      then have "length r < length (tl (skip_ws t))"
        using p 6(2) [of "(w, t)" w t "skip_ws t"] w by (simp add: Let_def)
      then show ?thesis using l at_char_skip [OF True] by simp
    next
      case False
      then have "at_char (CHR '']'') (skip_ws t)" "r = tl (skip_ws t)"
        using p w by (simp_all add: Let_def split: if_split_asm)
      then show ?thesis using l at_char_skip by (metis less_trans)
    qed
  qed
qed simp_all

lemma parse_defined:
  "2 * length s < n \<Longrightarrow> parse_value n s \<noteq> None"
  "2 * length s + 1 < n \<Longrightarrow> parse_members n s kvs \<noteq> None"
  "2 * length s + 1 < n \<Longrightarrow> parse_elements n s vs \<noteq> None"
proof (induction n s and n s kvs and n s vs rule: parse_value_parse_members_parse_elements.induct)
  case (2 n s)
  have less: "length (skip_ws (tl (skip_ws s))) < length s" if "at_char c (skip_ws s)" for c
    using le_less_trans [OF skip_ws_length at_char_skip [OF that]] .
  show ?case
  proof (cases rule: parse_value_cases [of s])
    case object
    have "2 * length (skip_ws (tl (skip_ws s))) + 1 < n" using less [OF object(2)] 2(3) by simp
    then show ?thesis using 2(1) [OF refl object(2) refl object(3)] unfolding object(1) by blast
  next
    case array
    have "2 * length (skip_ws (tl (skip_ws s))) + 1 < n" using less [OF array(3)] 2(3) by simp
    then show ?thesis using "2.IH"(2) [OF refl array(2,3) refl array(4)] unfolding array(1) by blast
  next
    case (empty c w)
    show ?thesis unfolding empty(1) by simp
  next
    case scalar
    show ?thesis unfolding scalar(1) by simp
  qed
next
  case (4 n s kvs)
  show ?case
  proof (cases "parse_key s")
    case (Inr kr)
    then obtain k u where k: "parse_key s = Inr (k, u)" by (cases kr) auto
    have "parse_value n u \<noteq> None"
      using 4(1) [of "(k, u)" k u] k parse_key_length [OF k] 4(3) by simp
    then obtain y where y: "parse_value n u = Some y" by blast
    show ?thesis
    proof (cases y)
      case (Inl e)
      then show ?thesis using k y by simp
    next
      case (Inr wt)
      then obtain w t where w: "parse_value n u = Some (Inr (w, t))" using y by (cases wt) auto
      have "length t < length u" using parse_consumes(1) w by blast
      then have l: "length t < length s" using parse_key_length [OF k] by simp
      have "parse_members n (tl (skip_ws t)) (kvs @ [(k, w)]) \<noteq> None" if c: "at_char (CHR '','') (skip_ws t)"
        using 4(2) [of "(k, u)" k u "(w, t)" w t "skip_ws t"] k w c at_char_skip [OF c] l 4(3) by simp
      then show ?thesis using k w by (auto simp: Let_def)
    qed
  qed simp
next
  case (6 n s vs)
  have "parse_value n s \<noteq> None" using 6(1,3) by simp
  then obtain y where y: "parse_value n s = Some y" by blast
  show ?case
  proof (cases y)
    case (Inl e)
    then show ?thesis using y by simp
  next
    case (Inr wt)
    then obtain w t where w: "parse_value n s = Some (Inr (w, t))" using y by (cases wt) auto
    have l: "length t < length s" using parse_consumes(1) w by blast
    have "parse_elements n (tl (skip_ws t)) (vs @ [w]) \<noteq> None" if c: "at_char (CHR '','') (skip_ws t)"
      using 6(2) [of "(w, t)" w t "skip_ws t"] w c at_char_skip [OF c] l 6(3) by simp
    then show ?thesis using w by (auto simp: Let_def)
  qed
qed simp_all

lemma parse_with_fuel:
  assumes "\<exists>N. \<forall>n \<ge> N. parse_value n s = Some x"
  shows "parse_value (json_fuel s) s = Some x"
proof -
  obtain N where N: "parse_value n s = Some x" if "N \<le> n" for n using assms by blast
  obtain y where y: "parse_value (json_fuel s) s = Some y"
    using parse_defined(1) [of s "json_fuel s"] by (auto simp: json_fuel_def)
  have "parse_value (max N (json_fuel s)) s = Some y" using fuel_mono(1) y by (metis max.cobounded2)
  then show ?thesis using N [of "max N (json_fuel s)"] y by simp
qed


section \<open>Reading back what was written\<close>

definition json_stop :: "string \<Rightarrow> bool" where
  "json_stop r \<longleftrightarrow> r = [] \<or> hd r \<in> {CHR '','', CHR '']'', CHR ''}'', CHR 0x0A}"

lemma json_stop_num: "json_stop r \<Longrightarrow> num_stop r"
  by (auto simp: json_stop_def num_stop_def is_digit_def)

fun printable_number :: "f64 \<Rightarrow> bool" where
  "printable_number (F_num s m e) \<longleftrightarrow> f64_ok (F_num s m e) \<and> (m = 0 \<longrightarrow> \<not> s)"
| "printable_number x \<longleftrightarrow> False"

fun printable :: "json \<Rightarrow> bool" where
  "printable (J_number n) \<longleftrightarrow> printable_number n"
| "printable (J_array vs) \<longleftrightarrow> (\<forall>v \<in> set vs. printable v)"
| "printable (J_object kvs) \<longleftrightarrow> (\<forall>kv \<in> set kvs. printable (snd kv))"
| "printable v \<longleftrightarrow> True"

lemma number_to_reads:
  assumes "printable_number n" and stop: "num_stop r"
  shows "strtod (number_to n @ r) = (n, r)"
proof (cases n)
  case (F_num s m e)
  then have ok: "f64_ok (F_num s m e)" and z: "m = 0 \<longrightarrow> \<not> s" using assms(1) by simp_all
  show ?thesis
  proof (cases "m = 0")
    case True
    then have n: "n = F_num False 0 (-1074)" using F_num ok z by (simp add: f64_ok_def)
    have "number_to (F_num False 0 (-1074)) = show_int 0" by code_simp
    then show ?thesis using show_int_reads [OF stop, of 0] by (simp add: n f64_of_int_0)
  next
    case False
    then have m: "0 < m" using ok by (simp add: f64_ok_def)
    consider (int) "f64_eq n (f64_floor n)" "f64_lt (f64_abs n) (f64_lit (10 ^ 15) 1)"
      | (other) "\<not> (f64_eq n (f64_floor n) \<and> f64_lt (f64_abs n) (f64_lit (10 ^ 15) 1))" by blast
    then show ?thesis
    proof cases
      case int
      obtain i where i: "f64_trunc n = Some i" "n = f64_of_int i"
        by (rule integral_double [OF ok m]) (use int F_num in simp_all)
      have "number_to n = show_int i" using int i(1) by (simp add: number_to_def F_num)
      then show ?thesis using show_int_reads [OF stop] i(2) by simp
    next
      case other
      then have w: "number_to n = (if f64_eq (fst (strtod (fmt_g 15 n))) n then fmt_g 15 n
          else if f64_eq (fst (strtod (fmt_g 16 n))) n then fmt_g 16 n else fmt_g 17 n)"
        by (simp only: number_to_def if_False simp_thms)
      have "strtod (fmt_g P n @ r) = (n, r)" if "0 < P" "f64_eq (fst (strtod (fmt_g P n))) n" for P
        using fmt_g_reads_same [OF ok m stop that(1)] that(2) unfolding F_num .
      moreover have "strtod (fmt_g 17 n @ r) = (n, r)"
        using fmt_17_reads [OF ok m stop] unfolding F_num .
      ultimately show ?thesis unfolding w
        by (cases "f64_eq (fst (strtod (fmt_g 15 n))) n"; cases "f64_eq (fst (strtod (fmt_g 16 n))) n")
          (simp_all del: fmt_g.simps)
    qed
  qed
qed (use assms in simp_all)


text \<open>The first character of a printed number.\<close>

lemma show_digits_head:
  assumes "0 \<le> n"
  obtains c t where "show_digits n = c # t" and "is_digit c"
  using show_digits_props [OF assms] by (cases "show_digits n") auto

lemma layout_g_head:
  assumes "0 \<le> n"
  obtains c t where "layout_g P n x = c # t" and "is_digit c"
proof -
  obtain c t where c: "show_digits n = c # t" "is_digit c" by (rule show_digits_head [OF assms])
  have z: "is_digit (CHR ''0'')" by (simp add: is_digit_def)
  have w: "\<exists>t. with_fraction (d # ip) fp = d # t" for d ip fp by (simp add: with_fraction_def)
  have "\<exists>d t. layout_g P n x = d # t \<and> is_digit d"
    using c z w [of c] w [of "CHR ''0''"] by (auto simp: layout_g_def Let_def) (metis append_Cons)+
  then show thesis using that by blast
qed

lemma number_to_head:
  assumes "printable_number n"
  obtains c t where "number_to n = c # t" and "c = CHR ''-'' \<or> is_digit c"
proof -
  obtain s m e where n: "n = F_num s m e" using assms by (cases n) auto
  have int: "\<exists>c t. show_int i = c # t \<and> (c = CHR ''-'' \<or> is_digit c)" for i
  proof (cases "0 \<le> i")
    case True
    then show ?thesis by (metis show_digits_head show_int_def not_less)
  next
    case False
    then show ?thesis by (simp add: show_int_def)
  qed
  have g: "\<exists>c t. fmt_g (Suc k) n = c # t \<and> (c = CHR ''-'' \<or> is_digit c)" for k
  proof (cases "s \<or> m = 0")
    case True
    then show ?thesis by (auto simp: n is_digit_def)
  next
    case False
    then have p: "0 < m * 2 ^ nat e" "(0::int) < 2 ^ nat (- e)" using assms by (auto simp: n f64_ok_def)
    obtain N y where N: "decimal_digits (Suc k) (m * 2 ^ nat e) (2 ^ nat (- e)) = (N, y)" by (metis surj_pair)
    have "(0::int) \<le> 10 ^ k" by simp
    then have "0 \<le> N" using decimal_digits_range [OF p N] by linarith
    then obtain c t where "layout_g (Suc k) N y = c # t" "is_digit c" by (rule layout_g_head)
    moreover have "fmt_g (Suc k) n = layout_g (Suc k) N y" using False N by (simp add: n)
    ultimately show ?thesis by simp
  qed
  have "\<exists>c t. number_to n = c # t \<and> (c = CHR ''-'' \<or> is_digit c)"
  proof -
    consider i where "number_to n = show_int i" | k where "number_to n = fmt_g (Suc k) n"
    proof (cases "f64_finite n \<and> f64_eq n (f64_floor n) \<and> f64_lt (f64_abs n) (f64_lit (10 ^ 15) 1)")
      case True
      then show thesis using that(1) by (simp only: number_to_def if_True simp_thms)
    next
      case False
      then have "number_to n = (if f64_eq (fst (strtod (fmt_g 15 n))) n then fmt_g 15 n
          else if f64_eq (fst (strtod (fmt_g 16 n))) n then fmt_g 16 n else fmt_g 17 n)"
        by (simp only: number_to_def if_False simp_thms)
      then have "number_to n = fmt_g 15 n \<or> number_to n = fmt_g 16 n \<or> number_to n = fmt_g 17 n" by metis
      then have "number_to n = fmt_g (Suc 14) n \<or> number_to n = fmt_g (Suc 15) n \<or> number_to n = fmt_g (Suc 16) n"
        by (simp del: fmt_g.simps)
      then show thesis using that(2) by blast
    qed
    then show ?thesis using int g by cases simp_all
  qed
  then show thesis using that by blast
qed

section \<open>Strings\<close>

lemma hex_char_props:
  "d < 16 \<Longrightarrow> is_xdigit (hex_char d) \<and> xdigit_val (hex_char d) = d \<and> \<not> is_space (hex_char d)"
  by (simp add: hex_char_def is_xdigit_def xdigit_val_def is_digit_def digit_val_def is_space_def Let_def)

lemma strtoul16_control:
  assumes "n < 32"
  shows "strtoul16 [CHR ''0'', CHR ''0'', hex_char (n div 16), hex_char (n mod 16)] = int n"
proof -
  have h: "is_xdigit (hex_char (n div 16))" "is_xdigit (hex_char (n mod 16))"
    "xdigit_val (hex_char (n div 16)) = n div 16" "xdigit_val (hex_char (n mod 16)) = n mod 16"
    using hex_char_props [of "n div 16"] hex_char_props [of "n mod 16"] assms by simp_all
  have z: "\<not> is_space (CHR ''0'')" "is_xdigit (CHR ''0'')" "xdigit_val (CHR ''0'') = 0" "lower_char (CHR ''0'') = CHR ''0''"
    by (simp_all add: is_space_def is_xdigit_def is_digit_def xdigit_val_def digit_val_def lower_char_def)
  have "xdigits_val [CHR ''0'', CHR ''0'', hex_char (n div 16), hex_char (n mod 16)] = 16 * (int n div 16) + int n mod 16"
    using h z by (simp add: xdigits_val_def zdiv_int zmod_int)
  then show ?thesis using h z assms by (simp add: strtoul16_def scan_sign_def has_prefix_def Let_def)
qed

lemma parse_escaped_char: "parse_chars (escape_char c @ r) out = parse_chars r (out @ [c])"
proof (cases "c \<in> {CHR 0x22, CHR 0x5C, CHR 0x0A, CHR 0x0D, CHR 0x09}")
  case True
  then show ?thesis by (auto simp: escape_char_def simple_escape_def)
next
  case False
  show ?thesis
  proof (cases "(of_char c :: nat) < 32")
    case low: True
    define n where "n = (of_char c :: nat)"
    have n: "n < 32" "char_of n = c" using low by (simp_all add: n_def)
    have "unat (word_of_nat n :: 32 word) = n" using n(1) by (simp add: unat_of_nat take_bit_nat_eq_self)
    then have "utf8 (word_of_int (strtoul16 [CHR ''0'', CHR ''0'', hex_char (n div 16), hex_char (n mod 16)])) = [c]"
      using n by (simp add: strtoul16_control utf8_def word_less_nat_alt)
    then show ?thesis using False low by (simp add: escape_char_def simple_escape_def flip: n_def)
  next
    case False
    then show ?thesis using \<open>c \<notin> _\<close> by (simp add: escape_char_def)
  qed
qed

lemma parse_escaped: "parse_string (escape_to s @ r) = Inr (s, r)"
proof -
  have "parse_chars (concat (map escape_char s) @ CHR 0x22 # r) out = Inr (out @ s, r)" for out
    by (induction s arbitrary: out) (simp_all add: parse_escaped_char)
  then show ?thesis by (simp add: parse_string_def escape_to_def at_char_def)
qed


section \<open>Values\<close>

lemma dump_head:
  assumes "printable v"
  obtains c t where "dump_to indent depth v = c # t" and "\<not> json_ws c" and "c \<noteq> CHR '']''" and "c \<noteq> CHR ''}''"
proof -
  have "\<exists>c t. dump_to indent depth v = c # t \<and> \<not> json_ws c \<and> c \<noteq> CHR '']'' \<and> c \<noteq> CHR ''}''"
  proof (cases v)
    case (J_number n)
    obtain c t where c: "number_to n = c # t" "c = CHR ''-'' \<or> is_digit c"
      using assms J_number by (metis number_to_head printable.simps(1))
    have "\<not> json_ws c \<and> c \<noteq> CHR '']'' \<and> c \<noteq> CHR ''}''" using c(2) by (auto simp: json_ws_def is_digit_def)
    then show ?thesis using c(1) J_number by simp
  qed (simp_all add: json_ws_def escape_to_def)
  then show thesis using that by blast
qed

lemma skip_ws_append: "(\<forall>c \<in> set ws. json_ws c) \<Longrightarrow> skip_ws (ws @ s) = skip_ws s"
  by (simp add: skip_ws_def dropWhile_append2)

lemma skip_ws_Cons: "\<not> json_ws c \<Longrightarrow> skip_ws (c # s) = c # s"
  by (simp add: skip_ws_def)

lemma parse_skip_ws:
  "parse_value n (skip_ws s) = parse_value n s"
  "parse_elements n (skip_ws s) vs = parse_elements n s vs"
  "parse_members n (skip_ws s) kvs = parse_members n s kvs"
proof -
  show v: "parse_value n (skip_ws s) = parse_value n s" for n by (cases n) (simp_all add: Let_def)
  show "parse_elements n (skip_ws s) vs = parse_elements n s vs" by (cases n) (simp_all add: v)
  show "parse_members n (skip_ws s) kvs = parse_members n s kvs" by (cases n) (simp_all add: parse_key_def)
qed

lemma layout_ws: "\<forall>c \<in> set (dump_nl i). json_ws c" "\<forall>c \<in> set (dump_pad i d). json_ws c"
  by (simp_all add: dump_nl_def dump_pad_def json_ws_def)

lemma parse_scalar_number:
  assumes "printable_number x" and "json_stop r"
  shows "parse_scalar (number_to x @ r) = Inr (J_number x, r)"
proof -
  obtain c t where c: "number_to x = c # t" "c = CHR ''-'' \<or> is_digit c" by (rule number_to_head [OF assms(1)])
  have "c \<noteq> CHR 0x22" "c \<noteq> CHR ''t''" "c \<noteq> CHR ''f''" "c \<noteq> CHR ''n''" using c(2) by (auto simp: is_digit_def)
  moreover have "parse_number (number_to x @ r) = Inr (J_number x, r)"
    using number_to_reads [OF assms(1) json_stop_num [OF assms(2)]] c(1) by (simp add: parse_number_def)
  ultimately show ?thesis using c by (simp add: parse_scalar_def)
qed

text \<open>A parse that succeeds with every fuel from some bound on.\<close>

definition reads :: "string \<Rightarrow> json \<Rightarrow> string \<Rightarrow> bool" where
  "reads s v r \<longleftrightarrow> (\<exists>N. \<forall>n \<ge> N. parse_value n s = Some (Inr (v, r)))"

definition reads_items :: "string \<Rightarrow> json list \<Rightarrow> json list \<Rightarrow> string \<Rightarrow> bool" where
  "reads_items s acc vs r \<longleftrightarrow> (\<exists>N. \<forall>n \<ge> N. parse_elements n s acc = Some (Inr (J_array (acc @ vs), r)))"

definition reads_members :: "string \<Rightarrow> (string \<times> json) list \<Rightarrow> (string \<times> json) list \<Rightarrow> string \<Rightarrow> bool" where
  "reads_members s acc kvs r \<longleftrightarrow> (\<exists>N. \<forall>n \<ge> N. parse_members n s acc = Some (Inr (J_object (acc @ kvs), r)))"

lemma all_fuel_Suc: "(\<exists>N. \<forall>n \<ge> N. P (Suc n)) \<longleftrightarrow> (\<exists>N. \<forall>n \<ge> N. P n)"
  by (metis Suc_le_D Suc_le_mono le_SucI)

lemma reads_skip: "reads (skip_ws s) v r = reads s v r"
  by (simp add: reads_def parse_skip_ws)

lemma reads_ws: "\<forall>c \<in> set ws. json_ws c \<Longrightarrow> reads (ws @ s) v r = reads s v r"
  by (metis reads_skip skip_ws_append)

lemma reads_scalar:
  assumes "s = c # t" and "\<not> json_ws c" and "c \<noteq> CHR ''{''" and "c \<noteq> CHR ''[''" and "parse_scalar s = Inr (v, r)"
  shows "reads s v r"
proof -
  have "parse_value (Suc n) s = Some (Inr (v, r))" for n
    using assms by (simp add: skip_ws_Cons at_char_def)
  then show ?thesis unfolding reads_def by (subst all_fuel_Suc [symmetric]) simp
qed

lemma reads_element_last:
  assumes "reads s v (ws @ '']'' @ r)" and "\<forall>c \<in> set ws. json_ws c"
  shows "reads_items s acc [v] r"
proof -
  have u: "skip_ws (ws @ '']'' @ r) = '']'' @ r" using skip_ws_append [OF assms(2)] by (simp add: skip_ws_Cons json_ws_def)
  obtain N where "\<forall>n \<ge> N. parse_value n s = Some (Inr (v, ws @ '']'' @ r))" using assms(1) by (auto simp: reads_def)
  then have "\<forall>n \<ge> N. parse_elements (Suc n) s acc = Some (Inr (J_array (acc @ [v]), r))"
    using u by (simp add: Let_def at_char_def)
  then show ?thesis unfolding reads_items_def by (subst all_fuel_Suc [symmetric]) blast
qed

lemma reads_element_more:
  assumes "reads s v ('','' @ t)" and "reads_items t (acc @ [v]) vs r"
  shows "reads_items s acc (v # vs) r"
proof -
  have u: "skip_ws ('','' @ t) = '','' @ t" by (simp add: skip_ws_Cons json_ws_def)
  obtain N M where "\<forall>n \<ge> N. parse_value n s = Some (Inr (v, '','' @ t))"
    "\<forall>n \<ge> M. parse_elements n t (acc @ [v]) = Some (Inr (J_array ((acc @ [v]) @ vs), r))"
    using assms by (auto simp: reads_def reads_items_def)
  then have "\<forall>n \<ge> max N M. parse_elements (Suc n) s acc = Some (Inr (J_array (acc @ v # vs), r))"
    using u by (simp add: Let_def at_char_def)
  then show ?thesis unfolding reads_items_def by (subst all_fuel_Suc [symmetric]) blast
qed

lemma reads_member_last:
  assumes "parse_key s = Inr (k, u)" and "reads u v (ws @ ''}'' @ r)" and "\<forall>c \<in> set ws. json_ws c"
  shows "reads_members s acc [(k, v)] r"
proof -
  have u: "skip_ws (ws @ ''}'' @ r) = ''}'' @ r" using skip_ws_append [OF assms(3)] by (simp add: skip_ws_Cons json_ws_def)
  obtain N where "\<forall>n \<ge> N. parse_value n u = Some (Inr (v, ws @ ''}'' @ r))" using assms(2) by (auto simp: reads_def)
  then have "\<forall>n \<ge> N. parse_members (Suc n) s acc = Some (Inr (J_object (acc @ [(k, v)]), r))"
    using u assms(1) by (simp add: Let_def at_char_def)
  then show ?thesis unfolding reads_members_def by (subst all_fuel_Suc [symmetric]) blast
qed

lemma reads_member_more:
  assumes "parse_key s = Inr (k, u)" and "reads u v ('','' @ t)" and "reads_members t (acc @ [(k, v)]) kvs r"
  shows "reads_members s acc ((k, v) # kvs) r"
proof -
  have u: "skip_ws ('','' @ t) = '','' @ t" by (simp add: skip_ws_Cons json_ws_def)
  obtain N M where "\<forall>n \<ge> N. parse_value n u = Some (Inr (v, '','' @ t))"
    "\<forall>n \<ge> M. parse_members n t (acc @ [(k, v)]) = Some (Inr (J_object ((acc @ [(k, v)]) @ kvs), r))"
    using assms(2,3) by (auto simp: reads_def reads_members_def)
  then have "\<forall>n \<ge> max N M. parse_members (Suc n) s acc = Some (Inr (J_object (acc @ (k, v) # kvs), r))"
    using u assms(1) by (simp add: Let_def at_char_def)
  then show ?thesis unfolding reads_members_def by (subst all_fuel_Suc [symmetric]) blast
qed

lemma reads_array:
  assumes "reads_items u [] vs r" and "\<not> at_char (CHR '']'') (skip_ws u)"
  shows "reads (''['' @ u) (J_array vs) r"
proof -
  obtain N where "\<forall>n \<ge> N. parse_elements n (skip_ws u) [] = Some (Inr (J_array vs, r))"
    using assms(1) by (auto simp: reads_items_def parse_skip_ws)
  then have "\<forall>n \<ge> N. parse_value (Suc n) (''['' @ u) = Some (Inr (J_array vs, r))"
    using assms(2) by (simp add: Let_def skip_ws_Cons json_ws_def) (simp add: at_char_def)
  then show ?thesis unfolding reads_def by (subst all_fuel_Suc [symmetric]) blast
qed

lemma reads_object:
  assumes "reads_members u [] kvs r" and "\<not> at_char (CHR ''}'') (skip_ws u)"
  shows "reads (''{'' @ u) (J_object kvs) r"
proof -
  obtain N where "\<forall>n \<ge> N. parse_members n (skip_ws u) [] = Some (Inr (J_object kvs, r))"
    using assms(1) by (auto simp: reads_members_def parse_skip_ws)
  then have "\<forall>n \<ge> N. parse_value (Suc n) (''{'' @ u) = Some (Inr (J_object kvs, r))"
    using assms(2) by (simp add: Let_def skip_ws_Cons json_ws_def) (simp add: at_char_def)
  then show ?thesis unfolding reads_def by (subst all_fuel_Suc [symmetric]) blast
qed


lemma parse_key_written:
  assumes "\<forall>c \<in> set ws. json_ws c"
  shows "parse_key (ws @ escape_to k @ (if 0 < i then '': '' else '':'') @ s) = Inr (k, (if 0 < (i :: nat) then '' '' else []) @ s)"
proof -
  have q: "skip_ws (escape_to k @ t) = escape_to k @ t" for t
    by (simp add: escape_to_def skip_ws_Cons json_ws_def)
  have c: "skip_ws ('':'' @ t) = '':'' @ t" for t by (simp add: skip_ws_Cons json_ws_def)
  show ?thesis using parse_escaped q c
    by (cases "0 < i") (simp_all add: parse_key_def skip_ws_append [OF assms] at_char_def)
qed

lemma dump_reads:
  "printable v \<Longrightarrow> json_stop r \<Longrightarrow> reads (dump_to i d v @ r) v r"
  "\<forall>v \<in> set vs. printable v \<Longrightarrow> vs \<noteq> [] \<Longrightarrow>
    reads_items (dump_items i d vs @ dump_pad i d @ '']'' @ r) acc vs r"
  "\<forall>kv \<in> set kvs. printable (snd kv) \<Longrightarrow> kvs \<noteq> [] \<Longrightarrow>
    reads_members (dump_members i d kvs @ dump_pad i d @ ''}'' @ r) kacc kvs r"
proof (induction i d v and i d vs and i d kvs arbitrary: r and r acc and r kacc rule: dump_to_dump_items_dump_members.induct)
  case (1 i d)
  show ?case by (rule reads_scalar [of _ "CHR ''n''" "''ull'' @ r"]) (simp_all add: json_ws_def parse_scalar_def json_literal_def)
next
  case (2 i d b)
  have "reads (''true'' @ r) (J_boolean True) r"
    by (rule reads_scalar [of _ "CHR ''t''" "''rue'' @ r"]) (simp_all add: json_ws_def parse_scalar_def json_literal_def)
  moreover have "reads (''false'' @ r) (J_boolean False) r"
    by (rule reads_scalar [of _ "CHR ''f''" "''alse'' @ r"]) (simp_all add: json_ws_def parse_scalar_def json_literal_def)
  ultimately show ?case by (cases b) simp_all
next
  case (3 i d n)
  obtain c t where c: "number_to n = c # t" "c = CHR ''-'' \<or> is_digit c"
    using 3(1) by (metis number_to_head printable.simps(1))
  have "\<not> json_ws c" "c \<noteq> CHR ''{''" "c \<noteq> CHR ''[''" using c(2) by (auto simp: json_ws_def is_digit_def)
  then show ?case using parse_scalar_number [of n r] 3 c(1) by (intro reads_scalar [of _ c "t @ r"]) simp_all
next
  case (4 i d s)
  have "parse_scalar (escape_to s @ r) = Inr (J_string s, r)"
    using parse_escaped [of s r] by (simp add: parse_scalar_def escape_to_def)
  then show ?case by (intro reads_scalar [of _ "CHR 0x22"]) (simp_all add: escape_to_def json_ws_def)
next
  case (5 i d vs)
  show ?case
  proof (cases vs)
    case Nil
    have "parse_value (Suc n) (''[]'' @ r) = Some (Inr (J_array [], r))" for n
      by (simp add: Let_def skip_ws_Cons json_ws_def at_char_def)
    then show ?thesis unfolding reads_def Nil by (subst all_fuel_Suc [symmetric]) simp
  next
    case (Cons w ws)
    let ?u = "dump_nl i @ dump_items i d vs @ dump_pad i d @ '']'' @ r"
    have p: "\<forall>v \<in> set vs. printable v" using 5(2) by simp
    obtain c t where c: "dump_to i (d + 1) w = c # t" "\<not> json_ws c" "c \<noteq> CHR '']''"
      using dump_head [of w i "d + 1"] p Cons by (metis list.set_intros(1))
    have "skip_ws ?u = c # t @ (if ws = [] then [] else '','') @ dump_nl i @ dump_items i d ws @ dump_pad i d @ '']'' @ r"
      using c by (simp add: Cons skip_ws_append [OF layout_ws(1)] skip_ws_append [OF layout_ws(2)] skip_ws_Cons)
    then have "\<not> at_char (CHR '']'') (skip_ws ?u)" using c(3) by (simp add: at_char_def)
    moreover have "reads_items ?u [] vs r"
      using 5(1) [OF _ p] Cons parse_skip_ws(2) skip_ws_append [OF layout_ws(1)]
      unfolding reads_items_def by (metis list.distinct(1))
    ultimately have "reads (''['' @ ?u) (J_array vs) r" by (rule reads_array [rotated])
    then show ?thesis using Cons by simp
  qed
next
  case (6 i d kvs)
  show ?case
  proof (cases kvs)
    case Nil
    have "parse_value (Suc n) (''{}'' @ r) = Some (Inr (J_object [], r))" for n
      by (simp add: Let_def skip_ws_Cons json_ws_def at_char_def)
    then show ?thesis unfolding reads_def Nil by (subst all_fuel_Suc [symmetric]) simp
  next
    case (Cons kw ws)
    let ?u = "dump_nl i @ dump_members i d kvs @ dump_pad i d @ ''}'' @ r"
    obtain k w where kw: "kw = (k, w)" by (cases kw)
    have p: "\<forall>kv \<in> set kvs. printable (snd kv)" using 6(2) by simp
    have "\<exists>t. skip_ws ?u = CHR 0x22 # t"
      by (simp add: Cons kw skip_ws_append [OF layout_ws(1)] skip_ws_append [OF layout_ws(2)] escape_to_def skip_ws_Cons json_ws_def)
    then have "\<not> at_char (CHR ''}'') (skip_ws ?u)" by (auto simp: at_char_def)
    moreover have "reads_members ?u [] kvs r"
      using 6(1) [OF _ p] Cons parse_skip_ws(3) skip_ws_append [OF layout_ws(1)]
      unfolding reads_members_def by (metis list.distinct(1))
    ultimately have "reads (''{'' @ ?u) (J_object kvs) r" by (rule reads_object [rotated])
    then show ?thesis using Cons by simp
  qed
next
  case (8 i d v vs)
  have p: "printable v" using 8(3) by simp
  show ?case
  proof (cases "vs = []")
    case True
    let ?ws = "dump_nl i @ dump_pad i d"
    have ws: "\<forall>c \<in> set ?ws. json_ws c" using layout_ws by auto
    have "json_stop (dump_nl i @ dump_pad i d @ '']'' @ r)"
      by (cases "0 < i") (simp_all add: json_stop_def dump_nl_def dump_pad_def)
    then have "reads (dump_to i (d + 1) v @ ?ws @ '']'' @ r) v (?ws @ '']'' @ r)" using 8(1) p by simp
    then have "reads (dump_pad i (d + 1) @ dump_to i (d + 1) v @ ?ws @ '']'' @ r) v (?ws @ '']'' @ r)"
      by (simp only: reads_ws [OF layout_ws(2)])
    from reads_element_last [OF this ws] True show ?thesis by simp
  next
    case False
    let ?t = "dump_nl i @ dump_items i d vs @ dump_pad i d @ '']'' @ r"
    have "json_stop ('','' @ ?t)" by (simp add: json_stop_def)
    then have "reads (dump_to i (d + 1) v @ '','' @ ?t) v ('','' @ ?t)" using 8(1) p by blast
    then have 1: "reads (dump_pad i (d + 1) @ dump_to i (d + 1) v @ '','' @ ?t) v ('','' @ ?t)"
      by (simp only: reads_ws [OF layout_ws(2)])
    have "reads_items ?t (acc @ [v]) vs r"
      using 8(2) [of r "acc @ [v]"] 8(3) False parse_skip_ws(2) skip_ws_append [OF layout_ws(1)]
      unfolding reads_items_def by (metis list.set_intros(2))
    from reads_element_more [OF 1 this] False show ?thesis by simp
  qed
next
  case (10 i d k v kvs)
  have p: "printable v" using 10(3) by simp
  let ?sp = "if 0 < i then '' '' else []"
  have sp: "\<forall>c \<in> set ?sp. json_ws c" by (simp add: json_ws_def)
  show ?case
  proof (cases "kvs = []")
    case True
    let ?ws = "dump_nl i @ dump_pad i d"
    have ws: "\<forall>c \<in> set ?ws. json_ws c" using layout_ws by auto
    have "json_stop (dump_nl i @ dump_pad i d @ ''}'' @ r)"
      by (cases "0 < i") (simp_all add: json_stop_def dump_nl_def dump_pad_def)
    then have "reads (dump_to i (d + 1) v @ ?ws @ ''}'' @ r) v (?ws @ ''}'' @ r)" using 10(1) p by simp
    then have "reads (?sp @ dump_to i (d + 1) v @ ?ws @ ''}'' @ r) v (?ws @ ''}'' @ r)"
      by (simp only: reads_ws [OF sp])
    from reads_member_last [OF parse_key_written [OF layout_ws(2)] this ws] True show ?thesis by simp
  next
    case False
    let ?t = "dump_nl i @ dump_members i d kvs @ dump_pad i d @ ''}'' @ r"
    have "json_stop ('','' @ ?t)" by (simp add: json_stop_def)
    then have "reads (dump_to i (d + 1) v @ '','' @ ?t) v ('','' @ ?t)" using 10(1) p by blast
    then have 1: "reads (?sp @ dump_to i (d + 1) v @ '','' @ ?t) v ('','' @ ?t)"
      by (simp only: reads_ws [OF sp])
    have "reads_members ?t (kacc @ [(k, v)]) kvs r"
      using 10(2) [of r "kacc @ [(k, v)]"] 10(3) False parse_skip_ws(3) skip_ws_append [OF layout_ws(1)]
      unfolding reads_members_def by (metis list.set_intros(2))
    from reads_member_more [OF parse_key_written [OF layout_ws(2)] 1 this] False show ?thesis by simp
  qed
qed simp_all


lemma dump_parses:
  assumes "printable v"
  shows "json_parse (json_dump v indent) = Some (Inr v)"
proof -
  have "json_stop []" by (simp add: json_stop_def)
  then have "reads (dump_to indent 0 v @ []) v []" by (rule dump_reads(1) [OF assms])
  then have "parse_value (json_fuel (json_dump v indent)) (json_dump v indent) = Some (Inr (v, []))"
    unfolding reads_def json_dump_def by (intro parse_with_fuel) simp
  then show ?thesis by (simp add: json_parse_def skip_ws_def)
qed

section \<open>Properties\<close>

text \<open>C9: The writer and the parser of JSON are inverse: a value whose numbers are finite and not the negative
  zero is read back exactly, whatever the indentation; the printed digits of every number determine it.\<close>

theorem json_roundtrip:
  assumes "printable v"
  shows "json_parse (json_dump v indent) = Some (Inr v)"
  using assms by (rule dump_parses)

theorem json_roundtrip_witness:
  "json_parse (json_dump (J_object [(''x'', J_array [J_number (f64_lit 1 3), J_null])]) 2) =
    Some (Inr (J_object [(''x'', J_array [J_number (f64_lit 1 3), J_null])]))"
proof -
  have "printable_number (f64_lit 1 3)" by code_simp
  then show ?thesis by (intro json_roundtrip) simp
qed

text \<open>The parser always returns: on every text it yields a value or a message, the fuel never runs out,
  and the line a message reports is a line of the text.\<close>

theorem json_parse_total:
  "(\<exists>res. json_parse src = Some res) \<and>
    1 \<le> fail_line src rest \<and> fail_line src rest \<le> 1 + length (filter (\<lambda>c. c = CHR 0x0A) src)"
proof -
  obtain y where y: "parse_value (json_fuel src) src = Some y"
    using parse_defined(1) [of src "json_fuel src"] by (auto simp: json_fuel_def)
  have "length (filter P (take n s)) \<le> length (filter P s)" for P n and s :: string
    by (metis append_take_drop_id filter_append le_add1 length_append)
  then have "1 \<le> fail_line src rest \<and> fail_line src rest \<le> 1 + length (filter (\<lambda>c. c = CHR 0x0A) src)"
    by (simp add: fail_line_def)
  then show ?thesis using y by (cases y) (auto simp: json_parse_def split: prod.split)
qed

end
