(* ===== verification/Serialize.thy ===== *)
theory Serialize
  imports Json_Facts Registry Blueprint
begin

text \<open>
  Saving and loading a blueprint, and its export to Graphviz: \<open>include/xrune/serialize.hpp\<close> and
  \<open>src/serialize.cpp\<close>.  Loading fails with the message of the source, or with what a node factory
  throws; \<open>Exn_undefined\<close> also stands for \<open>llround\<close> of a number that \<open>long\<close> does not hold.
\<close>

section \<open>Export\<close>

definition j_nat :: "nat \<Rightarrow> json" where
  "j_nat n = J_number (f64_of_int (int n))"

definition node_args_json :: "node \<Rightarrow> (string \<times> json) list" where
  "node_args_json n =
    map (\<lambda>(k, v). (k, J_number v)) (config_args n 8) @
    map (\<lambda>p. (pd_name (params n ! p), J_number (param_default n p))) [0..<params_count n]"

definition node_json :: "graph_blueprint \<Rightarrow> nat \<Rightarrow> json" where
  "node_json g i =
    (let n = g_nodes g ! i in
     J_object ([(''id'', j_nat i), (''type'', J_string (type_name n))] @
       (if i < length (g_names g) \<and> g_names g ! i \<noteq> [] then [(''name'', J_string (g_names g ! i))] else []) @
       (if node_args_json n \<noteq> [] then [(''args'', J_object (node_args_json n))] else [])))"

definition connection_json :: "blueprint_connection \<Rightarrow> json" where
  "connection_json c = J_object [(''src'', j_nat (bc_src_node c)), (''out'', j_nat (bc_src_output c)),
     (''dst'', j_nat (bc_dst_node c)), (''in'', j_nat (bc_dst_input c))]"

definition modulation_json :: "param_connection \<Rightarrow> json" where
  "modulation_json m = J_object [(''src'', j_nat (pc_src_node m)), (''out'', j_nat (pc_src_output m)),
     (''dst'', j_nat (pc_dst_node m)), (''param'', j_nat (pc_dst_param m))]"

definition source_json :: "terminal_source \<Rightarrow> json" where
  "source_json c = (if ts_silent c then J_object [(''silent'', J_boolean True)]
     else J_object [(''node'', j_nat (ts_node c)), (''ch'', j_nat (ts_ch c))])"

definition terminal_json :: "terminal \<Rightarrow> json" where
  "terminal_json t = J_object ([(''name'', J_string (t_name t)), (''node'', j_nat (t_node t))] @
     (if t_channels t \<noteq> [] then [(''channels'', J_array (map source_json (t_channels t)))] else []))"

definition node_index_json :: "nat option \<Rightarrow> json" where
  "node_index_json i = J_number (f64_of_int (case i of None \<Rightarrow> - 1 | Some n \<Rightarrow> int n))"

definition serialize_format_version :: int where
  "serialize_format_version = 1"

definition to_json_value :: "graph_blueprint \<Rightarrow> string \<Rightarrow> json" where
  "to_json_value g name = J_object (
     [(''xrune'', J_number (f64_of_int serialize_format_version))] @
     (if name \<noteq> [] then [(''name'', J_string name)] else []) @
     [(''nodes'', J_array (map (node_json g) [0..<length (g_nodes g)])),
      (''connections'', J_array (map connection_json (g_connections g))),
      (''modulations'', J_array (map modulation_json (g_param_connections g))),
      (''input_terminals'', J_array (map terminal_json (g_input_terminals g))),
      (''output_terminals'', J_array (map terminal_json (g_output_terminals g))),
      (''input_node'', node_index_json (g_input_node g)),
      (''output_node'', node_index_json (g_output_node g))])"

definition to_json :: "graph_blueprint \<Rightarrow> string \<Rightarrow> nat \<Rightarrow> string" where
  "to_json g name indent = json_dump (to_json_value g name) indent"

section \<open>Import\<close>

datatype load_error = L_message string | L_exn exn

primrec fold_result :: "('a \<Rightarrow> 's \<Rightarrow> ('e, 's) result) \<Rightarrow> 'a list \<Rightarrow> 's \<Rightarrow> ('e, 's) result" where
  "fold_result f [] s = Inr s"
| "fold_result f (x # xs) s = res_bind (f x s) (fold_result f xs)"

definition load_integer :: "json \<Rightarrow> string \<Rightarrow> int \<Rightarrow> (load_error, int) result" where
  "load_integer v key def =
    (case json_integer v key def of None \<Rightarrow> Inl (L_exn Exn_undefined) | Some i \<Rightarrow> Inr i)"

text \<open>The elements of an array member; none when it is absent or not an array.\<close>

definition array_member :: "json \<Rightarrow> string \<Rightarrow> json list" where
  "array_member v key = (case json_find v key of Some (J_array vs) \<Rightarrow> vs | _ \<Rightarrow> [])"

definition valid_index :: "graph_blueprint \<Rightarrow> int \<Rightarrow> bool" where
  "valid_index g i \<longleftrightarrow> 0 \<le> i \<and> nat i < length (g_nodes g)"

definition size_t_of :: "int \<Rightarrow> nat" where
  "size_t_of i = nat (i mod 2 ^ 64)"

fun arg_of :: "json \<Rightarrow> arg_value option" where
  "arg_of (J_number n) = Some (A_number n)"
| "arg_of (J_string s) = Some (A_string s)"
| "arg_of (J_boolean b) = Some (A_boolean b)"
| "arg_of v = None"

definition args_of :: "json \<Rightarrow> node_args" where
  "args_of jn = \<lparr>na_named = (case json_find jn ''args'' of
       Some (J_object kvs) \<Rightarrow> List.map_filter (\<lambda>(k, v). map_option (Pair k) (arg_of v)) kvs
     | _ \<Rightarrow> []), na_positional = []\<rparr>"

definition load_node :: "node_registry \<Rightarrow> json \<Rightarrow> graph_blueprint \<Rightarrow> (load_error, graph_blueprint) result" where
  "load_node reg jn g =
    (case jn of
      J_object kvs \<Rightarrow>
        (let type = json_text jn ''type'' '''' in
         if type = [] then Inl (L_message (''node is missing '' @ quoted ''type''))
         else if \<not> reg_has reg type then Inl (L_message (''unknown node type: '' @ quoted type))
         else
           (case reg_make reg type (args_of jn) of
             Inl e \<Rightarrow> Inl (L_exn e)
           | Inr None \<Rightarrow> Inl (L_message (''factory for '' @ quoted type @ '' returned null''))
           | Inr (Some n) \<Rightarrow> Inr (snd (add_named g (json_text jn ''name'' '''') n))))
    | _ \<Rightarrow> Inl (L_message ''node entry must be an object''))"

definition load_connection :: "json \<Rightarrow> graph_blueprint \<Rightarrow> (load_error, graph_blueprint) result" where
  "load_connection c g =
    res_bind (load_integer c ''src'' (- 1)) (\<lambda>src.
    res_bind (load_integer c ''dst'' (- 1)) (\<lambda>dst.
    res_bind (load_integer c ''out'' 0) (\<lambda>out.
    res_bind (load_integer c ''in'' 0) (\<lambda>inp.
      if \<not> valid_index g src \<or> \<not> valid_index g dst then Inl (L_message ''connection references an unknown node'')
      else
        (let r = connect g \<lparr>bc_src_node = size_t_of src, bc_src_output = size_t_of out,
               bc_dst_node = size_t_of dst, bc_dst_input = size_t_of inp\<rparr>
         in if fst r then Inr (snd r)
            else Inl (L_message (''invalid connection '' @ show_int src @ '':'' @ show_int out @ '' -> '' @
                   show_int dst @ '':'' @ show_int inp)))))))"

definition load_modulation :: "json \<Rightarrow> graph_blueprint \<Rightarrow> (load_error, graph_blueprint) result" where
  "load_modulation m g =
    res_bind (load_integer m ''src'' (- 1)) (\<lambda>src.
    res_bind (load_integer m ''dst'' (- 1)) (\<lambda>dst.
    res_bind (load_integer m ''out'' 0) (\<lambda>out.
    res_bind (load_integer m ''param'' 0) (\<lambda>p.
      if \<not> valid_index g src \<or> \<not> valid_index g dst then Inl (L_message ''modulation references an unknown node'')
      else
        (let r = connect_param g \<lparr>pc_src_node = size_t_of src, pc_src_output = size_t_of out,
               pc_dst_node = size_t_of dst, pc_dst_param = size_t_of p\<rparr>
         in if fst r then Inr (snd r)
            else Inl (L_message (''invalid modulation '' @ show_int src @ '':'' @ show_int out @ '' -> '' @
                   show_int dst @ '' param '' @ show_int p)))))))"

definition load_source :: "string \<Rightarrow> graph_blueprint \<Rightarrow> json \<Rightarrow> terminal_source list \<Rightarrow> (load_error, terminal_source list) result" where
  "load_source key g c chans =
    (if json_find c ''silent'' = Some (J_boolean True)
     then Inr (chans @ [\<lparr>ts_node = 0, ts_ch = 0, ts_silent = True\<rparr>])
     else
       res_bind (load_integer c ''node'' (- 1)) (\<lambda>cn.
         if \<not> valid_index g cn then Inl (L_message (key @ '' channel references an unknown node''))
         else
           res_bind (load_integer c ''ch'' 0) (\<lambda>ch.
             Inr (chans @ [\<lparr>ts_node = size_t_of cn, ts_ch = size_t_of ch, ts_silent = False\<rparr>]))))"

definition load_terminal :: "string \<Rightarrow> graph_blueprint \<Rightarrow> json \<Rightarrow> terminal list \<Rightarrow> (load_error, terminal list) result" where
  "load_terminal key g t dst =
    res_bind (load_integer t ''node'' (- 1)) (\<lambda>nd.
      if \<not> valid_index g nd then Inl (L_message (key @ '' references an unknown node''))
      else
        res_bind (fold_result (load_source key g) (array_member t ''channels'') []) (\<lambda>chans.
          Inr (dst @ [\<lparr>t_name = json_text t ''name'' '''', t_node = size_t_of nd, t_channels = chans\<rparr>])))"

definition load_index :: "json \<Rightarrow> string \<Rightarrow> (load_error, nat option) result" where
  "load_index root key =
    res_bind (load_integer root key (- 1)) (\<lambda>i. Inr (if i < 0 then None else Some (nat i)))"

definition load_graph :: "node_registry \<Rightarrow> json \<Rightarrow> json list \<Rightarrow> (load_error, graph_blueprint) result" where
  "load_graph reg root jnodes =
    res_bind (fold_result (load_node reg) jnodes empty_blueprint) (\<lambda>g.
    res_bind (fold_result load_connection (array_member root ''connections'') g) (\<lambda>g.
    res_bind (fold_result load_modulation (array_member root ''modulations'') g) (\<lambda>g.
    res_bind (fold_result (load_terminal ''input_terminals'' g) (array_member root ''input_terminals'') []) (\<lambda>its.
    res_bind (fold_result (load_terminal ''output_terminals'' g) (array_member root ''output_terminals'') []) (\<lambda>ots.
    res_bind (load_index root ''input_node'') (\<lambda>inp.
    res_bind (load_index root ''output_node'') (\<lambda>out.
      Inr (g\<lparr>g_input_terminals := its, g_output_terminals := ots, g_input_node := inp, g_output_node := out\<rparr>))))))))"

definition load_value :: "node_registry \<Rightarrow> json \<Rightarrow> (load_error, string \<times> graph_blueprint) result" where
  "load_value reg root =
    (case root of
      J_object kvs \<Rightarrow>
        res_bind (load_integer root ''xrune'' 0) (\<lambda>ver.
          if ver \<noteq> serialize_format_version then
            Inl (L_message (''unsupported format version '' @ show_int ver @ '' (expected '' @
              show_int serialize_format_version @ '')''))
          else
            (case json_find root ''nodes'' of
              Some (J_array jnodes) \<Rightarrow>
                res_bind (load_graph reg root jnodes) (\<lambda>g. Inr (json_text root ''name'' '''', g))
            | _ \<Rightarrow> Inl (L_message (''missing '' @ quoted ''nodes'' @ '' array''))))
    | _ \<Rightarrow> Inl (L_message ''top level must be an object''))"

text \<open>The parser always returns, so the first case never occurs.\<close>

definition from_json :: "node_registry \<Rightarrow> string \<Rightarrow> (load_error, string \<times> graph_blueprint) result" where
  "from_json reg txt =
    (case json_parse txt of
      None \<Rightarrow> Inl (L_exn Exn_undefined)
    | Some (Inl msg) \<Rightarrow> Inl (L_message msg)
    | Some (Inr root) \<Rightarrow> load_value reg root)"

section \<open>Graphviz\<close>

definition dot_escape :: "string \<Rightarrow> string" where
  "dot_escape s = concat (map (\<lambda>c. if c = CHR 0x22 \<or> c = CHR 0x5C then [CHR 0x5C, c] else [c]) s)"

definition trim_zeros :: "f64 \<Rightarrow> string" where
  "trim_zeros v = fmt_g 6 v"

abbreviation dot_nl :: string where
  "dot_nl \<equiv> [CHR 0x5C, CHR ''n'']"

definition dot_attr :: "string \<Rightarrow> string \<Rightarrow> string" where
  "dot_attr k v = k @ ''='' @ dq @ v @ dq"

definition dot_header :: "string \<Rightarrow> string" where
  "dot_header name =
    ''digraph '' @ dq @ dot_escape name @ dq @ '' {'' @ nl @
    ''  rankdir=LR;'' @ nl @
    ''  graph ['' @ dot_attr ''fontname'' ''Helvetica'' @ '', '' @ dot_attr ''labelloc'' ''t'' @ '', '' @
      dot_attr ''label'' (dot_escape name) @ ''];'' @ nl @
    ''  node  ['' @ dot_attr ''fontname'' ''Helvetica'' @ '', shape=box, '' @ dot_attr ''style'' ''rounded,filled'' @ '', '' @
      dot_attr ''fillcolor'' ''#eef3fa'' @ '', '' @ dot_attr ''color'' ''#4a6fa5'' @ ''];'' @ nl @
    ''  edge  ['' @ dot_attr ''fontname'' ''Helvetica'' @ '', fontsize=9, '' @ dot_attr ''color'' ''#4a6fa5'' @ ''];'' @ nl @ nl"

definition dot_node_label :: "graph_blueprint \<Rightarrow> nat \<Rightarrow> string" where
  "dot_node_label g i =
    (let n = g_nodes g ! i;
         label = (if i < length (g_names g) \<and> g_names g ! i \<noteq> [] then g_names g ! i else ''#'' @ show_nat i)
     in dot_escape label @ dot_nl @ ''<'' @ type_name n @ ''>'' @
        concat (map (\<lambda>p. dot_nl @ pd_name (params n ! p) @ '' = '' @ trim_zeros (param_default n p)) [0..<params_count n]))"

definition dot_node :: "graph_blueprint \<Rightarrow> nat \<Rightarrow> string" where
  "dot_node g i =
    (let n = g_nodes g ! i in
     ''  n'' @ show_nat i @
     (if rate_num n \<noteq> rate_den n \<or> block_num n \<noteq> block_den n
      then '' [label='' @ dq @ dot_node_label g i @
        dot_nl @ ''rate '' @ show_nat (rate_num n) @ ''/'' @ show_nat (rate_den n) @
        '', block '' @ show_nat (block_num n) @ ''/'' @ show_nat (block_den n) @
        dq @ '', '' @ dot_attr ''fillcolor'' ''#fdf0e3'' @ '', '' @ dot_attr ''color'' ''#c07b30'' @ ''];'' @ nl
      else '' [label='' @ dq @ dot_node_label g i @ dq @ ''];'' @ nl))"

definition dot_connection :: "blueprint_connection \<Rightarrow> string" where
  "dot_connection c =
    ''  n'' @ show_nat (bc_src_node c) @ '' -> n'' @ show_nat (bc_dst_node c) @
    (if bc_src_output c \<noteq> 0 \<or> bc_dst_input c \<noteq> 0
     then '' ['' @ dot_attr ''label'' (show_nat (bc_src_output c) @ '':'' @ show_nat (bc_dst_input c)) @ '']'' else []) @
    '';'' @ nl"

definition dot_modulation :: "graph_blueprint \<Rightarrow> param_connection \<Rightarrow> string" where
  "dot_modulation g m =
    (let n = g_nodes g ! pc_dst_node m;
         port = (if pc_dst_param m < params_count n then pd_name (params n ! pc_dst_param m) else show_nat (pc_dst_param m))
     in ''  n'' @ show_nat (pc_src_node m) @ '' -> n'' @ show_nat (pc_dst_node m) @
        '' [style=dashed, '' @ dot_attr ''color'' ''#3b7d4f'' @ '', '' @ dot_attr ''fontcolor'' ''#3b7d4f'' @ '', '' @
        dot_attr ''label'' (dot_escape port) @ ''];'' @ nl)"

definition dot_input :: "terminal list \<Rightarrow> nat \<Rightarrow> string" where
  "dot_input ts t =
    ''  in'' @ show_nat t @ '' ['' @ dot_attr ''label'' (dot_escape (t_name (ts ! t))) @ '', shape=invhouse, '' @
      dot_attr ''fillcolor'' ''#e8f5e9'' @ '', '' @ dot_attr ''color'' ''#3b7d4f'' @ ''];'' @ nl @
    ''  in'' @ show_nat t @ '' -> n'' @ show_nat (t_node (ts ! t)) @ '' [style=bold];'' @ nl"

definition dot_output :: "terminal list \<Rightarrow> nat \<Rightarrow> string" where
  "dot_output ts t =
    ''  out'' @ show_nat t @ '' ['' @ dot_attr ''label'' (dot_escape (t_name (ts ! t))) @ '', shape=house, '' @
      dot_attr ''fillcolor'' ''#e8f5e9'' @ '', '' @ dot_attr ''color'' ''#3b7d4f'' @ ''];'' @ nl @
    ''  n'' @ show_nat (t_node (ts ! t)) @ '' -> out'' @ show_nat t @ '' [style=bold];'' @ nl"

definition to_dot :: "graph_blueprint \<Rightarrow> string \<Rightarrow> string" where
  "to_dot g name =
    dot_header name @ concat (map (dot_node g) [0..<length (g_nodes g)]) @ nl @
    concat (map dot_connection (g_connections g)) @ concat (map (dot_modulation g) (g_param_connections g)) @
    (if g_input_terminals g \<noteq> [] \<or> g_output_terminals g \<noteq> [] then nl else []) @
    concat (map (dot_input (g_input_terminals g)) [0..<length (g_input_terminals g)]) @
    concat (map (dot_output (g_output_terminals g)) [0..<length (g_output_terminals g)]) @
    ''}'' @ nl"

end
