(* ===== verification/Serialize_Facts.thy ===== *)
theory Serialize_Facts
  imports Serialize
begin

text \<open>
  A saved blueprint of standard nodes loads as it was, rune parameters apart; what the loader accepts is
  wired as well as what the builder makes.
\<close>

section \<open>Numbers in JSON members\<close>

lemma f64_of_int_num:
  assumes "\<bar>k\<bar> < 2 ^ 53"
  obtains s m e where "f64_of_int k = F_num s m e" and "m = 0 \<longrightarrow> \<not> s"
proof (cases "k = 0")
  case True
  then show thesis using that [of False 0 "- 1074"] by (simp add: f64_of_int_0)
next
  case False
  obtain s m e where f: "f64_of_int k = F_num s m e"
    using f64_trunc_of_int [OF assms] by (cases "f64_of_int k") auto
  have "m \<noteq> 0"
  proof
    assume "m = 0"
    then have "f64_trunc (f64_of_int k) = Some 0" by (simp add: f f64_signed_def)
    then show False using f64_trunc_of_int [OF assms] False by simp
  qed
  then show thesis using that f by blast
qed

lemma printable_int: "\<bar>k\<bar> < 2 ^ 53 \<Longrightarrow> printable_number (f64_of_int k)"
proof -
  assume k: "\<bar>k\<bar> < 2 ^ 53"
  obtain s m e where f: "f64_of_int k = F_num s m e" "m = 0 \<longrightarrow> \<not> s" by (rule f64_of_int_num [OF k])
  have "f64_ok (f64_of_int k)" by (simp add: f64_of_int_def round64_ok)
  then show ?thesis using f by simp
qed

lemma json_integer_int:
  assumes "json_find v key = Some (J_number (f64_of_int k))" and "\<bar>k\<bar> < 2 ^ 53"
  shows "load_integer v key def = Inr k"
proof -
  have "- (2 ^ 63) \<le> k \<and> k < 2 ^ 63" using assms(2) by (simp add: abs_less_iff)
  then show ?thesis using assms(1) f64_llround_of_int [OF assms(2)] by (simp add: load_integer_def json_integer_def)
qed

lemma json_integer_nat:
  assumes "json_find v key = Some (j_nat n)" and "n < 2 ^ 53"
  shows "load_integer v key def = Inr (int n)"
  using assms by (intro json_integer_int) (simp_all add: j_nat_def)

lemma size_t_of_int [simp]: "n < 2 ^ 53 \<Longrightarrow> size_t_of (int n) = n"
  by (simp add: size_t_of_def nat_mod_distrib)

lemma fold_result_append: "fold_result f (xs @ ys) s = res_bind (fold_result f xs s) (fold_result f ys)"
proof (induction xs arbitrary: s)
  case (Cons x xs)
  then show ?case by (cases "f x s") simp_all
qed simp

section \<open>Nodes\<close>

fun savable_node :: "node \<Rightarrow> bool" where
  "savable_node (Oscillator f) \<longleftrightarrow> printable_number f"
| "savable_node (White_noise s) \<longleftrightarrow> s = default_seed"
| "savable_node (Constant v) \<longleftrightarrow> printable_number v"
| "savable_node (Gain v) \<longleftrightarrow> printable_number v"
| "savable_node (Stereo_fader v) \<longleftrightarrow> printable_number v"
| "savable_node (Pan p) \<longleftrightarrow> printable_number p"
| "savable_node (Mixer n) \<longleftrightarrow> n < 2 ^ 52"
| "savable_node (Stereo_mixer n) \<longleftrightarrow> n < 2 ^ 52"
| "savable_node (Channel_adapter i k) \<longleftrightarrow> i < 2 ^ 52 \<and> k < 2 ^ 52"
| "savable_node (Sample_and_hold r) \<longleftrightarrow> printable_number r"
| "savable_node (Bus_input n) \<longleftrightarrow> n < 2 ^ 52"
| "savable_node (Ola_stft n) \<longleftrightarrow> n < 2 ^ 52"
| "savable_node (Stft_forward n c) \<longleftrightarrow> n < 2 ^ 52 \<and> c < 2 ^ 52"
| "savable_node (Stft_backward n c) \<longleftrightarrow> n < 2 ^ 52 \<and> c < 2 ^ 52"
| "savable_node Upbloc \<longleftrightarrow> False"
| "savable_node (Hosted h) \<longleftrightarrow> False"
| "savable_node n \<longleftrightarrow> True"

lemma savable_counts:
  "savable_node n \<Longrightarrow> inputs_count n < 2 ^ 53 \<and> outputs_count n < 2 ^ 53 \<and> params_count n < 2 ^ 53"
  by (cases n) simp_all

definition saved_args :: "node \<Rightarrow> node_args" where
  "saved_args n = \<lparr>na_named = map (\<lambda>(k, v). (k, A_number v))
     (config_args n 8 @ map (\<lambda>p. (pd_name (params n ! p), param_default n p)) [0..<params_count n]), na_positional = []\<rparr>"

lemma map_filter_numbers:
  "List.map_filter (\<lambda>(k, v). map_option (Pair k) (arg_of v)) (map (\<lambda>(k, v). (k, J_number v)) kvs) =
    map (\<lambda>(k, v). (k, A_number v)) kvs"
  by (induction kvs) (auto simp: List.map_filter_simps)

lemma args_of_saved:
  assumes "json_find jn ''args'' = (if node_args_json n \<noteq> [] then Some (J_object (node_args_json n)) else None)"
  shows "args_of jn = saved_args n"
proof -
  have e: "node_args_json n = map (\<lambda>(k, v). (k, J_number v))
      (config_args n 8 @ map (\<lambda>p. (pd_name (params n ! p), param_default n p)) [0..<params_count n])"
    by (simp add: node_args_json_def case_prod_beta)
  show ?thesis
  proof (cases "node_args_json n = []")
    case True
    then show ?thesis using e by (simp add: args_of_def assms saved_args_def)
  next
    case False
    then have "args_of jn = \<lparr>na_named = List.map_filter (\<lambda>(k, v). map_option (Pair k) (arg_of v)) (node_args_json n), na_positional = []\<rparr>"
      by (simp add: args_of_def assms)
    then show ?thesis unfolding e map_filter_numbers saved_args_def .
  qed
qed

lemma arg_count_saved:
  assumes "map_of kvs name = Some (A_number (f64_of_int (int n)))" and "n < 2 ^ 52"
  shows "arg_count \<lparr>na_named = kvs, na_positional = ps\<rparr> name pos def = Inr n"
  using assms by (intro arg_count_of_int) (simp_all add: arg_num_def find_named_def)

text \<open>The factory rebuilds a node from the arguments it was saved with.\<close>

lemma node_reload:
  assumes "savable_node n"
  shows "reg_make standard_registry (type_name n) (saved_args n) = Inr (Some n)"
  using assms
  by (cases n)
    (simp_all add: reg_make_def standard_registry_def standard_factory_def saved_args_def mk_def mk1_def mk2_def
      arg_num_def find_named_def arg_count_saved)

definition savable_source :: "graph_blueprint \<Rightarrow> terminal_source \<Rightarrow> bool" where
  "savable_source g c \<longleftrightarrow>
    (if ts_silent c then ts_node c = 0 \<and> ts_ch c = 0 else ts_node c < bp_size g \<and> ts_ch c < 2 ^ 53)"

definition savable_terminal :: "graph_blueprint \<Rightarrow> terminal \<Rightarrow> bool" where
  "savable_terminal g t \<longleftrightarrow> t_node t < bp_size g \<and> list_all (savable_source g) (t_channels t)"

definition savable_index :: "nat option \<Rightarrow> bool" where
  "savable_index i \<longleftrightarrow> (case i of None \<Rightarrow> True | Some n \<Rightarrow> n < 2 ^ 53)"

definition savable :: "graph_blueprint \<Rightarrow> bool" where
  "savable g \<longleftrightarrow> wiring_ok g \<and> bp_size g < 2 ^ 52 \<and> list_all savable_node (g_nodes g) \<and>
    list_all (savable_terminal g) (g_input_terminals g) \<and> list_all (savable_terminal g) (g_output_terminals g) \<and>
    savable_index (g_input_node g) \<and> savable_index (g_output_node g)"

lemma type_name_nonempty: "savable_node n \<Longrightarrow> type_name n \<noteq> []"
  by (cases n) simp_all

lemma node_known: "savable_node n \<Longrightarrow> reg_has standard_registry (type_name n)"
  by (cases n) (simp_all add: reg_has_def standard_registry_def standard_factory_def)

lemma load_node_json:
  assumes "i < length (g_nodes g)" and "length (g_names g) = length (g_nodes g)" and n: "savable_node (g_nodes g ! i)"
  shows "load_node standard_registry (node_json g i) h = Inr (snd (add_named h (g_names g ! i) (g_nodes g ! i)))"
proof -
  have "json_text (node_json g i) ''type'' '''' = type_name (g_nodes g ! i)"
    by (simp add: node_json_def json_text_def json_find_def Let_def)
  moreover have "json_text (node_json g i) ''name'' '''' = g_names g ! i"
    using assms(1,2) by (auto simp: node_json_def json_text_def json_find_def Let_def)
  moreover have "args_of (node_json g i) = saved_args (g_nodes g ! i)"
    by (rule args_of_saved) (auto simp: node_json_def json_find_def Let_def)
  ultimately show ?thesis
    using node_reload [OF n] node_known [OF n] type_name_nonempty [OF n]
    by (auto simp: load_node_def node_json_def Let_def)
qed

lemma load_nodes:
  assumes names: "length (g_names g) = length (g_nodes g)" and n: "list_all savable_node (g_nodes g)"
    and "k \<le> length (g_nodes g)"
  shows "fold_result (load_node standard_registry) (map (node_json g) [0..<k]) empty_blueprint =
    Inr (empty_blueprint\<lparr>g_nodes := take k (g_nodes g), g_names := take k (g_names g)\<rparr>)"
  using assms(3)
proof (induction k)
  case 0
  then show ?case by (simp add: empty_blueprint_def)
next
  case (Suc k)
  then have k: "k < length (g_nodes g)" by simp
  have "savable_node (g_nodes g ! k)" using n k by (simp add: list_all_length)
  from load_node_json [OF k names this] Suc names show ?case
    by (simp add: fold_result_append add_named_def take_Suc_conv_app_nth)
qed

section \<open>Wiring\<close>

lemma bc_eta:
  "\<lparr>bc_src_node = bc_src_node c, bc_src_output = bc_src_output c,
      bc_dst_node = bc_dst_node c, bc_dst_input = bc_dst_input c\<rparr> = c"
  by simp

lemma pc_eta:
  "\<lparr>pc_src_node = pc_src_node c, pc_src_output = pc_src_output c,
      pc_dst_node = pc_dst_node c, pc_dst_param = pc_dst_param c\<rparr> = c"
  by simp

lemma connect_free:
  "in_range_conn g c \<Longrightarrow> bc_sink c \<notin> bc_sink ` set (g_connections g) \<Longrightarrow>
    connect g c = (True, g\<lparr>g_connections := g_connections g @ [c]\<rparr>)"
  by (auto simp: connect_def in_range_conn_def driven_iff)

lemma connect_param_free:
  "in_range_param g c \<Longrightarrow> pc_sink c \<notin> pc_sink ` set (g_param_connections g) \<Longrightarrow>
    connect_param g c = (True, g\<lparr>g_param_connections := g_param_connections g @ [c]\<rparr>)"
  by (auto simp: connect_param_def in_range_param_def param_driven_iff)

lemma load_connection_json:
  assumes "in_range_conn g c" and "bp_size g < 2 ^ 52" and "list_all savable_node (g_nodes g)"
    and "connect g c = (True, h)"
  shows "load_connection (connection_json c) g = Inr h"
proof -
  have r: "bc_src_node c < bp_size g" "bc_dst_node c < bp_size g" using assms(1) by (simp_all add: in_range_conn_def)
  have "savable_node (g_nodes g ! bc_src_node c)" "savable_node (g_nodes g ! bc_dst_node c)"
    using r assms(3) by (simp_all add: bp_size_def list_all_length)
  from this [THEN savable_counts] have b: "bc_src_output c < 2 ^ 53" "bc_dst_input c < 2 ^ 53"
    using assms(1) by (auto simp: in_range_conn_def)
  have s: "bc_src_node c < 2 ^ 53" "bc_dst_node c < 2 ^ 53" using r assms(2) by simp_all
  have "load_integer (connection_json c) ''src'' (- 1) = Inr (int (bc_src_node c))"
    "load_integer (connection_json c) ''dst'' (- 1) = Inr (int (bc_dst_node c))"
    "load_integer (connection_json c) ''out'' 0 = Inr (int (bc_src_output c))"
    "load_integer (connection_json c) ''in'' 0 = Inr (int (bc_dst_input c))"
    using b s by (auto intro!: json_integer_nat simp: connection_json_def json_find_def)
  then show ?thesis
    using b s r assms(4) by (simp add: load_connection_def valid_index_def bp_size_def bc_eta)
qed

lemma load_connections:
  assumes "\<forall>c \<in> set cs. in_range_conn g c" and "distinct (map bc_sink (g_connections g @ cs))"
    and "bp_size g < 2 ^ 52" and "list_all savable_node (g_nodes g)"
  shows "fold_result load_connection (map connection_json cs) g = Inr (g\<lparr>g_connections := g_connections g @ cs\<rparr>)"
  using assms
proof (induction cs arbitrary: g)
  case (Cons c cs)
  let ?g = "g\<lparr>g_connections := g_connections g @ [c]\<rparr>"
  have c: "connect g c = (True, ?g)" using Cons.prems by (intro connect_free) auto
  have "load_connection (connection_json c) g = Inr ?g"
    using Cons.prems by (intro load_connection_json c) simp_all
  moreover have "fold_result load_connection (map connection_json cs) ?g = Inr (?g\<lparr>g_connections := g_connections ?g @ cs\<rparr>)"
    using Cons.prems by (intro Cons.IH) (auto simp: in_range_conn_def bp_size_def)
  ultimately show ?case by simp
qed simp

lemma load_modulation_json:
  assumes "in_range_param g c" and "bp_size g < 2 ^ 52" and "list_all savable_node (g_nodes g)"
    and "connect_param g c = (True, h)"
  shows "load_modulation (modulation_json c) g = Inr h"
proof -
  have r: "pc_src_node c < bp_size g" "pc_dst_node c < bp_size g" using assms(1) by (simp_all add: in_range_param_def)
  have "savable_node (g_nodes g ! pc_src_node c)" "savable_node (g_nodes g ! pc_dst_node c)"
    using r assms(3) by (simp_all add: bp_size_def list_all_length)
  from this [THEN savable_counts] have b: "pc_src_output c < 2 ^ 53" "pc_dst_param c < 2 ^ 53"
    using assms(1) by (auto simp: in_range_param_def)
  have s: "pc_src_node c < 2 ^ 53" "pc_dst_node c < 2 ^ 53" using r assms(2) by simp_all
  have "load_integer (modulation_json c) ''src'' (- 1) = Inr (int (pc_src_node c))"
    "load_integer (modulation_json c) ''dst'' (- 1) = Inr (int (pc_dst_node c))"
    "load_integer (modulation_json c) ''out'' 0 = Inr (int (pc_src_output c))"
    "load_integer (modulation_json c) ''param'' 0 = Inr (int (pc_dst_param c))"
    using b s by (auto intro!: json_integer_nat simp: modulation_json_def json_find_def)
  then show ?thesis
    using b s r assms(4) by (simp add: load_modulation_def valid_index_def bp_size_def pc_eta)
qed

lemma load_modulations:
  assumes "\<forall>c \<in> set cs. in_range_param g c" and "distinct (map pc_sink (g_param_connections g @ cs))"
    and "bp_size g < 2 ^ 52" and "list_all savable_node (g_nodes g)"
  shows "fold_result load_modulation (map modulation_json cs) g =
    Inr (g\<lparr>g_param_connections := g_param_connections g @ cs\<rparr>)"
  using assms
proof (induction cs arbitrary: g)
  case (Cons c cs)
  let ?g = "g\<lparr>g_param_connections := g_param_connections g @ [c]\<rparr>"
  have c: "connect_param g c = (True, ?g)" using Cons.prems by (intro connect_param_free) auto
  have "load_modulation (modulation_json c) g = Inr ?g"
    using Cons.prems by (intro load_modulation_json c) simp_all
  moreover have "fold_result load_modulation (map modulation_json cs) ?g =
      Inr (?g\<lparr>g_param_connections := g_param_connections ?g @ cs\<rparr>)"
    using Cons.prems by (intro Cons.IH) (auto simp: in_range_param_def bp_size_def)
  ultimately show ?case by simp
qed simp

section \<open>Terminals\<close>

lemma load_source_json:
  assumes "savable_source g c" and "bp_size g < 2 ^ 52"
  shows "load_source key g (source_json c) chans = Inr (chans @ [c])"
proof (cases "ts_silent c")
  case True
  then have "c = \<lparr>ts_node = 0, ts_ch = 0, ts_silent = True\<rparr>" using assms(1) by (simp add: savable_source_def)
  then show ?thesis by (simp add: load_source_def source_json_def json_find_def)
next
  case False
  then have c: "ts_node c < bp_size g" "ts_ch c < 2 ^ 53" using assms(1) by (simp_all add: savable_source_def)
  then have n: "ts_node c < 2 ^ 53" using assms(2) by simp
  have "load_integer (source_json c) ''node'' (- 1) = Inr (int (ts_node c))"
    "load_integer (source_json c) ''ch'' 0 = Inr (int (ts_ch c))"
    using c n False by (auto intro!: json_integer_nat simp: source_json_def json_find_def)
  moreover have "json_find (source_json c) ''silent'' = None" using False by (simp add: source_json_def json_find_def)
  ultimately show ?thesis
    using c n False by (simp add: load_source_def valid_index_def bp_size_def)
qed

lemma load_sources:
  assumes "list_all (savable_source g) cs" and "bp_size g < 2 ^ 52"
  shows "fold_result (load_source key g) (map source_json cs) acc = Inr (acc @ cs)"
  using assms(1) by (induction cs arbitrary: acc) (simp_all add: load_source_json [OF _ assms(2)])

lemma load_terminal_json:
  assumes "savable_terminal g t" and "bp_size g < 2 ^ 52"
  shows "load_terminal key g (terminal_json t) dst = Inr (dst @ [t])"
proof -
  have t: "t_node t < bp_size g" "list_all (savable_source g) (t_channels t)"
    using assms(1) by (simp_all add: savable_terminal_def)
  then have n: "t_node t < 2 ^ 53" using assms(2) by simp
  have "load_integer (terminal_json t) ''node'' (- 1) = Inr (int (t_node t))"
    using n by (intro json_integer_nat) (simp_all add: terminal_json_def json_find_def)
  moreover have "array_member (terminal_json t) ''channels'' = map source_json (t_channels t)"
    by (simp add: array_member_def terminal_json_def json_find_def)
  moreover have "json_text (terminal_json t) ''name'' '''' = t_name t"
    by (simp add: json_text_def terminal_json_def json_find_def)
  ultimately show ?thesis
    using t n by (simp add: load_terminal_def valid_index_def bp_size_def load_sources [OF t(2) assms(2)])
qed

lemma load_terminals:
  assumes "list_all (savable_terminal g) ts" and "bp_size g < 2 ^ 52"
  shows "fold_result (load_terminal key g) (map terminal_json ts) acc = Inr (acc @ ts)"
  using assms(1) by (induction ts arbitrary: acc) (simp_all add: load_terminal_json [OF _ assms(2)])

lemma load_index_json:
  assumes "json_find root key = Some (node_index_json i)" and "savable_index i"
  shows "load_index root key = Inr i"
proof (cases i)
  case None
  then have "load_integer root key (- 1) = Inr (- 1)"
    using assms(1) by (intro json_integer_int) (simp_all add: node_index_json_def)
  then show ?thesis by (simp add: load_index_def None)
next
  case (Some n)
  then have "load_integer root key (- 1) = Inr (int n)"
    using assms by (intro json_integer_int) (simp_all add: node_index_json_def savable_index_def)
  then show ?thesis by (simp add: load_index_def Some)
qed

lemma savable_terminal_cong: "bp_size g = bp_size h \<Longrightarrow> savable_terminal g = savable_terminal h"
proof -
  assume b: "bp_size g = bp_size h"
  then have s: "savable_source g = savable_source h" by (intro ext) (simp add: savable_source_def)
  show ?thesis by (rule ext) (simp add: savable_terminal_def b s)
qed

section \<open>What is saved can be printed\<close>

lemma printable_j_nat [simp]: "n < 2 ^ 53 \<Longrightarrow> printable (j_nat n)"
  using printable_int [of "int n"] by (simp add: j_nat_def)

lemma savable_args_printable:
  assumes "savable_node n"
  shows "\<forall>kv \<in> set (node_args_json n). printable (snd kv)"
  using assms printable_int [of 0] printable_int [of 1]
  by (cases n) (auto simp: node_args_json_def f64_of_int_0 f64_zero_def intro!: printable_int)

lemma node_json_printable:
  assumes "i < 2 ^ 52" and "savable_node (g_nodes g ! i)"
  shows "printable (node_json g i)"
  using assms savable_args_printable [of "g_nodes g ! i"] by (auto simp: node_json_def Let_def)

lemma connection_json_printable:
  assumes "in_range_conn g c" and "bp_size g < 2 ^ 52" and "list_all savable_node (g_nodes g)"
  shows "printable (connection_json c)"
proof -
  have r: "bc_src_node c < bp_size g" "bc_dst_node c < bp_size g" using assms(1) by (simp_all add: in_range_conn_def)
  have "savable_node (g_nodes g ! bc_src_node c)" "savable_node (g_nodes g ! bc_dst_node c)"
    using r assms(3) by (simp_all add: bp_size_def list_all_length)
  from this [THEN savable_counts] have "bc_src_output c < 2 ^ 53" "bc_dst_input c < 2 ^ 53"
    using assms(1) by (auto simp: in_range_conn_def)
  then show ?thesis using r assms(2) by (simp add: connection_json_def)
qed

lemma modulation_json_printable:
  assumes "in_range_param g c" and "bp_size g < 2 ^ 52" and "list_all savable_node (g_nodes g)"
  shows "printable (modulation_json c)"
proof -
  have r: "pc_src_node c < bp_size g" "pc_dst_node c < bp_size g" using assms(1) by (simp_all add: in_range_param_def)
  have "savable_node (g_nodes g ! pc_src_node c)" "savable_node (g_nodes g ! pc_dst_node c)"
    using r assms(3) by (simp_all add: bp_size_def list_all_length)
  from this [THEN savable_counts] have "pc_src_output c < 2 ^ 53" "pc_dst_param c < 2 ^ 53"
    using assms(1) by (auto simp: in_range_param_def)
  then show ?thesis using r assms(2) by (simp add: modulation_json_def)
qed

lemma terminal_json_printable:
  assumes "savable_terminal g t" and "bp_size g < 2 ^ 52"
  shows "printable (terminal_json t)"
  using assms by (auto simp: terminal_json_def savable_terminal_def list_all_iff savable_source_def source_json_def)

lemma node_index_printable: "savable_index i \<Longrightarrow> printable (node_index_json i)"
  using printable_int [of "- 1"]
  by (auto simp: node_index_json_def savable_index_def intro!: printable_int split: option.splits)

lemma savable_printable:
  assumes "savable g"
  shows "printable (to_json_value g name)"
proof -
  have g: "bp_size g < 2 ^ 52" "list_all savable_node (g_nodes g)" and w: "wiring_ok g"
    and t: "list_all (savable_terminal g) (g_input_terminals g)" "list_all (savable_terminal g) (g_output_terminals g)"
    and i: "savable_index (g_input_node g)" "savable_index (g_output_node g)"
    using assms by (simp_all add: savable_def)
  have "printable (node_json g i)" if "i < length (g_nodes g)" for i
    using g that by (intro node_json_printable) (simp_all add: bp_size_def list_all_length)
  moreover have "printable (connection_json c)" if "c \<in> set (g_connections g)" for c
    using w that g by (intro connection_json_printable) (auto simp: wiring_ok_def audio.well_wired_def)
  moreover have "printable (modulation_json c)" if "c \<in> set (g_param_connections g)" for c
    using w that g by (intro modulation_json_printable) (auto simp: wiring_ok_def modul.well_wired_def)
  moreover have "printable (terminal_json x)" if "x \<in> set (g_input_terminals g) \<union> set (g_output_terminals g)" for x
    using t that g by (intro terminal_json_printable) (auto simp: list_all_iff)
  ultimately show ?thesis
    using node_index_printable i printable_int [of 1]
    by (auto simp: to_json_value_def serialize_format_version_def)
qed

section \<open>Loading what was saved\<close>

lemma load_saved:
  assumes "savable g"
  shows "load_value standard_registry (to_json_value g name) = Inr (name, g\<lparr>g_params := []\<rparr>)"
proof -
  let ?r = "to_json_value g name"
  have g: "bp_size g < 2 ^ 52" "list_all savable_node (g_nodes g)" and w: "wiring_ok g"
    and t: "list_all (savable_terminal g) (g_input_terminals g)" "list_all (savable_terminal g) (g_output_terminals g)"
    and i: "savable_index (g_input_node g)" "savable_index (g_output_node g)"
    using assms by (simp_all add: savable_def)
  have len: "length (g_names g) = length (g_nodes g)" using w by (simp add: wiring_ok_def bp_size_def)
  let ?n = "empty_blueprint\<lparr>g_nodes := g_nodes g, g_names := g_names g\<rparr>"
  let ?c = "?n\<lparr>g_connections := g_connections g\<rparr>"
  let ?m = "?c\<lparr>g_param_connections := g_param_connections g\<rparr>"
  have nodes: "fold_result (load_node standard_registry) (map (node_json g) [0..<length (g_nodes g)]) empty_blueprint = Inr ?n"
    using load_nodes [OF len g(2) le_refl] len by simp
  have conns: "fold_result load_connection (map connection_json (g_connections g)) ?n = Inr ?c"
    using w g load_connections [of "g_connections g" ?n]
    by (simp add: wiring_ok_def audio.well_wired_def in_range_conn_def bp_size_def empty_blueprint_def)
  have mods: "fold_result load_modulation (map modulation_json (g_param_connections g)) ?c = Inr ?m"
    using w g load_modulations [of "g_param_connections g" ?c]
    by (simp add: wiring_ok_def modul.well_wired_def in_range_param_def bp_size_def empty_blueprint_def)
  have t': "list_all (savable_terminal ?m) (g_input_terminals g)" "list_all (savable_terminal ?m) (g_output_terminals g)"
    and b: "bp_size ?m < 2 ^ 52"
    using t g(1) savable_terminal_cong [of ?m g] by (simp_all add: bp_size_def)
  have arrays: "array_member ?r ''connections'' = map connection_json (g_connections g)"
    "array_member ?r ''modulations'' = map modulation_json (g_param_connections g)"
    "array_member ?r ''input_terminals'' = map terminal_json (g_input_terminals g)"
    "array_member ?r ''output_terminals'' = map terminal_json (g_output_terminals g)"
    by (simp_all add: array_member_def to_json_value_def json_find_def)
  have ends: "load_index ?r ''input_node'' = Inr (g_input_node g)" "load_index ?r ''output_node'' = Inr (g_output_node g)"
    using i by (auto intro!: load_index_json simp: to_json_value_def json_find_def)
  have "load_graph standard_registry ?r (map (node_json g) [0..<length (g_nodes g)]) =
      Inr (?m\<lparr>g_input_terminals := g_input_terminals g, g_output_terminals := g_output_terminals g,
        g_input_node := g_input_node g, g_output_node := g_output_node g\<rparr>)"
    unfolding load_graph_def arrays
    by (simp add: nodes conns mods load_terminals [OF t'(1) b] load_terminals [OF t'(2) b] ends)
  moreover have "\<dots> = Inr (g\<lparr>g_params := []\<rparr>)" by (simp add: empty_blueprint_def)
  moreover have "load_integer ?r ''xrune'' 0 = Inr 1"
    by (rule json_integer_int) (simp_all add: to_json_value_def json_find_def serialize_format_version_def)
  moreover have "json_find ?r ''nodes'' = Some (J_array (map (node_json g) [0..<length (g_nodes g)]))"
    "json_text ?r ''name'' '''' = name"
    by (simp_all add: to_json_value_def json_find_def json_text_def)
  moreover obtain kvs where "?r = J_object kvs" by (simp add: to_json_value_def)
  ultimately show ?thesis by (simp add: load_value_def serialize_format_version_def)
qed

section \<open>What the loader accepts\<close>

lemma fold_result_invariant:
  assumes "\<And>x s t. P s \<Longrightarrow> f x s = Inr t \<Longrightarrow> P t" and "P s" and "fold_result f xs s = Inr t"
  shows "P t"
  using assms(2,3) by (induction xs arbitrary: s) (auto simp: res_bind_Inr_iff dest: assms(1))

lemma load_node_wired:
  assumes "wiring_ok g \<and> g_params g = []" and "load_node reg jn g = Inr h"
  shows "wiring_ok h \<and> g_params h = []"
  using assms wiring_ok_add_named [of g]
  by (auto simp: load_node_def add_named_def Let_def split: json.splits if_splits sum.splits option.splits)

lemma load_connection_wired:
  assumes "wiring_ok g \<and> g_params g = []" and "load_connection c g = Inr h"
  shows "wiring_ok h \<and> g_params h = []"
  using assms by (auto simp: load_connection_def Let_def res_bind_Inr_iff wiring_ok_connect split: if_splits)

lemma load_modulation_wired:
  assumes "wiring_ok g \<and> g_params g = []" and "load_modulation c g = Inr h"
  shows "wiring_ok h \<and> g_params h = []"
  using assms by (auto simp: load_modulation_def Let_def res_bind_Inr_iff wiring_ok_connect_param split: if_splits)

definition loaded_source :: "graph_blueprint \<Rightarrow> terminal_source \<Rightarrow> bool" where
  "loaded_source g c \<longleftrightarrow> ts_silent c \<or> ts_node c < bp_size g"

definition loaded_terminal :: "graph_blueprint \<Rightarrow> terminal \<Rightarrow> bool" where
  "loaded_terminal g t \<longleftrightarrow> t_node t < bp_size g \<and> list_all (loaded_source g) (t_channels t)"

lemma size_t_of_le: "0 \<le> i \<Longrightarrow> size_t_of i \<le> nat i"
  by (simp add: size_t_of_def nat_le_iff zmod_le_nonneg_dividend)

lemma valid_index_size_t: "valid_index g i \<Longrightarrow> size_t_of i < bp_size g"
  using size_t_of_le [of i] by (simp add: valid_index_def bp_size_def)

lemma load_source_loaded:
  "list_all (loaded_source g) cs \<Longrightarrow> load_source key g c cs = Inr ds \<Longrightarrow> list_all (loaded_source g) ds"
  by (auto simp: load_source_def res_bind_Inr_iff loaded_source_def valid_index_size_t split: if_splits)

lemma load_terminal_loaded:
  assumes "list_all (loaded_terminal g) ts" and "load_terminal key g t ts = Inr us"
  shows "list_all (loaded_terminal g) us"
proof -
  obtain nd chans where nd: "valid_index g nd"
    and ch: "fold_result (load_source key g) (array_member t ''channels'') [] = Inr chans"
    and us: "us = ts @ [\<lparr>t_name = json_text t ''name'' '''', t_node = size_t_of nd, t_channels = chans\<rparr>]"
    using assms(2) by (auto simp: load_terminal_def res_bind_Inr_iff split: if_splits)
  have "list_all (loaded_source g) chans"
    by (rule fold_result_invariant [OF load_source_loaded _ ch]) simp_all
  then show ?thesis using assms(1) valid_index_size_t [OF nd] by (simp add: us loaded_terminal_def)
qed

lemma loaded_terminal_cong: "bp_size g = bp_size h \<Longrightarrow> loaded_terminal g = loaded_terminal h"
proof -
  assume b: "bp_size g = bp_size h"
  then have s: "loaded_source g = loaded_source h" by (intro ext) (simp add: loaded_source_def)
  show ?thesis by (rule ext) (simp add: loaded_terminal_def b s)
qed

lemma load_graph_wired:
  assumes "load_graph reg root jn = Inr g"
  shows "wiring_ok g \<and> g_params g = [] \<and>
    list_all (loaded_terminal g) (g_input_terminals g) \<and> list_all (loaded_terminal g) (g_output_terminals g)"
proof -
  obtain a b c its ots i k where a: "fold_result (load_node reg) jn empty_blueprint = Inr a"
    and b: "fold_result load_connection (array_member root ''connections'') a = Inr b"
    and c: "fold_result load_modulation (array_member root ''modulations'') b = Inr c"
    and its: "fold_result (load_terminal ''input_terminals'' c) (array_member root ''input_terminals'') [] = Inr its"
    and ots: "fold_result (load_terminal ''output_terminals'' c) (array_member root ''output_terminals'') [] = Inr ots"
    and g: "g = c\<lparr>g_input_terminals := its, g_output_terminals := ots, g_input_node := i, g_output_node := k\<rparr>"
    using assms by (auto simp: load_graph_def res_bind_Inr_iff)
  let ?P = "\<lambda>g. wiring_ok g \<and> g_params g = []"
  have "?P empty_blueprint"
    by (simp add: empty_blueprint_def wiring_ok_def audio.well_wired_def modul.well_wired_def bp_size_def)
  then have "?P a" by (intro fold_result_invariant [where P = ?P, OF _ _ a]) (rule load_node_wired)
  then have "?P b" by (intro fold_result_invariant [where P = ?P, OF _ _ b]) (rule load_connection_wired)
  then have w: "?P c" by (intro fold_result_invariant [where P = ?P, OF _ _ c]) (rule load_modulation_wired)
  have "list_all (loaded_terminal c) its" by (rule fold_result_invariant [OF load_terminal_loaded _ its]) simp_all
  moreover have "list_all (loaded_terminal c) ots"
    by (rule fold_result_invariant [OF load_terminal_loaded _ ots]) simp_all
  moreover have "loaded_terminal g = loaded_terminal c" by (rule loaded_terminal_cong) (simp add: g bp_size_def)
  ultimately show ?thesis
    using w well_wired_cong [of g c] by (simp add: g wiring_ok_def bp_size_def)
qed

lemma saved_loads:
  assumes "savable g"
  shows "from_json standard_registry (to_json g name indent) = Inr (name, g\<lparr>g_params := []\<rparr>)"
  using dump_parses [OF savable_printable [OF assms]] load_saved [OF assms]
  by (simp add: from_json_def to_json_def)

section \<open>Properties\<close>



text \<open>C32: A text the loader accepts gives a blueprint whose wiring is what the builder accepts (ends in range,
  one driver per input and per modulated port, one name per node), whose terminals name its own nodes and
  which has no rune parameters, whatever the node registry.\<close>

theorem from_json_wired:
  assumes "from_json reg txt = Inr (name, g)"
  shows "wiring_ok g \<and> g_params g = [] \<and>
    list_all (loaded_terminal g) (g_input_terminals g) \<and> list_all (loaded_terminal g) (g_output_terminals g)"
  using assms load_graph_wired
  by (auto simp: from_json_def load_value_def res_bind_Inr_iff split: option.splits sum.splits json.splits if_splits)

theorem from_json_wired_witness:
  "wiring_ok \<lparr>g_nodes = [Mixer 3, Cut], g_names = [''m'', ''''],
    g_connections = [\<lparr>bc_src_node = 0, bc_src_output = 0, bc_dst_node = 1, bc_dst_input = 0\<rparr>], g_param_connections = [],
    g_input_terminals = [], g_output_terminals = [], g_params = [], g_input_node = None, g_output_node = None\<rparr>"
proof -
  let ?g = "\<lparr>g_nodes = [Mixer 3, Cut], g_names = [''m'', ''''],
    g_connections = [\<lparr>bc_src_node = 0, bc_src_output = 0, bc_dst_node = 1, bc_dst_input = 0\<rparr>], g_param_connections = [],
    g_input_terminals = [], g_output_terminals = [], g_params = [], g_input_node = None, g_output_node = None\<rparr>"
  have "from_json standard_registry (to_json ?g ''x'' 0) = Inr (''x'', ?g)"
    by (subst saved_loads)
      (simp_all add: savable_def wiring_ok_def audio.well_wired_def modul.well_wired_def in_range_conn_def
        bp_size_def savable_index_def)
  from from_json_wired [OF this] show ?thesis by simp
qed

end
