(* ===== verification/Token.thy ===== *)
theory Token
  imports Numtext
begin

text \<open>
  Tokens and diagnostics of the language front-end: \<open>include/xrune/lang/parser/token.hpp\<close> and
  \<open>include/xrune/lang/parser/diagnostic.hpp\<close>.  Lines and columns count characters of the source text, so they
  are natural numbers.
\<close>

datatype tok =
    T_End | T_Newline | T_Ident | T_Number | T_String
  | T_KwRune | T_KwSigil | T_KwEnd | T_KwInput | T_KwOut | T_KwAs | T_KwTrue | T_KwFalse
  | T_LParen | T_RParen | T_LBracket | T_RBracket | T_Assign | T_Comma | T_Dot
  | T_Colon | T_Split | T_Merge | T_Modulate | T_Arrow
  | T_Plus | T_Minus | T_Star | T_Slash | T_Percent
  | T_Bang | T_Tilde | T_Unknown

record token =
  tk_kind :: tok
  tk_text :: string
  tk_number :: f64
  tk_line :: nat
  tk_col :: nat

fun tok_name :: "tok \<Rightarrow> string" where
  "tok_name T_End = ''end-of-input''"
| "tok_name T_Newline = ''newline''"
| "tok_name T_Ident = ''identifier''"
| "tok_name T_Number = ''number''"
| "tok_name T_String = ''string''"
| "tok_name T_KwRune = quoted ''rune''"
| "tok_name T_KwSigil = quoted ''sigil''"
| "tok_name T_KwEnd = quoted ''end''"
| "tok_name T_KwInput = quoted ''input''"
| "tok_name T_KwOut = quoted ''out''"
| "tok_name T_KwAs = quoted ''as''"
| "tok_name T_KwTrue = quoted ''true''"
| "tok_name T_KwFalse = quoted ''false''"
| "tok_name T_LParen = quoted ''(''"
| "tok_name T_RParen = quoted '')''"
| "tok_name T_LBracket = quoted ''[''"
| "tok_name T_RBracket = quoted '']''"
| "tok_name T_Assign = quoted ''=''"
| "tok_name T_Comma = quoted '',''"
| "tok_name T_Dot = quoted ''.''"
| "tok_name T_Colon = quoted '':''"
| "tok_name T_Split = quoted ''<:''"
| "tok_name T_Merge = quoted '':>''"
| "tok_name T_Modulate = quoted ''~>''"
| "tok_name T_Arrow = quoted ''->''"
| "tok_name T_Plus = quoted ''+''"
| "tok_name T_Minus = quoted ''-''"
| "tok_name T_Star = quoted ''*''"
| "tok_name T_Slash = quoted ''/''"
| "tok_name T_Percent = quoted ''%''"
| "tok_name T_Bang = quoted ''!''"
| "tok_name T_Tilde = quoted ''~''"
| "tok_name T_Unknown = ''unknown token''"

definition continues_line :: "tok \<Rightarrow> bool" where
  "continues_line k \<longleftrightarrow> k \<in> {T_LParen, T_LBracket, T_Assign, T_Comma, T_Dot, T_Colon, T_Split, T_Merge,
     T_Modulate, T_Arrow, T_Plus, T_Minus, T_Star, T_Slash, T_Percent, T_Tilde}"

record diagnostic =
  dg_message :: string
  dg_line :: nat
  dg_col :: nat

definition diag :: "string \<Rightarrow> nat \<Rightarrow> nat \<Rightarrow> diagnostic" where
  "diag m l c = \<lparr>dg_message = m, dg_line = l, dg_col = c\<rparr>"

definition diag_format :: "diagnostic \<Rightarrow> string" where
  "diag_format d = show_nat (dg_line d) @ '':'' @ show_nat (dg_col d) @ '': '' @ dg_message d"

end
