(* ===== verification/Lexer.thy ===== *)
theory Lexer
  imports Token
begin

text \<open>
  The lexer of \<open>include/xrune/lang/parser/lexer.hpp\<close>.  The state holds the unread text with its line and
  column, the bracket depth, the kind of the last token that is not a newline, and the diagnostics.  As in
  the source the current character is the null character at the end of the text, and every loop condition
  fails on it.
\<close>

section \<open>State\<close>

record lexer =
  lx_rest :: string
  lx_line :: nat
  lx_col :: nat
  lx_depth :: nat
  lx_last :: tok
  lx_diags :: "diagnostic list"

definition lexer_init :: "string \<Rightarrow> diagnostic list \<Rightarrow> lexer" where
  "lexer_init src ds = \<lparr>lx_rest = src, lx_line = 1, lx_col = 1, lx_depth = 0, lx_last = T_Newline, lx_diags = ds\<rparr>"

abbreviation nul :: char where
  "nul \<equiv> CHR 0x00"

definition lx_cur :: "lexer \<Rightarrow> char" where
  "lx_cur s = (case lx_rest s of [] \<Rightarrow> nul | c # r \<Rightarrow> c)"

definition lx_peek :: "lexer \<Rightarrow> char" where
  "lx_peek s = (case lx_rest s of c # d # r \<Rightarrow> d | _ \<Rightarrow> nul)"

definition lx_advance :: "lexer \<Rightarrow> lexer" where
  "lx_advance s =
    (case lx_rest s of
      [] \<Rightarrow> s
    | c # r \<Rightarrow>
        if c = CHR 0x0A then s\<lparr>lx_rest := r, lx_line := lx_line s + 1, lx_col := 1\<rparr>
        else s\<lparr>lx_rest := r, lx_col := lx_col s + 1\<rparr>)"

definition lx_error :: "string \<Rightarrow> nat \<Rightarrow> nat \<Rightarrow> lexer \<Rightarrow> lexer" where
  "lx_error m l c s = s\<lparr>lx_diags := lx_diags s @ [diag m l c]\<rparr>"

definition lx_make :: "tok \<Rightarrow> nat \<Rightarrow> nat \<Rightarrow> string \<Rightarrow> token" where
  "lx_make k l c text = \<lparr>tk_kind = k, tk_text = text, tk_number = f64_zero, tk_line = l, tk_col = c\<rparr>"

text \<open>Advance while a condition on the current characters holds.\<close>

lemma lx_advance_length: "lx_rest s \<noteq> [] \<Longrightarrow> length (lx_rest (lx_advance s)) < length (lx_rest s)"
  by (auto simp: lx_advance_def split: list.splits)

lemma lx_advance_length_le: "length (lx_rest (lx_advance s)) \<le> length (lx_rest s)"
  by (auto simp: lx_advance_def split: list.splits)

function lx_while :: "(lexer \<Rightarrow> bool) \<Rightarrow> lexer \<Rightarrow> lexer" where
  "lx_while P s = (if lx_rest s \<noteq> [] \<and> P s then lx_while P (lx_advance s) else s)"
  by pat_completeness auto
termination
  by (relation "measure (\<lambda>(P, s). length (lx_rest s))") (auto intro: lx_advance_length)

declare lx_while.simps [simp del]

definition lx_while_char :: "(char \<Rightarrow> bool) \<Rightarrow> lexer \<Rightarrow> lexer" where
  "lx_while_char P = lx_while (\<lambda>s. P (lx_cur s))"

text \<open>The text between two states of one scan.\<close>

definition lx_between :: "lexer \<Rightarrow> lexer \<Rightarrow> string" where
  "lx_between s t = take (length (lx_rest s) - length (lx_rest t)) (lx_rest s)"

section \<open>Tokens\<close>

definition lx_scan_number :: "lexer \<Rightarrow> lexer" where
  "lx_scan_number s =
    (if lx_cur s = CHR ''0'' \<and> (lx_peek s = CHR ''x'' \<or> lx_peek s = CHR ''X'')
     then lx_while_char is_xdigit (lx_advance (lx_advance s))
     else
       (let s1 = lx_while_char is_digit s;
            s2 = (if lx_cur s1 = CHR ''.'' then lx_while_char is_digit (lx_advance s1) else s1)
        in if lx_cur s2 = CHR ''e'' \<or> lx_cur s2 = CHR ''E''
           then (let s3 = lx_advance s2;
                     s4 = (if lx_cur s3 = CHR ''+'' \<or> lx_cur s3 = CHR ''-'' then lx_advance s3 else s3)
                 in lx_while_char is_digit s4)
           else s2))"

definition lx_number :: "nat \<Rightarrow> nat \<Rightarrow> lexer \<Rightarrow> token \<times> lexer" where
  "lx_number l c s =
    (let s' = lx_scan_number s; text = lx_between s s'
     in ((lx_make T_Number l c text)\<lparr>tk_number := fst (strtod text)\<rparr>, s'))"

definition keyword :: "string \<Rightarrow> tok" where
  "keyword text =
    (if text = ''rune'' then T_KwRune
     else if text = ''sigil'' then T_KwSigil
     else if text = ''end'' then T_KwEnd
     else if text = ''input'' then T_KwInput
     else if text = ''out'' then T_KwOut
     else if text = ''as'' then T_KwAs
     else if text = ''true'' then T_KwTrue
     else if text = ''false'' then T_KwFalse
     else T_Ident)"

definition ident_char :: "char \<Rightarrow> bool" where
  "ident_char c \<longleftrightarrow> is_alnum c \<or> c = CHR ''_''"

definition lx_ident :: "nat \<Rightarrow> nat \<Rightarrow> lexer \<Rightarrow> token \<times> lexer" where
  "lx_ident l c s =
    (let s' = lx_while_char ident_char s; text = lx_between s s'
     in (lx_make (keyword text) l c text, s'))"

text \<open>The loop stops in front of a closing quote, a line end (reported) or the end of the text.\<close>

function lx_string_loop :: "nat \<Rightarrow> nat \<Rightarrow> string \<Rightarrow> lexer \<Rightarrow> string \<times> lexer" where
  "lx_string_loop l c acc s =
    (if lx_cur s = nul \<or> lx_cur s = CHR 0x22 then (acc, s)
     else if lx_cur s = CHR 0x5C \<and> lx_peek s \<noteq> nul then
       (let s1 = lx_advance s in lx_string_loop l c (acc @ [lx_cur s1]) (lx_advance s1))
     else if lx_cur s = CHR 0x0A then (acc, lx_error ''unterminated string'' l c s)
     else lx_string_loop l c (acc @ [lx_cur s]) (lx_advance s))"
  by pat_completeness auto

lemma lx_cur_rest: "lx_cur s \<noteq> nul \<Longrightarrow> lx_rest s \<noteq> []"
  by (auto simp: lx_cur_def)

lemma lx_advance_less: "lx_cur s \<noteq> nul \<Longrightarrow> length (lx_rest (lx_advance s)) < length (lx_rest s)"
  by (simp add: lx_advance_length lx_cur_rest)

lemma lx_advance2_less: "lx_cur s \<noteq> nul \<Longrightarrow> length (lx_rest (lx_advance (lx_advance s))) < length (lx_rest s)"
  using lx_advance_less [of s] lx_advance_length_le [of "lx_advance s"] by simp

termination lx_string_loop
  by (relation "measure (\<lambda>(l, c, acc, s). length (lx_rest s))") (auto simp: lx_advance_less lx_advance2_less)

declare lx_string_loop.simps [simp del]

definition lx_string :: "nat \<Rightarrow> nat \<Rightarrow> lexer \<Rightarrow> token \<times> lexer" where
  "lx_string l c s =
    (case lx_string_loop l c [] (lx_advance s) of (text, s1) \<Rightarrow>
      (lx_make T_String l c text,
       if lx_cur s1 = CHR 0x22 then lx_advance s1 else lx_error ''unterminated string'' l c s1))"

definition lx_op1 :: "tok \<Rightarrow> nat \<Rightarrow> nat \<Rightarrow> lexer \<Rightarrow> token \<times> lexer" where
  "lx_op1 k l c s = (lx_make k l c [], lx_advance s)"

text \<open>A two-character operator when the next character is \<open>d\<close>, else a one-character one.\<close>

definition lx_op2 :: "char \<Rightarrow> tok \<Rightarrow> tok \<Rightarrow> nat \<Rightarrow> nat \<Rightarrow> lexer \<Rightarrow> token \<times> lexer" where
  "lx_op2 d k2 k1 l c s =
    (if lx_peek s = d then (lx_make k2 l c [], lx_advance (lx_advance s)) else lx_op1 k1 l c s)"

definition lx_open :: "tok \<Rightarrow> nat \<Rightarrow> nat \<Rightarrow> lexer \<Rightarrow> token \<times> lexer" where
  "lx_open k l c s = (lx_make k l c [], (lx_advance s)\<lparr>lx_depth := lx_depth s + 1\<rparr>)"

definition lx_close :: "tok \<Rightarrow> nat \<Rightarrow> nat \<Rightarrow> lexer \<Rightarrow> token \<times> lexer" where
  "lx_close k l c s = (lx_make k l c [], (lx_advance s)\<lparr>lx_depth := lx_depth s - 1\<rparr>)"

definition lx_unknown :: "string \<Rightarrow> nat \<Rightarrow> nat \<Rightarrow> lexer \<Rightarrow> token \<times> lexer" where
  "lx_unknown m l c s = (lx_make T_Unknown l c [], lx_error m l c (lx_advance s))"

definition lx_operator :: "nat \<Rightarrow> nat \<Rightarrow> lexer \<Rightarrow> token \<times> lexer" where
  "lx_operator l c s =
    (let ch = lx_cur s in
     if ch = CHR ''<'' then
       (if lx_peek s = CHR '':'' then lx_op2 (CHR '':'') T_Split T_Split l c s
        else lx_unknown (''unexpected '' @ quoted ''<'' @ '' (did you mean '' @ quoted ''<:'' @ '' ?)'') l c s)
     else if ch = CHR '':'' then lx_op2 (CHR ''>'') T_Merge T_Colon l c s
     else if ch = CHR ''~'' then lx_op2 (CHR ''>'') T_Modulate T_Tilde l c s
     else if ch = CHR ''-'' then lx_op2 (CHR ''>'') T_Arrow T_Minus l c s
     else if ch = CHR ''('' then lx_open T_LParen l c s
     else if ch = CHR '')'' then lx_close T_RParen l c s
     else if ch = CHR ''['' then lx_open T_LBracket l c s
     else if ch = CHR '']'' then lx_close T_RBracket l c s
     else if ch = CHR ''='' then lx_op1 T_Assign l c s
     else if ch = CHR '','' then lx_op1 T_Comma l c s
     else if ch = CHR ''.'' then lx_op1 T_Dot l c s
     else if ch = CHR ''+'' then lx_op1 T_Plus l c s
     else if ch = CHR ''*'' then lx_op1 T_Star l c s
     else if ch = CHR ''/'' then lx_op1 T_Slash l c s
     else if ch = CHR ''%'' then lx_op1 T_Percent l c s
     else if ch = CHR ''!'' then lx_op1 T_Bang l c s
     else lx_unknown (''unexpected character '' @ quoted [ch]) l c s)"

text \<open>The token that starts at the current character, past blanks and comments.\<close>

definition lx_token :: "lexer \<Rightarrow> token \<times> lexer" where
  "lx_token s =
    (let l = lx_line s; c = lx_col s; ch = lx_cur s in
     if lx_rest s = [] then (lx_make T_End l c [], s)
     else if is_digit ch \<or> ch = CHR ''.'' \<and> is_digit (lx_peek s) then lx_number l c s
     else if is_alpha ch \<or> ch = CHR ''_'' then lx_ident l c s
     else if ch = CHR 0x22 then lx_string l c s
     else lx_operator l c s)"

section \<open>Blanks, comments and newlines\<close>

definition in_line_comment :: "lexer \<Rightarrow> bool" where
  "in_line_comment s \<longleftrightarrow> lx_cur s \<noteq> nul \<and> lx_cur s \<noteq> CHR 0x0A"

definition in_block_comment :: "lexer \<Rightarrow> bool" where
  "in_block_comment s \<longleftrightarrow> lx_cur s \<noteq> nul \<and> \<not> (lx_cur s = CHR ''*'' \<and> lx_peek s = CHR ''/'')"

function lx_next :: "lexer \<Rightarrow> token \<times> lexer" where
  "lx_next s =
    (if lx_cur s = CHR 0x0A then
       (let s1 = lx_advance s in
        if lx_depth s1 > 0 \<or> continues_line (lx_last s1) then lx_next s1
        else (lx_make T_Newline (lx_line s) (lx_col s) [], s1))
     else if lx_cur s = CHR '' '' \<or> lx_cur s = CHR 0x09 \<or> lx_cur s = CHR 0x0D then lx_next (lx_advance s)
     else if lx_cur s = CHR ''/'' \<and> lx_peek s = CHR ''/'' then lx_next (lx_while in_line_comment s)
     else if lx_cur s = CHR ''/'' \<and> lx_peek s = CHR ''*'' then
       (let s1 = lx_while in_block_comment (lx_advance (lx_advance s)) in
        if lx_cur s1 = nul
        then (lx_make T_End (lx_line s1) (lx_col s1) [], lx_error ''unterminated block comment'' (lx_line s) (lx_col s) s1)
        else lx_next (lx_advance (lx_advance s1)))
     else lx_token s)"
  by pat_completeness auto

lemma lx_while_length_le: "length (lx_rest (lx_while P s)) \<le> length (lx_rest s)"
proof (induction P s rule: lx_while.induct)
  case (1 P s)
  then show ?case
    by (subst lx_while.simps) (auto intro: order_trans [OF _ lx_advance_length_le])
qed

lemma lx_while_length:
  assumes "P s" and "lx_rest s \<noteq> []"
  shows "length (lx_rest (lx_while P s)) < length (lx_rest s)"
  using lx_while_length_le [of P "lx_advance s"] lx_advance_length [OF assms(2)] assms
  by (subst lx_while.simps) simp

lemma block_comment_less:
  assumes "lx_cur s \<noteq> nul"
  shows "length (lx_rest (lx_while P (lx_advance (lx_advance s)))) < length (lx_rest s)"
    and "length (lx_rest (lx_advance (lx_advance (lx_while P (lx_advance (lx_advance s)))))) < length (lx_rest s)"
proof -
  show l: "length (lx_rest (lx_while P (lx_advance (lx_advance s)))) < length (lx_rest s)"
    using lx_while_length_le [of P "lx_advance (lx_advance s)"] lx_advance2_less [OF assms] by simp
  show "length (lx_rest (lx_advance (lx_advance (lx_while P (lx_advance (lx_advance s)))))) < length (lx_rest s)"
    using l lx_advance_length_le [of "lx_while P (lx_advance (lx_advance s))"]
      lx_advance_length_le [of "lx_advance (lx_while P (lx_advance (lx_advance s)))"] by simp
qed

lemma line_comment_less: "lx_cur s = CHR ''/'' \<Longrightarrow> length (lx_rest (lx_while in_line_comment s)) < length (lx_rest s)"
  by (intro lx_while_length lx_cur_rest) (simp_all add: in_line_comment_def)

termination lx_next
  by (relation "measure (\<lambda>s. length (lx_rest s))")
    (auto simp: lx_advance_less line_comment_less block_comment_less)

declare lx_next.simps [simp del]

section \<open>The token stream\<close>

definition keep_token :: "token list \<Rightarrow> token \<Rightarrow> bool" where
  "keep_token out t \<longleftrightarrow> tk_kind t \<noteq> T_Newline \<or> (out \<noteq> [] \<and> tk_kind (last out) \<noteq> T_Newline)"

text \<open>Every token but the end marker consumes a character, so the text bounds the length of the run.\<close>

lemma lx_while_char_length_le: "length (lx_rest (lx_while_char P s)) \<le> length (lx_rest s)"
  by (simp add: lx_while_char_def lx_while_length_le)

lemma lx_while_char_length:
  "P (lx_cur s) \<Longrightarrow> lx_rest s \<noteq> [] \<Longrightarrow> length (lx_rest (lx_while_char P s)) < length (lx_rest s)"
  by (simp add: lx_while_char_def lx_while_length)

lemma lx_op_shorter:
  assumes "lx_rest s \<noteq> []"
  shows "length (lx_rest (snd (lx_op1 k l c s))) < length (lx_rest s)"
    and "length (lx_rest (snd (lx_op2 d k2 k l c s))) < length (lx_rest s)"
    and "length (lx_rest (snd (lx_open k l c s))) < length (lx_rest s)"
    and "length (lx_rest (snd (lx_close k l c s))) < length (lx_rest s)"
    and "length (lx_rest (snd (lx_unknown m l c s))) < length (lx_rest s)"
  using lx_advance_length [OF assms] lx_advance_length_le [of "lx_advance s"]
  by (simp_all add: lx_op1_def lx_op2_def lx_open_def lx_close_def lx_unknown_def lx_error_def)

lemma lx_string_loop_le: "length (lx_rest (snd (lx_string_loop l c acc s))) \<le> length (lx_rest s)"
proof (induction l c acc s rule: lx_string_loop.induct)
  case (1 l c acc s)
  then show ?case
    using lx_advance_length_le [of s] lx_advance_length_le [of "lx_advance s"]
    by (subst lx_string_loop.simps) (auto simp: lx_error_def Let_def)
qed

lemma lx_string_shorter:
  assumes "lx_rest s \<noteq> []"
  shows "length (lx_rest (snd (lx_string l c s))) < length (lx_rest s)"
proof -
  obtain t u where tu: "lx_string_loop l c [] (lx_advance s) = (t, u)" by fastforce
  then have "length (lx_rest u) < length (lx_rest s)"
    using lx_string_loop_le [of l c "[]" "lx_advance s"] lx_advance_length [OF assms] by simp
  then show ?thesis
    using lx_advance_length_le [of u] by (simp add: lx_string_def tu lx_error_def)
qed

lemma lx_scan_number_shorter:
  assumes "is_digit (lx_cur s) \<or> lx_cur s = CHR ''.''"
  shows "length (lx_rest (lx_scan_number s)) < length (lx_rest s)"
proof -
  have ne: "lx_rest s \<noteq> []" using assms by (intro lx_cur_rest) (auto simp: is_digit_def)
  let ?s1 = "lx_while_char is_digit s"
  have le: "length (lx_rest (lx_while_char P (lx_advance t))) \<le> length (lx_rest t)"
    "length (lx_rest (lx_while_char P (lx_advance (lx_advance t)))) \<le> length (lx_rest t)" for P t
    using lx_while_char_length_le [of P "lx_advance t"] lx_while_char_length_le [of P "lx_advance (lx_advance t)"]
      lx_advance_length_le [of t] lx_advance_length_le [of "lx_advance t"] by simp_all
  have s1: "length (lx_rest ?s1) < length (lx_rest s) \<or> ?s1 = s \<and> lx_cur s = CHR ''.''"
  proof (cases "is_digit (lx_cur s)")
    case True
    then show ?thesis using lx_while_char_length [OF _ ne] by blast
  next
    case False
    then show ?thesis using assms by (simp add: lx_while_char_def lx_while.simps [of _ s])
  qed
  let ?s2 = "if lx_cur ?s1 = CHR ''.'' then lx_while_char is_digit (lx_advance ?s1) else ?s1"
  have s2: "length (lx_rest ?s2) < length (lx_rest s)"
    using s1 le(1) [of is_digit ?s1] lx_while_char_length_le [of is_digit "lx_advance s"] lx_advance_length [OF ne]
    by auto
  have hex: "length (lx_rest (lx_while_char is_xdigit (lx_advance (lx_advance s)))) < length (lx_rest s)"
    using lx_while_char_length_le [of is_xdigit "lx_advance (lx_advance s)"] lx_advance_length [OF ne]
      lx_advance_length_le [of "lx_advance s"] by simp
  show ?thesis
    using hex s2 le [of is_digit ?s2] by (auto simp: lx_scan_number_def Let_def)
qed

lemma lx_token_shorter:
  assumes "lx_rest s \<noteq> []"
  shows "length (lx_rest (snd (lx_token s))) < length (lx_rest s)"
proof -
  have "is_alpha (lx_cur s) \<or> lx_cur s = CHR ''_'' \<Longrightarrow> length (lx_rest (lx_while_char ident_char s)) < length (lx_rest s)"
    using assms by (intro lx_while_char_length) (auto simp: ident_char_def is_alnum_def)
  then show ?thesis
    using assms lx_scan_number_shorter [of s] lx_string_shorter [OF assms] lx_op_shorter [OF assms]
    by (auto simp: lx_token_def lx_number_def lx_ident_def lx_operator_def Let_def)
qed

text \<open>The cases of \<open>lx_next\<close>: a token or a newline, the end in an unclosed comment, or another round.\<close>

lemma lx_next_cases:
  obtains (token) "lx_next s = lx_token s"
  | (newline) "lx_cur s \<noteq> nul" and "lx_next s = (lx_make T_Newline (lx_line s) (lx_col s) [], lx_advance s)"
  | (unclosed) s1 where "lx_next s = (lx_make T_End (lx_line s1) (lx_col s1) [],
      lx_error ''unterminated block comment'' (lx_line s) (lx_col s) s1)"
  | (again) s1 where "length (lx_rest s1) < length (lx_rest s)" and "lx_next s = lx_next s1"
proof -
  let ?blank = "lx_cur s = CHR '' '' \<or> lx_cur s = CHR 0x09 \<or> lx_cur s = CHR 0x0D"
  let ?c = "lx_while in_block_comment (lx_advance (lx_advance s))"
  consider (nl) "lx_cur s = CHR 0x0A" | (blank) ?blank
    | (line) "lx_cur s = CHR ''/''" "lx_peek s = CHR ''/''" | (block) "lx_cur s = CHR ''/''" "lx_peek s = CHR ''*''"
    | (other) "lx_cur s \<noteq> CHR 0x0A" "\<not> ?blank" "\<not> (lx_cur s = CHR ''/'' \<and> lx_peek s = CHR ''/'')"
        "\<not> (lx_cur s = CHR ''/'' \<and> lx_peek s = CHR ''*'')" by blast
  then show thesis
  proof cases
    case nl
    then have n: "lx_cur s \<noteq> nul" by simp
    show thesis
    proof (cases "lx_depth (lx_advance s) > 0 \<or> continues_line (lx_last (lx_advance s))")
      case True
      then show thesis using nl by (intro again [OF lx_advance_less [OF n]]) (subst lx_next.simps, simp add: Let_def)
    next
      case False
      then show thesis using nl by (intro newline [OF n]) (subst lx_next.simps, simp add: Let_def)
    qed
  next
    case blank
    then show thesis by (intro again [OF lx_advance_less]) (auto simp: lx_next.simps [of s])
  next
    case line
    then show thesis by (intro again [OF line_comment_less]) (simp_all add: lx_next.simps [of s])
  next
    case block
    then have n: "lx_cur s \<noteq> nul" by simp
    show thesis
    proof (cases "lx_cur ?c = nul")
      case True
      then show thesis using block by (intro unclosed [of ?c]) (simp add: lx_next.simps [of s] Let_def)
    next
      case False
      then show thesis
        using block by (intro again [OF block_comment_less(2) [OF n]]) (simp add: lx_next.simps [of s] Let_def)
    qed
  next
    case other
    then show thesis by (intro token) (subst lx_next.simps, auto)
  qed
qed

lemma lx_next_shorter:
  "tk_kind (fst (lx_next s)) \<noteq> T_End \<Longrightarrow> length (lx_rest (snd (lx_next s))) < length (lx_rest s)"
proof (induction "length (lx_rest s)" arbitrary: s rule: less_induct)
  case less
  show ?case
  proof (cases rule: lx_next_cases [of s])
    case token
    then show ?thesis
      using less.prems lx_token_shorter [of s] by (cases "lx_rest s = []") (simp_all add: lx_token_def lx_make_def)
  next
    case newline
    then show ?thesis using lx_advance_less [of s] by simp
  next
    case unclosed
    then show ?thesis using less.prems by (simp add: lx_make_def)
  next
    case (again s1)
    then show ?thesis using less.hyps [of s1] less.prems by simp
  qed
qed

lemma lx_next_less: "(t, u) = lx_next s \<Longrightarrow> tk_kind t \<noteq> T_End \<Longrightarrow> length (lx_rest u) < length (lx_rest s)"
  using lx_next_shorter [of s] by (cases "lx_next s") simp

lemma dropped_not_end: "\<not> keep_token out t \<Longrightarrow> tk_kind t \<noteq> T_End"
  by (auto simp: keep_token_def)

function lx_run_from :: "token list \<Rightarrow> lexer \<Rightarrow> token list \<times> lexer" where
  "lx_run_from out s =
    (case lx_next s of (t, s1) \<Rightarrow>
      if \<not> keep_token out t then lx_run_from out s1
      else
        (let out' = out @ [t]; s2 = (if tk_kind t \<noteq> T_Newline then s1\<lparr>lx_last := tk_kind t\<rparr> else s1)
         in if tk_kind t = T_End then (out', s2) else lx_run_from out' s2))"
  by pat_completeness auto
termination
  by (relation "measure (\<lambda>(out, s). length (lx_rest s))") (auto intro: lx_next_less dest: dropped_not_end)

declare lx_run_from.simps [simp del]

definition lx_run :: "lexer \<Rightarrow> token list \<times> lexer" where
  "lx_run s = lx_run_from [] s"

definition lex :: "string \<Rightarrow> diagnostic list \<Rightarrow> token list \<times> diagnostic list" where
  "lex src ds = (case lx_run (lexer_init src ds) of (out, s) \<Rightarrow> (out, lx_diags s))"

end
