(* ===== verification/Ast.thy ===== *)
theory Ast
  imports Token
begin

text \<open>
  The syntax tree of \<open>include/xrune/lang/parser/ast.hpp\<close> and its text dump.  A node keeps the line and column
  the parser gives it.  The source has one struct with a kind tag and the union of all fields for expressions and one
  for statements; here each kind is a constructor with the fields it uses.
\<close>

type_synonym pos = "nat \<times> nat"

text \<open>The name of a positional argument is empty.\<close>

datatype expr =
    E_number pos f64
  | E_string pos string
  | E_boolean pos bool
  | E_ident pos string
  | E_call pos string "argument list"
  | E_unary pos expr
  | E_binary pos tok expr expr
  | E_select pos expr int
and argument = Argument (arg_name: string) (arg_expr: expr) (arg_pos: pos)

fun expr_pos :: "expr \<Rightarrow> pos" where
  "expr_pos (E_number p v) = p"
| "expr_pos (E_string p t) = p"
| "expr_pos (E_boolean p b) = p"
| "expr_pos (E_ident p t) = p"
| "expr_pos (E_call p t args) = p"
| "expr_pos (E_unary p a) = p"
| "expr_pos (E_binary p k a b) = p"
| "expr_pos (E_select p a i) = p"

record port_path =
  pp_parts :: "string list"
  pp_pos :: pos

datatype stmt =
    S_binding (stmt_pos: pos) string expr
  | S_wire (stmt_pos: pos) expr
  | S_modulate (stmt_pos: pos) expr port_path
  | S_explicit (stmt_pos: pos) expr string int
  | S_input (stmt_pos: pos) string "argument list"
  | S_out (stmt_pos: pos) expr string int

record rune_param =
  rp_name :: string
  rp_default :: "expr option"
  rp_pos :: pos

text \<open>Runes and sigils have the same fields.\<close>

record rune_def =
  rd_name :: string
  rd_params :: "rune_param list"
  rd_body :: "stmt list"
  rd_pos :: pos

type_synonym sigil_def = rune_def

record program =
  pg_runes :: "rune_def list"
  pg_sigils :: "sigil_def list"

section \<open>Dump\<close>

fun binop_str :: "tok \<Rightarrow> string" where
  "binop_str T_Colon = '':''"
| "binop_str T_Comma = '',''"
| "binop_str T_Split = ''<:''"
| "binop_str T_Merge = '':>''"
| "binop_str T_Plus = ''+''"
| "binop_str T_Minus = ''-''"
| "binop_str T_Star = ''*''"
| "binop_str T_Slash = ''/''"
| "binop_str T_Percent = ''%''"
| "binop_str k = ''?''"

fun sep_by :: "string \<Rightarrow> string list \<Rightarrow> string" where
  "sep_by sep [] = []"
| "sep_by sep [x] = x"
| "sep_by sep (x # xs) = x @ sep @ sep_by sep xs"

text \<open>\<open>std::to_string\<close> prints six decimals.\<close>

fun dump_expr :: "expr \<Rightarrow> string"
  and dump_arg :: "argument \<Rightarrow> string" where
  "dump_expr (E_number p v) = fmt_f v"
| "dump_expr (E_string p t) = dq @ t @ dq"
| "dump_expr (E_boolean p b) = (if b then ''true'' else ''false'')"
| "dump_expr (E_ident p t) = t"
| "dump_expr (E_unary p a) = ''(-'' @ dump_expr a @ '')''"
| "dump_expr (E_select p a i) = dump_expr a @ ''['' @ show_int i @ '']''"
| "dump_expr (E_binary p k a b) = ''('' @ dump_expr a @ '' '' @ binop_str k @ '' '' @ dump_expr b @ '')''"
| "dump_expr (E_call p t args) = t @ ''('' @ sep_by '', '' (map dump_arg args) @ '')''"
| "dump_arg (Argument name e p) = (if name \<noteq> [] then name @ ''='' else []) @ dump_expr e"

fun dump_stmt :: "stmt \<Rightarrow> string" where
  "dump_stmt (S_binding p name v) = name @ '' = '' @ dump_expr v"
| "dump_stmt (S_wire p e) = dump_expr e"
| "dump_stmt (S_modulate p e t) = dump_expr e @ '' ~> '' @ sep_by ''.'' (pp_parts t)"
| "dump_stmt (S_explicit p e n i) = dump_expr e @ '' -> '' @ n @ ''['' @ show_int i @ '']''"
| "dump_stmt (S_input p name args) = ''input '' @ name @ ''('' @ sep_by '', '' (map dump_arg args) @ '')''"
| "dump_stmt (S_out p e t i) = ''out '' @ dump_expr e @ (if t \<noteq> [] then '' as '' @ t else [])"

definition dump_def :: "string \<Rightarrow> rune_def \<Rightarrow> string" where
  "dump_def keyword d =
    keyword @ '' '' @ rd_name d @ ''('' @ sep_by '', '' (map rp_name (rd_params d)) @ '')'' @ nl @
    concat (map (\<lambda>s. ''  '' @ dump_stmt s @ nl) (rd_body d)) @ ''end'' @ nl"

definition dump_program :: "program \<Rightarrow> string" where
  "dump_program p =
    concat (map (dump_def ''sigil'') (pg_sigils p)) @ concat (map (dump_def ''rune'') (pg_runes p))"

end
