(* ===== verification/Parser.thy ===== *)
theory Parser
  imports Lexer Ast Prelude
begin

text \<open>
  The recursive-descent parser of \<open>include/xrune/lang/parser/parser.hpp\<close>.  The state is the unread tokens, the
  current one first, and the diagnostics.  The last token is never consumed, as in the source.  Recursive functions
  spend one unit of fuel per call and fail with \<open>P_fuel\<close> when it is used up; the theory \<open>Parser_Facts\<close> shows
  that the fuel of \<open>parse\<close> is enough.  \<open>P_undefined\<close> is the conversion of a channel index that \<open>int\<close> does not
  hold.
\<close>

section \<open>Token helpers\<close>

record pstate =
  ps_toks :: "token list"
  ps_diags :: "diagnostic list"

datatype perror = P_fuel | P_undefined

type_synonym 'a parsed = "(perror, 'a \<times> pstate) result"

definition end_token :: token where
  "end_token = \<lparr>tk_kind = T_End, tk_text = [], tk_number = f64_zero, tk_line = 1, tk_col = 1\<rparr>"

text \<open>The current token; the list of tokens is never empty.\<close>

definition p_cur :: "pstate \<Rightarrow> token" where
  "p_cur s = (case ps_toks s of [] \<Rightarrow> end_token | t # ts \<Rightarrow> t)"

definition p_kind :: "pstate \<Rightarrow> tok" where
  "p_kind s = tk_kind (p_cur s)"

definition p_pos :: "pstate \<Rightarrow> pos" where
  "p_pos s = (tk_line (p_cur s), tk_col (p_cur s))"

definition p_peek_kind :: "pstate \<Rightarrow> tok" where
  "p_peek_kind s = (case ps_toks s of t # u # ts \<Rightarrow> tk_kind u | _ \<Rightarrow> p_kind s)"

definition p_adv :: "pstate \<Rightarrow> pstate" where
  "p_adv s = (case ps_toks s of t # u # ts \<Rightarrow> s\<lparr>ps_toks := u # ts\<rparr> | _ \<Rightarrow> s)"

definition p_error_at :: "string \<Rightarrow> pos \<Rightarrow> pstate \<Rightarrow> pstate" where
  "p_error_at m p s = s\<lparr>ps_diags := ps_diags s @ [diag m (fst p) (snd p)]\<rparr>"

definition p_error :: "string \<Rightarrow> pstate \<Rightarrow> pstate" where
  "p_error m s = p_error_at m (p_pos s) s"

definition p_accept :: "tok \<Rightarrow> pstate \<Rightarrow> bool \<times> pstate" where
  "p_accept k s = (if p_kind s = k then (True, p_adv s) else (False, s))"

text \<open>The token found and the state behind it; a token of another kind is reported and stays.\<close>

definition p_expect :: "tok \<Rightarrow> string \<Rightarrow> pstate \<Rightarrow> token \<times> pstate" where
  "p_expect k what s =
    (p_cur s,
     if p_kind s = k then p_adv s
     else p_error (''expected '' @ what @ '', got '' @ tok_name (p_kind s)) s)"

fun drop_until :: "(token \<Rightarrow> bool) \<Rightarrow> token list \<Rightarrow> token list" where
  "drop_until P (t # u # ts) = (if P t then t # u # ts else drop_until P (u # ts))"
| "drop_until P ts = ts"

definition skip_newlines :: "pstate \<Rightarrow> pstate" where
  "skip_newlines s = s\<lparr>ps_toks := drop_until (\<lambda>t. tk_kind t \<noteq> T_Newline) (ps_toks s)\<rparr>"

definition synchronize :: "pstate \<Rightarrow> pstate" where
  "synchronize s = s\<lparr>ps_toks := drop_until (\<lambda>t. tk_kind t \<in> {T_End, T_Newline, T_KwEnd, T_KwRune, T_KwSigil})
     (ps_toks s)\<rparr>"

section \<open>Expressions\<close>

fun binprec :: "tok \<Rightarrow> nat" where
  "binprec T_Merge = 1"
| "binprec T_Split = 2"
| "binprec T_Colon = 3"
| "binprec T_Comma = 4"
| "binprec T_Plus = 5"
| "binprec T_Minus = 5"
| "binprec T_Star = 6"
| "binprec T_Slash = 6"
| "binprec T_Percent = 6"
| "binprec k = 0"

definition int_cast :: "f64 \<Rightarrow> int option" where
  "int_cast v = (case f64_trunc v of None \<Rightarrow> None | Some i \<Rightarrow> if - (2 ^ 31) \<le> i \<and> i < 2 ^ 31 then Some i else None)"

definition parse_index :: "pstate \<Rightarrow> int parsed" where
  "parse_index s =
    (if p_kind s = T_Number then
       (let v = tk_number (p_cur s); s1 = p_adv s in
        case int_cast v of
          None \<Rightarrow> Inl P_undefined
        | Some iv \<Rightarrow>
            Inr (iv, if \<not> f64_eq (f64_of_int iv) v \<or> iv < 0
                     then p_error ''channel index must be a non-negative integer'' s1 else s1))
     else Inr (0, p_error (''expected a channel index, got '' @ tok_name (p_kind s)) s))"

text \<open>An index in brackets; the current token is the opening one.\<close>

definition parse_bracketed :: "pstate \<Rightarrow> int parsed" where
  "parse_bracketed s =
    res_bind (parse_index (p_adv s)) (\<lambda>(i, t). Inr (i, snd (p_expect T_RBracket (quoted '']'') t)))"

text \<open>
  The functions below call each other in the source.  Here \<open>parse_binary\<close> is the recursive one; the others get
  the parser of the nested expressions as the argument \<open>sub\<close> and the fuel of their own loop as \<open>n\<close>.
\<close>

type_synonym sub_parser = "nat \<Rightarrow> bool \<Rightarrow> pstate \<Rightarrow> expr parsed"

fun parse_args_loop :: "sub_parser \<Rightarrow> nat \<Rightarrow> argument list \<Rightarrow> pstate \<Rightarrow> argument list parsed" where
  "parse_args_loop sub 0 args s = Inl P_fuel"
| "parse_args_loop sub (Suc n) args s =
    (let named = (p_kind s = T_Ident \<and> p_peek_kind s = T_Assign);
         name = (if named then tk_text (p_cur s) else []);
         s1 = (if named then p_adv (p_adv s) else s)
     in res_bind (sub 1 True s1) (\<lambda>(v, t).
       let args1 = args @ [Argument name v (p_pos s)] in
       if p_kind t = T_Comma then parse_args_loop sub n args1 (p_adv t) else Inr (args1, t)))"

definition parse_call_args :: "sub_parser \<Rightarrow> nat \<Rightarrow> pstate \<Rightarrow> argument list parsed" where
  "parse_call_args sub n s =
    (let s1 = snd (p_expect T_LParen (quoted ''('') s) in
     if p_kind s1 = T_RParen then Inr ([], p_adv s1)
     else res_bind (parse_args_loop sub n [] s1) (\<lambda>(args, t). Inr (args, snd (p_expect T_RParen (quoted '')'') t))))"

definition parse_primary :: "sub_parser \<Rightarrow> nat \<Rightarrow> pstate \<Rightarrow> expr parsed" where
  "parse_primary sub n s =
    (if p_kind s = T_Bang then Inr (E_ident (p_pos s) ''!'', p_adv s)
     else if p_kind s = T_LParen then
       res_bind (sub 1 False (p_adv s)) (\<lambda>(e, t). Inr (e, snd (p_expect T_RParen (quoted '')'') t)))
     else if p_kind s = T_Number then Inr (E_number (p_pos s) (tk_number (p_cur s)), p_adv s)
     else if p_kind s = T_String then Inr (E_string (p_pos s) (tk_text (p_cur s)), p_adv s)
     else if p_kind s = T_KwTrue \<or> p_kind s = T_KwFalse then
       Inr (E_boolean (p_pos s) (p_kind s = T_KwTrue), p_adv s)
     else if p_kind s = T_Ident then
       (let s1 = p_adv s in
        if p_kind s1 = T_LParen
        then res_bind (parse_call_args sub n s1) (\<lambda>(args, t). Inr (E_call (p_pos s) (tk_text (p_cur s)) args, t))
        else Inr (E_ident (p_pos s) (tk_text (p_cur s)), s1))
     else Inr (E_number (p_pos s) f64_zero,
       p_error (''expected an expression, got '' @ tok_name (p_kind s)) s))"

fun parse_select :: "nat \<Rightarrow> expr \<Rightarrow> pstate \<Rightarrow> expr parsed" where
  "parse_select 0 base s = Inl P_fuel"
| "parse_select (Suc n) base s =
    (if p_kind s = T_LBracket
     then res_bind (parse_bracketed s) (\<lambda>(i, t). parse_select n (E_select (p_pos s) base i) t)
     else Inr (base, s))"

definition parse_postfix :: "sub_parser \<Rightarrow> nat \<Rightarrow> pstate \<Rightarrow> expr parsed" where
  "parse_postfix sub n s = res_bind (parse_primary sub n s) (\<lambda>(base, t). parse_select n base t)"

fun parse_unary :: "sub_parser \<Rightarrow> nat \<Rightarrow> pstate \<Rightarrow> expr parsed" where
  "parse_unary sub 0 s = Inl P_fuel"
| "parse_unary sub (Suc n) s =
    (if p_kind s = T_Minus
     then res_bind (parse_unary sub n (p_adv s)) (\<lambda>(a, t). Inr (E_unary (p_pos s) a, t))
     else parse_postfix sub n s)"

fun parse_binary_loop :: "sub_parser \<Rightarrow> nat \<Rightarrow> nat \<Rightarrow> bool \<Rightarrow> expr \<Rightarrow> pstate \<Rightarrow> expr parsed" where
  "parse_binary_loop sub 0 mn ia left s = Inl P_fuel"
| "parse_binary_loop sub (Suc n) mn ia left s =
    (let k = p_kind s; p = binprec k in
     if p = 0 \<or> (k = T_Comma \<and> ia) \<or> p < mn then Inr (left, s)
     else res_bind (sub (p + 1) ia (p_adv s)) (\<lambda>(right, t).
       parse_binary_loop sub n mn ia (E_binary (p_pos s) k left right) t))"

fun parse_binary :: "nat \<Rightarrow> sub_parser" where
  "parse_binary 0 mn ia s = Inl P_fuel"
| "parse_binary (Suc n) mn ia s =
    res_bind (parse_unary (parse_binary n) n s) (\<lambda>(left, t).
      parse_binary_loop (parse_binary n) n mn ia left t)"

definition parse_expr :: "nat \<Rightarrow> bool \<Rightarrow> pstate \<Rightarrow> expr parsed" where
  "parse_expr n ia s = parse_binary n 1 ia s"

section \<open>Statements\<close>

fun parse_path_loop :: "nat \<Rightarrow> string list \<Rightarrow> pstate \<Rightarrow> string list parsed" where
  "parse_path_loop 0 ps s = Inl P_fuel"
| "parse_path_loop (Suc n) ps s =
    (if p_kind s = T_Dot then
       (let (t, s1) = p_expect T_Ident (''identifier after '' @ quoted ''.'') (p_adv s)
        in parse_path_loop n (ps @ [tk_text t]) s1)
     else Inr (ps, s))"

definition parse_port_path :: "nat \<Rightarrow> pstate \<Rightarrow> port_path parsed" where
  "parse_port_path n s =
    (let p = p_pos s; (t, s1) = p_expect T_Ident ''port path (node.port)'' s
     in res_bind (parse_path_loop n [tk_text t] s1) (\<lambda>(parts, s2).
       Inr (\<lparr>pp_parts = parts, pp_pos = p\<rparr>,
         if length parts < 2 then p_error_at ''modulation target must be node.port'' p s2 else s2)))"

definition parse_input :: "nat \<Rightarrow> pstate \<Rightarrow> stmt parsed" where
  "parse_input n s =
    (let (nm, s1) = p_expect T_Ident ''terminal name'' (p_adv s)
     in res_bind (parse_call_args (parse_binary n) n s1) (\<lambda>(args, t). Inr (S_input (p_pos s) (tk_text nm) args, t)))"

text \<open>Without an index the source stores \<open>-1\<close>.\<close>

definition parse_out :: "nat \<Rightarrow> pstate \<Rightarrow> stmt parsed" where
  "parse_out n s =
    res_bind (if p_kind (p_adv s) = T_LBracket then parse_bracketed (p_adv s) else Inr (- 1, p_adv s)) (\<lambda>(i, s1).
    res_bind (parse_expr n False s1) (\<lambda>(e, s2).
      if p_kind s2 = T_KwAs then
        (let (t, s3) = p_expect T_Ident (''terminal name after '' @ quoted ''as'') (p_adv s2)
         in Inr (S_out (p_pos s) e (tk_text t) i, s3))
      else Inr (S_out (p_pos s) e [] i, s2)))"

definition parse_explicit :: "pos \<Rightarrow> expr \<Rightarrow> pstate \<Rightarrow> stmt parsed" where
  "parse_explicit p e s =
    (let (tn, s1) = p_expect T_Ident ''target node name'' s; s2 = snd (p_expect T_LBracket (quoted ''['') s1)
     in res_bind (parse_index s2) (\<lambda>(i, s3).
       Inr (S_explicit p e (tk_text tn) i, snd (p_expect T_RBracket (quoted '']'') s3))))"

definition parse_statement :: "nat \<Rightarrow> pstate \<Rightarrow> stmt parsed" where
  "parse_statement n s =
    (if p_kind s = T_KwInput then parse_input n s
     else if p_kind s = T_KwOut then parse_out n s
     else if p_kind s = T_Ident \<and> p_peek_kind s = T_Assign then
       res_bind (parse_expr n False (p_adv (p_adv s))) (\<lambda>(v, t). Inr (S_binding (p_pos s) (tk_text (p_cur s)) v, t))
     else
       res_bind (parse_expr n False s) (\<lambda>(e, t).
         if p_kind t = T_Modulate then
           res_bind (parse_port_path n (p_adv t)) (\<lambda>(pp, u). Inr (S_modulate (p_pos s) e pp, u))
         else if p_kind t = T_Arrow then parse_explicit (p_pos s) e (p_adv t)
         else Inr (S_wire (p_pos s) e, t)))"

section \<open>Definitions and programs\<close>

fun parse_params_loop :: "nat \<Rightarrow> rune_param list \<Rightarrow> pstate \<Rightarrow> rune_param list parsed" where
  "parse_params_loop 0 ps s = Inl P_fuel"
| "parse_params_loop (Suc n) ps s =
    (let (nm, s1) = p_expect T_Ident ''parameter name'' s in
     res_bind (if p_kind s1 = T_Assign then res_bind (parse_expr n True (p_adv s1)) (\<lambda>(v, t). Inr (Some v, t))
               else Inr (None, s1)) (\<lambda>(d, t).
       let ps' = ps @ [\<lparr>rp_name = tk_text nm, rp_default = d, rp_pos = (tk_line nm, tk_col nm)\<rparr>] in
       if p_kind t = T_Comma then parse_params_loop n ps' (p_adv t) else Inr (ps', t)))"

definition parse_params :: "nat \<Rightarrow> pstate \<Rightarrow> rune_param list parsed" where
  "parse_params n s =
    (let s1 = snd (p_expect T_LParen (quoted ''('') s) in
     if p_kind s1 = T_RParen then Inr ([], p_adv s1)
     else res_bind (parse_params_loop n [] s1) (\<lambda>(ps, t). Inr (ps, snd (p_expect T_RParen (quoted '')'') t))))"

text \<open>A loop that has consumed nothing consumes one token.\<close>

definition p_progress :: "pstate \<Rightarrow> pstate \<Rightarrow> pstate" where
  "p_progress s0 s = (if length (ps_toks s) = length (ps_toks s0) then p_adv s else s)"

fun parse_body_loop :: "nat \<Rightarrow> stmt list \<Rightarrow> pstate \<Rightarrow> stmt list parsed" where
  "parse_body_loop 0 ss s = Inl P_fuel"
| "parse_body_loop (Suc n) ss s =
    (if p_kind s = T_KwEnd \<or> p_kind s = T_End then Inr (ss, s)
     else res_bind (parse_statement n s) (\<lambda>(st, t).
       let u = (if p_kind t \<notin> {T_Newline, T_KwEnd, T_End}
                then synchronize (p_error ''expected end of line after statement'' t) else t)
       in parse_body_loop n (ss @ [st]) (skip_newlines (p_progress s u))))"

definition parse_def :: "nat \<Rightarrow> pstate \<Rightarrow> rune_def parsed" where
  "parse_def n s =
    (let (nm, s1) = p_expect T_Ident ''definition name'' (p_adv s) in
     res_bind (if p_kind s1 = T_LParen then parse_params n s1 else Inr ([], s1)) (\<lambda>(ps, s2).
     res_bind (parse_body_loop n [] (skip_newlines s2)) (\<lambda>(body, s3).
       Inr (\<lparr>rd_name = tk_text nm, rd_params = ps, rd_body = body, rd_pos = p_pos s\<rparr>,
         snd (p_expect T_KwEnd (quoted ''end'') s3)))))"

fun parse_program_loop :: "nat \<Rightarrow> program \<Rightarrow> pstate \<Rightarrow> program parsed" where
  "parse_program_loop 0 p s = Inl P_fuel"
| "parse_program_loop (Suc n) p s =
    (if p_kind s = T_End then Inr (p, s)
     else
       res_bind
         (if p_kind s = T_KwRune then
            res_bind (parse_def n s) (\<lambda>(d, t). Inr (p\<lparr>pg_runes := pg_runes p @ [d]\<rparr>, t))
          else if p_kind s = T_KwSigil then
            res_bind (parse_def n s) (\<lambda>(d, t). Inr (p\<lparr>pg_sigils := pg_sigils p @ [d]\<rparr>, t))
          else Inr (p, synchronize (p_error (''expected '' @ quoted ''rune'' @ '' or '' @ quoted ''sigil'') s)))
         (\<lambda>(q, t). parse_program_loop n q (skip_newlines (p_progress s t))))"

definition parse_program :: "nat \<Rightarrow> pstate \<Rightarrow> program parsed" where
  "parse_program n s = parse_program_loop n \<lparr>pg_runes = [], pg_sigils = []\<rparr> (skip_newlines s)"

definition parse_fuel :: "token list \<Rightarrow> nat" where
  "parse_fuel ts = length ts + 4"

text \<open>The program and all diagnostics.\<close>

definition parse :: "string \<Rightarrow> (perror, program \<times> diagnostic list) result" where
  "parse src =
    (case lex src [] of (ts, ds) \<Rightarrow>
      res_bind (parse_program (parse_fuel ts) \<lparr>ps_toks = ts, ps_diags = ds\<rparr>) (\<lambda>(p, s). Inr (p, ps_diags s)))"

end
