(* ===== verification/Lexer_Facts.thy ===== *)
theory Lexer_Facts
  imports Lexer
begin

text \<open>
  The token stream of every text: one end marker, newlines only between other tokens, and every token at the
  line and column of the characters it was read from.
\<close>

section \<open>Positions\<close>

definition nl_char :: char where
  "nl_char = CHR 0x0A"

definition line_after :: "string \<Rightarrow> nat" where
  "line_after p = 1 + length (filter (\<lambda>c. c = nl_char) p)"

definition col_after :: "string \<Rightarrow> nat" where
  "col_after p = 1 + length (takeWhile (\<lambda>c. c \<noteq> nl_char) (rev p))"

text \<open>The state has read a prefix of the text.\<close>

definition lx_at :: "string \<Rightarrow> lexer \<Rightarrow> bool" where
  "lx_at src s \<longleftrightarrow> (\<exists>p. src = p @ lx_rest s \<and> lx_line s = line_after p \<and> lx_col s = col_after p)"

lemma lx_at_advance [simp]:
  assumes "lx_at src s"
  shows "lx_at src (lx_advance s)"
proof (cases "lx_rest s")
  case Nil
  then show ?thesis using assms by (simp add: lx_advance_def)
next
  case (Cons c r)
  obtain p where p: "src = p @ lx_rest s" "lx_line s = line_after p" "lx_col s = col_after p"
    using assms by (auto simp: lx_at_def)
  have "src = (p @ [c]) @ r" using p(1) Cons by simp
  then show ?thesis
    unfolding lx_at_def using p Cons
    by (intro exI [of _ "p @ [c]"]) (auto simp: lx_advance_def line_after_def col_after_def nl_char_def)
qed

lemma lx_at_frame [simp]:
  "lx_at src (s\<lparr>lx_depth := d\<rparr>) = lx_at src s"
  "lx_at src (s\<lparr>lx_last := k\<rparr>) = lx_at src s"
  "lx_at src (lx_error m l c s) = lx_at src s"
  by (simp_all add: lx_at_def lx_error_def)

lemma lx_at_while [simp]: "lx_at src s \<Longrightarrow> lx_at src (lx_while P s)"
proof (induction P s rule: lx_while.induct)
  case (1 P s)
  then show ?case by (subst lx_while.simps) auto
qed

lemma lx_at_while_char [simp]: "lx_at src s \<Longrightarrow> lx_at src (lx_while_char P s)"
  by (auto simp: lx_while_char_def)

lemma lx_at_scan_number [simp]: "lx_at src s \<Longrightarrow> lx_at src (lx_scan_number s)"
  by (simp add: lx_scan_number_def Let_def)

lemma lx_at_string_loop: "lx_at src s \<Longrightarrow> lx_at src (snd (lx_string_loop l c acc s))"
proof (induction l c acc s rule: lx_string_loop.induct)
  case (1 l c acc s)
  then show ?case by (subst lx_string_loop.simps) (auto simp: Let_def)
qed

text \<open>A token that stands in the text where it says, with the text of its first characters.\<close>

definition token_at :: "string \<Rightarrow> token \<Rightarrow> bool" where
  "token_at src t \<longleftrightarrow>
    (\<exists>p q. src = p @ q \<and> tk_line t = line_after p \<and> tk_col t = col_after p \<and>
      (tk_kind t \<noteq> T_String \<longrightarrow> take (length (tk_text t)) q = tk_text t) \<and>
      (tk_kind t = T_Number \<longrightarrow> tk_number t = fst (strtod (tk_text t))))"

lemma token_at_made:
  assumes "lx_at src s" and "tk_line t = lx_line s" and "tk_col t = lx_col s"
    and "tk_kind t \<noteq> T_String \<Longrightarrow> take (length (tk_text t)) (lx_rest s) = tk_text t"
    and "tk_kind t = T_Number \<Longrightarrow> tk_number t = fst (strtod (tk_text t))"
  shows "token_at src t"
  using assms by (auto simp: lx_at_def token_at_def)

lemma lx_between_take: "take (length (lx_between s t)) (lx_rest s) = lx_between s t"
  by (simp add: lx_between_def)

lemma token_at_blank:
  assumes "lx_at src s" and "k \<noteq> T_Number"
  shows "token_at src (lx_make k (lx_line s) (lx_col s) [])"
  using assms by (intro token_at_made [OF assms(1)]) (simp_all add: lx_make_def)

lemma keyword_kind: "keyword text \<notin> {T_String, T_Number, T_End, T_Newline}"
  by (simp add: keyword_def)

lemma lx_number_at:
  assumes "lx_at src s"
  shows "token_at src (fst (lx_number (lx_line s) (lx_col s) s))"
  by (rule token_at_made [OF assms]) (simp_all add: lx_number_def lx_make_def Let_def lx_between_take)

lemma lx_ident_at:
  assumes "lx_at src s"
  shows "token_at src (fst (lx_ident (lx_line s) (lx_col s) s))"
  using keyword_kind
  by (intro token_at_made [OF assms]) (auto simp: lx_ident_def lx_make_def Let_def lx_between_take)

lemma lx_string_at:
  assumes "lx_at src s"
  shows "token_at src (fst (lx_string (lx_line s) (lx_col s) s))"
  by (rule token_at_made [OF assms]) (auto simp: lx_string_def lx_make_def split: prod.split)

text \<open>The operators share one shape: a blank token at the start, then a state further on.\<close>

definition scans :: "string \<Rightarrow> token \<times> lexer \<Rightarrow> bool" where
  "scans src r \<longleftrightarrow> token_at src (fst r) \<and> lx_at src (snd r) \<and> tk_kind (fst r) \<notin> {T_End, T_Newline}"

lemma lx_operator_scans:
  assumes "lx_at src s"
  shows "scans src (lx_operator (lx_line s) (lx_col s) s)"
proof -
  have a: "lx_at src (lx_advance s)" "lx_at src (lx_advance (lx_advance s))" using assms by auto
  have t: "token_at src (lx_make k (lx_line s) (lx_col s) [])" if "k \<noteq> T_Number" for k
    using token_at_blank [OF assms that] .
  have k: "tk_kind (lx_make k l c x) = k" for k l c x by (simp add: lx_make_def)
  show ?thesis
    by (auto simp: scans_def lx_operator_def Let_def lx_op1_def lx_op2_def lx_open_def lx_close_def lx_unknown_def t k a)
qed

lemma lx_token_scans:
  assumes "lx_at src s" and "lx_rest s \<noteq> []"
  shows "scans src (lx_token s)"
proof -
  have n: "scans src (lx_number (lx_line s) (lx_col s) s)"
    using lx_number_at [OF assms(1)] lx_at_scan_number [OF assms(1)]
    by (simp add: scans_def lx_number_def lx_make_def Let_def)
  have i: "scans src (lx_ident (lx_line s) (lx_col s) s)"
    using lx_ident_at [OF assms(1)] lx_at_while_char [OF assms(1)] keyword_kind
    by (auto simp: scans_def lx_ident_def lx_make_def Let_def)
  have "lx_at src (snd (lx_string_loop (lx_line s) (lx_col s) [] (lx_advance s)))"
    using assms(1) by (auto intro: lx_at_string_loop)
  then have s: "scans src (lx_string (lx_line s) (lx_col s) s)"
    using lx_string_at [OF assms(1)] by (auto simp: scans_def lx_string_def lx_make_def split: prod.splits)
  show ?thesis
    using assms(2) n i s lx_operator_scans [OF assms(1)] by (simp add: lx_token_def Let_def)
qed

lemma lx_next_at:
  assumes "lx_at src s"
  shows "token_at src (fst (lx_next s)) \<and> lx_at src (snd (lx_next s))"
  using assms
proof (induction s rule: lx_next.induct)
  case (1 s)
  note at = "1.prems"
  have tok: "token_at src (fst (lx_token s)) \<and> lx_at src (snd (lx_token s))"
  proof (cases "lx_rest s = []")
    case True
    then show ?thesis using at token_at_blank [OF at] by (simp add: lx_token_def)
  next
    case False
    then show ?thesis using lx_token_scans [OF at] by (simp add: scans_def)
  qed
  have line: "lx_at src (lx_while in_line_comment s)" using at by (rule lx_at_while)
  have block: "lx_at src (lx_while in_block_comment (lx_advance (lx_advance s)))" using at by auto
  show ?case
    using "1.IH" tok line block at token_at_blank [OF at, of T_Newline] token_at_blank [OF block, of T_End]
    by (subst (1 2) lx_next.simps) (auto simp: Let_def)
qed

section \<open>Shape of the stream\<close>

definition no_double_newline :: "token list \<Rightarrow> bool" where
  "no_double_newline ts \<longleftrightarrow>
    (\<forall>i. Suc i < length ts \<longrightarrow> \<not> (tk_kind (ts ! i) = T_Newline \<and> tk_kind (ts ! Suc i) = T_Newline))"

definition open_stream :: "string \<Rightarrow> token list \<Rightarrow> bool" where
  "open_stream src ts \<longleftrightarrow> no_double_newline ts \<and> (\<forall>t \<in> set ts. tk_kind t \<noteq> T_End \<and> token_at src t) \<and>
    (ts \<noteq> [] \<longrightarrow> tk_kind (hd ts) \<noteq> T_Newline)"

lemma no_double_newline_snoc:
  "no_double_newline (ts @ [t]) \<longleftrightarrow>
    no_double_newline ts \<and> \<not> (ts \<noteq> [] \<and> tk_kind (last ts) = T_Newline \<and> tk_kind t = T_Newline)"
proof (cases ts rule: rev_cases)
  case Nil
  then show ?thesis by (simp add: no_double_newline_def)
next
  case (snoc us u)
  have "(\<forall>i. Suc i < length (ts @ [t]) \<longrightarrow> P i) \<longleftrightarrow> (\<forall>i. Suc i < length ts \<longrightarrow> P i) \<and> P (length us)" for P
    by (auto simp: snoc less_Suc_eq)
  then show ?thesis
    unfolding no_double_newline_def by (auto simp: snoc nth_append)
qed

lemma open_stream_snoc:
  assumes "open_stream src out" and "keep_token out t" and "token_at src t"
  shows "no_double_newline (out @ [t]) \<and> tk_kind (hd (out @ [t])) \<noteq> T_Newline \<and>
    (tk_kind t \<noteq> T_End \<longrightarrow> open_stream src (out @ [t]))"
proof -
  have "no_double_newline (out @ [t])"
    using assms by (auto simp: open_stream_def keep_token_def no_double_newline_snoc)
  then show ?thesis using assms by (cases out) (auto simp: open_stream_def keep_token_def)
qed

text \<open>A closed stream: an open one and the end marker.\<close>

definition closed_stream :: "string \<Rightarrow> token list \<Rightarrow> bool" where
  "closed_stream src ts \<longleftrightarrow> (\<exists>us t. ts = us @ [t] \<and> tk_kind t = T_End \<and> token_at src t \<and> open_stream src us)"

lemma lx_run_stream:
  assumes "lx_at src s" and "open_stream src out"
  shows "closed_stream src (fst (lx_run_from out s))"
  using assms
proof (induction out s rule: lx_run_from.induct)
  case (1 out s)
  obtain t s1 where n: "lx_next s = (t, s1)" by fastforce
  have at: "token_at src t" "lx_at src s1" using lx_next_at [OF "1.prems"(1)] by (simp_all add: n)
  show ?case
  proof (cases "keep_token out t")
    case False
    have "closed_stream src (fst (lx_run_from out s1))" using "1.IH"(1) [OF n [symmetric] False] at(2) "1.prems"(2) .
    then show ?thesis using False by (simp add: lx_run_from.simps [of out s] n)
  next
    case True
    let ?s2 = "if tk_kind t \<noteq> T_Newline then s1\<lparr>lx_last := tk_kind t\<rparr> else s1"
    have s2: "lx_at src ?s2" using at(2) by simp
    show ?thesis
    proof (cases "tk_kind t = T_End")
      case e: True
      then show ?thesis using True at(1) "1.prems"(2)
        by (auto simp: lx_run_from.simps [of out s] n Let_def closed_stream_def)
    next
      case e: False
      have "open_stream src (out @ [t])" using open_stream_snoc [OF "1.prems"(2) True at(1)] e by blast
      then have "closed_stream src (fst (lx_run_from (out @ [t]) ?s2))"
        using "1.IH"(2) [OF n [symmetric] _ refl refl e] True s2 by simp
      then show ?thesis using True e by (simp add: lx_run_from.simps [of out s] n Let_def)
    qed
  qed
qed

lemma lex_closed: "closed_stream src (fst (lex src ds))"
proof -
  have "lx_at src (lexer_init src ds)"
    by (simp add: lx_at_def lexer_init_def line_after_def col_after_def)
  moreover have "open_stream src []" by (simp add: open_stream_def no_double_newline_def)
  ultimately have "closed_stream src (fst (lx_run (lexer_init src ds)))"
    unfolding lx_run_def by (rule lx_run_stream)
  then show ?thesis by (simp add: lex_def case_prod_beta)
qed

section \<open>Properties\<close>

text \<open>C30: The lexer turns every text into a stream that ends with its only end marker, does not start with a
  newline and never has two newlines in a row; each token carries the line and column at which it stands in the
  text, and identifiers, keywords and numbers carry the characters found there.\<close>

theorem lexer_stream:
  "\<exists>ts t. fst (lex src ds) = ts @ [t] \<and> tk_kind t = T_End \<and> token_at src t \<and> open_stream src ts"
  using lex_closed by (auto simp: closed_stream_def)

end
