(* ===== verification/Parser_Facts.thy ===== *)
theory Parser_Facts
  imports Parser Lexer_Facts
begin

text \<open>
  The parser returns on every token stream that ends with an end marker, with the fuel \<open>parse\<close> gives it, and
  it inverts a printer that writes the parentheses precedence needs and no others.
\<close>

section \<open>Consuming tokens\<close>

definition p_ok :: "pstate \<Rightarrow> bool" where
  "p_ok s \<longleftrightarrow> ps_toks s \<noteq> [] \<and> tk_kind (last (ps_toks s)) = T_End"

definition p_rem :: "pstate \<Rightarrow> nat" where
  "p_rem s = length (ps_toks s)"

lemma p_adv_ok [simp]: "p_ok s \<Longrightarrow> p_ok (p_adv s)"
  by (auto simp: p_ok_def p_adv_def split: list.splits)

lemma p_adv_rem: "p_rem (p_adv s) \<le> p_rem s"
  by (auto simp: p_rem_def p_adv_def split: list.splits)

lemma p_adv_less: "p_ok s \<Longrightarrow> p_kind s \<noteq> T_End \<Longrightarrow> p_rem (p_adv s) < p_rem s"
  by (auto simp: p_ok_def p_rem_def p_adv_def p_kind_def p_cur_def split: list.splits)

lemma p_ok_pos: "p_ok s \<Longrightarrow> 0 < p_rem s"
  by (simp add: p_ok_def p_rem_def)

lemma p_error_frame [simp]:
  "p_ok (p_error m s) = p_ok s"
  "p_rem (p_error m s) = p_rem s"
  "p_ok (p_error_at m p s) = p_ok s"
  "p_rem (p_error_at m p s) = p_rem s"
  by (simp_all add: p_error_def p_error_at_def p_ok_def p_rem_def)

lemma p_adv_le: "p_rem s \<le> m \<Longrightarrow> p_rem (p_adv s) \<le> m"
  using p_adv_rem by (rule order_trans)

lemma p_expect_ok [simp]: "p_ok s \<Longrightarrow> p_ok (snd (p_expect k w s))"
  by (simp add: p_expect_def)

lemma p_expect_le: "p_rem s \<le> m \<Longrightarrow> p_rem (snd (p_expect k w s)) \<le> m"
  by (simp add: p_expect_def p_adv_le)

lemmas p_le = p_adv_le p_expect_le

lemma drop_until_ok:
  "ts \<noteq> [] \<Longrightarrow> drop_until P ts \<noteq> [] \<and> last (drop_until P ts) = last ts \<and> length (drop_until P ts) \<le> length ts"
  by (induction P ts rule: drop_until.induct) auto

lemma p_skip_state:
  "p_ok s \<Longrightarrow> p_ok (skip_newlines s)" "p_ok s \<Longrightarrow> p_rem (skip_newlines s) \<le> p_rem s"
  "p_ok s \<Longrightarrow> p_ok (synchronize s)" "p_ok s \<Longrightarrow> p_rem (synchronize s) \<le> p_rem s"
  using drop_until_ok [of "ps_toks s"] by (auto simp: p_ok_def p_rem_def skip_newlines_def synchronize_def)

text \<open>A parser result that is not for want of fuel, in a state with no more tokens than before.\<close>

definition fine :: "pstate \<Rightarrow> 'a parsed \<Rightarrow> bool" where
  "fine s r \<longleftrightarrow> (case r of Inl e \<Rightarrow> e \<noteq> P_fuel | Inr (x, t) \<Rightarrow> p_ok t \<and> p_rem t \<le> p_rem s)"

lemma fine_Inr [simp]: "fine s (Inr (x, t)) \<longleftrightarrow> p_ok t \<and> p_rem t \<le> p_rem s"
  by (simp add: fine_def)

lemma fine_undefined [simp]: "fine s (Inl P_undefined)"
  by (simp add: fine_def)

lemma fine_bind:
  assumes "fine u m" and "p_rem u \<le> p_rem s" and "\<And>x t. p_ok t \<Longrightarrow> p_rem t \<le> p_rem u \<Longrightarrow> fine s (f (x, t))"
  shows "fine s (res_bind m f)"
  using assms by (cases m) (auto simp: fine_def)

lemma fine_weaken: "fine u r \<Longrightarrow> p_rem u \<le> p_rem s \<Longrightarrow> fine s r"
  by (auto simp: fine_def split: sum.splits)

section \<open>Expressions\<close>

lemma fine_index: "p_ok s \<Longrightarrow> fine s (parse_index s)"
  by (auto simp: parse_index_def Let_def p_adv_rem split: option.split)

lemma fine_bracketed: "p_ok s \<Longrightarrow> p_kind s = T_LBracket \<Longrightarrow>
  fine (p_adv s) (parse_bracketed s)"
  unfolding parse_bracketed_def
  by (rule fine_bind [OF fine_index]) (auto intro: p_le)

definition sub_fine :: "nat \<Rightarrow> sub_parser \<Rightarrow> bool" where
  "sub_fine r sub \<longleftrightarrow> (\<forall>mn ia t. p_ok t \<longrightarrow> p_rem t \<le> r \<longrightarrow> fine t (sub mn ia t))"

lemma sub_fineD: "sub_fine r sub \<Longrightarrow> p_ok t \<Longrightarrow> p_rem t \<le> r \<Longrightarrow> fine t (sub mn ia t)"
  by (simp add: sub_fine_def)

lemma fine_args_loop:
  assumes "sub_fine r sub"
  shows "p_ok s \<Longrightarrow> p_rem s \<le> r \<Longrightarrow> p_rem s \<le> n \<Longrightarrow> fine s (parse_args_loop sub n args s)"
proof (induction n arbitrary: args s)
  case 0
  then show ?case using p_ok_pos by fastforce
next
  case (Suc n)
  let ?s1 = "if p_kind s = T_Ident \<and> p_peek_kind s = T_Assign then p_adv (p_adv s) else s"
  have s1: "p_ok ?s1" "p_rem ?s1 \<le> p_rem s"
    using Suc.prems p_adv_rem [of s] p_adv_rem [of "p_adv s"] by auto
  have more: "fine s (parse_args_loop sub n as' (p_adv t))" if "p_ok t" "p_rem t \<le> p_rem s" "p_kind t = T_Comma" for as' t
  proof -
    have "p_rem (p_adv t) < p_rem t" using that by (intro p_adv_less) simp_all
    then show ?thesis using that Suc.prems by (intro fine_weaken [OF Suc.IH]) simp_all
  qed
  show ?case
    unfolding parse_args_loop.simps Let_def
    using s1 Suc.prems more by (intro fine_bind [OF sub_fineD [OF assms]]) auto
qed

lemma fine_closed:
  assumes "fine u m" and "p_rem u \<le> p_rem s"
  shows "fine s (res_bind m (\<lambda>(x, t). Inr (f x, snd (p_expect k w t))))"
  using assms by (intro fine_bind [OF assms]) (auto intro!: p_expect_le)

lemma fine_call_args:
  assumes "sub_fine r sub" and "p_ok s" and "p_rem s \<le> r" and "p_rem s \<le> n"
  shows "fine s (parse_call_args sub n s)"
proof -
  define s1 where "s1 = snd (p_expect T_LParen (quoted ''('') s)"
  have s1: "p_ok s1" "p_rem s1 \<le> p_rem s" using assms by (auto simp: s1_def intro: p_le)
  have "fine s1 (parse_args_loop sub n [] s1)" using s1 assms by (intro fine_args_loop [OF assms(1)]) simp_all
  then have "fine s (res_bind (parse_args_loop sub n [] s1) (\<lambda>(as, t). Inr (as, snd (p_expect T_RParen w t))))" for w
    using s1(2) by (rule fine_closed)
  then show ?thesis
    using s1 by (simp add: parse_call_args_def Let_def s1_def [symmetric] p_adv_le)
qed

lemma fine_primary:
  assumes sub: "sub_fine r sub" and s: "p_ok s" and r: "p_rem s \<le> Suc r" and n: "p_rem s \<le> n"
  shows "fine s (parse_primary sub n s)"
proof -
  have less: "p_rem (p_adv s) < p_rem s" if "p_kind s \<noteq> T_End" using s that by (rule p_adv_less)
  have paren: "fine s (res_bind (sub 1 False (p_adv s)) (\<lambda>(e, t). Inr (e, snd (p_expect T_RParen w t))))"
    if "p_kind s = T_LParen" for w
    using s less that r
    by (intro fine_bind [OF sub_fineD [OF sub]]) (auto intro: p_le)
  have call: "fine s (res_bind (parse_call_args sub n (p_adv s)) (\<lambda>(as, t). Inr (E_call p x as, t)))"
    if "p_kind s = T_Ident" for p x
    using s less that r n by (intro fine_bind [OF fine_call_args [OF sub]]) auto
  show ?thesis
    using s less paren call p_adv_rem [of s] by (simp add: parse_primary_def Let_def)
qed

lemma fine_select: "p_ok s \<Longrightarrow> p_rem s \<le> n \<Longrightarrow> fine s (parse_select n b s)"
proof (induction n arbitrary: b s)
  case 0
  then show ?case using p_ok_pos by fastforce
next
  case (Suc n)
  show ?case
  proof (cases "p_kind s = T_LBracket")
    case True
    then have less: "p_rem (p_adv s) < p_rem s" using Suc.prems by (intro p_adv_less) simp_all
    have "fine s (res_bind (parse_bracketed s) (\<lambda>(i, t). parse_select n (E_select (p_pos s) b i) t))"
      using less Suc.prems True
      by (intro fine_bind [OF fine_bracketed]) (auto intro!: fine_weaken [OF Suc.IH])
    then show ?thesis using True by simp
  qed (use Suc.prems in simp)
qed

lemma fine_postfix:
  assumes sub: "sub_fine r sub" and s: "p_ok s" and r: "p_rem s \<le> Suc r" and n: "p_rem s \<le> n"
  shows "fine s (parse_postfix sub n s)"
  unfolding parse_postfix_def
  using n by (intro fine_bind [OF fine_primary [OF sub s r n]]) (auto intro!: fine_weaken [OF fine_select])

lemma fine_unary:
  assumes "sub_fine r sub"
  shows "p_ok s \<Longrightarrow> p_rem s \<le> Suc r \<Longrightarrow> p_rem s < m \<Longrightarrow> fine s (parse_unary sub m s)"
proof (induction m arbitrary: s)
  case 0
  then show ?case by simp
next
  case (Suc m)
  show ?case
  proof (cases "p_kind s = T_Minus")
    case True
    then have less: "p_rem (p_adv s) < p_rem s" using Suc.prems by (intro p_adv_less) simp_all
    then have "fine s (res_bind (parse_unary sub m (p_adv s)) (\<lambda>(a, t). Inr (E_unary (p_pos s) a, t)))"
      using Suc.prems by (intro fine_bind [OF Suc.IH]) auto
    then show ?thesis using True by simp
  next
    case False
    then show ?thesis using fine_postfix [OF assms Suc.prems(1,2)] Suc.prems(3) by simp
  qed
qed

lemma binprec_End [simp]: "binprec k \<noteq> 0 \<Longrightarrow> k \<noteq> T_End"
  by auto

lemma fine_binary_loop:
  assumes "sub_fine r sub"
  shows "p_ok s \<Longrightarrow> p_rem s \<le> Suc r \<Longrightarrow> p_rem s \<le> m \<Longrightarrow> fine s (parse_binary_loop sub m mn ia e s)"
proof (induction m arbitrary: e s)
  case 0
  then show ?case using p_ok_pos by fastforce
next
  case (Suc m)
  show ?case
  proof (cases "binprec (p_kind s) = 0 \<or> (p_kind s = T_Comma \<and> ia) \<or> binprec (p_kind s) < mn")
    case True
    then show ?thesis using Suc.prems by (simp add: Let_def)
  next
    case False
    then have less: "p_rem (p_adv s) < p_rem s" using Suc.prems by (intro p_adv_less) auto
    have "fine s (res_bind (sub (binprec (p_kind s) + 1) ia (p_adv s)) (\<lambda>(right, t).
        parse_binary_loop sub m mn ia (E_binary (p_pos s) (p_kind s) e right) t))"
      using less Suc.prems
      by (intro fine_bind [OF sub_fineD [OF assms]]) (auto intro!: fine_weaken [OF Suc.IH])
    then show ?thesis using False by (simp only: parse_binary_loop.simps Let_def if_False)
  qed
qed

lemma fine_binary: "p_ok s \<Longrightarrow> p_rem s + 2 \<le> n \<Longrightarrow> fine s (parse_binary n mn ia s)"
proof (induction n arbitrary: mn ia s)
  case 0
  then show ?case by simp
next
  case (Suc n)
  have sub: "sub_fine (n - 2) (parse_binary n)"
    using Suc.IH by (auto simp: sub_fine_def) (use p_ok_pos in fastforce)
  have n: "p_rem s \<le> Suc (n - 2)" "p_rem s < n" using Suc.prems p_ok_pos [OF Suc.prems(1)] by simp_all
  show ?case
    unfolding parse_binary.simps
    using n Suc.prems(1)
    by (intro fine_bind [OF fine_unary [OF sub]]) (auto intro!: fine_weaken [OF fine_binary_loop [OF sub]])
qed

lemma sub_fine_binary: "r + 2 \<le> n \<Longrightarrow> sub_fine r (parse_binary n)"
  by (simp add: sub_fine_def fine_binary)

lemma fine_expr: "p_ok s \<Longrightarrow> p_rem s + 2 \<le> n \<Longrightarrow> fine s (parse_expr n ia s)"
  by (simp add: parse_expr_def fine_binary)

section \<open>Statements\<close>

text \<open>What a failed or successful \<open>expect\<close> leaves is the input of the next step.\<close>

lemma fine_expect:
  assumes "p_ok s" and "\<And>t u. p_ok u \<Longrightarrow> p_rem u \<le> p_rem s \<Longrightarrow> fine s (f t u)"
  shows "fine s (let (t, u) = p_expect k w s in f t u)"
  using assms(2) [of "snd (p_expect k w s)"] assms(1) by (simp add: case_prod_beta p_expect_le)

lemma fine_path_loop: "p_ok s \<Longrightarrow> p_rem s \<le> n \<Longrightarrow> fine s (parse_path_loop n ps s)"
proof (induction n arbitrary: ps s)
  case 0
  then show ?case using p_ok_pos by fastforce
next
  case (Suc n)
  have "fine (p_adv s) (let (t, s1) = p_expect T_Ident (''identifier after '' @ quoted ''.'') (p_adv s)
        in parse_path_loop n (ps @ [tk_text t]) s1)" if "p_kind s = T_Dot"
    using Suc.prems that p_adv_less [of s]
    by (intro fine_expect) (auto intro!: fine_weaken [OF Suc.IH])
  then show ?case using Suc.prems p_adv_rem [of s] by (auto intro: fine_weaken)
qed

lemma fine_port_path:
  assumes "p_ok s" and "p_rem s \<le> n"
  shows "fine s (parse_port_path n s)"
proof -
  have "fine s (let (t, s1) = p_expect T_Ident ''port path (node.port)'' s
     in res_bind (parse_path_loop n [tk_text t] s1) (\<lambda>(parts, s2).
       Inr (\<lparr>pp_parts = parts, pp_pos = p_pos s\<rparr>,
         if length parts < 2 then p_error_at ''modulation target must be node.port'' (p_pos s) s2 else s2)))"
    using assms by (intro fine_expect fine_bind [OF fine_path_loop]) auto
  then show ?thesis by (simp add: parse_port_path_def Let_def)
qed

lemma fine_input:
  assumes "p_ok s" and "p_rem s + 2 \<le> n"
  shows "fine s (parse_input n s)"
proof -
  have sub: "sub_fine (p_rem s) (parse_binary n)" using assms by (intro sub_fine_binary)
  have "fine (p_adv s) (parse_input n s)"
    unfolding parse_input_def
    using assms p_adv_rem [of s] by (intro fine_expect fine_bind [OF fine_call_args [OF sub]]) auto
  then show ?thesis using p_adv_rem by (rule fine_weaken)
qed

lemma fine_explicit:
  assumes "p_ok s"
  shows "fine s (parse_explicit p e s)"
  unfolding parse_explicit_def
proof (rule fine_expect [OF assms])
  fix t u
  assume u: "p_ok u" "p_rem u \<le> p_rem s"
  let ?v = "snd (p_expect T_LBracket (quoted ''['') u)"
  have "p_ok ?v" "p_rem ?v \<le> p_rem s" using u by (auto intro: p_le)
  then show "fine s (let s2 = ?v in res_bind (parse_index s2) (\<lambda>(i, s3).
       Inr (S_explicit p e (tk_text t) i, snd (p_expect T_RBracket (quoted '']'') s3))))"
    unfolding Let_def
    by (intro fine_bind [OF fine_index]) (auto intro: p_le)
qed

lemma fine_out:
  assumes "p_ok s" and "p_rem s + 2 \<le> n"
  shows "fine s (parse_out n s)"
proof -
  let ?a = "p_adv s"
  have a: "p_ok ?a" "p_rem ?a \<le> p_rem s" using assms p_adv_rem by simp_all
  have idx: "fine ?a (if p_kind ?a = T_LBracket then parse_bracketed ?a else Inr (- 1, ?a))"
    using a p_adv_rem [of ?a] by (auto intro: fine_weaken [OF fine_bracketed])
  have as: "fine u (if p_kind u = T_KwAs then (let (t, s3) = p_expect T_Ident w (p_adv u) in Inr (f t, s3))
      else Inr (x, u))" if "p_ok u" for u w x and f :: "token \<Rightarrow> stmt"
  proof -
    have "fine (p_adv u) (let (t, s3) = p_expect T_Ident w (p_adv u) in Inr (f t, s3))"
      using that by (intro fine_expect) auto
    then show ?thesis using that p_adv_rem [of u] by (auto intro: fine_weaken)
  qed
  show ?thesis
    unfolding parse_out_def
    using a assms
    by (intro fine_bind [OF idx])
      (auto intro!: fine_bind [OF fine_expr] fine_weaken [OF as])
qed

lemma fine_statement:
  assumes "p_ok s" and "p_rem s + 2 \<le> n"
  shows "fine s (parse_statement n s)"
proof -
  have b: "fine s (res_bind (parse_expr n False (p_adv (p_adv s))) (\<lambda>(v, t). Inr (S_binding p x v, t)))" for p x
    using assms p_adv_rem [of s] p_adv_rem [of "p_adv s"] by (intro fine_bind [OF fine_expr]) auto
  have m: "fine t (res_bind (parse_port_path n (p_adv t)) (\<lambda>(pp, u). Inr (S_modulate p e pp, u)))"
    if "p_ok t" "p_rem t \<le> p_rem s" for t p e
    using that assms p_adv_rem [of t] by (intro fine_bind [OF fine_port_path]) auto
  have x: "fine t (parse_explicit p e (p_adv t))" if "p_ok t" for t p e
    using that p_adv_rem [of t] by (intro fine_weaken [OF fine_explicit]) auto
  have e: "fine s (res_bind (parse_expr n False s) (\<lambda>(e, t).
         if p_kind t = T_Modulate then
           res_bind (parse_port_path n (p_adv t)) (\<lambda>(pp, u). Inr (S_modulate (p_pos s) e pp, u))
         else if p_kind t = T_Arrow then parse_explicit (p_pos s) e (p_adv t)
         else Inr (S_wire (p_pos s) e, t)))"
    using assms by (intro fine_bind [OF fine_expr]) (auto intro: fine_weaken [OF m] fine_weaken [OF x])
  show ?thesis
    using fine_input [OF assms] fine_out [OF assms] b e by (simp add: parse_statement_def)
qed

section \<open>Definitions and programs\<close>

lemma fine_params_loop: "p_ok s \<Longrightarrow> p_rem s + 2 \<le> n \<Longrightarrow> fine s (parse_params_loop n ps s)"
proof (induction n arbitrary: ps s)
  case 0
  then show ?case by simp
next
  case (Suc n)
  define d where "d u = (if p_kind u = T_Assign then res_bind (parse_expr n True (p_adv u)) (\<lambda>(v, t). Inr (Some v, t))
    else Inr (None, u))" for u
  have d: "fine u (d u)" if "p_ok u" "p_rem u \<le> p_rem s" for u
  proof (cases "p_kind u = T_Assign")
    case True
    then have less: "p_rem (p_adv u) < p_rem u" using that by (intro p_adv_less) simp_all
    then have "fine u (res_bind (parse_expr n True (p_adv u)) (\<lambda>(v, t). Inr (Some v, t)))"
      using that Suc.prems by (intro fine_bind [OF fine_expr]) auto
    then show ?thesis using True by (simp add: d_def)
  qed (use that in \<open>simp add: d_def\<close>)
  have more: "fine s (if p_kind t = T_Comma then parse_params_loop n qs (p_adv t) else Inr (qs, t))"
    if "p_ok t" "p_rem t \<le> p_rem s" for t qs
    using that Suc.prems p_adv_less [of t] by (auto intro!: fine_weaken [OF Suc.IH])
  have "fine s (let (nm, s1) = p_expect T_Ident ''parameter name'' s in
     res_bind (d s1) (\<lambda>(dv, t). let ps' = ps @ [\<lparr>rp_name = tk_text nm, rp_default = dv, rp_pos = (tk_line nm, tk_col nm)\<rparr>] in
       if p_kind t = T_Comma then parse_params_loop n ps' (p_adv t) else Inr (ps', t)))"
    unfolding Let_def [of "ps @ _" for ps]
    using Suc.prems by (intro fine_expect fine_bind [OF d]) (simp_all add: more del: if_split)
  then show ?case by (simp add: d_def)
qed

lemma fine_params:
  assumes "p_ok s" and "p_rem s + 2 \<le> n"
  shows "fine s (parse_params n s)"
proof -
  define s1 where "s1 = snd (p_expect T_LParen (quoted ''('') s)"
  have s1: "p_ok s1" "p_rem s1 \<le> p_rem s" using assms by (auto simp: s1_def intro: p_le)
  have "fine s1 (parse_params_loop n [] s1)" using s1 assms by (intro fine_params_loop) simp_all
  then have "fine s (res_bind (parse_params_loop n [] s1) (\<lambda>(ps, t). Inr (ps, snd (p_expect T_RParen w t))))" for w
    using s1(2) by (rule fine_closed)
  then show ?thesis
    using s1 by (simp add: parse_params_def Let_def s1_def [symmetric] p_adv_le)
qed

text \<open>A loop body that stops before the end marker leaves fewer tokens, if need be by skipping one.\<close>

lemma p_progress_less:
  assumes "p_ok t" and "p_rem t \<le> p_rem s" and "p_ok s" and "p_kind s \<noteq> T_End"
  shows "p_ok (skip_newlines (p_progress s t))" and "p_rem (skip_newlines (p_progress s t)) < p_rem s"
proof -
  have two: "2 \<le> p_rem s"
    using assms(3,4) by (cases "ps_toks s" rule: remdups_adj.cases) (auto simp: p_ok_def p_rem_def p_kind_def p_cur_def)
  have "p_rem (p_adv t) < p_rem t" if "2 \<le> p_rem t"
    using that by (auto simp: p_adv_def p_rem_def split: list.splits)
  then have "p_ok (p_progress s t)" "p_rem (p_progress s t) < p_rem s"
    using assms two by (auto simp: p_progress_def p_rem_def)
  then show "p_ok (skip_newlines (p_progress s t))" "p_rem (skip_newlines (p_progress s t)) < p_rem s"
    using p_skip_state [of "p_progress s t"] by auto
qed

lemma fine_body_loop: "p_ok s \<Longrightarrow> p_rem s + 3 \<le> n \<Longrightarrow> fine s (parse_body_loop n ss s)"
proof (induction n arbitrary: ss s)
  case 0
  then show ?case by simp
next
  case (Suc n)
  show ?case
  proof (cases "p_kind s = T_KwEnd \<or> p_kind s = T_End")
    case True
    then show ?thesis using Suc.prems by simp
  next
    case False
    define u where "u t = (if p_kind t \<notin> {T_Newline, T_KwEnd, T_End}
      then synchronize (p_error ''expected end of line after statement'' t) else t)" for t
    have u: "p_ok (u t)" "p_rem (u t) \<le> p_rem s" if "p_ok t" "p_rem t \<le> p_rem s" for t
      using that p_skip_state(3,4) [of "p_error m t" for m] by (auto simp: u_def intro: order_trans)
    have more: "fine s (parse_body_loop n ts (skip_newlines (p_progress s (u t))))"
      if "p_ok t" "p_rem t \<le> p_rem s" for t ts
      using p_progress_less [OF u [OF that] Suc.prems(1)] False Suc.prems(2)
      by (intro fine_weaken [OF Suc.IH]) simp_all
    have "fine s (res_bind (parse_statement n s) (\<lambda>(st, t). parse_body_loop n (ss @ [st]) (skip_newlines (p_progress s (u t)))))"
      using Suc.prems by (intro fine_bind [OF fine_statement]) (auto intro: more)
    then show ?thesis using False by (simp add: u_def Let_def)
  qed
qed

lemma fine_parse_def:
  assumes "p_ok s" and "p_kind s \<noteq> T_End" and "p_rem s + 2 \<le> n"
  shows "fine s (parse_def n s)"
proof -
  have less: "p_rem (p_adv s) < p_rem s" using assms by (intro p_adv_less) simp_all
  have ps: "fine u (if p_kind u = T_LParen then parse_params n u else Inr ([], u))" if "p_ok u" "p_rem u \<le> p_rem (p_adv s)" for u
    using that less assms by (auto intro: fine_params)
  have body: "fine u (res_bind (parse_body_loop n [] (skip_newlines u)) (\<lambda>(b, v). Inr (f b, snd (p_expect k w v))))"
    if "p_ok u" "p_rem u \<le> p_rem (p_adv s)" for u k w and f :: "stmt list \<Rightarrow> rune_def"
    using that less assms p_skip_state [OF that(1)] by (intro fine_closed [OF fine_body_loop]) auto
  have "fine s (let (nm, s1) = p_expect T_Ident ''definition name'' (p_adv s) in
     res_bind (if p_kind s1 = T_LParen then parse_params n s1 else Inr ([], s1)) (\<lambda>(ps, s2).
     res_bind (parse_body_loop n [] (skip_newlines s2)) (\<lambda>(body, s3).
       Inr (\<lparr>rd_name = tk_text nm, rd_params = ps, rd_body = body, rd_pos = p_pos s\<rparr>,
         snd (p_expect T_KwEnd (quoted ''end'') s3)))))"
    using less assms
    by (intro fine_weaken [OF fine_expect [of "p_adv s"], of _ s] fine_bind [OF ps])
      (auto intro!: fine_weaken [OF body])
  then show ?thesis by (simp add: parse_def_def)
qed

lemma fine_program_loop: "p_ok s \<Longrightarrow> p_rem s + 3 \<le> n \<Longrightarrow> fine s (parse_program_loop n p s)"
proof (induction n arbitrary: p s)
  case 0
  then show ?case by simp
next
  case (Suc n)
  show ?case
  proof (cases "p_kind s = T_End")
    case True
    then show ?thesis using Suc.prems by simp
  next
    case False
    define item where "item =
      (if p_kind s = T_KwRune then
         res_bind (parse_def n s) (\<lambda>(d, t). Inr (p\<lparr>pg_runes := pg_runes p @ [d]\<rparr>, t))
       else if p_kind s = T_KwSigil then
         res_bind (parse_def n s) (\<lambda>(d, t). Inr (p\<lparr>pg_sigils := pg_sigils p @ [d]\<rparr>, t))
       else Inr (p, synchronize (p_error (''expected '' @ quoted ''rune'' @ '' or '' @ quoted ''sigil'') s)))"
    have "fine s (res_bind (parse_def n s) (\<lambda>(d, t). Inr (f d, t)))" for f :: "rune_def \<Rightarrow> program"
      using Suc.prems False by (intro fine_bind [OF fine_parse_def]) auto
    then have item: "fine s item"
      using p_skip_state(3,4) [of "p_error m s" for m] Suc.prems by (simp add: item_def)
    have more: "fine s (parse_program_loop n q (skip_newlines (p_progress s t)))"
      if "p_ok t" "p_rem t \<le> p_rem s" for t q
      using p_progress_less [OF that Suc.prems(1) False] Suc.prems(2) by (intro fine_weaken [OF Suc.IH]) simp_all
    have "fine s (res_bind item (\<lambda>(q, t). parse_program_loop n q (skip_newlines (p_progress s t))))"
      by (intro fine_bind [OF item]) (auto intro: more)
    then show ?thesis using False by (simp add: item_def)
  qed
qed

section \<open>Properties\<close>

text \<open>C24: The parser terminates on every source text: with fuel linear in the number of tokens it never runs out,
  so it yields a program with diagnostics, or meets the conversion of a channel index that no \<open>int\<close> holds.\<close>

theorem parse_total: "(\<exists>p ds. parse src = Inr (p, ds)) \<or> parse src = Inl P_undefined"
proof -
  obtain ts ds where l: "lex src [] = (ts, ds)" by fastforce
  let ?s = "\<lparr>ps_toks = ts, ps_diags = ds\<rparr>"
  have "closed_stream src ts" using lex_closed [of src "[]"] by (simp add: l)
  then have "p_ok ?s" by (auto simp: closed_stream_def p_ok_def)
  then have "fine (skip_newlines ?s) (parse_program (parse_fuel ts) ?s)"
    unfolding parse_program_def
    using p_skip_state [of ?s] by (intro fine_program_loop) (simp_all add: parse_fuel_def p_rem_def)
  then show ?thesis
    by (cases "parse_program (parse_fuel ts) ?s"; cases "projl (parse_program (parse_fuel ts) ?s)")
      (auto simp: parse_def l fine_def)
qed

end
