(* ===== verification/Lower.thy ===== *)
theory Lower
  imports Parser Registry Blueprint "HOL-Library.Word"
begin

unbundle bit_operations_syntax

text \<open>
  The lowering of a parsed program to blueprints: \<open>include/xrune/lang/lower.hpp\<close>.  The member variables of
  the source's \<open>lowerer\<close> that change are the state; the registry and the sigil table are the argument \<open>L\<close>.
  A step fails with the diagnostic that aborts the rune, with an exception that leaves the lowering (a node
  factory called outside the source's \<open>try\<close>, or a null node that is dereferenced), or for want of fuel.  Fuel
  bounds the nesting of expressions and sigil calls: \<open>eval_expr\<close> hands its evaluator for nested expressions to
  the other functions as the argument \<open>ev\<close>.
\<close>

section \<open>Fragments and state\<close>

record chan =
  ch_node :: nat
  ch_ch :: nat

record fragment =
  fr_ins :: "chan list"
  fr_outs :: "chan list"

datatype lvalue = V_num f64 | V_block fragment

type_synonym env = "string \<rightharpoonup> lvalue"

record out_acc =
  oa_by_index :: "(nat \<times> chan) list"
  oa_pos :: pos

record lower_ctx =
  lc_reg :: node_registry
  lc_sigils :: "string \<rightharpoonup> sigil_def"

record lowerer =
  lo_bp :: graph_blueprint
  lo_prefix :: string
  lo_counters :: "string \<Rightarrow> nat"
  lo_rune_params :: "string set"
  lo_uses :: "string \<Rightarrow> nat"
  lo_direct_uses :: "string \<Rightarrow> nat"
  lo_out_terminals :: "string \<rightharpoonup> out_acc"
  lo_out_order :: "string list"

datatype lower_error = L_diag diagnostic | L_exn exn | L_fuel

type_synonym 'a lowering = "(lowerer, lower_error, 'a) sfun"

type_synonym evaluator = "expr \<Rightarrow> env \<Rightarrow> string \<Rightarrow> lvalue lowering"

definition chan_at :: "nat \<Rightarrow> nat \<Rightarrow> chan" where
  "chan_at n c = \<lparr>ch_node = n, ch_ch = c\<rparr>"

text \<open>A conversion of \<open>int\<close> to \<open>size_t\<close>.\<close>

definition size_of_int :: "int \<Rightarrow> nat" where
  "size_of_int i = nat (i mod 2 ^ 64)"

primrec smap :: "('a \<Rightarrow> ('s, 'e, 'b) sfun) \<Rightarrow> 'a list \<Rightarrow> ('s, 'e, 'b list) sfun" where
  "smap f [] = sret []"
| "smap f (x # xs) = sbind (f x) (\<lambda>y. sbind (smap f xs) (\<lambda>ys. sret (y # ys)))"

definition fail :: "pos \<Rightarrow> string \<Rightarrow> 'a lowering" where
  "fail p m = sfail (L_diag (diag m (fst p) (snd p)))"

definition fail_if :: "bool \<Rightarrow> pos \<Rightarrow> string \<Rightarrow> unit lowering" where
  "fail_if b p m = (if b then fail p m else sret ())"

definition qualify :: "lowerer \<Rightarrow> string \<Rightarrow> string" where
  "qualify s n = (if lo_prefix s = [] then n else lo_prefix s @ ''.'' @ n)"

definition gen :: "string \<Rightarrow> string lowering" where
  "gen type = (\<lambda>s.
    let k = lo_counters s (lo_prefix s) + 1;
        t = s\<lparr>lo_counters := (lo_counters s)(lo_prefix s := k)\<rparr>
    in Inr (qualify t (type @ ''#'' @ show_nat k), t))"

definition add :: "node \<Rightarrow> string \<Rightarrow> nat lowering" where
  "add n name = (\<lambda>s. Inr (length (g_nodes (lo_bp s)), s\<lparr>lo_bp := snd (add_named (lo_bp s) name n)\<rparr>))"

definition node_frag :: "nat \<Rightarrow> node \<Rightarrow> fragment" where
  "node_frag idx n =
    \<lparr>fr_ins = map (chan_at idx) [0..<inputs_count n], fr_outs = map (chan_at idx) [0..<outputs_count n]\<rparr>"

definition node_fragment :: "nat \<Rightarrow> fragment lowering" where
  "node_fragment idx = (\<lambda>s. Inr (node_frag idx (g_nodes (lo_bp s) ! idx), s))"

definition wire :: "chan \<Rightarrow> chan \<Rightarrow> pos \<Rightarrow> unit lowering" where
  "wire out inp p = (\<lambda>s.
    let r = connect (lo_bp s) \<lparr>bc_src_node = ch_node out, bc_src_output = ch_ch out,
          bc_dst_node = ch_node inp, bc_dst_input = ch_ch inp\<rparr>
    in if fst r then Inr ((), s\<lparr>lo_bp := snd r\<rparr>)
       else fail p ''connection rejected: input already driven or channel out of range'' s)"

section \<open>Node makers\<close>

text \<open>A node of the registry outside the \<open>try\<close>: a null node is dereferenced later.\<close>

definition reg_node :: "lower_ctx \<Rightarrow> string \<Rightarrow> node_args \<Rightarrow> node lowering" where
  "reg_node L type args =
    (case reg_make (lc_reg L) type args of
      Inl e \<Rightarrow> sfail (L_exn e)
    | Inr None \<Rightarrow> sfail (L_exn Exn_undefined)
    | Inr (Some n) \<Rightarrow> sret n)"

definition make_node :: "lower_ctx \<Rightarrow> string \<Rightarrow> node_args \<Rightarrow> string \<Rightarrow> nat lowering" where
  "make_node L type args label =
    sbind (reg_node L type args) (\<lambda>n. sbind (gen label) (\<lambda>name. add n name))"

definition named :: "string \<Rightarrow> f64 \<Rightarrow> node_args" where
  "named k v = \<lparr>na_named = [(k, A_number v)], na_positional = []\<rparr>"

definition one_one :: node_args where
  "one_one = \<lparr>na_named = [(''inputs'', A_number (f64_of_int 1)), (''outputs'', A_number (f64_of_int 1))],
     na_positional = []\<rparr>"

definition make_wire :: "lower_ctx \<Rightarrow> nat lowering" where
  "make_wire L = make_node L ''adapt'' one_one ''wire''"

definition make_cut :: "lower_ctx \<Rightarrow> nat lowering" where
  "make_cut L = make_node L ''cut'' no_args ''cut''"

definition make_const :: "lower_ctx \<Rightarrow> f64 \<Rightarrow> nat lowering" where
  "make_const L v = make_node L ''constant'' (named ''value'' v) ''const''"

definition make_gain :: "lower_ctx \<Rightarrow> f64 \<Rightarrow> nat lowering" where
  "make_gain L v = make_node L ''gain'' (named ''gain'' v) ''gain''"

definition make_op :: "lower_ctx \<Rightarrow> string \<Rightarrow> nat lowering" where
  "make_op L type = make_node L type no_args type"

section \<open>Signal arithmetic\<close>

text \<open>A port joins the targets of the rune parameter at an index.\<close>

definition add_target :: "nat \<Rightarrow> nat \<Rightarrow> nat \<Rightarrow> string \<Rightarrow> unit lowering" where
  "add_target i nd port name = (\<lambda>s.
    let ps = g_params (lo_bp s); p = ps ! i;
        p' = p\<lparr>bpp_targets := bpp_targets p @ [\<lparr>pt_node = nd, pt_port = port\<rparr>]\<rparr>
    in Inr ((), s\<lparr>lo_bp := (lo_bp s)\<lparr>g_params := ps[i := p']\<rparr>,
         lo_direct_uses := (lo_direct_uses s)(name := lo_direct_uses s name + 1)\<rparr>))"

text \<open>The rune parameter that a scale factor names, if it is one.\<close>

definition bindable :: "lowerer \<Rightarrow> expr option \<Rightarrow> (nat \<times> string) option" where
  "bindable s scalar =
    (case scalar of
      Some (E_ident p x) \<Rightarrow>
        if x \<in> lo_rune_params s then map_option (\<lambda>i. (i, x)) (find_rune_param (lo_bp s) x) else None
    | _ \<Rightarrow> None)"

definition scale_chan :: "lower_ctx \<Rightarrow> f64 \<Rightarrow> pos \<Rightarrow> (nat \<times> string) option \<Rightarrow> chan \<Rightarrow> chan lowering" where
  "scale_chan L k p b c =
    sbind (make_gain L k) (\<lambda>g.
    sbind (wire c (chan_at g 0) p) (\<lambda>_.
    sbind (case b of None \<Rightarrow> sret () | Some (i, x) \<Rightarrow> add_target i g 0 x) (\<lambda>_.
      sret (chan_at g 0))))"

definition scale :: "lower_ctx \<Rightarrow> fragment \<Rightarrow> f64 \<Rightarrow> pos \<Rightarrow> expr option \<Rightarrow> fragment lowering" where
  "scale L a k p scalar = (\<lambda>s.
    sbind (smap (scale_chan L k p (bindable s scalar)) (fr_outs a)) (\<lambda>outs.
      sret \<lparr>fr_ins = fr_ins a, fr_outs = outs\<rparr>) s)"

definition zip_chan :: "lower_ctx \<Rightarrow> string \<Rightarrow> fragment \<Rightarrow> fragment \<Rightarrow> pos \<Rightarrow> nat \<Rightarrow> chan lowering" where
  "zip_chan L type a b p i =
    sbind (make_op L type) (\<lambda>op.
    sbind (wire (fr_outs a ! (if length (fr_outs a) = 1 then 0 else i)) (chan_at op 0) p) (\<lambda>_.
    sbind (wire (fr_outs b ! (if length (fr_outs b) = 1 then 0 else i)) (chan_at op 1) p) (\<lambda>_.
      sret (chan_at op 0))))"

text \<open>
  Of two operands without channels nothing is made; one mono and one empty operand give the one channel of
  the loop, which reads the empty operand out of range.
\<close>

definition zip_op :: "lower_ctx \<Rightarrow> string \<Rightarrow> fragment \<Rightarrow> fragment \<Rightarrow> pos \<Rightarrow> fragment lowering" where
  "zip_op L type a b p =
    (let na = length (fr_outs a); nb = length (fr_outs b) in
     sbind (fail_if (na \<noteq> nb \<and> na \<noteq> 1 \<and> nb \<noteq> 1) p (''arithmetic arity: cannot combine '' @ show_nat na @
       '' and '' @ show_nat nb @ '' channels'')) (\<lambda>_.
     sbind (if 0 < max na nb \<and> min na nb = 0 then sfail (L_exn Exn_undefined) else sret ()) (\<lambda>_.
     sbind (smap (zip_chan L type a b p) [0..<max na nb]) (\<lambda>outs.
       sret \<lparr>fr_ins = fr_ins a @ fr_ins b, fr_outs = outs\<rparr>))))"

definition negate_chan :: "lower_ctx \<Rightarrow> pos \<Rightarrow> chan \<Rightarrow> chan lowering" where
  "negate_chan L p c =
    sbind (make_op L ''inv'') (\<lambda>v. sbind (wire c (chan_at v 0) p) (\<lambda>_. sret (chan_at v 0)))"

definition negate :: "lower_ctx \<Rightarrow> fragment \<Rightarrow> pos \<Rightarrow> fragment lowering" where
  "negate L a p =
    sbind (smap (negate_chan L p) (fr_outs a)) (\<lambda>outs. sret \<lparr>fr_ins = fr_ins a, fr_outs = outs\<rparr>)"

text \<open>A number in signal position becomes a constant signal.\<close>

definition to_frag :: "lower_ctx \<Rightarrow> lvalue \<Rightarrow> fragment lowering" where
  "to_frag L v =
    (case v of V_num x \<Rightarrow> sbind (make_const L x) node_fragment | V_block f \<Rightarrow> sret f)"

text \<open>Two numbers fold.\<close>

definition fold_numbers :: "tok \<Rightarrow> f64 \<Rightarrow> f64 \<Rightarrow> pos \<Rightarrow> lvalue lowering" where
  "fold_numbers k a b p =
    (if k = T_Plus then sret (V_num (a + b))
     else if k = T_Minus then sret (V_num (a - b))
     else if k = T_Star then sret (V_num (a * b))
     else if k = T_Slash then
       (if f64_eq b f64_zero then fail p ''division by zero'' else sret (V_num (f64_div a b)))
     else if k = T_Percent then
       (if f64_eq b f64_zero then fail p ''modulo by zero'' else sret (V_num (f64_fmod a b)))
     else sret (V_num f64_zero))"

definition block :: "fragment lowering \<Rightarrow> lvalue lowering" where
  "block m = sbind m (\<lambda>f. sret (V_block f))"

text \<open>At least one operand is a signal; \<open>ea\<close> and \<open>eb\<close> are the operand expressions.\<close>

definition combine_signals :: "lower_ctx \<Rightarrow> tok \<Rightarrow> lvalue \<Rightarrow> lvalue \<Rightarrow> pos \<Rightarrow> expr \<Rightarrow> expr \<Rightarrow> lvalue lowering" where
  "combine_signals L k l r p ea eb =
    (if k = T_Percent then
       fail p (quoted ''%'' @ '' is compile-time only; it does not apply to signals'')
     else if k = T_Star then
       (case (l, r) of
         (V_block a, V_num x) \<Rightarrow> block (scale L a x p (Some eb))
       | (V_num x, V_block b) \<Rightarrow> block (scale L b x p (Some ea))
       | (V_block a, V_block b) \<Rightarrow> block (zip_op L ''mul'' a b p)
       | (V_num x, V_num y) \<Rightarrow> fail p ''unsupported operator'')
     else if k = T_Slash then
       (case r of
         V_num x \<Rightarrow>
           if f64_eq x f64_zero then fail p ''division by zero''
           else block (sbind (to_frag L l) (\<lambda>a. scale L a (f64_div (f64_of_int 1) x) p None))
       | V_block b \<Rightarrow> block (sbind (to_frag L l) (\<lambda>a. zip_op L ''div'' a b p)))
     else if k = T_Plus then
       block (sbind (to_frag L l) (\<lambda>a. sbind (to_frag L r) (\<lambda>b. zip_op L ''add'' a b p)))
     else if k = T_Minus then
       block (sbind (to_frag L l) (\<lambda>a.
         sbind (case r of
             V_num x \<Rightarrow> sbind (make_const L (- x)) node_fragment
           | V_block b \<Rightarrow> negate L b p) (\<lambda>b. zip_op L ''add'' a b p)))
     else fail p ''unsupported operator'')"

definition arith :: "lower_ctx \<Rightarrow> tok \<Rightarrow> lvalue \<Rightarrow> lvalue \<Rightarrow> pos \<Rightarrow> expr \<Rightarrow> expr \<Rightarrow> lvalue lowering" where
  "arith L k l r p ea eb =
    (case (l, r) of (V_num a, V_num b) \<Rightarrow> fold_numbers k a b p | _ \<Rightarrow> combine_signals L k l r p ea eb)"

section \<open>Block composition\<close>

definition wire_all :: "(chan \<times> chan) list \<Rightarrow> pos \<Rightarrow> unit lowering" where
  "wire_all cs p = sbind (smap (\<lambda>(o1, i1). wire o1 i1 p) cs) (\<lambda>_. sret ())"

definition seq_frags :: "fragment \<Rightarrow> fragment \<Rightarrow> pos \<Rightarrow> fragment lowering" where
  "seq_frags a b p =
    (let n = length (fr_outs a); m = length (fr_ins b) in
     sbind (fail_if (n \<noteq> m) p (quoted '':'' @ '' arity: left produces '' @ show_nat n @
       '' outputs but right takes '' @ show_nat m @ '' inputs'')) (\<lambda>_.
     sbind (wire_all (zip (fr_outs a) (fr_ins b)) p) (\<lambda>_.
       sret \<lparr>fr_ins = fr_ins a, fr_outs = fr_outs b\<rparr>)))"

definition par_frags :: "fragment \<Rightarrow> fragment \<Rightarrow> fragment" where
  "par_frags a b = \<lparr>fr_ins = fr_ins a @ fr_ins b, fr_outs = fr_outs a @ fr_outs b\<rparr>"

definition split_frags :: "fragment \<Rightarrow> fragment \<Rightarrow> pos \<Rightarrow> fragment lowering" where
  "split_frags a b p =
    (let n = length (fr_outs a); m = length (fr_ins b) in
     sbind (fail_if (n = 0 \<or> m mod n \<noteq> 0) p (quoted ''<:'' @ '' arity: right inputs ('' @ show_nat m @
       '') must be a multiple of left outputs ('' @ show_nat n @ '')'')) (\<lambda>_.
     sbind (wire_all (map (\<lambda>j. (fr_outs a ! (j mod n), fr_ins b ! j)) [0..<m]) p) (\<lambda>_.
       sret \<lparr>fr_ins = fr_ins a, fr_outs = fr_outs b\<rparr>)))"

text \<open>The outputs of the left block that meet at input \<open>i\<close> of the right one.\<close>

definition merge_group :: "chan list \<Rightarrow> nat \<Rightarrow> nat \<Rightarrow> chan list" where
  "merge_group outs m i = map (\<lambda>j. outs ! j) (filter (\<lambda>j. j mod m = i) [0..<length outs])"

definition merge_input :: "lower_ctx \<Rightarrow> pos \<Rightarrow> chan list \<Rightarrow> chan \<Rightarrow> unit lowering" where
  "merge_input L p grp inp =
    (if length grp = 1 then wire (hd grp) inp p
     else
       sbind (make_node L ''mix'' (named ''inputs'' (f64_of_int (int (length grp)))) ''mix'') (\<lambda>mix.
       sbind (wire_all (zip grp (map (chan_at mix) [0..<length grp])) p) (\<lambda>_.
         wire (chan_at mix 0) inp p)))"

definition merge_frags :: "lower_ctx \<Rightarrow> fragment \<Rightarrow> fragment \<Rightarrow> pos \<Rightarrow> fragment lowering" where
  "merge_frags L a b p =
    (let n = length (fr_outs a); m = length (fr_ins b) in
     sbind (fail_if (m = 0 \<or> n mod m \<noteq> 0) p (quoted '':>'' @ '' arity: left outputs ('' @ show_nat n @
       '') must be a multiple of right inputs ('' @ show_nat m @ '')'')) (\<lambda>_.
     sbind (smap (\<lambda>i. merge_input L p (merge_group (fr_outs a) m i) (fr_ins b ! i)) [0..<m]) (\<lambda>_.
       sret \<lparr>fr_ins = fr_ins a, fr_outs = fr_outs b\<rparr>)))"

section \<open>Calls\<close>

definition eval_number :: "evaluator \<Rightarrow> expr \<Rightarrow> env \<Rightarrow> f64 lowering" where
  "eval_number ev e env =
    sbind (ev e env '''') (\<lambda>v.
      case v of V_num x \<Rightarrow> sret x | V_block f \<Rightarrow> fail (expr_pos e) ''expected a number here, got a signal'')"

definition eval_fragment :: "lower_ctx \<Rightarrow> evaluator \<Rightarrow> expr \<Rightarrow> env \<Rightarrow> fragment lowering" where
  "eval_fragment L ev e env = sbind (ev e env '''') (to_frag L)"

definition eval_arg :: "evaluator \<Rightarrow> env \<Rightarrow> argument \<Rightarrow> (string \<times> arg_value) lowering" where
  "eval_arg ev env a =
    (case arg_expr a of
      E_string p t \<Rightarrow> sret (arg_name a, A_string t)
    | E_boolean p b \<Rightarrow> sret (arg_name a, A_boolean b)
    | _ \<Rightarrow> sbind (eval_number ev (arg_expr a) env) (\<lambda>x. sret (arg_name a, A_number x)))"

definition eval_node_args :: "evaluator \<Rightarrow> argument list \<Rightarrow> env \<Rightarrow> node_args lowering" where
  "eval_node_args ev args env =
    sbind (smap (eval_arg ev env) args) (\<lambda>vs.
      sret \<lparr>na_named = filter (\<lambda>kv. fst kv \<noteq> []) vs, na_positional = map snd (filter (\<lambda>kv. fst kv = []) vs)\<rparr>)"

text \<open>The port an argument feeds: a named port, or the port at its place among the positional ones.\<close>

definition arg_port :: "lowerer \<Rightarrow> nat \<Rightarrow> nat \<Rightarrow> argument \<Rightarrow> nat option" where
  "arg_port s nd pos a =
    (let n = g_nodes (lo_bp s) ! nd in
     if arg_name a \<noteq> [] then find_param (lo_bp s) nd (arg_name a)
     else if config_args n 8 = [] \<and> pos < params_count n then Some pos else None)"

text \<open>
  An argument that is exactly a rune parameter drives the port it fed; \<open>pos\<close> counts the positional arguments.
\<close>

definition bind_arg :: "nat \<Rightarrow> nat \<Rightarrow> argument \<Rightarrow> unit lowering" where
  "bind_arg nd pos a = (\<lambda>s.
    case arg_expr a of
      E_ident p x \<Rightarrow>
        (case find_rune_param (lo_bp s) x of
          None \<Rightarrow> Inr ((), s)
        | Some i \<Rightarrow> (case arg_port s nd pos a of None \<Rightarrow> Inr ((), s) | Some port \<Rightarrow> add_target i nd port x s))
    | _ \<Rightarrow> Inr ((), s))"

fun bind_args :: "nat \<Rightarrow> nat \<Rightarrow> argument list \<Rightarrow> unit lowering" where
  "bind_args nd pos [] = sret ()"
| "bind_args nd pos (a # rest) =
    sbind (bind_arg nd pos a) (\<lambda>_. bind_args nd (if arg_name a \<noteq> [] then pos else pos + 1) rest)"

definition bind_rune_params :: "argument list \<Rightarrow> nat \<Rightarrow> unit lowering" where
  "bind_rune_params args nd = (\<lambda>s. if g_params (lo_bp s) = [] then Inr ((), s) else bind_args nd 0 args s)"

text \<open>A registered node type; an exception of its factory is reported at the call.\<close>

definition call_node :: "lower_ctx \<Rightarrow> pos \<Rightarrow> string \<Rightarrow> node_args \<Rightarrow> node lowering" where
  "call_node L p name na =
    (case reg_make (lc_reg L) name na of
      Inl (Exn_throw m) \<Rightarrow> fail p (quoted name @ '': '' @ m)
    | Inl Exn_undefined \<Rightarrow> sfail (L_exn Exn_undefined)
    | Inr None \<Rightarrow> fail p (quoted name @ '': factory returned nothing'')
    | Inr (Some n) \<Rightarrow> sret n)"

definition make_call :: "lower_ctx \<Rightarrow> evaluator \<Rightarrow> pos \<Rightarrow> string \<Rightarrow> argument list \<Rightarrow> env \<Rightarrow> string \<Rightarrow> lvalue lowering" where
  "make_call L ev p name args env preferred =
    sbind (eval_node_args ev args env) (\<lambda>na.
    sbind (call_node L p name na) (\<lambda>n.
    sbind (if preferred = [] then gen name else sret preferred) (\<lambda>nm.
    sbind (add n nm) (\<lambda>idx.
    sbind (bind_rune_params args idx) (\<lambda>_.
      block (node_fragment idx))))))"

text \<open>\<open>llround\<close>, then the conversion of \<open>long long\<close> to \<open>int\<close>, which wraps.\<close>

definition over_factor :: "f64 \<Rightarrow> int lowering" where
  "over_factor v =
    (case f64_llround v of
      None \<Rightarrow> sfail (L_exn Exn_undefined)
    | Some i \<Rightarrow>
        if - (2 ^ 63) \<le> i \<and> i < 2 ^ 63 then sret (sint (word_of_int i :: 32 word)) else sfail (L_exn Exn_undefined))"

function stages_from :: "int \<Rightarrow> nat \<Rightarrow> nat" where
  "stages_from n k = (if 2 ^ k < n then stages_from n (Suc k) else k)"
  by pat_completeness auto
termination
  by (relation "measure (\<lambda>(n, k). nat (n - 2 ^ k))") auto

declare stages_from.simps [simp del]

text \<open>Upsamplers from the second on hang on the one before; the result is the first and the last.\<close>

primrec up_chain :: "lower_ctx \<Rightarrow> pos \<Rightarrow> nat \<Rightarrow> nat option \<Rightarrow> chan \<Rightarrow> (nat option \<times> chan) lowering" where
  "up_chain L p 0 first c = sret (first, c)"
| "up_chain L p (Suc k) first c =
    sbind (make_node L ''up2'' no_args ''up2'') (\<lambda>up.
    sbind (case first of None \<Rightarrow> sret () | Some f \<Rightarrow> wire c (chan_at up 0) p) (\<lambda>_.
      up_chain L p k (case first of None \<Rightarrow> Some up | Some f \<Rightarrow> Some f) (chan_at up 0)))"

primrec down_chain :: "lower_ctx \<Rightarrow> pos \<Rightarrow> nat \<Rightarrow> chan \<Rightarrow> chan lowering" where
  "down_chain L p 0 c = sret c"
| "down_chain L p (Suc k) c =
    sbind (make_node L ''down2'' no_args ''down2'') (\<lambda>dn.
    sbind (wire c (chan_at dn 0) p) (\<lambda>_. down_chain L p k (chan_at dn 0)))"

definition oversample :: "lower_ctx \<Rightarrow> pos \<Rightarrow> int \<Rightarrow> fragment \<Rightarrow> fragment lowering" where
  "oversample L p n f =
    (if n = 1 then sret f
     else
       sbind (fail_if (length (fr_ins f) \<noteq> 1 \<or> length (fr_outs f) \<noteq> 1) p ''over: the region must be 1-in / 1-out'') (\<lambda>_.
       sbind (up_chain L p (stages_from n 0) None (chan_at 0 0)) (\<lambda>(first, c).
       sbind (wire c (hd (fr_ins f)) p) (\<lambda>_.
       sbind (down_chain L p (stages_from n 0) (hd (fr_outs f))) (\<lambda>d.
         sret \<lparr>fr_ins = [chan_at (case first of None \<Rightarrow> 0 | Some u \<Rightarrow> u) 0], fr_outs = [d]\<rparr>)))))"

definition eval_over :: "lower_ctx \<Rightarrow> evaluator \<Rightarrow> pos \<Rightarrow> argument list \<Rightarrow> env \<Rightarrow> lvalue lowering" where
  "eval_over L ev p args env =
    (case args of
      [a, b] \<Rightarrow>
        sbind (eval_number ev (arg_expr a) env) (\<lambda>v.
        sbind (over_factor v) (\<lambda>n.
        sbind (fail_if (n < 1 \<or> (n AND (n - 1)) \<noteq> 0) p ''over: n must be a power of two'') (\<lambda>_.
        sbind (eval_fragment L ev (arg_expr b) env) (\<lambda>f.
          block (oversample L p n f)))))
    | _ \<Rightarrow> fail p ''over(n, region) takes exactly two arguments'')"

section \<open>Statements\<close>

text \<open>The scope a statement reads and extends; \<open>sc_have_out\<close> is the source's pointer, null in a sigil.\<close>

record scope =
  sc_env :: env
  sc_defined :: "string set"
  sc_have_out :: "bool option"

definition bind_name :: "string \<Rightarrow> lvalue \<Rightarrow> scope \<Rightarrow> scope" where
  "bind_name name v sc = sc\<lparr>sc_env := (sc_env sc)(name \<mapsto> v), sc_defined := insert name (sc_defined sc)\<rparr>"

definition no_duplicate :: "scope \<Rightarrow> pos \<Rightarrow> string \<Rightarrow> unit lowering" where
  "no_duplicate sc p name = fail_if (name \<in> sc_defined sc) p (''duplicate name '' @ quoted name)"

text \<open>Inside a naming scope; the prefix is restored.\<close>

definition in_prefix :: "string \<Rightarrow> 'a lowering \<Rightarrow> 'a lowering" where
  "in_prefix name m = (\<lambda>s. sbind m (\<lambda>v t. Inr (v, t\<lparr>lo_prefix := lo_prefix s\<rparr>)) (s\<lparr>lo_prefix := name\<rparr>))"

definition single_node :: "lower_ctx \<Rightarrow> string \<Rightarrow> bool" where
  "single_node L name \<longleftrightarrow>
    name \<noteq> ''over'' \<and> name \<noteq> ''finer'' \<and> lc_sigils L name = None \<and> reg_has (lc_reg L) name"

text \<open>A single node call is named exactly after its binding; anything else opens a naming scope.\<close>

definition bound_value :: "lower_ctx \<Rightarrow> evaluator \<Rightarrow> string \<Rightarrow> expr \<Rightarrow> env \<Rightarrow> lvalue lowering" where
  "bound_value L ev qname e env =
    (let scoped = in_prefix qname (ev e env '''') in
     case e of
       E_call p name args \<Rightarrow> if single_node L name then make_call L ev p name args env qname else scoped
     | _ \<Rightarrow> scoped)"

definition do_binding :: "lower_ctx \<Rightarrow> evaluator \<Rightarrow> pos \<Rightarrow> string \<Rightarrow> expr \<Rightarrow> scope \<Rightarrow> scope lowering" where
  "do_binding L ev p name e sc =
    sbind (no_duplicate sc p name) (\<lambda>_.
    sbind (\<lambda>s. bound_value L ev (qualify s name) e (sc_env sc) s) (\<lambda>v.
      sret (bind_name name v sc)))"

definition add_input :: "string \<Rightarrow> nat \<Rightarrow> unit lowering" where
  "add_input name idx = (\<lambda>s. Inr ((), s\<lparr>lo_bp := snd (add_input_terminal (lo_bp s) name idx)\<rparr>))"

definition do_input :: "lower_ctx \<Rightarrow> evaluator \<Rightarrow> pos \<Rightarrow> string \<Rightarrow> argument list \<Rightarrow> scope \<Rightarrow> scope lowering" where
  "do_input L ev p name args sc =
    sbind (no_duplicate sc p name) (\<lambda>_.
    sbind (eval_node_args ev args (sc_env sc)) (\<lambda>na.
    sbind (reg_node L ''bus'' na) (\<lambda>n.
    sbind (add n name) (\<lambda>idx.
    sbind (add_input name idx) (\<lambda>_.
    sbind (node_fragment idx) (\<lambda>f.
      sret (bind_name name (V_block f) sc)))))))"

text \<open>The map of the source is kept as a list sorted by index.\<close>

fun assign_outs :: "pos \<Rightarrow> string \<Rightarrow> nat \<Rightarrow> chan list \<Rightarrow> (nat \<times> chan) list \<Rightarrow> (nat \<times> chan) list lowering" where
  "assign_outs p name idx [] acc = sret acc"
| "assign_outs p name idx (c # cs) acc =
    (if idx \<in> fst ` set acc
     then fail p (''output channel '' @ show_nat idx @ '' of terminal '' @ quoted name @ '' is assigned more than once'')
     else assign_outs p name (idx + 1) cs (insort_key fst (idx, c) acc))"

definition open_terminal :: "string \<Rightarrow> pos \<Rightarrow> out_acc lowering" where
  "open_terminal name p = (\<lambda>s.
    case lo_out_terminals s name of
      Some acc \<Rightarrow> Inr (acc, s)
    | None \<Rightarrow>
        let acc = \<lparr>oa_by_index = [], oa_pos = p\<rparr>
        in Inr (acc, s\<lparr>lo_out_terminals := (lo_out_terminals s)(name \<mapsto> acc), lo_out_order := lo_out_order s @ [name]\<rparr>))"

definition set_terminal :: "string \<Rightarrow> out_acc \<Rightarrow> unit lowering" where
  "set_terminal name acc = (\<lambda>s. Inr ((), s\<lparr>lo_out_terminals := (lo_out_terminals s)(name \<mapsto> acc)\<rparr>))"

definition do_out :: "lower_ctx \<Rightarrow> evaluator \<Rightarrow> pos \<Rightarrow> expr \<Rightarrow> string \<Rightarrow> int \<Rightarrow> scope \<Rightarrow> scope lowering" where
  "do_out L ev p e terminal index sc =
    sbind (eval_fragment L ev e (sc_env sc)) (\<lambda>f.
    sbind (fail_if (fr_outs f = []) p (quoted ''out'' @ '' expression produces no output'')) (\<lambda>_.
    sbind (fail_if (terminal = ''out'') p (quoted ''as out'' @ '' is reserved; use a plain '' @ quoted ''out'')) (\<lambda>_.
    let name = (if terminal = [] then ''out'' else terminal);
        base = (if index < 0 then 0 else size_of_int index)
    in
    sbind (open_terminal name p) (\<lambda>acc.
    sbind (assign_outs p name base (fr_outs f) (oa_by_index acc)) (\<lambda>outs.
    sbind (set_terminal name (acc\<lparr>oa_by_index := outs\<rparr>)) (\<lambda>_.
      sret (if name = ''out'' then sc\<lparr>sc_have_out := Some True\<rparr> else sc)))))))"

definition attach_param :: "chan \<Rightarrow> nat \<Rightarrow> nat \<Rightarrow> pos \<Rightarrow> unit lowering" where
  "attach_param src ni pi p = (\<lambda>s.
    let r = connect_param (lo_bp s) \<lparr>pc_src_node = ch_node src, pc_src_output = ch_ch src,
          pc_dst_node = ni, pc_dst_param = pi\<rparr>
    in if fst r then Inr ((), s\<lparr>lo_bp := snd r\<rparr>)
       else fail p ''modulation rejected: port already driven or out of range'' s)"

definition do_modulate :: "lower_ctx \<Rightarrow> evaluator \<Rightarrow> pos \<Rightarrow> expr \<Rightarrow> port_path \<Rightarrow> env \<Rightarrow> unit lowering" where
  "do_modulate L ev p e target env =
    sbind (eval_fragment L ev e env) (\<lambda>src.
    sbind (fail_if (length (fr_outs src) \<noteq> 1) p ''modulation source must have exactly one output'') (\<lambda>_ s.
      let parts = pp_parts target;
          node_name = sep_by ''.'' (if length parts = 1 then parts else butlast parts);
          port = last parts
      in
      (case find_node (lo_bp s) node_name of
        None \<Rightarrow> fail (pp_pos target) (''modulation target: unknown node '' @ quoted node_name) s
      | Some ni \<Rightarrow>
          (case find_param (lo_bp s) ni port of
            None \<Rightarrow>
              fail (pp_pos target) (''modulation target: node '' @ quoted node_name @ '' has no port '' @ quoted port) s
          | Some pi \<Rightarrow> attach_param (hd (fr_outs src)) ni pi p s))))"

definition do_explicit :: "lower_ctx \<Rightarrow> evaluator \<Rightarrow> pos \<Rightarrow> expr \<Rightarrow> string \<Rightarrow> int \<Rightarrow> env \<Rightarrow> unit lowering" where
  "do_explicit L ev p e target index env =
    sbind (eval_fragment L ev e env) (\<lambda>src.
    sbind (fail_if (length (fr_outs src) \<noteq> 1) p (quoted ''->'' @ '' source must have exactly one output'')) (\<lambda>_ s.
      (case find_node (lo_bp s) target of
        None \<Rightarrow> fail p (quoted ''->'' @ '' target: unknown node '' @ quoted target) s
      | Some ni \<Rightarrow> wire (hd (fr_outs src)) (chan_at ni (size_of_int index)) p s)))"

text \<open>The value of a bare wire expression; of every other statement the number zero.\<close>

definition zero_value :: lvalue where
  "zero_value = V_num f64_zero"

definition rune_only :: "scope \<Rightarrow> pos \<Rightarrow> string \<Rightarrow> unit lowering" where
  "rune_only sc p what = fail_if (sc_have_out sc = None) p (quoted what @ '' is not allowed inside a sigil'')"

definition do_stmt :: "lower_ctx \<Rightarrow> evaluator \<Rightarrow> stmt \<Rightarrow> scope \<Rightarrow> (lvalue \<times> scope) lowering" where
  "do_stmt L ev st sc =
    (case st of
      S_binding p name e \<Rightarrow> sbind (do_binding L ev p name e sc) (\<lambda>sc. sret (zero_value, sc))
    | S_wire p e \<Rightarrow> sbind (ev e (sc_env sc) '''') (\<lambda>v. sret (v, sc))
    | S_modulate p e target \<Rightarrow> sbind (do_modulate L ev p e target (sc_env sc)) (\<lambda>_. sret (zero_value, sc))
    | S_explicit p e target i \<Rightarrow> sbind (do_explicit L ev p e target i (sc_env sc)) (\<lambda>_. sret (zero_value, sc))
    | S_input p name args \<Rightarrow>
        sbind (rune_only sc p ''input'') (\<lambda>_. sbind (do_input L ev p name args sc) (\<lambda>sc. sret (zero_value, sc)))
    | S_out p e terminal i \<Rightarrow>
        sbind (rune_only sc p ''out'') (\<lambda>_. sbind (do_out L ev p e terminal i sc) (\<lambda>sc. sret (zero_value, sc))))"

primrec do_stmts :: "lower_ctx \<Rightarrow> evaluator \<Rightarrow> stmt list \<Rightarrow> lvalue \<Rightarrow> scope \<Rightarrow> (lvalue \<times> scope) lowering" where
  "do_stmts L ev [] v sc = sret (v, sc)"
| "do_stmts L ev (st # sts) v sc = sbind (do_stmt L ev st sc) (\<lambda>r. do_stmts L ev sts (fst r) (snd r))"

section \<open>Sigils and expressions\<close>

text \<open>The argument for the parameter at position \<open>i\<close>: by name, else by position, else the default.\<close>

definition provided_arg :: "argument list \<Rightarrow> nat \<Rightarrow> rune_param \<Rightarrow> expr option" where
  "provided_arg args i p =
    (case find_index (\<lambda>a. arg_name a = rp_name p) args of
      Some k \<Rightarrow> Some (arg_expr (args ! k))
    | None \<Rightarrow>
        (let positional = filter (\<lambda>a. arg_name a = []) args
         in if i < length positional then Some (arg_expr (positional ! i)) else rp_default p))"

fun bind_sigil_params ::
    "evaluator \<Rightarrow> pos \<Rightarrow> string \<Rightarrow> argument list \<Rightarrow> env \<Rightarrow> nat \<Rightarrow> rune_param list \<Rightarrow> scope \<Rightarrow> scope lowering" where
  "bind_sigil_params ev p name args env i [] sc = sret sc"
| "bind_sigil_params ev p name args env i (q # qs) sc =
    (case provided_arg args i q of
      None \<Rightarrow> fail p (''sigil '' @ quoted name @ '' missing argument '' @ quoted (rp_name q))
    | Some e \<Rightarrow>
        sbind (ev e env '''') (\<lambda>v. bind_sigil_params ev p name args env (i + 1) qs (bind_name (rp_name q) v sc)))"

definition ends_with_wire :: "stmt list \<Rightarrow> bool" where
  "ends_with_wire body \<longleftrightarrow> body \<noteq> [] \<and> (case last body of S_wire p e \<Rightarrow> True | _ \<Rightarrow> False)"

definition sigil_scope :: scope where
  "sigil_scope = \<lparr>sc_env = Map.empty, sc_defined = {}, sc_have_out = None\<rparr>"

definition eval_sigil :: "lower_ctx \<Rightarrow> evaluator \<Rightarrow> pos \<Rightarrow> string \<Rightarrow> argument list \<Rightarrow> env \<Rightarrow> sigil_def \<Rightarrow> lvalue lowering" where
  "eval_sigil L ev p name args env sig =
    sbind (bind_sigil_params ev p name args env 0 (rd_params sig) sigil_scope) (\<lambda>sc.
    sbind (do_stmts L ev (rd_body sig) zero_value sc) (\<lambda>r.
    sbind (fail_if (\<not> ends_with_wire (rd_body sig)) (rd_pos sig)
        (''sigil '' @ quoted name @ '' must end with an expression'')) (\<lambda>_.
      sret (fst r))))"

definition eval_call :: "lower_ctx \<Rightarrow> evaluator \<Rightarrow> pos \<Rightarrow> string \<Rightarrow> argument list \<Rightarrow> env \<Rightarrow> string \<Rightarrow> lvalue lowering" where
  "eval_call L ev p name args env preferred =
    (if name = ''over'' then eval_over L ev p args env
     else if name = ''finer'' then
       fail p (quoted ''finer'' @ '' is not yet implemented (needs the upbloc Tier-2 node)'')
     else
       (case lc_sigils L name of
         Some sig \<Rightarrow> eval_sigil L ev p name args env sig
       | None \<Rightarrow>
           if reg_has (lc_reg L) name then make_call L ev p name args env preferred
           else fail p (''unknown node type or sigil '' @ quoted name)))"

text \<open>A name that is bound; every read of a rune parameter is counted.\<close>

definition use_name :: "string \<Rightarrow> lvalue \<Rightarrow> lvalue lowering" where
  "use_name x v = (\<lambda>s.
    Inr (v, if x \<in> lo_rune_params s then s\<lparr>lo_uses := (lo_uses s)(x := lo_uses s x + 1)\<rparr> else s))"

definition eval_ident :: "lower_ctx \<Rightarrow> pos \<Rightarrow> string \<Rightarrow> env \<Rightarrow> lvalue lowering" where
  "eval_ident L p x env =
    (case env x of
      Some v \<Rightarrow> use_name x v
    | None \<Rightarrow>
        if x = ''_'' then block (sbind (make_wire L) node_fragment)
        else if x = ''!'' then block (sbind (make_cut L) node_fragment)
        else if reg_has (lc_reg L) x then block (sbind (make_node L x no_args x) node_fragment)
        else fail p (''unknown name '' @ quoted x))"

definition eval_select :: "fragment \<Rightarrow> int \<Rightarrow> pos \<Rightarrow> lvalue lowering" where
  "eval_select f i p =
    (if length (fr_outs f) \<le> size_of_int i
     then fail p (''channel ['' @ show_int i @ ''] out of range (fragment has '' @ show_nat (length (fr_outs f)) @ '' outputs)'')
     else sret (V_block \<lparr>fr_ins = fr_ins f, fr_outs = [fr_outs f ! size_of_int i]\<rparr>))"

definition eval_both :: "lower_ctx \<Rightarrow> evaluator \<Rightarrow> expr \<Rightarrow> expr \<Rightarrow> env \<Rightarrow>
    (fragment \<Rightarrow> fragment \<Rightarrow> fragment lowering) \<Rightarrow> lvalue lowering" where
  "eval_both L ev a b env f =
    sbind (eval_fragment L ev a env) (\<lambda>fa. sbind (eval_fragment L ev b env) (\<lambda>fb. block (f fa fb)))"

definition eval_binary :: "lower_ctx \<Rightarrow> evaluator \<Rightarrow> pos \<Rightarrow> tok \<Rightarrow> expr \<Rightarrow> expr \<Rightarrow> env \<Rightarrow> lvalue lowering" where
  "eval_binary L ev p k a b env =
    (if k \<in> {T_Plus, T_Minus, T_Star, T_Slash, T_Percent} then
       sbind (ev a env '''') (\<lambda>l. sbind (ev b env '''') (\<lambda>r. arith L k l r p a b))
     else if k = T_Colon then eval_both L ev a b env (\<lambda>fa fb. seq_frags fa fb p)
     else if k = T_Comma then eval_both L ev a b env (\<lambda>fa fb. sret (par_frags fa fb))
     else if k = T_Split then eval_both L ev a b env (\<lambda>fa fb. split_frags fa fb p)
     else if k = T_Merge then eval_both L ev a b env (\<lambda>fa fb. merge_frags L fa fb p)
     else fail p ''unsupported operator'')"

definition eval_step :: "lower_ctx \<Rightarrow> evaluator \<Rightarrow> evaluator" where
  "eval_step L ev e env preferred =
    (case e of
      E_number p v \<Rightarrow> sret (V_num v)
    | E_string p t \<Rightarrow> fail p ''a string/boolean is only valid as a node argument''
    | E_boolean p b \<Rightarrow> fail p ''a string/boolean is only valid as a node argument''
    | E_ident p x \<Rightarrow> eval_ident L p x env
    | E_unary p a \<Rightarrow>
        sbind (ev a env '''') (\<lambda>v.
          case v of V_num x \<Rightarrow> sret (V_num (- x)) | V_block f \<Rightarrow> block (negate L f p))
    | E_select p a i \<Rightarrow> sbind (eval_fragment L ev a env) (\<lambda>f. eval_select f i p)
    | E_binary p k a b \<Rightarrow> eval_binary L ev p k a b env
    | E_call p name args \<Rightarrow> eval_call L ev p name args env preferred)"

primrec eval_expr :: "lower_ctx \<Rightarrow> nat \<Rightarrow> evaluator" where
  "eval_expr L 0 = (\<lambda>e env preferred. sfail L_fuel)"
| "eval_expr L (Suc n) = eval_step L (eval_expr L n)"

section \<open>Runes\<close>

definition out_sources :: "(nat \<times> chan) list \<Rightarrow> terminal_source list" where
  "out_sources acc =
    map (\<lambda>i. case map_of acc i of
        Some c \<Rightarrow> \<lparr>ts_node = ch_node c, ts_ch = ch_ch c, ts_silent = False\<rparr>
      | None \<Rightarrow> \<lparr>ts_node = 0, ts_ch = 0, ts_silent = True\<rparr>)
      [0..<if acc = [] then 0 else fst (last acc) + 1]"

definition finalize_terminal :: "(string \<rightharpoonup> out_acc) \<Rightarrow> string \<Rightarrow> graph_blueprint \<Rightarrow> graph_blueprint" where
  "finalize_terminal terminals name g =
    (let acc = (case terminals name of None \<Rightarrow> [] | Some a \<Rightarrow> oa_by_index a);
         g' = snd (add_output_terminal_chans g name (out_sources acc))
     in if name = ''out'' \<and> acc \<noteq> [] then g'\<lparr>g_output_node := Some (ch_node (snd (hd acc)))\<rparr> else g')"

definition finalize_outputs :: "lowerer \<Rightarrow> lowerer" where
  "finalize_outputs s = s\<lparr>lo_bp := fold (finalize_terminal (lo_out_terminals s)) (lo_out_order s) (lo_bp s)\<rparr>"

definition mark_partial :: "lowerer \<Rightarrow> lowerer" where
  "mark_partial s = s\<lparr>lo_bp := (lo_bp s)\<lparr>g_params :=
     map (\<lambda>p. p\<lparr>bpp_partial := lo_direct_uses s (bpp_name p) < lo_uses s (bpp_name p)\<rparr>) (g_params (lo_bp s))\<rparr>\<rparr>"

definition add_rune_param :: "string \<Rightarrow> f64 \<Rightarrow> unit lowering" where
  "add_rune_param name v = (\<lambda>s. Inr ((), s\<lparr>lo_rune_params := insert name (lo_rune_params s),
     lo_bp := (lo_bp s)\<lparr>g_params := g_params (lo_bp s) @
       [\<lparr>bpp_name = name, bpp_default = v, bpp_targets = [], bpp_partial = False\<rparr>]\<rparr>\<rparr>))"

fun bind_params :: "evaluator \<Rightarrow> rune_param list \<Rightarrow> scope \<Rightarrow> scope lowering" where
  "bind_params ev [] sc = sret sc"
| "bind_params ev (q # qs) sc =
    (case rp_default q of
      None \<Rightarrow> fail (rp_pos q) (''rune parameter '' @ quoted (rp_name q) @ '' needs a default value'')
    | Some e \<Rightarrow>
        sbind (eval_number ev e (sc_env sc)) (\<lambda>v.
        sbind (add_rune_param (rp_name q) v) (\<lambda>_.
          bind_params ev qs (bind_name (rp_name q) (V_num v) sc))))"

definition fresh_lowerer :: lowerer where
  "fresh_lowerer = \<lparr>lo_bp = empty_blueprint, lo_prefix = [], lo_counters = (\<lambda>_. 0), lo_rune_params = {},
     lo_uses = (\<lambda>_. 0), lo_direct_uses = (\<lambda>_. 0), lo_out_terminals = Map.empty, lo_out_order = []\<rparr>"

definition rune_scope :: scope where
  "rune_scope = \<lparr>sc_env = Map.empty, sc_defined = {}, sc_have_out = Some False\<rparr>"

definition lower_rune :: "lower_ctx \<Rightarrow> nat \<Rightarrow> rune_def \<Rightarrow> (lower_error, graph_blueprint) result" where
  "lower_rune L n r =
    res_bind
      (sbind (bind_params (eval_expr L n) (rd_params r) rune_scope) (\<lambda>sc.
        do_stmts L (eval_expr L n) (rd_body r) zero_value sc) fresh_lowerer)
      (\<lambda>(vs, s).
        let t = mark_partial (finalize_outputs s) in
        if sc_have_out (snd vs) = Some True then Inr (lo_bp t)
        else Inl (L_diag (diag (''rune '' @ quoted (rd_name r) @ '' has no '' @ quoted ''out'') (fst (rd_pos r)) (snd (rd_pos r)))))"

record lowered_blueprint =
  lb_name :: string
  lb_bp :: graph_blueprint

record lower_result =
  lr_blueprints :: "lowered_blueprint list"
  lr_diags :: "diagnostic list"

definition lower_ctx_of :: "node_registry \<Rightarrow> sigil_def list \<Rightarrow> lower_ctx" where
  "lower_ctx_of reg sigils = \<lparr>lc_reg = reg, lc_sigils = map_of (rev (map (\<lambda>d. (rd_name d, d)) sigils))\<rparr>"

text \<open>A rune that fails is skipped; an exception or endless recursion ends the lowering.\<close>

fun lower_runes :: "lower_ctx \<Rightarrow> nat \<Rightarrow> rune_def list \<Rightarrow> lower_result \<Rightarrow> (lower_error, lower_result) result" where
  "lower_runes L n [] res = Inr res"
| "lower_runes L n (r # rs) res =
    (case lower_rune L n r of
      Inr g \<Rightarrow> lower_runes L n rs (res\<lparr>lr_blueprints := lr_blueprints res @ [\<lparr>lb_name = rd_name r, lb_bp = g\<rparr>]\<rparr>)
    | Inl (L_diag d) \<Rightarrow> lower_runes L n rs (res\<lparr>lr_diags := lr_diags res @ [d]\<rparr>)
    | Inl e \<Rightarrow> Inl e)"

definition lower :: "nat \<Rightarrow> program \<Rightarrow> node_registry \<Rightarrow> (lower_error, lower_result) result" where
  "lower n prog reg =
    lower_runes (lower_ctx_of reg (pg_sigils prog)) n (pg_runes prog) \<lparr>lr_blueprints = [], lr_diags = []\<rparr>"

end
