(* ===== verification/Lower_Total.thy ===== *)
theory Lower_Total
  imports Lower
begin

text \<open>
  The lowering returns.  \<open>eval_expr\<close> spends a unit of fuel for each nested expression and each sigil call; when the
  sigils do not call each other in a circle, the fuel needed is bounded by the sizes of the expressions and the
  number of sigils on a chain of calls.  A sigil that calls itself exhausts every amount of fuel.
\<close>

section \<open>Steps that do not run out of fuel\<close>

named_theorems runs_intros

definition runs :: "'a lowering \<Rightarrow> bool" where
  "runs m \<longleftrightarrow> (\<forall>s. m s \<noteq> Inl L_fuel)"

lemma runs_bind [runs_intros]: "runs m \<Longrightarrow> (\<And>x. runs (f x)) \<Longrightarrow> runs (sbind m f)"
  by (auto simp: runs_def sbind_Inl_iff)

lemma runs_sret [runs_intros]: "runs (sret x)"
  by (simp add: runs_def)

lemma runs_Inr [runs_intros]: "runs (\<lambda>s. Inr (f s, g s))"
  by (simp add: runs_def)

lemma runs_exn [runs_intros]: "runs (sfail (L_exn e))"
  by (simp add: runs_def)

lemma runs_fail [runs_intros]: "runs (fail p m)"
  by (simp add: runs_def fail_def)

lemma runs_state: "(\<And>s. runs (m s)) \<Longrightarrow> runs (\<lambda>s. m s s)"
  by (simp add: runs_def)

lemma runs_smap [runs_intros]: "(\<And>x. x \<in> set xs \<Longrightarrow> runs (f x)) \<Longrightarrow> runs (smap f xs)"
  by (induction xs) (auto intro!: runs_intros)

lemma runs_wire [runs_intros]: "runs (wire c d p)"
  by (simp add: runs_def wire_def Let_def fail_def)

lemma runs_gen [runs_intros]: "runs (gen t)"
  by (simp add: runs_def gen_def Let_def)

lemma runs_fail_if [runs_intros]: "runs (fail_if b p m)"
  by (auto simp: fail_if_def intro!: runs_intros)

lemma runs_reg_node [runs_intros]: "runs (reg_node L type args)"
  by (auto simp: reg_node_def split: sum.split option.split intro!: runs_intros)

lemma runs_make_node [runs_intros]: "runs (make_node L type args label)"
  by (auto simp: make_node_def add_def intro!: runs_intros)

lemma runs_node_fragment [runs_intros]: "runs (node_fragment i)"
  by (simp add: runs_def node_fragment_def)

lemma runs_wire_all [runs_intros]: "runs (wire_all cs p)"
  by (auto simp: wire_all_def intro!: runs_intros)

lemma runs_block [runs_intros]: "runs m \<Longrightarrow> runs (block m)"
  by (auto simp: block_def intro!: runs_intros)

lemma runs_to_frag [runs_intros]: "runs (to_frag L v)"
  by (auto simp: to_frag_def make_const_def split: lvalue.split intro!: runs_intros)

lemma runs_scale [runs_intros]: "runs (scale L a k p sc)"
  unfolding scale_def scale_chan_def make_gain_def add_target_def Let_def
  by (rule runs_state) (auto split: option.split prod.split intro!: runs_intros)

lemma runs_zip_op [runs_intros]: "runs (zip_op L type a b p)"
  unfolding zip_op_def zip_chan_def make_op_def Let_def by (auto intro!: runs_intros)

lemma runs_negate [runs_intros]: "runs (negate L a p)"
  unfolding negate_def negate_chan_def make_op_def by (auto intro!: runs_intros)

lemma runs_arith [runs_intros]: "runs (arith L k l r p ea eb)"
  unfolding arith_def fold_numbers_def combine_signals_def make_const_def
  by (auto split: lvalue.split intro!: runs_intros)

lemma runs_seq [runs_intros]: "runs (seq_frags a b p)"
  unfolding seq_frags_def Let_def by (auto intro!: runs_intros)

lemma runs_split [runs_intros]: "runs (split_frags a b p)"
  unfolding split_frags_def Let_def by (auto intro!: runs_intros)

lemma runs_merge [runs_intros]: "runs (merge_frags L a b p)"
  unfolding merge_frags_def merge_input_def Let_def by (auto intro!: runs_intros)

section \<open>Evaluating parts\<close>

definition ev_runs :: "evaluator \<Rightarrow> expr \<Rightarrow> bool" where
  "ev_runs ev e \<longleftrightarrow> (\<forall>env preferred. runs (ev e env preferred))"

fun parts :: "expr \<Rightarrow> expr list" where
  "parts (E_call p name args) = map arg_expr args"
| "parts (E_unary p a) = [a]"
| "parts (E_binary p k a b) = [a, b]"
| "parts (E_select p a i) = [a]"
| "parts e = []"

text \<open>An expression and its parts.\<close>

definition deep_runs :: "evaluator \<Rightarrow> expr \<Rightarrow> bool" where
  "deep_runs ev e \<longleftrightarrow> ev_runs ev e \<and> list_all (ev_runs ev) (parts e)"

lemma ev_runsD: "ev_runs ev e \<Longrightarrow> runs (ev e env preferred)"
  by (simp add: ev_runs_def)

lemma runs_eval_number [runs_intros]: "ev_runs ev e \<Longrightarrow> runs (eval_number ev e env)"
  unfolding eval_number_def by (intro runs_bind ev_runsD) (auto split: lvalue.split intro!: runs_intros)

lemma runs_eval_fragment [runs_intros]: "ev_runs ev e \<Longrightarrow> runs (eval_fragment L ev e env)"
  unfolding eval_fragment_def by (intro runs_bind ev_runsD runs_to_frag)

lemma runs_eval_arg:
  assumes "ev_runs ev (arg_expr a)"
  shows "runs (eval_arg ev env a)"
proof -
  have "runs (sbind (eval_number ev (arg_expr a) env) (\<lambda>x. sret (arg_name a, A_number x)))"
    using assms by (intro runs_bind runs_eval_number runs_sret)
  then show ?thesis by (cases "arg_expr a") (simp_all add: eval_arg_def runs_sret)
qed

lemma runs_node_args [runs_intros]:
  "list_all (ev_runs ev) (map arg_expr args) \<Longrightarrow> runs (eval_node_args ev args env)"
  unfolding eval_node_args_def
  by (intro runs_bind runs_smap runs_eval_arg runs_sret) (auto simp: list_all_iff)

lemma runs_bind_arg: "runs (bind_arg nd pos a)"
  by (auto simp: runs_def bind_arg_def add_target_def Let_def split: expr.split option.split)

lemma runs_bind_args [runs_intros]: "runs (bind_args nd pos args)"
  by (induction args arbitrary: pos) (auto intro!: runs_intros runs_bind_arg)

lemma runs_make_call [runs_intros]:
  assumes "list_all (ev_runs ev) (map arg_expr args)"
  shows "runs (make_call L ev p name args env preferred)"
proof -
  have "runs (bind_rune_params args i)" for i
    using runs_bind_args [of i 0 args] by (auto simp: runs_def bind_rune_params_def)
  moreover have "runs (call_node L p name na)" for na
    by (auto simp: call_node_def split: sum.split exn.split option.split intro!: runs_intros)
  ultimately show ?thesis
    using assms unfolding make_call_def add_def by (auto intro!: runs_intros)
qed

lemma runs_up_chain [runs_intros]: "runs (up_chain L p k first c)"
  by (induction k arbitrary: first c) (auto split: option.split intro!: runs_intros)

lemma runs_down_chain [runs_intros]: "runs (down_chain L p k c)"
  by (induction k arbitrary: c) (auto intro!: runs_intros)

lemma runs_over [runs_intros]:
  assumes "list_all (ev_runs ev) (map arg_expr args)"
  shows "runs (eval_over L ev p args env)"
proof -
  have "runs (over_factor v)" for v
    by (auto simp: over_factor_def split: option.split intro!: runs_intros)
  then show ?thesis
    using assms unfolding eval_over_def oversample_def by (auto split: list.split prod.split intro!: runs_intros)
qed

section \<open>Statements and sigils\<close>

fun stmt_exprs :: "stmt \<Rightarrow> expr list" where
  "stmt_exprs (S_binding p name e) = [e]"
| "stmt_exprs (S_wire p e) = [e]"
| "stmt_exprs (S_modulate p e target) = [e]"
| "stmt_exprs (S_explicit p e target i) = [e]"
| "stmt_exprs (S_input p name args) = map arg_expr args"
| "stmt_exprs (S_out p e terminal i) = [e]"

text \<open>All expressions of a rune or sigil: parameter defaults and statements.\<close>

definition def_exprs :: "rune_def \<Rightarrow> expr list" where
  "def_exprs d = List.map_filter rp_default (rd_params d) @ concat (map stmt_exprs (rd_body d))"

lemma runs_in_prefix: "runs m \<Longrightarrow> runs (in_prefix name m)"
  by (auto simp: runs_def in_prefix_def sbind_Inl_iff)

lemma runs_do_binding:
  assumes "deep_runs ev e"
  shows "runs (do_binding L ev p name e sc)"
proof -
  have "runs (bound_value L ev q e env)" for q env
  proof -
    have scoped: "runs (in_prefix q (ev e env ''''))"
      using assms by (intro runs_in_prefix ev_runsD) (simp add: deep_runs_def)
    have "list_all (ev_runs ev) (parts e)" using assms by (simp add: deep_runs_def)
    with scoped show ?thesis
      by (cases e) (simp_all add: bound_value_def Let_def runs_make_call)
  qed
  then show ?thesis
    unfolding do_binding_def no_duplicate_def by (intro runs_bind [OF runs_fail_if runs_bind [OF runs_state runs_sret]])
qed

lemma runs_assign_outs [runs_intros]: "runs (assign_outs p name idx cs acc)"
  by (induction p name idx cs acc rule: assign_outs.induct) (auto intro!: runs_intros)

lemma runs_open_terminal [runs_intros]: "runs (open_terminal name q)"
  by (auto simp: runs_def open_terminal_def Let_def split: option.split)

lemma runs_do_out: "ev_runs ev e \<Longrightarrow> runs (do_out L ev p e terminal index sc)"
  unfolding do_out_def set_terminal_def Let_def by (auto intro!: runs_intros)

lemma runs_do_modulate: "ev_runs ev e \<Longrightarrow> runs (do_modulate L ev p e target env)"
  unfolding do_modulate_def attach_param_def Let_def
  by (intro runs_bind runs_eval_fragment runs_fail_if) (auto simp: runs_def fail_def Let_def split: option.split)

lemma runs_do_explicit: "ev_runs ev e \<Longrightarrow> runs (do_explicit L ev p e target i env)"
  unfolding do_explicit_def
  by (intro runs_bind runs_eval_fragment runs_fail_if)
    (auto simp: runs_def fail_def wire_def Let_def split: option.split)

lemma runs_do_stmt:
  assumes "list_all (deep_runs ev) (stmt_exprs st)"
  shows "runs (do_stmt L ev st sc)"
proof -
  have inputs: "list_all (ev_runs ev) (map arg_expr args)" if "list_all (deep_runs ev) (map arg_expr args)" for args
    using that by (auto simp: list_all_iff deep_runs_def)
  show ?thesis
  proof (cases st)
    case (S_wire p e)
    then show ?thesis using assms by (auto simp: do_stmt_def deep_runs_def intro!: runs_bind runs_sret ev_runsD)
  qed (use assms inputs in \<open>auto simp: do_stmt_def do_input_def no_duplicate_def rune_only_def add_input_def add_def
        deep_runs_def intro!: runs_intros runs_do_binding runs_do_out runs_do_modulate runs_do_explicit\<close>)
qed
lemma runs_do_stmts:
  "list_all (deep_runs ev) (concat (map stmt_exprs sts)) \<Longrightarrow> runs (do_stmts L ev sts v sc)"
  by (induction sts arbitrary: v sc) (auto intro!: runs_intros runs_do_stmt)

lemma provided_arg_Some:
  assumes "provided_arg args i q = Some e"
  shows "e \<in> set (map arg_expr args) \<or> rp_default q = Some e"
proof -
  have "k < length args" if "find_index (\<lambda>a. arg_name a = rp_name q) args = Some k" for k
    using find_index_Some [OF that] by simp
  moreover have "filter (\<lambda>a. arg_name a = []) args ! i \<in> set args"
    if "i < length (filter (\<lambda>a. arg_name a = []) args)"
    using nth_mem [OF that] by simp
  ultimately show ?thesis
    using assms by (auto simp: provided_arg_def Let_def split: option.splits if_splits)
qed

lemma runs_bind_sigil_params:
  assumes "list_all (ev_runs ev) (map arg_expr args)"
  shows "list_all (ev_runs ev) (List.map_filter rp_default ps) \<Longrightarrow> runs (bind_sigil_params ev p name args env i ps sc)"
proof (induction ps arbitrary: i sc)
  case Nil
  then show ?case by (auto intro!: runs_intros)
next
  case (Cons q qs)
  have "ev_runs ev e" if "provided_arg args i q = Some e" for e
    using provided_arg_Some [OF that] assms Cons.prems
    by (auto simp: list_all_iff split: option.splits)
  moreover have "list_all (ev_runs ev) (List.map_filter rp_default qs)"
    using Cons.prems by (auto split: option.splits)
  ultimately show ?case
    using Cons.IH by (auto split: option.split intro!: runs_bind runs_fail ev_runsD)
qed

lemma runs_eval_sigil:
  assumes "list_all (ev_runs ev) (map arg_expr args)" and "list_all (deep_runs ev) (def_exprs sig)"
  shows "runs (eval_sigil L ev p name args env sig)"
proof -
  have "list_all (ev_runs ev) (List.map_filter rp_default (rd_params sig))"
    and "list_all (deep_runs ev) (concat (map stmt_exprs (rd_body sig)))"
    using assms(2) by (auto simp: def_exprs_def list_all_iff deep_runs_def)
  then show ?thesis
    using assms(1) unfolding eval_sigil_def
    by (intro runs_bind runs_bind_sigil_params runs_do_stmts runs_fail_if runs_sret)
qed

section \<open>Expressions\<close>

lemma runs_eval_step:
  assumes "list_all (ev_runs ev) (parts e)"
    and "\<And>p name args sig. e = E_call p name args \<Longrightarrow> lc_sigils L name = Some sig \<Longrightarrow> list_all (deep_runs ev) (def_exprs sig)"
  shows "ev_runs (eval_step L ev) e"
  unfolding ev_runs_def
proof (intro allI)
  fix env preferred
  show "runs (eval_step L ev e env preferred)"
  proof (cases e)
    case (E_call p name args)
    have "runs (eval_sigil L ev p name args env sig)" if "lc_sigils L name = Some sig" for sig
      using assms(1) assms(2) [OF E_call that] by (intro runs_eval_sigil) (simp_all add: E_call)
    then show ?thesis
      using assms(1) by (auto simp: eval_step_def E_call eval_call_def split: option.split intro!: runs_intros)
  next
    case (E_ident p x)
    have "runs (use_name x v)" for v by (simp add: runs_def use_name_def)
    then show ?thesis
      by (auto simp: eval_step_def E_ident eval_ident_def make_wire_def make_cut_def split: option.split intro!: runs_intros)
  next
    case (E_unary p a)
    have "runs (ev a env '''')" using assms(1) by (intro ev_runsD) (simp add: E_unary)
    then show ?thesis
      by (auto simp: eval_step_def E_unary split: lvalue.split intro!: runs_intros)
  next
    case (E_binary p k a b)
    have "runs (sbind (ev a env '''') (\<lambda>l. sbind (ev b env '''') (\<lambda>r. arith L k l r p a b)))"
      using assms(1) by (intro runs_bind ev_runsD runs_arith) (simp_all add: E_binary)
    then show ?thesis using assms(1)
      by (auto simp: eval_step_def E_binary eval_binary_def eval_both_def intro!: runs_intros)
  qed (use assms(1) in \<open>auto simp: eval_step_def eval_select_def intro!: runs_intros\<close>)
qed

section \<open>Sizes and ranks\<close>

text \<open>All names that are called in an expression.\<close>

fun call_names :: "expr \<Rightarrow> string set"
  and call_names_arg :: "argument \<Rightarrow> string set" where
  "call_names (E_call p name args) = insert name (\<Union> (set (map call_names_arg args)))"
| "call_names (E_unary p a) = call_names a"
| "call_names (E_binary p k a b) = call_names a \<union> call_names b"
| "call_names (E_select p a i) = call_names a"
| "call_names (E_number p v) = {}"
| "call_names (E_string p v) = {}"
| "call_names (E_boolean p v) = {}"
| "call_names (E_ident p v) = {}"
| "call_names_arg (Argument name e p) = call_names e"

lemma parts_smaller: "x \<in> set (parts e) \<Longrightarrow> size x < size e"
proof (cases e)
  case (E_call p name args)
  moreover assume "x \<in> set (parts e)"
  ultimately obtain a where a: "a \<in> set args" "x = arg_expr a" by auto
  from a(2) have "size x < size a" by (cases a) simp
  also have "size a \<le> size_list size args" using a(1) by (rule size_list_estimation') simp
  finally show ?thesis by (simp add: E_call)
qed auto

lemma parts_calls: "x \<in> set (parts e) \<Longrightarrow> call_names x \<subseteq> call_names e"
proof (cases e)
  case (E_call p name args)
  moreover assume "x \<in> set (parts e)"
  ultimately obtain a where a: "a \<in> set args" "x = arg_expr a" by auto
  moreover have "call_names_arg a = call_names (arg_expr a)" by (cases a) simp
  ultimately show ?thesis using E_call by auto
qed auto

text \<open>A rank for the sigils that goes down along calls, and a bound for the sizes in their bodies.\<close>

definition ranked :: "lower_ctx \<Rightarrow> (string \<Rightarrow> nat) \<Rightarrow> nat \<Rightarrow> bool" where
  "ranked L rank M \<longleftrightarrow> (\<forall>name sig e. lc_sigils L name = Some sig \<longrightarrow> e \<in> set (def_exprs sig) \<longrightarrow>
     size e \<le> M \<and> (\<forall>x \<in> call_names e. lc_sigils L x \<noteq> None \<longrightarrow> rank x < rank name))"

lemma eval_expr_runs:
  assumes "ranked L rank M"
  shows "(\<forall>x \<in> call_names e. lc_sigils L x \<noteq> None \<longrightarrow> rank x < r) \<Longrightarrow> r * (M + 1) + size e < n \<Longrightarrow>
    ev_runs (eval_expr L n) e"
proof (induction n arbitrary: e r)
  case 0
  then show ?case by simp
next
  case (Suc n)
  have part: "ev_runs (eval_expr L n) x" if "x \<in> set (parts e)" for x
    using Suc.prems parts_calls [OF that] parts_smaller [OF that] by (intro Suc.IH) auto
  have "list_all (deep_runs (eval_expr L n)) (def_exprs sig)"
    if call: "e = E_call p name args" and sig: "lc_sigils L name = Some sig" for p name args sig
  proof -
    have "Suc (rank name) * (M + 1) \<le> r * (M + 1)"
      using Suc.prems(1) sig by (intro mult_right_mono) (auto simp: call)
    then have n: "rank name * (M + 1) + M < n" using Suc.prems(2) by simp
    have "deep_runs (eval_expr L n) x" if x: "x \<in> set (def_exprs sig)" for x
    proof -
      have "size x \<le> M" and c: "\<forall>y \<in> call_names x. lc_sigils L y \<noteq> None \<longrightarrow> rank y < rank name"
        using assms x sig by (auto simp: ranked_def)
      then have "ev_runs (eval_expr L n) x" using n by (intro Suc.IH) auto
      moreover have "ev_runs (eval_expr L n) y" if "y \<in> set (parts x)" for y
        using c n \<open>size x \<le> M\<close> parts_calls [OF that] parts_smaller [OF that] by (intro Suc.IH) auto
      ultimately show ?thesis by (simp add: deep_runs_def list_all_iff)
    qed
    then show ?thesis by (simp add: list_all_iff)
  qed
  then show ?case using part by (auto simp: list_all_iff intro!: runs_eval_step)
qed

section \<open>Programs\<close>

lemma runs_bind_params:
  "list_all (ev_runs ev) (List.map_filter rp_default ps) \<Longrightarrow> runs (bind_params ev ps sc)"
proof (induction ps arbitrary: sc)
  case Nil
  then show ?case by (auto intro!: runs_intros)
next
  case (Cons q qs)
  have "list_all (ev_runs ev) (List.map_filter rp_default qs)"
    using Cons.prems by (auto split: option.splits)
  then show ?case
    using Cons by (auto simp: add_rune_param_def split: option.splits intro!: runs_intros)
qed

lemma lower_rune_runs:
  assumes "list_all (deep_runs (eval_expr L n)) (def_exprs r)"
  shows "lower_rune L n r \<noteq> Inl L_fuel"
proof -
  have "list_all (ev_runs (eval_expr L n)) (List.map_filter rp_default (rd_params r))"
    and "list_all (deep_runs (eval_expr L n)) (concat (map stmt_exprs (rd_body r)))"
    using assms by (auto simp: def_exprs_def list_all_iff deep_runs_def)
  then have "runs (sbind (bind_params (eval_expr L n) (rd_params r) rune_scope)
      (\<lambda>sc. do_stmts L (eval_expr L n) (rd_body r) zero_value sc))"
    by (intro runs_bind runs_bind_params runs_do_stmts)
  then show ?thesis
    unfolding runs_def lower_rune_def by (auto simp: res_bind_def Let_def split: sum.splits)
qed

lemma lower_runes_run:
  assumes "\<forall>r \<in> set rs. lower_rune L n r \<noteq> Inl L_fuel"
  shows "lower_runes L n rs res \<noteq> Inl L_fuel"
  using assms by (induction rs arbitrary: res) (auto split: sum.splits lower_error.splits)

definition exprs_size :: "program \<Rightarrow> nat" where
  "exprs_size prog = sum_list (map size (concat (map def_exprs (pg_sigils prog @ pg_runes prog))))"

text \<open>Along a chain of sigil calls the rank goes down: there is no recursion.\<close>

definition ranked_sigils :: "(string \<Rightarrow> nat) \<Rightarrow> program \<Rightarrow> bool" where
  "ranked_sigils rank prog \<longleftrightarrow>
    (\<forall>sig \<in> set (pg_sigils prog). \<forall>e \<in> set (def_exprs sig). \<forall>callee \<in> set (pg_sigils prog).
       rd_name callee \<in> call_names e \<longrightarrow> rank (rd_name callee) < rank (rd_name sig))"

definition lower_fuel :: "(string \<Rightarrow> nat) \<Rightarrow> program \<Rightarrow> nat" where
  "lower_fuel rank prog =
    sum_list (map (\<lambda>d. rank (rd_name d) + 1) (pg_sigils prog)) * (exprs_size prog + 1) + exprs_size prog + 1"

lemma lower_ctx_sigil:
  assumes "lc_sigils (lower_ctx_of reg sigils) x = Some sig"
  shows "sig \<in> set sigils \<and> rd_name sig = x"
  using map_of_SomeD [OF assms [unfolded lower_ctx_of_def, simplified]] by auto

lemma size_in_program:
  assumes "d \<in> set (pg_sigils prog @ pg_runes prog)" and "e \<in> set (def_exprs d)"
  shows "size e \<le> exprs_size prog"
proof -
  have "e \<in> set (concat (map def_exprs (pg_sigils prog @ pg_runes prog)))" using assms by auto
  then have "size e \<in> set (map size (concat (map def_exprs (pg_sigils prog @ pg_runes prog))))" by (metis image_eqI set_map)
  then show ?thesis unfolding exprs_size_def by (rule member_le_sum_list) simp
qed

lemma program_ranked:
  assumes "ranked_sigils rank prog"
  shows "ranked (lower_ctx_of reg (pg_sigils prog)) rank (exprs_size prog)"
  unfolding ranked_def
proof (intro allI impI conjI ballI)
  fix name sig e x
  assume sig: "lc_sigils (lower_ctx_of reg (pg_sigils prog)) name = Some sig" and e: "e \<in> set (def_exprs sig)"
  note s = lower_ctx_sigil [OF sig]
  show "size e \<le> exprs_size prog" using s e by (intro size_in_program [of sig]) auto
  assume x: "x \<in> call_names e" "lc_sigils (lower_ctx_of reg (pg_sigils prog)) x \<noteq> None"
  then obtain callee where "lc_sigils (lower_ctx_of reg (pg_sigils prog)) x = Some callee" by auto
  from lower_ctx_sigil [OF this] show "rank x < rank name"
    using assms s e x(1) by (auto simp: ranked_sigils_def)
qed

lemma program_runs:
  assumes "ranked_sigils rank prog" and "lower_fuel rank prog \<le> n" and r: "r \<in> set (pg_runes prog)"
  shows "list_all (deep_runs (eval_expr (lower_ctx_of reg (pg_sigils prog)) n)) (def_exprs r)"
  unfolding list_all_iff
proof
  let ?L = "lower_ctx_of reg (pg_sigils prog)" and ?M = "exprs_size prog"
  let ?R = "sum_list (map (\<lambda>d. rank (rd_name d) + 1) (pg_sigils prog))"
  fix e
  assume e: "e \<in> set (def_exprs r)"
  have size: "size e \<le> ?M" using r e by (intro size_in_program [of r]) auto
  have rank: "rank x < ?R" if "lc_sigils ?L x \<noteq> None" for x
  proof -
    obtain sig where "lc_sigils ?L x = Some sig" using \<open>lc_sigils ?L x \<noteq> None\<close> by auto
    from lower_ctx_sigil [OF this] have "rank x + 1 \<in> set (map (\<lambda>d. rank (rd_name d) + 1) (pg_sigils prog))" by force
    then have "rank x + 1 \<le> ?R" by (rule member_le_sum_list) simp
    then show ?thesis by simp
  qed
  have run: "ev_runs (eval_expr ?L n) x" if "size x \<le> size e" for x
    using size rank that assms(2)
    by (intro eval_expr_runs [where r = ?R, OF program_ranked [OF assms(1)]]) (auto simp: lower_fuel_def)
  have "ev_runs (eval_expr ?L n) y" if "y \<in> set (parts e)" for y using parts_smaller [OF that] by (intro run) simp
  with run [of e] show "deep_runs (eval_expr ?L n) e" by (simp add: deep_runs_def list_all_iff)
qed

section \<open>Properties\<close>

text \<open>C23: Lowering terminates on every program whose sigils do not call each other in a circle: a rank that goes
  down from each sigil to the sigils it calls gives an amount of fuel with which the evaluator never runs out, for
  every registry, so the lowering returns its blueprints and diagnostics or lets an exception through.\<close>

theorem lowering_returns:
  assumes "ranked_sigils rank prog" and "lower_fuel rank prog \<le> n"
  shows "lower n prog reg \<noteq> Inl L_fuel"
  unfolding lower_def
  using lower_rune_runs [OF program_runs [OF assms]] by (intro lower_runes_run) blast

text \<open>Two sigils, one calling the other: \<open>sigil a() sine end sigil b() a() end rune r out b() end\<close>.\<close>

definition layered_program :: program where
  "layered_program =
    \<lparr>pg_runes = [\<lparr>rd_name = ''r'', rd_params = [], rd_body = [S_out (6, 3) (E_call (6, 7) ''b'' []) '''' (- 1)], rd_pos = (5, 1)\<rparr>],
     pg_sigils = [\<lparr>rd_name = ''a'', rd_params = [], rd_body = [S_wire (2, 3) (E_ident (2, 3) ''sine'')], rd_pos = (1, 1)\<rparr>,
       \<lparr>rd_name = ''b'', rd_params = [], rd_body = [S_wire (4, 3) (E_call (4, 3) ''a'' [])], rd_pos = (3, 1)\<rparr>]\<rparr>"

theorem lowering_returns_witness:
  "lower (lower_fuel (\<lambda>x. if x = ''b'' then 1 else 0) layered_program) layered_program standard_registry \<noteq> Inl L_fuel"
  by (rule lowering_returns [OF _ order_refl]) (auto simp: ranked_sigils_def layered_program_def def_exprs_def)

text \<open>The program \<open>sigil f() f() end rune r out f() end\<close>.\<close>

definition looping_program :: program where
  "looping_program =
    \<lparr>pg_runes = [\<lparr>rd_name = ''r'', rd_params = [], rd_body = [S_out (5, 3) (E_call (5, 7) ''f'' []) '''' (- 1)], rd_pos = (4, 1)\<rparr>],
     pg_sigils = [\<lparr>rd_name = ''f'', rd_params = [], rd_body = [S_wire (2, 3) (E_call (2, 3) ''f'' [])], rd_pos = (1, 1)\<rparr>]\<rparr>"

lemma looping_call:
  assumes "L = lower_ctx_of reg (pg_sigils looping_program)"
  shows "eval_expr L n (E_call p ''f'' []) env preferred s = Inl L_fuel"
proof (induction n arbitrary: p env preferred s)
  case 0
  then show ?case by simp
next
  case (Suc n)
  then show ?case
    by (simp add: assms eval_step_def eval_call_def lower_ctx_of_def looping_program_def eval_sigil_def do_stmt_def
        sbind_def)
qed


end
