(* ===== verification/Lower_Facts.thy ===== *)
theory Lower_Facts
  imports Lower
begin

text \<open>
  The typing of the block algebra: every fragment the lowering builds names open inputs and outputs that its
  blueprint has, whatever is added later, so every blueprint it delivers is well formed and has an output
  terminal.
\<close>

section \<open>Fragments of a blueprint\<close>

definition in_port :: "graph_blueprint \<Rightarrow> chan \<Rightarrow> bool" where
  "in_port g c \<longleftrightarrow> ch_node c < bp_size g \<and> ch_ch c < inputs_count (g_nodes g ! ch_node c)"

definition out_port :: "graph_blueprint \<Rightarrow> chan \<Rightarrow> bool" where
  "out_port g c \<longleftrightarrow> ch_node c < bp_size g \<and> ch_ch c < outputs_count (g_nodes g ! ch_node c)"

definition frag_ok :: "graph_blueprint \<Rightarrow> fragment \<Rightarrow> bool" where
  "frag_ok g f \<longleftrightarrow> list_all (in_port g) (fr_ins f) \<and> list_all (out_port g) (fr_outs f)"

fun value_ok :: "graph_blueprint \<Rightarrow> lvalue \<Rightarrow> bool" where
  "value_ok g (V_num x) \<longleftrightarrow> True"
| "value_ok g (V_block f) \<longleftrightarrow> frag_ok g f"

definition env_ok :: "graph_blueprint \<Rightarrow> env \<Rightarrow> bool" where
  "env_ok g env \<longleftrightarrow> (\<forall>x v. env x = Some v \<longrightarrow> value_ok g v)"

text \<open>What lowering may do to a blueprint: append nodes and rune parameters.\<close>

definition extends :: "graph_blueprint \<Rightarrow> graph_blueprint \<Rightarrow> bool" where
  "extends g h \<longleftrightarrow> (\<exists>ns. g_nodes h = g_nodes g @ ns) \<and> length (g_params g) \<le> length (g_params h)"

lemma extends_refl [simp]: "extends g g"
  by (simp add: extends_def)

lemma extends_trans: "extends g h \<Longrightarrow> extends h k \<Longrightarrow> extends g k"
  by (auto simp: extends_def)

lemma extends_size: "extends g h \<Longrightarrow> bp_size g \<le> bp_size h"
  by (auto simp: extends_def bp_size_def)

lemma extends_node: "extends g h \<Longrightarrow> i < bp_size g \<Longrightarrow> g_nodes h ! i = g_nodes g ! i"
  by (auto simp: extends_def bp_size_def nth_append)

lemma in_port_mono: "extends g h \<Longrightarrow> in_port g c \<Longrightarrow> in_port h c"
  using extends_size [of g h] extends_node [of g h "ch_node c"] by (auto simp: in_port_def)

lemma out_port_mono: "extends g h \<Longrightarrow> out_port g c \<Longrightarrow> out_port h c"
  using extends_size [of g h] extends_node [of g h "ch_node c"] by (auto simp: out_port_def)

lemma frag_ok_mono: "extends g h \<Longrightarrow> frag_ok g f \<Longrightarrow> frag_ok h f"
  by (auto simp: frag_ok_def list_all_iff intro: in_port_mono out_port_mono)

lemma value_ok_mono: "extends g h \<Longrightarrow> value_ok g v \<Longrightarrow> value_ok h v"
  by (cases v) (auto intro: frag_ok_mono)

lemma env_ok_mono: "extends g h \<Longrightarrow> env_ok g env \<Longrightarrow> env_ok h env"
  by (auto simp: env_ok_def intro: value_ok_mono)

lemma env_ok_upd: "env_ok g env \<Longrightarrow> value_ok g v \<Longrightarrow> env_ok g (env(x \<mapsto> v))"
  by (simp add: env_ok_def)

lemma frag_ok_outs: "frag_ok g f \<Longrightarrow> c \<in> set (fr_outs f) \<Longrightarrow> out_port g c"
  by (simp add: frag_ok_def list_all_iff)

lemma sbind_assoc: "sbind (sbind m f) g = sbind m (\<lambda>x. sbind (f x) g)"
  by (auto simp: sbind_def fun_eq_iff split: sum.split)

section \<open>Sound steps\<close>

definition terminal_ok :: "graph_blueprint \<Rightarrow> out_acc \<Rightarrow> bool" where
  "terminal_ok g acc \<longleftrightarrow> oa_by_index acc \<noteq> [] \<and> (\<forall>ic \<in> set (oa_by_index acc). out_port g (snd ic))"

definition outs_ok :: "lowerer \<Rightarrow> bool" where
  "outs_ok s \<longleftrightarrow>
    (\<forall>name acc. lo_out_terminals s name = Some acc \<longrightarrow> terminal_ok (lo_bp s) acc) \<and>
    (\<forall>name. name \<in> set (lo_out_order s) \<longleftrightarrow> lo_out_terminals s name \<noteq> None)"

definition lower_inv :: "lowerer \<Rightarrow> bool" where
  "lower_inv s \<longleftrightarrow> blueprint_ok (lo_bp s) \<and> g_output_terminals (lo_bp s) = [] \<and> outs_ok s"

lemma terminal_ok_mono: "extends g h \<Longrightarrow> terminal_ok g acc \<Longrightarrow> terminal_ok h acc"
  by (auto simp: terminal_ok_def intro: out_port_mono)

definition step_ok :: "lowerer \<Rightarrow> lowerer \<Rightarrow> bool" where
  "step_ok s t \<longleftrightarrow> lower_inv t \<and> extends (lo_bp s) (lo_bp t) \<and> set (lo_out_order s) \<subseteq> set (lo_out_order t)"

lemma step_ok_refl: "lower_inv s \<Longrightarrow> step_ok s s"
  by (simp add: step_ok_def)

lemma step_ok_trans: "step_ok s t \<Longrightarrow> step_ok t u \<Longrightarrow> step_ok s u"
  by (auto simp: step_ok_def intro: extends_trans)

lemma step_okD:
  assumes "step_ok s t"
  shows "lower_inv t" and "extends (lo_bp s) (lo_bp t)"
  using assms by (simp_all add: step_ok_def)

lemma step_ok_facts:
  assumes "step_ok s t"
  shows "frag_ok (lo_bp s) f \<Longrightarrow> frag_ok (lo_bp t) f"
    and "value_ok (lo_bp s) v \<Longrightarrow> value_ok (lo_bp t) v"
    and "env_ok (lo_bp s) env \<Longrightarrow> env_ok (lo_bp t) env"
    and "out_port (lo_bp s) c \<Longrightarrow> out_port (lo_bp t) c"
    and "in_port (lo_bp s) c \<Longrightarrow> in_port (lo_bp t) c"
  using step_okD(2) [OF assms] by (auto intro: frag_ok_mono value_ok_mono env_ok_mono out_port_mono in_port_mono)

lemmas steps_ok = step_okD(1) step_ok_facts

text \<open>
  From a state in the invariant, a successful run reaches a state in the invariant whose blueprint extends
  the first, with a result of the given kind.
\<close>

definition sound :: "lowerer \<Rightarrow> 'a lowering \<Rightarrow> (lowerer \<Rightarrow> 'a \<Rightarrow> bool) \<Rightarrow> bool" where
  "sound s m Q \<longleftrightarrow> (\<forall>x t. m s = Inr (x, t) \<longrightarrow> step_ok s t \<and> Q t x)"

lemma sound_bind:
  assumes "sound s m Q" and "\<And>x t. step_ok s t \<Longrightarrow> Q t x \<Longrightarrow> sound t (f x) R"
  shows "sound s (sbind m f) R"
  unfolding sound_def
proof (intro allI impI)
  fix y u
  assume "sbind m f s = Inr (y, u)"
  then obtain x t where m: "m s = Inr (x, t)" and f: "f x t = Inr (y, u)" by (auto simp: sbind_Inr_iff)
  have t: "step_ok s t" "Q t x" using assms(1) m by (simp_all add: sound_def)
  then have "step_ok t u \<and> R u y" using assms(2) [OF t] f by (simp add: sound_def)
  then show "step_ok s u \<and> R u y" using t step_ok_trans by blast
qed

lemma sound_weaken: "sound s m Q \<Longrightarrow> (\<And>t x. step_ok s t \<Longrightarrow> Q t x \<Longrightarrow> R t x) \<Longrightarrow> sound s m R"
  by (simp add: sound_def)

lemma sound_sret [simp]: "lower_inv s \<Longrightarrow> Q s x \<Longrightarrow> sound s (sret x) Q"
  by (simp add: sound_def step_ok_refl)

lemma sound_Inr [simp]: "lower_inv s \<Longrightarrow> Q s x \<Longrightarrow> sound s (\<lambda>a. Inr (x, a)) Q"
  by (simp add: sound_def step_ok_refl)

lemma sound_sfail [simp]: "sound s (sfail e) Q"
  by (simp add: sound_def)

lemma sound_fail [simp]: "sound s (fail p m) Q"
  by (simp add: fail_def)

lemma sound_fail_if: "lower_inv s \<Longrightarrow> sound s (fail_if b p m) (\<lambda>t x. \<not> b)"
  by (simp add: fail_if_def)

lemma sound_local:
  assumes "\<And>x t. m s = Inr (x, t) \<Longrightarrow> step_ok s t \<and> Q t x"
  shows "sound s m Q"
  using assms by (simp add: sound_def)

lemma lower_inv_frame:
  assumes "lower_inv s" and "lo_bp t = lo_bp s" and "lo_out_terminals t = lo_out_terminals s"
    and "lo_out_order t = lo_out_order s"
  shows "step_ok s t"
  using assms by (simp add: step_ok_def lower_inv_def outs_ok_def)

lemma lower_inv_bp:
  assumes "lower_inv s" and "extends (lo_bp s) g" and "blueprint_ok g" and "g_output_terminals g = []"
    and "lo_bp t = g" and "lo_out_terminals t = lo_out_terminals s" and "lo_out_order t = lo_out_order s"
  shows "step_ok s t"
  using assms terminal_ok_mono [OF assms(2)] by (auto simp: step_ok_def lower_inv_def outs_ok_def)

lemma sound_smap:
  assumes "lower_inv s" and "\<And>t x. step_ok s t \<Longrightarrow> x \<in> set xs \<Longrightarrow> sound t (f x) Q"
    and "\<And>t u y. Q t y \<Longrightarrow> step_ok t u \<Longrightarrow> Q u y"
  shows "sound s (smap f xs) (\<lambda>t ys. list_all (Q t) ys)"
  using assms(1,2)
proof (induction xs arbitrary: s)
  case Nil
  then show ?case by (simp add: sound_def step_ok_refl)
next
  case (Cons x xs)
  have rest: "sound t (smap f xs) (\<lambda>t ys. list_all (Q t) ys)" if "step_ok s t" for t
    using Cons.prems(2) that by (intro Cons.IH step_okD) (auto intro: step_ok_trans)
  have last: "sound u (sret (y # ys)) (\<lambda>t ys. list_all (Q t) ys)"
    if "step_ok t u" "Q t y" "list_all (Q u) ys" for t u y ys
    using that assms(3) [OF that(2,1)] by (intro sound_sret) (auto dest: step_okD)
  show ?case
    unfolding smap.simps
    using Cons.prems(2) [of s x] Cons.prems(1)
    by (intro sound_bind [OF _ sound_bind [OF rest last]]) (auto intro: step_ok_refl)
qed

section \<open>Building blocks\<close>

lemma sound_gen: "lower_inv s \<Longrightarrow> sound s (gen type) (\<lambda>t x. True)"
  by (rule sound_local) (auto simp: gen_def Let_def intro: lower_inv_frame)

lemma sound_add:
  assumes "lower_inv s"
  shows "sound s (add n name) (\<lambda>t i. i < bp_size (lo_bp t) \<and> g_nodes (lo_bp t) ! i = n)"
proof (rule sound_local)
  fix i t
  assume "add n name s = Inr (i, t)"
  then have i: "i = length (g_nodes (lo_bp s))" and t: "t = s\<lparr>lo_bp := snd (add_named (lo_bp s) name n)\<rparr>"
    by (simp_all add: add_def)
  have "step_ok s t"
    using assms by (intro lower_inv_bp [OF assms]) (auto simp: t extends_def add_named_def lower_inv_def
        blueprint_ok_add_named [unfolded add_named_def, simplified])
  then show "step_ok s t \<and> i < bp_size (lo_bp t) \<and> g_nodes (lo_bp t) ! i = n"
    by (simp add: i t add_named_def bp_size_def)
qed

lemma sound_node_fragment:
  assumes "lower_inv s" and "i < bp_size (lo_bp s)"
  shows "sound s (node_fragment i) (\<lambda>t f. frag_ok (lo_bp t) f)"
proof (rule sound_local)
  fix f t
  assume "node_fragment i s = Inr (f, t)"
  then have f: "f = node_frag i (g_nodes (lo_bp s) ! i)" and t: "t = s" by (auto simp: node_fragment_def)
  have "frag_ok (lo_bp s) f"
    using assms(2) by (simp add: f node_frag_def frag_ok_def list_all_iff in_port_def out_port_def chan_at_def)
  then show "step_ok s t \<and> frag_ok (lo_bp t) f" using assms(1) by (simp add: t step_ok_refl)
qed

lemma sound_wire:
  assumes "lower_inv s"
  shows "sound s (wire o1 i1 p) (\<lambda>t x. True)"
proof (rule sound_local)
  fix x t
  assume "wire o1 i1 p s = Inr (x, t)"
  then obtain c where t: "t = s\<lparr>lo_bp := snd (connect (lo_bp s) c)\<rparr>"
    by (auto simp: wire_def Let_def fail_def split: if_splits)
  have "step_ok s t"
    using assms by (intro lower_inv_bp [OF assms]) (auto simp: t extends_def lower_inv_def intro: blueprint_ok_connect)
  then show "step_ok s t \<and> True" by simp
qed

lemma sound_wire_all: "lower_inv s \<Longrightarrow> sound s (wire_all cs p) (\<lambda>t x. True)"
  unfolding wire_all_def
  by (intro sound_bind [OF sound_smap [where Q = "\<lambda>t x. True"]])
    (auto intro: sound_wire dest: step_okD)

lemma sound_reg_node:
  "lower_inv s \<Longrightarrow> sound s (reg_node L type args) (\<lambda>t n. reg_make (lc_reg L) type args = Inr (Some n))"
  by (auto simp: reg_node_def split: sum.splits option.splits)

lemma sound_make_node:
  assumes "lower_inv s"
  shows "sound s (make_node L type args label) (\<lambda>t i. i < bp_size (lo_bp t) \<and>
    reg_make (lc_reg L) type args = Inr (Some (g_nodes (lo_bp t) ! i)))"
  unfolding make_node_def
  by (intro sound_bind [OF sound_reg_node [OF assms]] sound_bind [OF sound_gen] sound_weaken [OF sound_add])
    (auto dest: step_okD)

text \<open>
  What the lowering takes for granted of the node types it makes itself: the arithmetic nodes and resamplers
  have an input and an output, and a gain has a port.
\<close>

definition builtin_ops :: "node_registry \<Rightarrow> bool" where
  "builtin_ops reg \<longleftrightarrow>
    (\<forall>type \<in> {''gain'', ''inv'', ''mul'', ''div'', ''add'', ''up2'', ''down2''}. \<forall>args n.
      reg_make reg type args = Inr (Some n) \<longrightarrow>
        0 < inputs_count n \<and> 0 < outputs_count n \<and> (type = ''gain'' \<longrightarrow> 0 < params_count n))"

lemma builtin_ops_standard: "builtin_ops standard_registry"
  by (auto simp: builtin_ops_def reg_make_def standard_registry_def standard_factory_def mk_def)

lemma sound_make_op:
  assumes "lower_inv s" and "builtin_ops (lc_reg L)"
    and "type \<in> {''gain'', ''inv'', ''mul'', ''div'', ''add'', ''up2'', ''down2''}"
  shows "sound s (make_node L type args label) (\<lambda>t i. out_port (lo_bp t) (chan_at i 0) \<and>
    in_port (lo_bp t) (chan_at i 0) \<and> (type = ''gain'' \<longrightarrow> 0 < params_count (g_nodes (lo_bp t) ! i)))"
  using assms(2,3)
  by (intro sound_weaken [OF sound_make_node [OF assms(1)]])
    (auto simp: builtin_ops_def out_port_def in_port_def chan_at_def)

lemma sound_make_fragment:
  assumes "lower_inv s"
  shows "sound s (sbind (make_node L type args label) node_fragment) (\<lambda>t f. frag_ok (lo_bp t) f)"
  by (rule sound_bind [OF sound_make_node [OF assms]]) (auto intro: sound_node_fragment dest: step_okD)

lemma sound_block:
  assumes "sound s m (\<lambda>t f. frag_ok (lo_bp t) f)"
  shows "sound s (block m) (\<lambda>t v. value_ok (lo_bp t) v)"
  unfolding block_def by (rule sound_bind [OF assms]) (auto dest: step_okD)

lemma sound_to_frag:
  assumes "lower_inv s" and "value_ok (lo_bp s) v"
  shows "sound s (to_frag L v) (\<lambda>t f. frag_ok (lo_bp t) f)"
  using assms sound_make_fragment [OF assms(1)] by (auto simp: to_frag_def make_const_def split: lvalue.split)

section \<open>Rune parameters\<close>

lemma targets_ok_add:
  assumes "targets_ok g" and "nd < bp_size g" and "port < params_count (g_nodes g ! nd)"
  shows "targets_ok (g\<lparr>g_params := (g_params g)[i :=
    (g_params g ! i)\<lparr>bpp_targets := bpp_targets (g_params g ! i) @ [\<lparr>pt_node = nd, pt_port = port\<rparr>]\<rparr>]\<rparr>)"
proof (cases "i < length (g_params g)")
  case True
  let ?p = "(g_params g ! i)\<lparr>bpp_targets := bpp_targets (g_params g ! i) @ [\<lparr>pt_node = nd, pt_port = port\<rparr>]\<rparr>"
  have old: "pt_node t < bp_size g \<and> pt_port t < params_count (g_nodes g ! pt_node t)"
    if "q \<in> set (g_params g)" "t \<in> set (bpp_targets q)" for q t
    using assms(1) that by (auto simp: targets_ok_def)
  have new: "pt_node t < bp_size g \<and> pt_port t < params_count (g_nodes g ! pt_node t)"
    if "q \<in> set ((g_params g)[i := ?p])" "t \<in> set (bpp_targets q)" for q t
  proof -
    have "q = ?p \<or> q \<in> set (g_params g)" using that(1) set_update_subset_insert by fastforce
    then show ?thesis
    proof
      assume "q = ?p"
      then have "t \<in> set (bpp_targets (g_params g ! i)) \<or> t = \<lparr>pt_node = nd, pt_port = port\<rparr>" using that(2) by auto
      then show ?thesis using old [of "g_params g ! i" t] assms(2,3) True by auto
    next
      assume "q \<in> set (g_params g)"
      then show ?thesis using old that(2) by blast
    qed
  qed
  show ?thesis
    unfolding targets_ok_def using new by (simp add: bp_size_def)
next
  case False
  then show ?thesis using assms(1) by (simp add: list_update_beyond)
qed

lemma blueprint_ok_params:
  assumes "blueprint_ok g" and "targets_ok (g\<lparr>g_params := ps\<rparr>)"
  shows "blueprint_ok (g\<lparr>g_params := ps\<rparr>)"
  using assms well_wired_cong [of "g\<lparr>g_params := ps\<rparr>" g] terminals_ok_cong [of "g\<lparr>g_params := ps\<rparr>" g]
  by (simp add: blueprint_ok_def wiring_ok_def bp_size_def)

lemma sound_add_target:
  assumes "lower_inv s" and "nd < bp_size (lo_bp s)" and "port < params_count (g_nodes (lo_bp s) ! nd)"
  shows "sound s (add_target i nd port x) (\<lambda>t y. True)"
proof (rule sound_local)
  fix y t
  assume a: "add_target i nd port x s = Inr (y, t)"
  let ?g = "lo_bp s"
  let ?h = "?g\<lparr>g_params := (g_params ?g)[i :=
    (g_params ?g ! i)\<lparr>bpp_targets := bpp_targets (g_params ?g ! i) @ [\<lparr>pt_node = nd, pt_port = port\<rparr>]\<rparr>]\<rparr>"
  have "blueprint_ok ?h"
    using assms by (intro blueprint_ok_params targets_ok_add) (simp_all add: lower_inv_def blueprint_ok_def)
  then have "step_ok s t"
    using assms(1) a by (intro lower_inv_bp [OF assms(1), of ?h]) (auto simp: add_target_def Let_def extends_def lower_inv_def)
  then show "step_ok s t \<and> True" by simp
qed

text \<open>Nodes stay where they are.\<close>

lemma step_ok_node:
  assumes "step_ok s t" and "i < bp_size (lo_bp s)"
  shows "i < bp_size (lo_bp t)" and "g_nodes (lo_bp t) ! i = g_nodes (lo_bp s) ! i"
  using extends_size [of "lo_bp s" "lo_bp t"] extends_node [of "lo_bp s" "lo_bp t"] step_okD(2) [OF assms(1)] assms(2)
  by auto

section \<open>Signal arithmetic\<close>

lemma sound_bind_gain:
  assumes "lower_inv s" and "out_port (lo_bp s) (chan_at g 0)" and "0 < params_count (g_nodes (lo_bp s) ! g)"
  shows "sound s (case b of None \<Rightarrow> sret () | Some (i, x) \<Rightarrow> add_target i g 0 x) (\<lambda>t y. out_port (lo_bp t) (chan_at g 0))"
proof (cases b)
  case None
  then show ?thesis using assms by simp
next
  case (Some ix)
  have "g < bp_size (lo_bp s)" using assms(2) by (simp add: out_port_def chan_at_def)
  then have "sound s (add_target i g 0 x) (\<lambda>t y. out_port (lo_bp t) (chan_at g 0))" for i x
    using assms by (intro sound_weaken [OF sound_add_target]) (auto intro: step_ok_facts)
  then show ?thesis by (simp add: Some split: prod.split)
qed

text \<open>A node of one channel that takes one channel.\<close>

lemma sound_wired_op:
  assumes "lower_inv s" and "builtin_ops (lc_reg L)"
    and "type \<in> {''gain'', ''inv'', ''mul'', ''div'', ''add'', ''up2'', ''down2''}"
    and "\<And>t i. lower_inv t \<Longrightarrow> step_ok s t \<Longrightarrow> out_port (lo_bp t) (chan_at i 0) \<Longrightarrow>
      type = ''gain'' \<longrightarrow> 0 < params_count (g_nodes (lo_bp t) ! i) \<Longrightarrow> in_port (lo_bp t) (chan_at i 0) \<Longrightarrow> sound t (f i) Q"
  shows "sound s (sbind (make_node L type args label) f) Q"
  by (rule sound_bind [OF sound_make_op [OF assms(1-3)]]) (auto intro: assms(4) step_okD)

lemma sound_scale_chan:
  assumes "lower_inv s" and "builtin_ops (lc_reg L)"
  shows "sound s (scale_chan L k p b c) (\<lambda>t d. out_port (lo_bp t) d)"
  unfolding scale_chan_def make_gain_def
proof (rule sound_wired_op [OF assms])
  fix t g
  assume t: "lower_inv t" "out_port (lo_bp t) (chan_at g 0)"
    and g: "''gain'' = ''gain'' \<longrightarrow> 0 < params_count (g_nodes (lo_bp t) ! g)"
  show "sound t (sbind (wire c (chan_at g 0) p) (\<lambda>_. sbind (case b of None \<Rightarrow> sret () | Some (i, x) \<Rightarrow> add_target i g 0 x)
      (\<lambda>_. sret (chan_at g 0)))) (\<lambda>t d. out_port (lo_bp t) d)"
  proof (rule sound_bind [OF sound_wire [OF t(1)]])
    fix u
    assume u: "step_ok t u"
    have "g < bp_size (lo_bp t)" using t(2) by (simp add: out_port_def chan_at_def)
    then have "0 < params_count (g_nodes (lo_bp u) ! g)" using g step_ok_node(2) [OF u] by simp
    then show "sound u (sbind (case b of None \<Rightarrow> sret () | Some (i, x) \<Rightarrow> add_target i g 0 x)
        (\<lambda>_. sret (chan_at g 0))) (\<lambda>t d. out_port (lo_bp t) d)"
      by (intro sound_bind [OF sound_bind_gain [OF step_okD(1) [OF u] step_ok_facts(4) [OF u t(2)]]] sound_sret)
        (blast intro: steps_ok)+
  qed
qed simp

lemma frag_ok_make: "frag_ok g a \<Longrightarrow> list_all (out_port g) outs \<Longrightarrow> frag_ok g \<lparr>fr_ins = fr_ins a, fr_outs = outs\<rparr>"
  by (simp add: frag_ok_def)

lemma frag_ok_both:
  "frag_ok g a \<Longrightarrow> frag_ok g b \<Longrightarrow> list_all (out_port g) outs \<Longrightarrow>
    frag_ok g \<lparr>fr_ins = fr_ins a @ fr_ins b, fr_outs = outs\<rparr>"
  by (simp add: frag_ok_def)

text \<open>One node for each output channel.\<close>

lemma sound_map_outs:
  assumes "lower_inv s" and "frag_ok (lo_bp s) a"
    and "\<And>t x. lower_inv t \<Longrightarrow> sound t (f x) (\<lambda>t d. out_port (lo_bp t) d)"
  shows "sound s (sbind (smap f xs) (\<lambda>outs. sret \<lparr>fr_ins = fr_ins a, fr_outs = outs\<rparr>)) (\<lambda>t f. frag_ok (lo_bp t) f)"
proof (rule sound_bind [OF sound_smap [OF assms(1), where Q = "\<lambda>t d. out_port (lo_bp t) d"]])
  show "sound t (f x) (\<lambda>t d. out_port (lo_bp t) d)" if "step_ok s t" for t x
    using that by (blast intro: steps_ok assms(3))
  show "out_port (lo_bp u) d" if "out_port (lo_bp t) d" "step_ok t u" for t u d
    using that by (blast intro: steps_ok)
  show "sound t (sret \<lparr>fr_ins = fr_ins a, fr_outs = outs\<rparr>) (\<lambda>t f. frag_ok (lo_bp t) f)"
    if "step_ok s t" "list_all (out_port (lo_bp t)) outs" for t outs
    using that assms(2) by (blast intro: sound_sret frag_ok_make steps_ok)
qed

lemma sound_scale:
  assumes "lower_inv s" and "builtin_ops (lc_reg L)" and "frag_ok (lo_bp s) a"
  shows "sound s (scale L a k p scalar) (\<lambda>t f. frag_ok (lo_bp t) f)"
  using sound_map_outs [OF assms(1,3) sound_scale_chan [OF _ assms(2)]] by (simp add: scale_def sound_def)

lemma sound_negate:
  assumes "lower_inv s" and "builtin_ops (lc_reg L)" and "frag_ok (lo_bp s) a"
  shows "sound s (negate L a p) (\<lambda>t f. frag_ok (lo_bp t) f)"
proof -
  have chan: "sound t (negate_chan L p c) (\<lambda>t d. out_port (lo_bp t) d)" if "lower_inv t" for t c
    unfolding negate_chan_def make_op_def
    using that assms(2)
    by (rule sound_wired_op) (auto intro!: sound_bind [OF sound_wire] sound_sret intro: steps_ok)
  show ?thesis
    unfolding negate_def by (rule sound_map_outs [OF assms(1,3) chan])
qed

lemma frag_ok_ins:
  "frag_ok g a \<Longrightarrow> frag_ok g b \<Longrightarrow> frag_ok g \<lparr>fr_ins = fr_ins a @ fr_ins b, fr_outs = []\<rparr>"
  by (simp add: frag_ok_def)

lemma sound_zip_op:
  assumes "lower_inv s" and "builtin_ops (lc_reg L)" and "type \<in> {''mul'', ''div'', ''add''}"
    and "frag_ok (lo_bp s) a" and "frag_ok (lo_bp s) b"
  shows "sound s (zip_op L type a b p) (\<lambda>t f. frag_ok (lo_bp t) f)"
proof -
  have chan: "sound t (zip_chan L type a b p i) (\<lambda>t d. out_port (lo_bp t) d)" if "lower_inv t" for t i
  proof -
    have op: "type \<in> {''gain'', ''inv'', ''mul'', ''div'', ''add'', ''up2'', ''down2''}" using assms(3) by auto
    show ?thesis
      unfolding zip_chan_def make_op_def
      by (rule sound_wired_op [OF that assms(2) op])
        (auto intro!: sound_bind [OF sound_wire] sound_sret intro: steps_ok)
  qed
  have rest: "sound t (sbind (smap (zip_chan L type a b p) ns) (\<lambda>outs. sret \<lparr>fr_ins = fr_ins a @ fr_ins b, fr_outs = outs\<rparr>))
      (\<lambda>t f. frag_ok (lo_bp t) f)" if "step_ok s t" for t ns
  proof -
    let ?f = "\<lparr>fr_ins = fr_ins a @ fr_ins b, fr_outs = []\<rparr>"
    have "frag_ok (lo_bp t) ?f" using that assms(4,5) by (blast intro: frag_ok_ins steps_ok)
    from sound_map_outs [OF step_okD(1) [OF that] this chan] show ?thesis by simp
  qed
  have undef: "sound t (if c then sfail e else sret ()) (\<lambda>t x. True)" if "lower_inv t" for t c e
    using that by simp
  show ?thesis
    unfolding zip_op_def Let_def
    by (intro sound_bind [OF sound_fail_if [OF assms(1)]] sound_bind [OF undef] rest)
      (blast intro: steps_ok step_ok_trans)+
qed

lemma sound_fragment_bind:
  assumes "sound s m (\<lambda>t f. frag_ok (lo_bp t) f)"
    and "\<And>t f. step_ok s t \<Longrightarrow> lower_inv t \<Longrightarrow> frag_ok (lo_bp t) f \<Longrightarrow> sound t (g f) Q"
  shows "sound s (sbind m g) Q"
  using assms by (blast intro: sound_bind step_okD)

lemma sound_combine:
  assumes "lower_inv s" and "builtin_ops (lc_reg L)" and "value_ok (lo_bp s) l" and "value_ok (lo_bp s) r"
  shows "sound s (combine_signals L k l r p ea eb) (\<lambda>t v. value_ok (lo_bp t) v)"
proof -
  have add: "sound t (zip_op L ''add'' a b p) (\<lambda>t f. frag_ok (lo_bp t) f)"
    if "step_ok u t" "lower_inv t" "frag_ok (lo_bp u) a" "frag_ok (lo_bp t) b" for u t a b
    using that by (intro sound_zip_op assms(2)) (auto intro: steps_ok)
  have plus: "sound s (sbind (to_frag L l) (\<lambda>a. sbind (to_frag L r) (\<lambda>b. zip_op L ''add'' a b p))) (\<lambda>t f. frag_ok (lo_bp t) f)"
    using assms by (intro sound_fragment_bind [OF sound_to_frag] add) (auto intro: steps_ok)
  have sub: "sound t (case r of V_num x \<Rightarrow> sbind (make_const L (- x)) node_fragment | V_block b \<Rightarrow> negate L b p)
      (\<lambda>t f. frag_ok (lo_bp t) f)" if "step_ok s t" for t
    using that step_ok_facts(2) [OF that assms(4)]
    by (auto simp: make_const_def split: lvalue.split intro: sound_make_fragment sound_negate assms(2) steps_ok)
  have minus: "sound s (sbind (to_frag L l) (\<lambda>a. sbind (case r of V_num x \<Rightarrow> sbind (make_const L (- x)) node_fragment
      | V_block b \<Rightarrow> negate L b p) (\<lambda>b. zip_op L ''add'' a b p))) (\<lambda>t f. frag_ok (lo_bp t) f)"
    by (rule sound_fragment_bind [OF sound_to_frag [OF assms(1,3)]], rule sound_fragment_bind [OF sub], assumption)
      (rule add)
  have quot: "sound s (sbind (to_frag L l) (\<lambda>a. scale L a x p None)) (\<lambda>t f. frag_ok (lo_bp t) f)" for x
    using assms by (intro sound_fragment_bind [OF sound_to_frag] sound_scale)
  have div: "sound s (sbind (to_frag L l) (\<lambda>a. zip_op L ''div'' a b p)) (\<lambda>t f. frag_ok (lo_bp t) f)"
    if "frag_ok (lo_bp s) b" for b
    using assms that by (intro sound_fragment_bind [OF sound_to_frag] sound_zip_op) (auto intro: steps_ok)
  have mult: "sound s (case (l, r) of (V_block a, V_num x) \<Rightarrow> block (scale L a x p (Some eb))
       | (V_num x, V_block b) \<Rightarrow> block (scale L b x p (Some ea)) | (V_block a, V_block b) \<Rightarrow> block (zip_op L ''mul'' a b p)
       | (V_num x, V_num y) \<Rightarrow> fail p ''unsupported operator'') (\<lambda>t v. value_ok (lo_bp t) v)"
    using assms by (auto split: lvalue.split intro!: sound_block sound_scale sound_zip_op)
  show ?thesis
    using mult sound_block [OF plus] sound_block [OF minus] sound_block [OF quot] sound_block [OF div] assms(4)
    by (cases r) (simp_all add: combine_signals_def)
qed

lemma sound_arith:
  assumes "lower_inv s" and "builtin_ops (lc_reg L)" and "value_ok (lo_bp s) l" and "value_ok (lo_bp s) r"
  shows "sound s (arith L k l r p ea eb) (\<lambda>t v. value_ok (lo_bp t) v)"
proof -
  have "sound s (fold_numbers k x y p) (\<lambda>t v. value_ok (lo_bp t) v)" for x y
    using assms(1) by (simp add: fold_numbers_def)
  then show ?thesis
    using sound_combine [OF assms] by (cases l; cases r) (simp_all add: arith_def)
qed

section \<open>Composition\<close>

text \<open>The result has the inputs of the left block and the outputs of the right one.\<close>

lemma frag_ok_through:
  "frag_ok g a \<Longrightarrow> frag_ok g b \<Longrightarrow> frag_ok g \<lparr>fr_ins = fr_ins a, fr_outs = fr_outs b\<rparr>"
  by (simp add: frag_ok_def)

lemma sound_through:
  assumes "lower_inv s" and "frag_ok (lo_bp s) a" and "frag_ok (lo_bp s) b"
    and "\<And>t. lower_inv t \<Longrightarrow> sound t m (\<lambda>t x. True)"
  shows "sound s (sbind (fail_if c p msg) (\<lambda>_. sbind m (\<lambda>_. sret \<lparr>fr_ins = fr_ins a, fr_outs = fr_outs b\<rparr>)))
    (\<lambda>t f. frag_ok (lo_bp t) f)"
  using assms
  by (intro sound_bind [OF sound_fail_if] sound_bind [OF assms(4)] sound_sret frag_ok_through) (blast intro: steps_ok)+

lemma sound_seq_frags:
  "lower_inv s \<Longrightarrow> frag_ok (lo_bp s) a \<Longrightarrow> frag_ok (lo_bp s) b \<Longrightarrow>
    sound s (seq_frags a b p) (\<lambda>t f. frag_ok (lo_bp t) f)"
  unfolding seq_frags_def Let_def by (rule sound_through) (auto intro: sound_wire_all)

lemma sound_split_frags:
  "lower_inv s \<Longrightarrow> frag_ok (lo_bp s) a \<Longrightarrow> frag_ok (lo_bp s) b \<Longrightarrow>
    sound s (split_frags a b p) (\<lambda>t f. frag_ok (lo_bp t) f)"
  unfolding split_frags_def Let_def by (rule sound_through) (auto intro: sound_wire_all)

lemma sound_merge_input:
  assumes "lower_inv s"
  shows "sound s (merge_input L p grp i) (\<lambda>t x. True)"
  unfolding merge_input_def
  using assms
  by (auto intro!: sound_wire sound_bind [OF sound_make_node] sound_bind [OF sound_wire_all] intro: steps_ok)

lemma sound_merge_frags:
  "lower_inv s \<Longrightarrow> frag_ok (lo_bp s) a \<Longrightarrow> frag_ok (lo_bp s) b \<Longrightarrow>
    sound s (merge_frags L a b p) (\<lambda>t f. frag_ok (lo_bp t) f)"
  unfolding merge_frags_def Let_def
  by (rule sound_through)
    (auto intro!: sound_weaken [OF sound_smap [where Q = "\<lambda>t x. True"]] sound_merge_input intro: steps_ok)

lemma frag_ok_par: "frag_ok g a \<Longrightarrow> frag_ok g b \<Longrightarrow> frag_ok g (par_frags a b)"
  by (simp add: frag_ok_def par_frags_def)
section \<open>Calls\<close>

definition ev_sound :: "evaluator \<Rightarrow> bool" where
  "ev_sound ev \<longleftrightarrow> (\<forall>e env preferred s. lower_inv s \<longrightarrow> env_ok (lo_bp s) env \<longrightarrow>
     sound s (ev e env preferred) (\<lambda>t v. value_ok (lo_bp t) v))"

lemma ev_soundD:
  "ev_sound ev \<Longrightarrow> lower_inv s \<Longrightarrow> env_ok (lo_bp s) env \<Longrightarrow>
    sound s (ev e env preferred) (\<lambda>t v. value_ok (lo_bp t) v)"
  by (simp add: ev_sound_def)

lemma sound_true: "sound s m Q \<Longrightarrow> sound s m (\<lambda>t x. True)"
  by (simp add: sound_def)

lemma sound_eval_number:
  assumes "ev_sound ev" and "lower_inv s" and "env_ok (lo_bp s) env"
  shows "sound s (eval_number ev e env) (\<lambda>t x. True)"
  unfolding eval_number_def
  by (rule sound_bind [OF ev_soundD [OF assms]]) (auto split: lvalue.split dest: step_okD)

lemma sound_eval_fragment:
  assumes "ev_sound ev" and "lower_inv s" and "env_ok (lo_bp s) env"
  shows "sound s (eval_fragment L ev e env) (\<lambda>t f. frag_ok (lo_bp t) f)"
  unfolding eval_fragment_def
  by (rule sound_bind [OF ev_soundD [OF assms]]) (blast intro: sound_to_frag steps_ok)

lemma sound_eval_arg:
  assumes "ev_sound ev" and "lower_inv s" and "env_ok (lo_bp s) env"
  shows "sound s (eval_arg ev env a) (\<lambda>t x. True)"
  using assms(2)
  by (auto simp: eval_arg_def split: expr.split intro!: sound_bind [OF sound_eval_number [OF assms]] sound_sret
      intro: steps_ok)

lemma sound_eval_node_args:
  assumes "ev_sound ev" and "lower_inv s" and "env_ok (lo_bp s) env"
  shows "sound s (eval_node_args ev args env) (\<lambda>t x. True)"
  unfolding eval_node_args_def
  using assms(2)
  by (intro sound_bind [OF sound_smap [where Q = "\<lambda>t x. True"]])
    (auto intro!: sound_eval_arg [OF assms(1)] step_ok_facts(3) [OF _ assms(3)] sound_sret intro: steps_ok)

lemma find_param_Some:
  assumes "find_param g n name = Some i"
  shows "i < params_count (g_nodes g ! n)"
  using assms find_index_Some [of "\<lambda>p. pd_name p = name" "params (g_nodes g ! n)" i]
  by (auto simp: find_param_def split: if_splits)

lemma arg_port_Some: "arg_port s nd pos a = Some i \<Longrightarrow> i < params_count (g_nodes (lo_bp s) ! nd)"
  by (auto simp: arg_port_def Let_def split: if_splits dest: find_param_Some)

lemma sound_bind_arg:
  assumes "lower_inv s" and "nd < bp_size (lo_bp s)"
  shows "sound s (bind_arg nd pos a) (\<lambda>t x. True)"
proof -
  have skip: "sound s (\<lambda>s. Inr ((), s)) (\<lambda>t x. True)" using assms(1) by (simp add: sound_def step_ok_refl)
  have target: "sound s (\<lambda>s. case arg_port s nd pos a of None \<Rightarrow> Inr ((), s) | Some port \<Rightarrow> add_target i nd port x s)
      (\<lambda>t x. True)" for i x
    using sound_add_target [OF assms arg_port_Some] skip
    by (auto simp: sound_def split: option.splits)
  show ?thesis
    using target skip by (auto simp: bind_arg_def sound_def split: expr.splits option.splits)
qed

lemma sound_bind_args:
  "lower_inv s \<Longrightarrow> nd < bp_size (lo_bp s) \<Longrightarrow> sound s (bind_args nd pos args) (\<lambda>t x. True)"
proof (induction args arbitrary: s pos)
  case Nil
  then show ?case by simp
next
  case (Cons a rest)
  show ?case
    unfolding bind_args.simps
    by (rule sound_bind [OF sound_bind_arg [OF Cons.prems]])
      (blast intro: Cons.IH step_okD step_ok_node(1) [OF _ Cons.prems(2)])
qed

lemma sound_bind_rune_params:
  "lower_inv s \<Longrightarrow> nd < bp_size (lo_bp s) \<Longrightarrow> sound s (bind_rune_params args nd) (\<lambda>t x. True)"
  using sound_bind_args [of s nd 0 args] by (auto simp: bind_rune_params_def sound_def step_ok_refl split: if_splits)

lemma sound_call_node: "lower_inv s \<Longrightarrow> sound s (call_node L p name na) (\<lambda>t x. True)"
  by (auto simp: call_node_def split: sum.split exn.split option.split)

lemma sound_make_call:
  assumes "ev_sound ev" and "lower_inv s" and "env_ok (lo_bp s) env"
  shows "sound s (make_call L ev p name args env preferred) (\<lambda>t v. value_ok (lo_bp t) v)"
proof -
  have name: "sound t (if preferred = [] then gen name else sret preferred) (\<lambda>t x. True)" if "lower_inv t" for t
    using that by (auto intro: sound_gen)
  have last: "sound t (sbind (bind_rune_params args idx) (\<lambda>_. block (node_fragment idx))) (\<lambda>t v. value_ok (lo_bp t) v)"
    if "lower_inv t" "idx < bp_size (lo_bp t)" for t idx
    by (rule sound_bind [OF sound_bind_rune_params [OF that]])
      (blast intro: sound_block sound_node_fragment step_okD step_ok_node(1) [OF _ that(2)])
  show ?thesis
    unfolding make_call_def
    by (intro sound_bind [OF sound_eval_node_args [OF assms]] sound_bind [OF sound_call_node] sound_bind [OF name]
        sound_bind [OF sound_add] last) (blast dest: step_okD)+
qed

section \<open>Oversampling\<close>

lemma sound_up_chain:
  assumes "builtin_ops (lc_reg L)" and "lower_inv s" and "out_port (lo_bp s) c \<or> 0 < k"
    and "first = None \<longrightarrow> 0 < k" and "\<forall>u. first = Some u \<longrightarrow> in_port (lo_bp s) (chan_at u 0)"
  shows "sound s (up_chain L p k first c)
    (\<lambda>t (first, c). \<exists>u. first = Some u \<and> in_port (lo_bp t) (chan_at u 0))"
  using assms(2-5)
proof (induction k arbitrary: s first c)
  case 0
  then show ?case by (auto intro: sound_sret)
next
  case (Suc k)
  show ?case
    unfolding up_chain.simps
  proof (rule sound_wired_op [OF Suc.prems(1) assms(1)])
    fix t up
    assume t: "lower_inv t" "step_ok s t" and up: "out_port (lo_bp t) (chan_at up 0)" "in_port (lo_bp t) (chan_at up 0)"
    have w: "sound t (case first of None \<Rightarrow> sret () | Some f \<Rightarrow> wire c (chan_at up 0) p) (\<lambda>t x. True)"
      using t(1) by (auto split: option.split intro: sound_wire)
    show "sound t (sbind (case first of None \<Rightarrow> sret () | Some f \<Rightarrow> wire c (chan_at up 0) p) (\<lambda>_.
      up_chain L p k (case first of None \<Rightarrow> Some up | Some f \<Rightarrow> Some f) (chan_at up 0)))
      (\<lambda>t (first, c). \<exists>u. first = Some u \<and> in_port (lo_bp t) (chan_at u 0))"
    proof (rule sound_bind [OF w])
      fix u
      assume u: "step_ok t u"
      then have "step_ok s u" using t(2) by (blast intro: step_ok_trans)
      then show "sound u (up_chain L p k (case first of None \<Rightarrow> Some up | Some f \<Rightarrow> Some f) (chan_at up 0))
          (\<lambda>t (first, c). \<exists>u. first = Some u \<and> in_port (lo_bp t) (chan_at u 0))"
        using u up Suc.prems(4)
        by (intro Suc.IH) (auto split: option.splits intro: steps_ok)
    qed
  qed simp
qed

lemma sound_down_chain:
  assumes "builtin_ops (lc_reg L)" and "lower_inv s" and "out_port (lo_bp s) c"
  shows "sound s (down_chain L p k c) (\<lambda>t d. out_port (lo_bp t) d)"
  using assms(2,3)
proof (induction k arbitrary: s c)
  case 0
  then show ?case by simp
next
  case (Suc k)
  show ?case
    unfolding down_chain.simps
  proof (rule sound_wired_op [OF Suc.prems(1) assms(1)])
    fix t dn
    assume t: "lower_inv t" "out_port (lo_bp t) (chan_at dn 0)"
    show "sound t (sbind (wire c (chan_at dn 0) p) (\<lambda>_. down_chain L p k (chan_at dn 0)))
        (\<lambda>t d. out_port (lo_bp t) d)"
      by (rule sound_bind [OF sound_wire [OF t(1)]]) (blast intro: Suc.IH steps_ok t(2))
  qed simp
qed

lemma stages_from_pos: "1 < n \<Longrightarrow> 0 < stages_from n 0"
proof -
  have mono: "k \<le> stages_from n k" for k
    by (induction n k rule: stages_from.induct) (subst stages_from.simps, auto)
  show "1 < n \<Longrightarrow> 0 < stages_from n 0"
    using mono [of 1] by (subst stages_from.simps) simp
qed

lemma sound_oversample:
  assumes "builtin_ops (lc_reg L)" and "lower_inv s" and "frag_ok (lo_bp s) f" and "1 \<le> n"
  shows "sound s (oversample L p n f) (\<lambda>t f. frag_ok (lo_bp t) f)"
proof (cases "n = 1")
  case True
  then show ?thesis using assms(2,3) by (simp add: oversample_def)
next
  case False
  then have k: "0 < stages_from n 0" using assms(4) by (intro stages_from_pos) simp
  have down: "sound u (sbind (down_chain L p (stages_from n 0) (hd (fr_outs f))) (\<lambda>d.
      sret \<lparr>fr_ins = [chan_at a 0], fr_outs = [d]\<rparr>)) (\<lambda>t f. frag_ok (lo_bp t) f)"
    if u: "step_ok s u" "in_port (lo_bp u) (chan_at a 0)" and one: "length (fr_outs f) = 1" for u a
  proof -
    have "out_port (lo_bp s) (hd (fr_outs f))"
      using one assms(3) by (cases "fr_outs f") (auto simp: frag_ok_def)
    then have "out_port (lo_bp u) (hd (fr_outs f))" using u(1) by (blast intro: steps_ok)
    from sound_down_chain [OF assms(1) step_okD(1) [OF u(1)] this]
    show ?thesis
      by (rule sound_bind) (auto simp: frag_ok_def intro!: sound_sret intro: step_okD step_ok_facts(5) [OF _ u(2)])
  qed
  have up: "sound t (up_chain L p (stages_from n 0) None (chan_at 0 0))
      (\<lambda>t (first, c). \<exists>u. first = Some u \<and> in_port (lo_bp t) (chan_at u 0))" if "lower_inv t" for t
    using that k by (intro sound_up_chain assms(1)) auto
  have arity: "sound s (fail_if b p m) (\<lambda>t x. \<not> b \<and> step_ok s t)" for b m
    using assms(2) by (simp add: fail_if_def step_ok_refl)
  show ?thesis
    unfolding oversample_def
    using False
    apply simp
    apply (rule sound_bind [OF arity])
    apply (rule sound_bind [OF up], blast intro: steps_ok)
    apply (clarsimp)
    apply (rule sound_bind [OF sound_wire], blast intro: steps_ok)
    apply (rule down)
    apply (meson step_ok_trans)
    apply (meson steps_ok)
    apply simp
    done
qed

lemma sound_eval_over:
  assumes "builtin_ops (lc_reg L)" and "ev_sound ev" and "lower_inv s" and "env_ok (lo_bp s) env"
  shows "sound s (eval_over L ev p args env) (\<lambda>t v. value_ok (lo_bp t) v)"
proof -
  have factor: "sound t (over_factor v) (\<lambda>t x. True)" if "lower_inv t" for t v
    using that by (auto simp: over_factor_def split: option.split)
  have run: "sound s (sbind (eval_number ev (arg_expr a) env) (\<lambda>v. sbind (over_factor v) (\<lambda>n.
      sbind (fail_if (n < 1 \<or> (n AND (n - 1)) \<noteq> 0) p m) (\<lambda>_. sbind (eval_fragment L ev (arg_expr b) env) (\<lambda>f.
          block (oversample L p n f)))))) (\<lambda>t v. value_ok (lo_bp t) v)" for a b m
    apply (rule sound_bind [OF sound_eval_number [OF assms(2-4)]])
    apply (rule sound_bind [OF factor], blast intro: steps_ok)
    apply (rule sound_bind [OF sound_fail_if], blast intro: steps_ok)
    apply (rule sound_fragment_bind [OF sound_eval_fragment [OF assms(2)]])
      apply (blast intro: steps_ok)
    apply (meson step_ok_facts(3) assms(4))
    apply (rule sound_block [OF sound_oversample [OF assms(1)]])
      apply auto
    done
  show ?thesis
    unfolding eval_over_def using run by (auto split: list.split)
qed

section \<open>Statements\<close>

definition scope_ok :: "lowerer \<Rightarrow> scope \<Rightarrow> bool" where
  "scope_ok s sc \<longleftrightarrow> env_ok (lo_bp s) (sc_env sc) \<and> (sc_have_out sc = Some True \<longrightarrow> ''out'' \<in> set (lo_out_order s))"

lemma scope_ok_mono: "step_ok s t \<Longrightarrow> scope_ok s sc \<Longrightarrow> scope_ok t sc"
  by (auto simp: scope_ok_def step_ok_def intro: env_ok_mono)

lemma scope_ok_env: "scope_ok s sc \<Longrightarrow> env_ok (lo_bp s) (sc_env sc)"
  by (simp add: scope_ok_def)

lemma scope_ok_bind: "scope_ok s sc \<Longrightarrow> value_ok (lo_bp s) v \<Longrightarrow> scope_ok s (bind_name x v sc)"
  by (simp add: scope_ok_def bind_name_def env_ok_upd)

lemmas scopes_ok = steps_ok scope_ok_mono scope_ok_env

lemma sound_in_prefix:
  assumes "lower_inv s" and "\<And>t. lower_inv t \<Longrightarrow> lo_bp t = lo_bp s \<Longrightarrow> sound t m (\<lambda>t v. value_ok (lo_bp t) v)"
  shows "sound s (in_prefix name m) (\<lambda>t v. value_ok (lo_bp t) v)"
proof (rule sound_local)
  fix v t
  let ?s = "s\<lparr>lo_prefix := name\<rparr>"
  assume "in_prefix name m s = Inr (v, t)"
  then obtain u where u: "m ?s = Inr (v, u)" and t: "t = u\<lparr>lo_prefix := lo_prefix s\<rparr>"
    by (auto simp: in_prefix_def sbind_Inr_iff)
  have s: "step_ok s ?s" using assms(1) by (intro lower_inv_frame) auto
  have "step_ok ?s u \<and> value_ok (lo_bp u) v"
    using assms(2) [of ?s] u step_okD(1) [OF s] by (simp add: sound_def)
  moreover have "step_ok u t" using calculation by (intro lower_inv_frame) (auto simp: t dest: step_okD)
  ultimately show "step_ok s t \<and> value_ok (lo_bp t) v"
    using s by (auto simp: t intro: step_ok_trans)
qed

lemma sound_bound_value:
  assumes "ev_sound ev" and "lower_inv s" and "env_ok (lo_bp s) env"
  shows "sound s (bound_value L ev qname e env) (\<lambda>t v. value_ok (lo_bp t) v)"
proof -
  have "sound s (in_prefix qname (ev e env '''')) (\<lambda>t v. value_ok (lo_bp t) v)"
    using assms by (intro sound_in_prefix ev_soundD) auto
  then show ?thesis
    using sound_make_call [OF assms] by (auto simp: bound_value_def Let_def split: expr.split)
qed

lemma sound_no_duplicate: "lower_inv s \<Longrightarrow> sound s (no_duplicate sc p name) (\<lambda>t x. True)"
  by (auto simp: no_duplicate_def intro: sound_true sound_fail_if)

lemma sound_do_binding:
  assumes "ev_sound ev" and "lower_inv s" and "scope_ok s sc"
  shows "sound s (do_binding L ev p name e sc) (\<lambda>t sc. scope_ok t sc)"
proof -
  have "sound t (\<lambda>s. bound_value L ev (qualify s name) e (sc_env sc) s) (\<lambda>t v. value_ok (lo_bp t) v)"
    if "step_ok s t" for t
  proof -
    have "sound t (bound_value L ev q e (sc_env sc)) (\<lambda>t v. value_ok (lo_bp t) v)" for q
      using that assms(3) by (intro sound_bound_value assms(1)) (blast intro: scopes_ok)+
    then show ?thesis by (simp add: sound_def)
  qed
  then show ?thesis
    unfolding do_binding_def
    using assms(2,3)
    by (intro sound_bind [OF sound_no_duplicate] sound_bind sound_sret scope_ok_bind) (blast intro: scopes_ok)+
qed

lemma sound_add_input:
  assumes "lower_inv s" and "idx < bp_size (lo_bp s)"
  shows "sound s (add_input name idx) (\<lambda>t x. True)"
proof (rule sound_local)
  fix x t
  assume "add_input name idx s = Inr (x, t)"
  then have t: "t = s\<lparr>lo_bp := snd (add_input_terminal (lo_bp s) name idx)\<rparr>" by (simp add: add_input_def)
  have "step_ok s t"
    using assms blueprint_ok_add_input_terminal [OF _ assms(2), of name]
    by (intro lower_inv_bp [OF assms(1)]) (auto simp: t extends_def lower_inv_def add_input_terminal_def)
  then show "step_ok s t \<and> True" by simp
qed

lemma sound_do_input:
  assumes "ev_sound ev" and "lower_inv s" and "scope_ok s sc"
  shows "sound s (do_input L ev p name args sc) (\<lambda>t sc. scope_ok t sc)"
proof -
  have last: "sound t (sbind (add_input name idx) (\<lambda>_. sbind (node_fragment idx) (\<lambda>f. sret (bind_name name (V_block f) sc))))
      (\<lambda>t sc. scope_ok t sc)" if t: "lower_inv t" "scope_ok t sc" "idx < bp_size (lo_bp t)" for t idx
  proof (rule sound_bind [OF sound_add_input [OF t(1,3)]])
    fix u
    assume u: "step_ok t u"
    show "sound u (sbind (node_fragment idx) (\<lambda>f. sret (bind_name name (V_block f) sc))) (\<lambda>t sc. scope_ok t sc)"
      by (rule sound_fragment_bind [OF sound_node_fragment [OF step_okD(1) [OF u] step_ok_node(1) [OF u t(3)]]])
        (auto intro!: sound_sret scope_ok_bind intro: scope_ok_mono step_ok_trans u t(2))
  qed
  show ?thesis
    unfolding do_input_def
    apply (rule sound_bind [OF sound_no_duplicate [OF assms(2)]])
    apply (rule sound_bind [OF sound_eval_node_args [OF assms(1)]])
      apply (blast intro: scopes_ok assms(3))+
    apply (rule sound_bind [OF sound_reg_node], blast intro: steps_ok)
    apply (rule sound_bind [OF sound_add], blast intro: steps_ok)
    apply (rule last)
      apply (blast intro: scopes_ok assms(3))+
    done
qed

lemma assign_outs_Inr:
  assumes "assign_outs p name idx cs acc s = Inr (outs, t)"
  shows "t = s" and "snd ` set outs = snd ` set acc \<union> set cs"
  using assms
  by (induction p name idx cs acc rule: assign_outs.induct) (auto simp: fail_def set_insort_key split: if_splits)

lemma outs_ok_upd:
  assumes "outs_ok s" and "terminal_ok (lo_bp s) acc" and "lo_bp t = lo_bp s"
    and "lo_out_terminals t = (lo_out_terminals s)(name \<mapsto> acc)" and "set (lo_out_order t) = insert name (set (lo_out_order s))"
  shows "outs_ok t"
  using assms by (auto simp: outs_ok_def)

lemma sound_terminal:
  assumes "lower_inv s" and "cs \<noteq> []" and "\<forall>c \<in> set cs. out_port (lo_bp s) c"
  shows "sound s (sbind (open_terminal name p) (\<lambda>acc. sbind (assign_outs p name base cs (oa_by_index acc)) (\<lambda>outs.
    set_terminal name (acc\<lparr>oa_by_index := outs\<rparr>)))) (\<lambda>t x. name \<in> set (lo_out_order t))"
proof (rule sound_local)
  fix x t
  assume "sbind (open_terminal name p) (\<lambda>acc. sbind (assign_outs p name base cs (oa_by_index acc)) (\<lambda>outs.
    set_terminal name (acc\<lparr>oa_by_index := outs\<rparr>))) s = Inr (x, t)"
  then obtain acc u outs v where u: "open_terminal name p s = Inr (acc, u)"
      and v: "assign_outs p name base cs (oa_by_index acc) u = Inr (outs, v)"
      and t: "set_terminal name (acc\<lparr>oa_by_index := outs\<rparr>) v = Inr (x, t)"
    by (auto simp: sbind_Inr_iff)
  have uv: "v = u" and outs: "snd ` set outs = snd ` set (oa_by_index acc) \<union> set cs"
    using assign_outs_Inr [OF v] by auto
  have acc: "\<forall>ic \<in> set (oa_by_index acc). out_port (lo_bp s) (snd ic)"
    using u assms(1) by (auto simp: open_terminal_def lower_inv_def outs_ok_def terminal_ok_def Let_def split: option.splits)
  have frame: "lo_bp t = lo_bp s" "lo_out_terminals t = (lo_out_terminals s)(name \<mapsto> acc\<lparr>oa_by_index := outs\<rparr>)"
      "set (lo_out_order t) = insert name (set (lo_out_order s))"
    using u t assms(1)
    by (auto simp: uv open_terminal_def set_terminal_def Let_def lower_inv_def outs_ok_def split: option.splits)
  have "out_port (lo_bp s) c" if "c \<in> snd ` set outs" for c using that acc assms(3) by (auto simp: outs)
  then have "terminal_ok (lo_bp s) (acc\<lparr>oa_by_index := outs\<rparr>)"
    using outs assms(2) by (fastforce simp: terminal_ok_def)
  then have "outs_ok t"
    using assms(1) frame by (intro outs_ok_upd [of s _ t]) (auto simp: lower_inv_def)
  then show "step_ok s t \<and> name \<in> set (lo_out_order t)"
    using assms(1) frame by (auto simp: step_ok_def lower_inv_def)
qed

lemma sound_do_out:
  assumes "ev_sound ev" and "lower_inv s" and "scope_ok s sc"
  shows "sound s (do_out L ev p e terminal index sc) (\<lambda>t sc. scope_ok t sc)"
proof -
  let ?name = "if terminal = [] then ''out'' else terminal"
  have last: "sound t (sbind (open_terminal name p) (\<lambda>acc. sbind (assign_outs p name base (fr_outs f) (oa_by_index acc)) (\<lambda>outs.
      sbind (set_terminal name (acc\<lparr>oa_by_index := outs\<rparr>)) (\<lambda>_.
      sret (if name = ''out'' then sc\<lparr>sc_have_out := Some True\<rparr> else sc))))) (\<lambda>t sc. scope_ok t sc)"
    if t: "step_ok s t" "frag_ok (lo_bp t) f" "fr_outs f \<noteq> []" for t f name base
  proof -
    have "sound t (sbind (sbind (open_terminal name p) (\<lambda>acc. sbind (assign_outs p name base (fr_outs f) (oa_by_index acc))
        (\<lambda>outs. set_terminal name (acc\<lparr>oa_by_index := outs\<rparr>)))) (\<lambda>_.
        sret (if name = ''out'' then sc\<lparr>sc_have_out := Some True\<rparr> else sc))) (\<lambda>t sc. scope_ok t sc)"
    proof (rule sound_bind [OF sound_terminal [OF step_okD(1) [OF t(1)] t(3)]])
      show "\<forall>c \<in> set (fr_outs f). out_port (lo_bp t) c" using t(2) by (blast intro: frag_ok_outs)
    next
      fix u :: lowerer
      assume u: "step_ok t u" "name \<in> set (lo_out_order u)"
      have "scope_ok u sc" using assms(3) t(1) u(1) by (blast intro: scopes_ok)
      then show "sound u (sret (if name = ''out'' then sc\<lparr>sc_have_out := Some True\<rparr> else sc)) (\<lambda>t sc. scope_ok t sc)"
        using u step_okD(1) [OF u(1)] by (auto simp: scope_ok_def)
    qed
    then show ?thesis by (simp add: sbind_assoc)
  qed
  have nonempty: "sound t (fail_if b p m) (\<lambda>u x. \<not> b \<and> step_ok t u)" if "lower_inv t" for t b m
    using that by (simp add: fail_if_def step_ok_refl)
  show ?thesis
    unfolding do_out_def Let_def
    apply (rule sound_fragment_bind [OF sound_eval_fragment [OF assms(1,2) scope_ok_env [OF assms(3)]]])
    apply (rule sound_bind [OF nonempty], assumption)
    apply (rule sound_bind [OF sound_fail_if], blast intro: steps_ok)
    apply (rule last)
      apply (meson step_ok_trans)
     apply (blast intro: steps_ok)
    apply blast
    done
qed

lemma sound_attach_param:
  assumes "lower_inv s"
  shows "sound s (attach_param src ni i p) (\<lambda>t x. True)"
proof (rule sound_local)
  fix x t
  assume "attach_param src ni i p s = Inr (x, t)"
  then obtain c where t: "t = s\<lparr>lo_bp := snd (connect_param (lo_bp s) c)\<rparr>"
    by (auto simp: attach_param_def Let_def fail_def split: if_splits)
  have "step_ok s t"
    using assms by (intro lower_inv_bp [OF assms]) (auto simp: t extends_def lower_inv_def intro: blueprint_ok_connect_param)
  then show "step_ok s t \<and> True" by simp
qed

lemma sound_do_modulate:
  assumes "ev_sound ev" and "lower_inv s" and "env_ok (lo_bp s) env"
  shows "sound s (do_modulate L ev p e target env) (\<lambda>t x. True)"
proof -
  have last: "sound t (\<lambda>s. (case find_node (lo_bp s) nd of None \<Rightarrow> fail q m s
      | Some ni \<Rightarrow> (case find_param (lo_bp s) ni port of None \<Rightarrow> fail q (m' ni) s | Some i \<Rightarrow> attach_param c ni i p s)))
      (\<lambda>t x. True)"
    if "lower_inv t" for t nd port q m m' c
    using that sound_attach_param by (auto simp: sound_def fail_def split: option.splits)
  show ?thesis
    unfolding do_modulate_def Let_def
    by (rule sound_fragment_bind [OF sound_eval_fragment [OF assms]], rule sound_bind [OF sound_fail_if], assumption)
      (rule last, blast intro: steps_ok)
qed

lemma sound_do_explicit:
  assumes "ev_sound ev" and "lower_inv s" and "env_ok (lo_bp s) env"
  shows "sound s (do_explicit L ev p e target i env) (\<lambda>t x. True)"
proof -
  have last: "sound t (\<lambda>s. (case find_node (lo_bp s) nd of None \<Rightarrow> fail q m s | Some ni \<Rightarrow> wire c (chan_at ni i) p s))
      (\<lambda>t x. True)"
    if "lower_inv t" for t nd q m c i
    using that sound_wire by (auto simp: sound_def fail_def split: option.splits)
  show ?thesis
    unfolding do_explicit_def
    by (rule sound_fragment_bind [OF sound_eval_fragment [OF assms]], rule sound_bind [OF sound_fail_if], assumption)
      (rule last, blast intro: steps_ok)
qed

definition stmt_ok :: "lowerer \<Rightarrow> lvalue \<times> scope \<Rightarrow> bool" where
  "stmt_ok s r \<longleftrightarrow> value_ok (lo_bp s) (fst r) \<and> scope_ok s (snd r)"

lemma sound_do_stmt:
  assumes "ev_sound ev" and "lower_inv s" and "scope_ok s sc"
  shows "sound s (do_stmt L ev st sc) (\<lambda>t r. stmt_ok t r)"
proof -
  have fin: "sound t (sret (zero_value, sc')) (\<lambda>t r. stmt_ok t r)" if "lower_inv t" "scope_ok t sc'" for t sc'
    using that by (simp add: stmt_ok_def zero_value_def)
  have only: "sound s (rune_only sc p what) (\<lambda>t x. True)" for p what
    unfolding rune_only_def by (rule sound_true [OF sound_fail_if [OF assms(2)]])
  have "sound s (ev e (sc_env sc) '''') (\<lambda>t v. value_ok (lo_bp t) v)" for e
    by (intro ev_soundD assms(1,2) scope_ok_env [OF assms(3)])
  then have expr: "sound s (sbind (ev e (sc_env sc) '''') (\<lambda>v. sret (v, sc))) (\<lambda>t r. stmt_ok t r)" for e
    by (rule sound_bind) (use assms(3) in \<open>auto simp: stmt_ok_def intro!: sound_sret intro: scopes_ok\<close>)
  have env: "env_ok (lo_bp s) (sc_env sc)" using assms(3) by (rule scope_ok_env)
  have unit: "sound s (sbind m (\<lambda>_. sret (zero_value, sc))) (\<lambda>t r. stmt_ok t r)" if "sound s m (\<lambda>t x. True)" for m :: "unit lowering"
    by (rule sound_bind [OF that]) (blast intro: fin scopes_ok assms(3))
  have scope: "sound t (sbind m (\<lambda>sc. sret (zero_value, sc))) (\<lambda>t r. stmt_ok t r)" if "sound t m (\<lambda>t sc. scope_ok t sc)" for t m
    by (rule sound_bind [OF that]) (blast intro: fin scopes_ok)
  show ?thesis
    unfolding do_stmt_def
    apply (cases st; simp only: stmt.case)
         apply (rule scope, rule sound_do_binding [OF assms])
        apply (rule expr)
       apply (rule unit, rule sound_do_modulate [OF assms(1,2) env])
      apply (rule unit, rule sound_do_explicit [OF assms(1,2) env])
     apply (rule sound_bind [OF only], rule scope, rule sound_do_input [OF assms(1)])
      apply (blast intro: scopes_ok assms(3))+
    apply (rule sound_bind [OF only], rule scope, rule sound_do_out [OF assms(1)])
     apply (blast intro: scopes_ok assms(3))+
    done
qed

lemma sound_do_stmts:
  assumes "ev_sound ev"
  shows "lower_inv s \<Longrightarrow> value_ok (lo_bp s) v \<Longrightarrow> scope_ok s sc \<Longrightarrow>
    sound s (do_stmts L ev sts v sc) (\<lambda>t r. stmt_ok t r)"
proof (induction sts arbitrary: s v sc)
  case Nil
  then show ?case by (simp add: stmt_ok_def)
next
  case (Cons st sts)
  show ?case
    unfolding do_stmts.simps
    by (rule sound_bind [OF sound_do_stmt [OF assms Cons.prems(1,3)]])
      (rule Cons.IH, auto simp: stmt_ok_def dest: step_okD)
qed

section \<open>Expressions\<close>

lemma sound_bind_sigil_params:
  assumes "ev_sound ev" and "env_ok (lo_bp s) env"
  shows "lower_inv s \<Longrightarrow> scope_ok s sc \<Longrightarrow>
    sound s (bind_sigil_params ev p name args env i ps sc) (\<lambda>t sc. scope_ok t sc)"
  using assms(2)
proof (induction ps arbitrary: s i sc)
  case Nil
  then show ?case by simp
next
  case (Cons q qs)
  have "sound s (sbind (ev e env '''') (\<lambda>v. bind_sigil_params ev p name args env (i + 1) qs (bind_name (rp_name q) v sc)))
      (\<lambda>t sc. scope_ok t sc)" for e
  proof (rule sound_bind [OF ev_soundD [OF assms(1) Cons.prems(1,3)]])
    fix v t
    assume t: "step_ok s t" "value_ok (lo_bp t) v"
    then show "sound t (bind_sigil_params ev p name args env (i + 1) qs (bind_name (rp_name q) v sc)) (\<lambda>t sc. scope_ok t sc)"
      by (intro Cons.IH scope_ok_bind) (blast intro: scopes_ok Cons.prems)+
  qed
  then show ?case by (simp split: option.split)
qed

lemma sigil_scope_ok: "scope_ok s sigil_scope"
  by (simp add: scope_ok_def sigil_scope_def env_ok_def)

lemma sound_eval_sigil:
  assumes "ev_sound ev" and "lower_inv s" and "env_ok (lo_bp s) env"
  shows "sound s (eval_sigil L ev p name args env sig) (\<lambda>t v. value_ok (lo_bp t) v)"
proof -
  have last: "sound t (sbind (fail_if b q m) (\<lambda>_. sret (fst r))) (\<lambda>t v. value_ok (lo_bp t) v)"
    if "lower_inv t" "stmt_ok t r" for t b q m and r :: "lvalue \<times> scope"
    using that(2) by (intro sound_bind [OF sound_fail_if [OF that(1)]]) (auto simp: stmt_ok_def intro!: sound_sret intro: steps_ok)
  have body: "sound t (sbind (do_stmts L ev body zero_value sc) (\<lambda>r. sbind (fail_if b q m) (\<lambda>_. sret (fst r))))
      (\<lambda>t v. value_ok (lo_bp t) v)" if "lower_inv t" "scope_ok t sc" for t body sc b q m
    using that by (intro sound_bind [OF sound_do_stmts [OF assms(1)]] last) (auto simp: zero_value_def dest: step_okD)
  show ?thesis
    unfolding eval_sigil_def
    by (rule sound_bind [OF sound_bind_sigil_params [OF assms(1,3,2) sigil_scope_ok] body]) (blast intro: scopes_ok)+
qed

lemma sound_use_name:
  assumes "lower_inv s" and "value_ok (lo_bp s) v"
  shows "sound s (use_name x v) (\<lambda>t v. value_ok (lo_bp t) v)"
proof (rule sound_local)
  fix w t
  assume u: "use_name x v s = Inr (w, t)"
  then have "step_ok s t" by (intro lower_inv_frame [OF assms(1)]) (auto simp: use_name_def)
  then show "step_ok s t \<and> value_ok (lo_bp t) w" using u assms(2) by (auto simp: use_name_def)
qed

lemma sound_eval_ident:
  assumes "lower_inv s" and "env_ok (lo_bp s) env"
  shows "sound s (eval_ident L p x env) (\<lambda>t v. value_ok (lo_bp t) v)"
  using assms
  by (auto simp: eval_ident_def make_wire_def make_cut_def env_ok_def split: option.split
      intro!: sound_use_name sound_block sound_make_fragment)

lemma sound_eval_select:
  assumes "lower_inv s" and "frag_ok (lo_bp s) f"
  shows "sound s (eval_select f i p) (\<lambda>t v. value_ok (lo_bp t) v)"
  using assms by (auto simp: eval_select_def frag_ok_def list_all_length)

lemma sound_eval_both:
  assumes "ev_sound ev" and "lower_inv s" and "env_ok (lo_bp s) env"
    and "\<And>t fa fb. lower_inv t \<Longrightarrow> frag_ok (lo_bp t) fa \<Longrightarrow> frag_ok (lo_bp t) fb \<Longrightarrow>
      sound t (f fa fb) (\<lambda>t f. frag_ok (lo_bp t) f)"
  shows "sound s (eval_both L ev a b env f) (\<lambda>t v. value_ok (lo_bp t) v)"
  unfolding eval_both_def
  by (rule sound_fragment_bind [OF sound_eval_fragment [OF assms(1-3)]],
      rule sound_fragment_bind [OF sound_eval_fragment [OF assms(1)]])
    (blast intro: sound_block assms(3,4) steps_ok)+

lemma sound_eval_binary:
  assumes "builtin_ops (lc_reg L)" and "ev_sound ev" and "lower_inv s" and "env_ok (lo_bp s) env"
  shows "sound s (eval_binary L ev p k a b env) (\<lambda>t v. value_ok (lo_bp t) v)"
proof -
  have arith: "sound s (sbind (ev a env '''') (\<lambda>l. sbind (ev b env '''') (\<lambda>r. arith L k l r p a b))) (\<lambda>t v. value_ok (lo_bp t) v)"
    by (rule sound_bind [OF ev_soundD [OF assms(2-4)]], rule sound_bind [OF ev_soundD [OF assms(2)]])
      (blast intro: sound_arith assms(1,4) steps_ok)+
  show ?thesis
    unfolding eval_binary_def
    using arith
    by (auto intro!: sound_eval_both [OF assms(2-4)] sound_seq_frags sound_split_frags sound_merge_frags
        sound_sret frag_ok_par)
qed

lemma sound_eval_step:
  assumes "builtin_ops (lc_reg L)" and "ev_sound ev"
  shows "ev_sound (eval_step L ev)"
  unfolding ev_sound_def
proof (intro allI impI)
  fix e env preferred s
  assume s: "lower_inv s" "env_ok (lo_bp s) env"
  have call: "sound s (eval_call L ev p name args env preferred) (\<lambda>t v. value_ok (lo_bp t) v)" for p name args
    using sound_eval_over [OF assms s] sound_eval_sigil [OF assms(2) s] sound_make_call [OF assms(2) s]
    by (auto simp: eval_call_def split: option.split)
  have neg: "sound s (sbind (ev a env '''') (\<lambda>v. case v of V_num x \<Rightarrow> sret (V_num (- x)) | V_block f \<Rightarrow> block (negate L f p)))
      (\<lambda>t v. value_ok (lo_bp t) v)" for a p
    by (rule sound_bind [OF ev_soundD [OF assms(2) s]])
      (auto split: lvalue.split intro!: sound_sret sound_block sound_negate assms(1) intro: steps_ok)
  have sel: "sound s (sbind (eval_fragment L ev a env) (\<lambda>f. eval_select f i p)) (\<lambda>t v. value_ok (lo_bp t) v)" for a i p
    by (rule sound_fragment_bind [OF sound_eval_fragment [OF assms(2) s] sound_eval_select])
  show "sound s (eval_step L ev e env preferred) (\<lambda>t v. value_ok (lo_bp t) v)"
    unfolding eval_step_def
    using call neg sel sound_eval_ident [OF s] sound_eval_binary [OF assms s] s(1)
    by (cases e) simp_all
qed

lemma ev_sound_expr:
  assumes "builtin_ops (lc_reg L)"
  shows "ev_sound (eval_expr L n)"
proof (induction n)
  case 0
  then show ?case by (simp add: ev_sound_def sound_def)
next
  case (Suc n)
  then show ?case using sound_eval_step [OF assms] by simp
qed

section \<open>Runes\<close>

lemma sound_add_rune_param:
  assumes "lower_inv s"
  shows "sound s (add_rune_param name v) (\<lambda>t x. True)"
proof (rule sound_local)
  fix x t
  let ?ps = "g_params (lo_bp s) @ [\<lparr>bpp_name = name, bpp_default = v, bpp_targets = [], bpp_partial = False\<rparr>]"
  assume "add_rune_param name v s = Inr (x, t)"
  then have t: "t = s\<lparr>lo_rune_params := insert name (lo_rune_params s), lo_bp := (lo_bp s)\<lparr>g_params := ?ps\<rparr>\<rparr>"
    by (simp add: add_rune_param_def)
  have "blueprint_ok ((lo_bp s)\<lparr>g_params := ?ps\<rparr>)"
    using assms by (intro blueprint_ok_params) (auto simp: lower_inv_def blueprint_ok_def targets_ok_def bp_size_def)
  then have "step_ok s t"
    using assms by (intro lower_inv_bp [OF assms, of "(lo_bp s)\<lparr>g_params := ?ps\<rparr>"]) (auto simp: t extends_def lower_inv_def)
  then show "step_ok s t \<and> True" by simp
qed

lemma sound_bind_params:
  assumes "ev_sound ev"
  shows "lower_inv s \<Longrightarrow> scope_ok s sc \<Longrightarrow> sound s (bind_params ev ps sc) (\<lambda>t sc. scope_ok t sc)"
proof (induction ps arbitrary: s sc)
  case Nil
  then show ?case by simp
next
  case (Cons q qs)
  have bound: "scope_ok t (bind_name x (V_num v) sc)" if "step_ok s t" for t x v
    using that Cons.prems(2) by (intro scope_ok_bind) (auto intro: scope_ok_mono)
  have "sound s (sbind (eval_number ev e (sc_env sc)) (\<lambda>v. sbind (add_rune_param (rp_name q) v) (\<lambda>_.
      bind_params ev qs (bind_name (rp_name q) (V_num v) sc)))) (\<lambda>t sc. scope_ok t sc)" for e
    by (rule sound_bind [OF sound_eval_number [OF assms Cons.prems(1) scope_ok_env [OF Cons.prems(2)]]],
        rule sound_bind [OF sound_add_rune_param], erule step_okD, rule Cons.IH)
      (blast intro: steps_ok bound step_ok_trans)+
  then show ?case by (simp split: option.split)
qed

lemma fresh_lowerer_inv: "lower_inv fresh_lowerer"
  by (simp add: lower_inv_def fresh_lowerer_def outs_ok_def blueprint_ok_empty)
     (simp add: empty_blueprint_def)

lemma rune_scope_ok: "scope_ok s rune_scope"
  by (simp add: scope_ok_def rune_scope_def env_ok_def)

lemma out_sources_ok:
  assumes "\<forall>ic \<in> set acc. out_port g (snd ic)" and "s \<in> set (out_sources acc)"
  shows "source_ok g s"
proof -
  obtain i where "s = (case map_of acc i of Some c \<Rightarrow> \<lparr>ts_node = ch_node c, ts_ch = ch_ch c, ts_silent = False\<rparr>
      | None \<Rightarrow> \<lparr>ts_node = 0, ts_ch = 0, ts_silent = True\<rparr>)"
    using assms(2) by (auto simp: out_sources_def)
  moreover have "out_port g c" if "map_of acc i = Some c" for c using assms(1) map_of_SomeD [OF that] by auto
  ultimately show ?thesis by (auto simp: source_ok_def out_port_def split: option.splits)
qed

text \<open>Adding one terminal; \<open>h\<close> has the nodes of \<open>g\<close>.\<close>

lemma finalize_terminal_ok:
  assumes "blueprint_ok g" and "g_nodes g = g_nodes h" and "ts name = Some acc" and "terminal_ok h acc"
  shows "blueprint_ok (finalize_terminal ts name g)" and "g_nodes (finalize_terminal ts name g) = g_nodes h"
    and "g_output_terminals (finalize_terminal ts name g) = g_output_terminals g @
      [\<lparr>t_name = name, t_node = ts_node (hd (out_sources (oa_by_index acc))), t_channels = out_sources (oa_by_index acc)\<rparr>]"
    and "out_sources (oa_by_index acc) \<noteq> []"
proof -
  let ?src = "out_sources (oa_by_index acc)"
  let ?t = "\<lparr>t_name = name, t_node = ts_node (hd ?src), t_channels = ?src\<rparr>"
  show ne: "?src \<noteq> []" using assms(4) by (simp add: terminal_ok_def out_sources_def)
  have add: "snd (add_output_terminal_chans g name ?src) = g\<lparr>g_output_terminals := g_output_terminals g @ [?t]\<rparr>"
    using ne by (cases ?src) (simp_all add: add_output_terminal_chans_def)
  have "\<forall>s \<in> set ?src. source_ok g s"
    using out_sources_ok [of "oa_by_index acc" g] assms(2,4)
    by (auto simp: terminal_ok_def out_port_def bp_size_def)
  then have "blueprint_ok (g\<lparr>g_input_terminals := g_input_terminals g, g_output_terminals := g_output_terminals g @ [?t]\<rparr>)"
    using assms(1) ne by (intro blueprint_ok_set_terminals) (auto simp: blueprint_ok_def terminals_ok_def)
  then have ok: "blueprint_ok (snd (add_output_terminal_chans g name ?src))" by (simp add: add)
  then show "blueprint_ok (finalize_terminal ts name g)"
    using assms(3) by (auto simp: finalize_terminal_def Let_def)
  show "g_nodes (finalize_terminal ts name g) = g_nodes h"
    using assms(2,3) add by (auto simp: finalize_terminal_def Let_def)
  show "g_output_terminals (finalize_terminal ts name g) = g_output_terminals g @ [?t]"
    using assms(3) add by (auto simp: finalize_terminal_def Let_def)
qed

text \<open>A terminal of the name with at least one channel.\<close>

definition has_output :: "graph_blueprint \<Rightarrow> string \<Rightarrow> bool" where
  "has_output g name \<longleftrightarrow> (\<exists>t \<in> set (g_output_terminals g). t_name t = name \<and> t_channels t \<noteq> [])"

lemma finalize_ok:
  assumes "\<forall>name \<in> set names. \<exists>acc. ts name = Some acc \<and> terminal_ok h acc"
    and "blueprint_ok g" and "g_nodes g = g_nodes h"
  shows "blueprint_ok (fold (finalize_terminal ts) names g) \<and>
    (\<forall>name. has_output g name \<or> name \<in> set names \<longrightarrow> has_output (fold (finalize_terminal ts) names g) name)"
  using assms
proof (induction names arbitrary: g)
  case Nil
  then show ?case by simp
next
  case (Cons name names)
  obtain acc where acc: "ts name = Some acc" "terminal_ok h acc" using Cons.prems(1) by auto
  note new = finalize_terminal_ok [where ts = ts and name = name, OF Cons.prems(2,3) acc]
  have "has_output g x \<or> x = name \<Longrightarrow> has_output (finalize_terminal ts name g) x" for x
    using new(3,4) by (auto simp: has_output_def)
  then show ?case using Cons.IH [OF _ new(1,2)] Cons.prems(1) by simp
qed

lemma mark_partial_ok:
  assumes "blueprint_ok (lo_bp s)"
  shows "blueprint_ok (lo_bp (mark_partial s))"
    and "g_output_terminals (lo_bp (mark_partial s)) = g_output_terminals (lo_bp s)"
proof -
  let ?ps = "map (\<lambda>p. p\<lparr>bpp_partial := lo_direct_uses s (bpp_name p) < lo_uses s (bpp_name p)\<rparr>) (g_params (lo_bp s))"
  have "targets_ok ((lo_bp s)\<lparr>g_params := ?ps\<rparr>)"
    using assms by (auto simp: blueprint_ok_def targets_ok_def bp_size_def)
  then show "blueprint_ok (lo_bp (mark_partial s))"
    using assms by (simp add: mark_partial_def blueprint_ok_params)
  show "g_output_terminals (lo_bp (mark_partial s)) = g_output_terminals (lo_bp s)"
    by (simp add: mark_partial_def)
qed

lemma lower_rune_ok:
  assumes "builtin_ops (lc_reg L)" and "lower_rune L n r = Inr g"
  shows "blueprint_ok g \<and> has_output g ''out''"
proof -
  let ?body = "sbind (bind_params (eval_expr L n) (rd_params r) rune_scope) (\<lambda>sc.
      do_stmts L (eval_expr L n) (rd_body r) zero_value sc)"
  note ev = ev_sound_expr [OF assms(1), of n]
  have "sound fresh_lowerer ?body (\<lambda>t vs. stmt_ok t vs)"
    by (rule sound_bind [OF sound_bind_params [OF ev fresh_lowerer_inv rune_scope_ok]], rule sound_do_stmts [OF ev])
      (auto simp: zero_value_def dest: step_okD)
  moreover obtain vs s where s: "?body fresh_lowerer = Inr (vs, s)"
      and out: "sc_have_out (snd vs) = Some True" and g: "g = lo_bp (mark_partial (finalize_outputs s))"
    using assms(2) by (auto simp: lower_rune_def Let_def res_bind_Inr_iff split: if_splits)
  ultimately have inv: "lower_inv s" and sc: "scope_ok s (snd vs)"
    by (auto simp: sound_def stmt_ok_def dest: step_okD)
  have "\<forall>name \<in> set (lo_out_order s). \<exists>acc. lo_out_terminals s name = Some acc \<and> terminal_ok (lo_bp s) acc"
    using inv by (auto simp: lower_inv_def outs_ok_def)
  from finalize_ok [OF this, of "lo_bp s"] inv sc out
  have f: "blueprint_ok (lo_bp (finalize_outputs s)) \<and> has_output (lo_bp (finalize_outputs s)) ''out''"
    by (simp add: finalize_outputs_def lower_inv_def scope_ok_def)
  then show ?thesis using mark_partial_ok [of "finalize_outputs s"] by (simp add: g has_output_def)
qed

lemma lower_runes_ok:
  assumes "builtin_ops (lc_reg L)" and "lower_runes L n rs res = Inr res'"
    and "\<forall>lb \<in> set (lr_blueprints res). blueprint_ok (lb_bp lb) \<and> has_output (lb_bp lb) ''out''"
  shows "(\<forall>lb \<in> set (lr_blueprints res'). blueprint_ok (lb_bp lb) \<and> has_output (lb_bp lb) ''out'') \<and>
    length (lr_blueprints res') + length (lr_diags res') = length (lr_blueprints res) + length (lr_diags res) + length rs"
  using assms(2,3)
proof (induction rs arbitrary: res)
  case Nil
  then show ?case by simp
next
  case (Cons r rs)
  show ?case
  proof (cases "lower_rune L n r")
    case (Inl e)
    then obtain d where "e = L_diag d" using Cons.prems(1) by (cases e) auto
    then show ?thesis using Cons.IH [of "res\<lparr>lr_diags := lr_diags res @ [d]\<rparr>"] Cons.prems Inl by simp
  next
    case (Inr g)
    then show ?thesis
      using Cons.IH [of "res\<lparr>lr_blueprints := lr_blueprints res @ [\<lparr>lb_name = rd_name r, lb_bp = g\<rparr>]\<rparr>"]
        Cons.prems lower_rune_ok [OF assms(1) Inr] by simp
  qed
qed

section \<open>Properties\<close>

text \<open>C5: Lowering is type correct: every blueprint it delivers is well formed (connections, modulations, rune
  parameter targets and terminals name nodes and channels that exist, and no input has two drivers) and has an
  output terminal \<open>out\<close> with at least one channel; each rune gives one blueprint or one diagnostic.  The
  registry is any whose arithmetic nodes and resamplers have the ports that the lowering uses.\<close>

theorem lowering_sound:
  assumes "lower n prog reg = Inr res" and "builtin_ops reg"
  shows "(\<forall>lb \<in> set (lr_blueprints res). blueprint_ok (lb_bp lb) \<and> has_output (lb_bp lb) ''out'') \<and>
    length (lr_blueprints res) + length (lr_diags res) = length (pg_runes prog)"
  using lower_runes_ok [OF _ assms(1) [unfolded lower_def]] assms(2) by (simp add: lower_ctx_of_def)

text \<open>The program \<open>rune r(amp = 1) out sine * amp end\<close>.\<close>

definition small_program :: program where
  "small_program =
    \<lparr>pg_runes = [\<lparr>rd_name = ''r'',
       rd_params = [\<lparr>rp_name = ''amp'', rp_default = Some (E_number (1, 14) (f64_of_int 1)), rp_pos = (1, 8)\<rparr>],
       rd_body = [S_out (2, 3) (E_binary (2, 12) T_Star (E_ident (2, 7) ''sine'') (E_ident (2, 14) ''amp'')) '''' (- 1)],
       rd_pos = (1, 1)\<rparr>],
     pg_sigils = []\<rparr>"

lemma small_program_lowers:
  "case lower 4 small_program standard_registry of Inl e \<Rightarrow> False | Inr res \<Rightarrow> length (lr_blueprints res) = 1"
  by code_simp

theorem lowering_sound_witness:
  "\<exists>res. lower 4 small_program standard_registry = Inr res \<and> length (lr_blueprints res) = 1 \<and>
    (\<forall>lb \<in> set (lr_blueprints res). blueprint_ok (lb_bp lb) \<and> has_output (lb_bp lb) ''out'')"
proof -
  obtain res where res: "lower 4 small_program standard_registry = Inr res" "length (lr_blueprints res) = 1"
    using small_program_lowers by (auto split: sum.splits)
  from lowering_sound [OF res(1) builtin_ops_standard] res show ?thesis by auto
qed

end
