(* ===== verification/Faust.thy ===== *)
theory Faust
  imports Lower_Facts Json_Facts "HOL-Library.AList"
begin

text \<open>
  Hosting Faust programs: \<open>include/xrune/node/faust/\<close>, \<open>src/node/faust_lib.cpp\<close> and
  \<open>include/xrune/lang/faust_registry.hpp\<close>.  The Faust compiler is not in the repository; it is the
  parameter \<open>cc\<close> (source, whether it is a file name, options), and what a compiled program says of
  itself (channels and user interface) is the parameter \<open>meta\<close>.
\<close>

section \<open>The port list of a hosted program\<close>

record dsp_meta =
  dm_inputs :: nat
  dm_outputs :: nat
  dm_params :: "(string \<times> f64 \<times> f64 \<times> f64) list"

text \<open>The name of a port is what follows the last slash of its address.\<close>

definition port_name :: "string \<Rightarrow> string" where
  "port_name addr = rev (takeWhile (\<lambda>c. c \<noteq> CHR ''/'') (rev addr))"

fun port_of :: "string \<times> f64 \<times> f64 \<times> f64 \<Rightarrow> port_descriptor" where
  "port_of (addr, init, lo, hi) = \<lparr>pd_name = port_name addr, pd_default = init, pd_min = lo, pd_max = hi\<rparr>"

text \<open>The state of a voice is four pointers; a hosted node reports no type name and no configuration.\<close>

definition init_meta :: "dsp_meta \<Rightarrow> hosted" where
  "init_meta d = \<lparr>h_type = ''node'', h_inputs = dm_inputs d, h_outputs = dm_outputs d,
     h_ports = map port_of (dm_params d), h_config = [], h_rate_num = 1, h_rate_den = 1, h_block_num = 1,
     h_block_den = 1, h_state_size = 32, h_state_align = 8\<rparr>"

definition clamp_default :: "f64 \<Rightarrow> port_descriptor \<Rightarrow> port_descriptor" where
  "clamp_default v p = p\<lparr>pd_default := f64_clamp v (pd_min p) (pd_max p)\<rparr>"

definition set_port_default_index :: "nat \<Rightarrow> f64 \<Rightarrow> hosted \<Rightarrow> hosted" where
  "set_port_default_index i v h =
    (if i < length (h_ports h) then h\<lparr>h_ports := (h_ports h)[i := clamp_default v (h_ports h ! i)]\<rparr> else h)"

definition set_port_default :: "string \<Rightarrow> f64 \<Rightarrow> hosted \<Rightarrow> hosted" where
  "set_port_default name v h =
    (case find_index (\<lambda>p. pd_name p = name) (h_ports h) of
      None \<Rightarrow> h
    | Some i \<Rightarrow> h\<lparr>h_ports := (h_ports h)[i := clamp_default v (h_ports h ! i)]\<rparr>)"

definition apply_faust_args :: "node_args \<Rightarrow> hosted \<Rightarrow> hosted" where
  "apply_faust_args a h =
    foldl (\<lambda>h (k, v). set_port_default k (arg_number v) h)
      (foldl (\<lambda>h (i, v). set_port_default_index i (arg_number v) h) h
        (zip [0..<length (na_positional a)] (na_positional a)))
      (na_named a)"

section \<open>The state of a voice\<close>

text \<open>What the generated code does: a fresh program, its initialisation at a sample rate, the zone behind a port,
  and one block of sound.\<close>

record 'd dsp_code =
  dc_new :: 'd
  dc_init :: "int \<Rightarrow> 'd \<Rightarrow> 'd"
  dc_set :: "nat \<Rightarrow> f64 \<Rightarrow> 'd \<Rightarrow> 'd"
  dc_compute :: "nat \<Rightarrow> f64 list list \<Rightarrow> 'd \<Rightarrow> f64 list list \<times> 'd"

text \<open>Four pointers: the program, its user interface, and the two tables of channel pointers, of which the model
  keeps the length.\<close>

record 'd faust_instance_state =
  fi_dsp :: "'d option"
  fi_ui :: "unit option"
  fi_ins :: "nat option"
  fi_outs :: "nat option"

definition faust_init_state :: "'d faust_instance_state" where
  "faust_init_state = \<lparr>fi_dsp = None, fi_ui = None, fi_ins = None, fi_outs = None\<rparr>"

definition faust_setup_state :: "'d dsp_code \<Rightarrow> hosted \<Rightarrow> nat \<Rightarrow> 'd faust_instance_state \<Rightarrow> 'd faust_instance_state" where
  "faust_setup_state dc h sample_rate st =
    st\<lparr>fi_dsp := Some (dc_init dc (sint (word_of_nat sample_rate :: 32 word)) (dc_new dc)), fi_ui := Some (),
      fi_ins := (if h_inputs h = 0 then None else Some (h_inputs h)),
      fi_outs := (if h_outputs h = 0 then None else Some (h_outputs h))\<rparr>"

definition faust_destroy_state :: "'d faust_instance_state \<Rightarrow> 'd faust_instance_state" where
  "faust_destroy_state st = st\<lparr>fi_dsp := None, fi_ui := None, fi_ins := None, fi_outs := None\<rparr>"

text \<open>Ports are read once per block; a voice that was never set up is silent.\<close>

definition faust_process :: "'d dsp_code \<Rightarrow> hosted \<Rightarrow> nat \<Rightarrow> f64 list list \<Rightarrow> param_view list
    \<Rightarrow> 'd faust_instance_state \<Rightarrow> f64 list list \<times> 'd faust_instance_state" where
  "faust_process dc h block_size inputs ctl st =
    (case fi_dsp st of
      None \<Rightarrow> (replicate (h_outputs h) (replicate block_size f64_zero), st)
    | Some d \<Rightarrow>
        (let d1 = fold (\<lambda>i d. dc_set dc i (pv_first (ctl ! i)) d) [0..<length (h_ports h)] d;
             (outs, d2) = dc_compute dc block_size (take (h_inputs h) inputs) d1
         in (outs, st\<lparr>fi_dsp := Some d2\<rparr>)))"

text \<open>Whatever a voice played, tearing it down gives back the null state, and from there it is silent.\<close>

lemma faust_destroy_null [simp]: "faust_destroy_state st = (faust_init_state :: 'd faust_instance_state)"
  by (cases st) (simp add: faust_destroy_state_def faust_init_state_def)

lemma faust_process_dead:
  "faust_process dc h n inputs ctl (faust_destroy_state st)
    = (replicate (h_outputs h) (replicate n f64_zero), faust_init_state)"
  by (simp add: faust_process_def) (simp add: faust_init_state_def)

text \<open>A block keeps the voice set up: only tearing down frees.\<close>

lemma faust_process_keeps:
  "(fi_dsp (snd (faust_process dc h n inputs ctl st)) = None) = (fi_dsp st = None)"
  by (simp add: faust_process_def split: option.splits prod.splits)

section \<open>Compiling\<close>

type_synonym 'f compiler = "string \<Rightarrow> bool \<Rightarrow> string list \<Rightarrow> (string, 'f) result"

function split_words :: "string \<Rightarrow> string list" where
  "split_words s =
    (case dropWhile is_space s of
      [] \<Rightarrow> []
    | c # r \<Rightarrow> (c # takeWhile (\<lambda>x. \<not> is_space x) r) # split_words (dropWhile (\<lambda>x. \<not> is_space x) r))"
  by pat_completeness auto
termination
proof (relation "measure length")
  fix s c and r :: string
  assume "dropWhile is_space s = c # r"
  then have "length (c # r) \<le> length s" by (metis length_dropWhile_le)
  then show "(dropWhile (\<lambda>x. \<not> is_space x) r, s) \<in> measure length"
    using length_dropWhile_le [of "\<lambda>x. \<not> is_space x" r] by simp
qed simp

declare split_words.simps [simp del]

definition double_option :: string where
  "double_option = ''-double''"

definition factory_options :: "string \<Rightarrow> string list" where
  "factory_options opts =
    (let toks = split_words opts in if double_option \<in> set toks then toks else toks @ [double_option])"

definition faust_factory :: "'f compiler \<Rightarrow> string \<Rightarrow> bool \<Rightarrow> string \<Rightarrow> (exn, 'f) result" where
  "faust_factory cc code is_file opts =
    (case cc code is_file (factory_options opts) of
      Inl err \<Rightarrow> Inl (Exn_throw (''faust compile failed: '' @ err))
    | Inr f \<Rightarrow> Inr f)"

definition faust_jit :: "('f \<Rightarrow> dsp_meta) \<Rightarrow> 'f \<Rightarrow> node" where
  "faust_jit meta f = Hosted (init_meta (meta f))"

text \<open>A Faust program as a word of the language.\<close>

definition faust_word :: "('f \<Rightarrow> dsp_meta) \<Rightarrow> 'f \<Rightarrow> factory" where
  "faust_word meta f = (\<lambda>args. Inr (Some (Hosted (apply_faust_args args (init_meta (meta f))))))"

definition register_faust :: "'f compiler \<Rightarrow> ('f \<Rightarrow> dsp_meta) \<Rightarrow> string \<Rightarrow> string \<Rightarrow> bool \<Rightarrow> string
    \<Rightarrow> node_registry \<Rightarrow> (exn, node_registry) result" where
  "register_faust cc meta name code is_file opts reg =
    res_bind (faust_factory cc code is_file opts) (\<lambda>f. Inr (reg_add reg name (faust_word meta f) []))"

definition register_faust_file :: "'f compiler \<Rightarrow> ('f \<Rightarrow> dsp_meta) \<Rightarrow> string \<Rightarrow> string \<Rightarrow> string
    \<Rightarrow> node_registry \<Rightarrow> (exn, node_registry) result" where
  "register_faust_file cc meta name path opts = register_faust cc meta name path True opts"

text \<open>A generated class needs no compiler; \<open>meta\<close> is what the class says of itself.\<close>

definition register_faust_static :: "dsp_meta \<Rightarrow> string \<Rightarrow> node_registry \<Rightarrow> node_registry" where
  "register_faust_static d name reg = reg_add reg name (faust_word (\<lambda>_ :: unit. d) ()) []"

section \<open>The index of the Faust libraries\<close>

record faustlib_param =
  fp_name :: string
  fp_doc :: string
  fp_is_const :: bool
  fp_from_test :: bool
  fp_default :: f64
  fp_min :: f64
  fp_max :: f64
  fp_step :: f64

record faustlib_function =
  ff_name :: string
  ff_lib :: string
  ff_params :: "faustlib_param list"

type_synonym faustlib_index = "(string \<times> faustlib_function) list"

definition index_find :: "faustlib_index \<Rightarrow> string \<Rightarrow> faustlib_function option" where
  "index_find idx name = map_of idx name"

definition json_flag :: "json \<Rightarrow> string \<Rightarrow> bool" where
  "json_flag p key = (case json_find p key of Some (J_boolean b) \<Rightarrow> b | _ \<Rightarrow> False)"

fun is_object :: "json \<Rightarrow> bool" where
  "is_object (J_object kvs) = True"
| "is_object v = False"

definition param_of_json :: "json \<Rightarrow> faustlib_param option" where
  "param_of_json p =
    (if \<not> is_object p then None
     else if json_text p ''name'' [] = [] then None
     else Some \<lparr>fp_name = json_text p ''name'' [], fp_doc = json_text p ''doc'' [],
       fp_is_const = json_flag p ''const'', fp_from_test = json_flag p ''from_test'',
       fp_default = json_num p ''default'' f64_zero, fp_min = json_num p ''min'' (f64_of_int (- 1000000)),
       fp_max = json_num p ''max'' (f64_of_int 1000000), fp_step = json_num p ''step'' (f64_lit 1 1000)\<rparr>)"

definition function_of_json :: "string \<Rightarrow> json \<Rightarrow> faustlib_function" where
  "function_of_json name v =
    \<lparr>ff_name = name, ff_lib = json_text v ''lib'' [],
     ff_params = (case json_find v ''params'' of
         Some (J_array ps) \<Rightarrow> List.map_filter param_of_json ps
       | _ \<Rightarrow> [])\<rparr>"

definition add_function :: "faustlib_index \<Rightarrow> string \<times> json \<Rightarrow> faustlib_index" where
  "add_function idx kv =
    (if is_object (snd kv) then AList.update (fst kv) (function_of_json (fst kv) (snd kv)) idx else idx)"

text \<open>A text that does not parse leaves the index as it was, with an error.\<close>

definition load_json :: "string \<Rightarrow> faustlib_index \<Rightarrow> ((string \<times> faustlib_index) + faustlib_index) option" where
  "load_json text idx =
    map_option (\<lambda>r. case r of
      Inl err \<Rightarrow> Inl (err, idx)
    | Inr root \<Rightarrow>
        (if \<not> is_object root then Inl (''faustlib index: top level must be an object'', idx)
         else Inr (foldl add_function [] (obj_of root)))) (json_parse text)"

text \<open>
  Files, the environment and the path of the executable belong to the system: \<open>read\<close> gives the text of a file
  that can be opened, \<open>getenv\<close> the override, \<open>exe\<close> the path of the program (empty when unknown), \<open>configured\<close> the
  path chosen when the build was configured.
\<close>

definition load :: "(string \<rightharpoonup> string) \<Rightarrow> string \<Rightarrow> faustlib_index \<Rightarrow> ((string \<times> faustlib_index) + faustlib_index) option" where
  "load read path idx =
    (case read path of
      None \<Rightarrow> Some (Inl (''faustlib index: cannot open '' @ path, idx))
    | Some text \<Rightarrow> load_json text idx)"

definition exe_dir :: "string \<Rightarrow> string" where
  "exe_dir path =
    (case dropWhile (\<lambda>c. c \<noteq> CHR ''/'') (rev path) of [] \<Rightarrow> [] | c # r \<Rightarrow> rev r)"

definition index_candidates :: "string option \<Rightarrow> string \<Rightarrow> string option \<Rightarrow> string list" where
  "index_candidates getenv exe configured =
    (case getenv of Some e \<Rightarrow> [e] | None \<Rightarrow> []) @
    (let dir = exe_dir exe in
      if dir = [] then [] else [dir @ ''/../share/xrune/faustlib.json'', dir @ ''/data/faustlib.json'']) @
    (case configured of Some p \<Rightarrow> [p] | None \<Rightarrow> []) @ [''data/faustlib.json'']"

text \<open>The first file that loads wins; when none does the index stays as it is.\<close>

fun first_index :: "(string \<rightharpoonup> string) \<Rightarrow> string list \<Rightarrow> faustlib_index \<Rightarrow> faustlib_index option" where
  "first_index read [] idx = Some idx"
| "first_index read (c # cs) idx =
    Option.bind (load read c idx) (\<lambda>r. case r of Inr idx' \<Rightarrow> Some idx' | Inl (err, idx') \<Rightarrow> first_index read cs idx')"

text \<open>The index is searched for once; \<open>None\<close> is an index not yet searched for.\<close>

definition standard_index :: "(string \<rightharpoonup> string) \<Rightarrow> string option \<Rightarrow> string \<Rightarrow> string option
    \<Rightarrow> faustlib_index option \<Rightarrow> faustlib_index option" where
  "standard_index read getenv exe configured tried =
    (case tried of
      Some idx \<Rightarrow> Some idx
    | None \<Rightarrow> first_index read (index_candidates getenv exe configured) [])"

section \<open>Source generation\<close>

text \<open>
  The conversion to \<open>long long\<close> comes before the range test, so a number \<open>long long\<close> does not hold has no
  defined text.
\<close>

definition faust_num :: "f64 \<Rightarrow> (exn, string) result" where
  "faust_num v =
    (case f64_trunc v of
      None \<Rightarrow> Inl Exn_undefined
    | Some i \<Rightarrow>
        (if i < - (2 ^ 63) \<or> 2 ^ 63 \<le> i then Inl Exn_undefined
         else Inr (if f64_eq v (f64_of_int i) \<and> f64_lt (f64_abs v) (f64_lit (10 ^ 15) 1)
                   then show_int i else fmt_g 10 v)))"

definition missing_literal :: "string \<Rightarrow> faustlib_param \<Rightarrow> string" where
  "missing_literal fname p =
    ''faustlib('' @ dq @ fname @ dq @ ''): '' @ quoted (fp_name p) @ '' is a compile-time argument ('' @
    (if fp_doc p = [] then ''a constant'' else fp_doc p) @ '') and must be given a literal, e.g. faustlib('' @
    dq @ fname @ dq @ '', '' @ fp_name p @ '' = 3)''"

definition source_arg :: "string \<Rightarrow> (string \<rightharpoonup> f64) \<Rightarrow> faustlib_param \<Rightarrow> (exn, string) result" where
  "source_arg fname overrides p =
    (if fp_is_const p then
       (case overrides (fp_name p) of
         None \<Rightarrow> Inl (Exn_throw (missing_literal fname p))
       | Some v \<Rightarrow> faust_num v)
     else
       res_bind (faust_num (case overrides (fp_name p) of Some v \<Rightarrow> v | None \<Rightarrow> fp_default p)) (\<lambda>def.
       res_bind (faust_num (fp_min p)) (\<lambda>lo.
       res_bind (faust_num (fp_max p)) (\<lambda>hi.
       res_bind (faust_num (fp_step p)) (\<lambda>st.
         Inr (''hslider('' @ dq @ fp_name p @ dq @ '', '' @ def @ '', '' @ lo @ '', '' @ hi @ '', '' @ st @ '')''))))))"

fun source_args :: "string \<Rightarrow> (string \<rightharpoonup> f64) \<Rightarrow> faustlib_param list \<Rightarrow> (exn, string list) result" where
  "source_args fname overrides [] = Inr []"
| "source_args fname overrides (p # ps) =
    res_bind (source_arg fname overrides p) (\<lambda>a. res_bind (source_args fname overrides ps) (\<lambda>as. Inr (a # as)))"

fun comma_join :: "string list \<Rightarrow> string" where
  "comma_join [] = []"
| "comma_join [a] = a"
| "comma_join (a # as) = a @ '', '' @ comma_join as"

definition faustlib_source :: "faustlib_function \<Rightarrow> (string \<rightharpoonup> f64) \<Rightarrow> (exn, string) result" where
  "faustlib_source fn overrides =
    res_bind (source_args (ff_name fn) overrides (ff_params fn)) (\<lambda>args.
      Inr (''import('' @ dq @ ''stdfaust.lib'' @ dq @ '');'' @ nl @ ''process = '' @ ff_name fn @
        (if args = [] then [] else ''('' @ comma_join args @ '')'') @ '';'' @ nl))"

section \<open>The factory cache\<close>

text \<open>
  A factory is an entry of \<open>fs_factories\<close>, \<open>None\<close> once its last user has gone; the table holds weak references
  to entries.
\<close>

record 'f factory_store =
  fs_table :: "(string \<times> nat) list"
  fs_factories :: "'f option list"

definition empty_store :: "'f factory_store" where
  "empty_store = \<lparr>fs_table = [], fs_factories = []\<rparr>"

definition lock_weak :: "'f factory_store \<Rightarrow> nat \<Rightarrow> 'f option" where
  "lock_weak st i = (if i < length (fs_factories st) then fs_factories st ! i else None)"

definition new_factory :: "'f compiler \<Rightarrow> string \<Rightarrow> 'f factory_store \<Rightarrow> (exn, nat) result \<times> 'f factory_store" where
  "new_factory cc src st =
    (case faust_factory cc src False double_option of
      Inl err \<Rightarrow> (Inl err, st)
    | Inr f \<Rightarrow>
        (Inr (length (fs_factories st)),
         st\<lparr>fs_table := AList.update src (length (fs_factories st)) (fs_table st),
            fs_factories := fs_factories st @ [Some f]\<rparr>))"

definition faustlib_factory :: "'f compiler \<Rightarrow> string \<Rightarrow> 'f factory_store \<Rightarrow> (exn, nat) result \<times> 'f factory_store" where
  "faustlib_factory cc src st =
    (case map_of (fs_table st) src of
      None \<Rightarrow> new_factory cc src st
    | Some i \<Rightarrow>
        (if lock_weak st i \<noteq> None then (Inr i, st)
         else new_factory cc src (st\<lparr>fs_table := AList.delete src (fs_table st)\<rparr>)))"

text \<open>The last user of a factory goes away.\<close>

definition drop_factory :: "nat \<Rightarrow> 'f factory_store \<Rightarrow> 'f factory_store" where
  "drop_factory i st = st\<lparr>fs_factories := (fs_factories st)[i := None]\<rparr>"

section \<open>The node\<close>

definition index_missing :: "string \<Rightarrow> string" where
  "index_missing fname =
    ''faustlib: the Faust library index was not found, so '' @ quoted fname @
    '' cannot be resolved. Set $XRUNE_FAUSTLIB_JSON, install Xrune (the '' @
    ''index goes to <prefix>/share/xrune/faustlib.json), or generate it:'' @ nl @
    ''  python3 tools/faustlib_scan.py --verify -o data/faustlib.json''"

definition function_unknown :: "string \<Rightarrow> nat \<Rightarrow> string" where
  "function_unknown fname n =
    ''faustlib: unknown function '' @ quoted fname @ ''. It is not among the '' @ show_nat n @
    '' verified functions in the index. Check the spelling (it is '' @ quoted ''<lib>.<fn>'' @
    '', e.g. '' @ dq @ ''ve.korg35LPF'' @ dq @ ''), or regenerate the index with '' @
    ''tools/faustlib_scan.py.''"

definition make_faustlib :: "'f compiler \<Rightarrow> ('f \<Rightarrow> dsp_meta) \<Rightarrow> faustlib_index \<Rightarrow> string \<Rightarrow> (string \<rightharpoonup> f64)
    \<Rightarrow> 'f factory_store \<Rightarrow> (exn, node) result \<times> 'f factory_store" where
  "make_faustlib cc meta idx fname overrides st =
    (if idx = [] then (Inl (Exn_throw (index_missing fname)), st)
     else
       (case index_find idx fname of
         None \<Rightarrow> (Inl (Exn_throw (function_unknown fname (length idx))), st)
       | Some fn \<Rightarrow>
           (case faustlib_source fn overrides of
             Inl err \<Rightarrow> (Inl err, st)
           | Inr src \<Rightarrow>
               (case faustlib_factory cc src st of
                 (Inl err, st') \<Rightarrow> (Inl err, st')
               | (Inr i, st') \<Rightarrow>
                   (case lock_weak st' i of
                     None \<Rightarrow> (Inl Exn_undefined, st')
                   | Some f \<Rightarrow> (Inr (faust_jit meta f), st'))))))"

section \<open>Hosted words keep the lowering sound\<close>

lemma clamp_default_frame [simp]:
  "pd_name (clamp_default v p) = pd_name p" "pd_min (clamp_default v p) = pd_min p" "pd_max (clamp_default v p) = pd_max p"
  by (simp_all add: clamp_default_def)

text \<open>Call arguments change the defaults of ports and nothing else.\<close>

definition same_ports :: "hosted \<Rightarrow> hosted \<Rightarrow> bool" where
  "same_ports h h' \<longleftrightarrow> h_inputs h' = h_inputs h \<and> h_outputs h' = h_outputs h \<and>
     map (\<lambda>p. (pd_name p, pd_min p, pd_max p)) (h_ports h') = map (\<lambda>p. (pd_name p, pd_min p, pd_max p)) (h_ports h)"

lemma same_ports_index: "same_ports h (set_port_default_index i v h)"
  by (auto simp: same_ports_def set_port_default_index_def map_update intro!: nth_equalityI) (auto simp: nth_list_update)

lemma same_ports_name: "same_ports h (set_port_default n v h)"
proof (cases "find_index (\<lambda>p. pd_name p = n) (h_ports h)")
  case None
  then show ?thesis by (simp add: same_ports_def set_port_default_def)
next
  case (Some i)
  with find_index_Some [OF Some] same_ports_index [of h i v] show ?thesis
    by (simp add: set_port_default_def set_port_default_index_def)
qed

lemma same_ports_trans: "same_ports a b \<Longrightarrow> same_ports b c \<Longrightarrow> same_ports a c"
  by (simp add: same_ports_def)

lemma same_ports_fold:
  assumes "\<And>h x. same_ports h (f h x)"
  shows "same_ports h (foldl f h xs)"
proof (induction xs arbitrary: h)
  case Nil
  then show ?case by (simp add: same_ports_def)
next
  case (Cons x xs)
  from same_ports_trans [OF assms [of h x] Cons.IH [of "f h x"]] show ?case by simp
qed

lemma apply_faust_args_ports: "same_ports h (apply_faust_args a h)"
proof -
  let ?h = "foldl (\<lambda>h (i, v). set_port_default_index i (arg_number v) h) h
    (zip [0..<length (na_positional a)] (na_positional a))"
  have "same_ports h ?h" by (rule same_ports_fold) (simp add: same_ports_index split: prod.split)
  moreover have "same_ports ?h (foldl (\<lambda>h (k, v). set_port_default k (arg_number v) h) ?h (na_named a))"
    by (rule same_ports_fold) (simp add: same_ports_name split: prod.split)
  ultimately show ?thesis unfolding apply_faust_args_def by (rule same_ports_trans)
qed

lemma register_faust_builtin:
  assumes "register_faust cc meta name code is_file opts reg = Inr reg'" and "builtin_ops reg"
    and "name \<notin> {''gain'', ''inv'', ''mul'', ''div'', ''add'', ''up2'', ''down2''}"
  shows "builtin_ops reg'"
proof -
  obtain f where r: "reg' = reg_add reg name (faust_word meta f) []"
    using assms(1) by (auto simp: register_faust_def res_bind_def split: sum.splits)
  show ?thesis
    unfolding builtin_ops_def r
  proof (intro ballI allI impI)
    fix type args n
    assume t: "type \<in> {''gain'', ''inv'', ''mul'', ''div'', ''add'', ''up2'', ''down2''}"
      and m: "reg_make (reg_add reg name (faust_word meta f) []) type args = Inr (Some n)"
    from t assms(3) have "type \<noteq> name" by blast
    with m have m': "reg_make reg type args = Inr (Some n)" by (simp add: reg_make_def reg_add_def)
    show "0 < inputs_count n \<and> 0 < outputs_count n \<and> (type = ''gain'' \<longrightarrow> 0 < params_count n)"
      by (rule bspec [OF assms(2) [unfolded builtin_ops_def] t, rule_format, OF m'])
  qed
qed

text \<open>A program that uses a Faust word lowers to well-formed blueprints like any other.\<close>

lemma faust_lowering_sound:
  assumes "register_faust cc meta name code is_file opts reg = Inr reg'" and "builtin_ops reg"
    and "name \<notin> {''gain'', ''inv'', ''mul'', ''div'', ''add'', ''up2'', ''down2''}" and "lower n prog reg' = Inr res"
  shows "\<forall>lb \<in> set (lr_blueprints res). blueprint_ok (lb_bp lb) \<and> has_output (lb_bp lb) ''out''"
  using lower_runes_ok [OF _ assms(4) [unfolded lower_def]] register_faust_builtin [OF assms(1-3)]
  by (simp add: lower_ctx_of_def)

section \<open>Refusals of the source generator\<close>

definition in_long_long :: "f64 \<Rightarrow> bool" where
  "in_long_long v \<longleftrightarrow> (\<exists>i. f64_trunc v = Some i \<and> - (2 ^ 63) \<le> i \<and> i < 2 ^ 63)"

lemma faust_num_defined: "in_long_long v \<Longrightarrow> \<exists>s. faust_num v = Inr s"
  by (auto simp: in_long_long_def faust_num_def)

definition param_numbers :: "(string \<rightharpoonup> f64) \<Rightarrow> faustlib_param \<Rightarrow> f64 list" where
  "param_numbers ov p = (case ov (fp_name p) of Some v \<Rightarrow> [v] | None \<Rightarrow> [fp_default p]) @ [fp_min p, fp_max p, fp_step p]"

lemma source_arg_cases:
  assumes "\<forall>v \<in> set (param_numbers ov p). in_long_long v"
  shows "if fp_is_const p \<and> ov (fp_name p) = None
    then source_arg fname ov p = Inl (Exn_throw (missing_literal fname p))
    else \<exists>s. source_arg fname ov p = Inr s"
proof -
  have num: "\<exists>s. faust_num v = Inr s" if "v \<in> set (param_numbers ov p)" for v
    using assms that faust_num_defined by blast
  obtain lo hi st where b: "faust_num (fp_min p) = Inr lo" "faust_num (fp_max p) = Inr hi" "faust_num (fp_step p) = Inr st"
    using num [of "fp_min p"] num [of "fp_max p"] num [of "fp_step p"] by (auto simp: param_numbers_def)
  show ?thesis
  proof (cases "ov (fp_name p)")
    case None
    then obtain d where "faust_num (fp_default p) = Inr d" using num [of "fp_default p"] by (auto simp: param_numbers_def)
    then show ?thesis using b None by (simp add: source_arg_def)
  next
    case (Some v)
    then obtain d where "faust_num v = Inr d" using num [of v] by (auto simp: param_numbers_def)
    then show ?thesis using b Some by (simp add: source_arg_def)
  qed
qed

lemma source_args_cases:
  assumes "\<forall>p \<in> set ps. \<forall>v \<in> set (param_numbers ov p). in_long_long v"
  shows "case find_index (\<lambda>p. fp_is_const p \<and> ov (fp_name p) = None) ps of
      Some i \<Rightarrow> source_args fname ov ps = Inl (Exn_throw (missing_literal fname (ps ! i)))
    | None \<Rightarrow> \<exists>as. source_args fname ov ps = Inr as \<and> length as = length ps"
  using assms
proof (induction ps)
  case Nil
  then show ?case by simp
next
  case (Cons p ps)
  have p: "\<forall>v \<in> set (param_numbers ov p). in_long_long v" using Cons.prems by simp
  show ?case
    using source_arg_cases [OF p, of fname] Cons.IH Cons.prems by (auto split: if_splits option.splits)
qed

section \<open>The cache\<close>

text \<open>Requests and the end of factories, in any order.\<close>

inductive store_run :: "'f compiler \<Rightarrow> 'f factory_store \<Rightarrow> bool" for cc where
  st_empty: "store_run cc empty_store"
| st_request: "store_run cc st \<Longrightarrow> faustlib_factory cc src st = (r, st') \<Longrightarrow> store_run cc st'"
| st_drop: "store_run cc st \<Longrightarrow> store_run cc (drop_factory i st)"

definition store_ok :: "'f compiler \<Rightarrow> 'f factory_store \<Rightarrow> bool" where
  "store_ok cc st \<longleftrightarrow>
     (\<forall>src i. map_of (fs_table st) src = Some i \<longrightarrow> i < length (fs_factories st) \<and>
       (\<forall>f. fs_factories st ! i = Some f \<longrightarrow> faust_factory cc src False double_option = Inr f)) \<and>
     (\<forall>src src' i. map_of (fs_table st) src = Some i \<and> map_of (fs_table st) src' = Some i \<longrightarrow> src = src')"

lemma new_factory_ok:
  assumes "store_ok cc st" and "new_factory cc src st = (r, st')"
  shows "store_ok cc st'"
proof (cases "faust_factory cc src False double_option")
  case (Inl err)
  then show ?thesis using assms by (simp add: new_factory_def)
next
  case (Inr f)
  then have st': "st' = st\<lparr>fs_table := AList.update src (length (fs_factories st)) (fs_table st),
      fs_factories := fs_factories st @ [Some f]\<rparr>"
    using assms(2) by (simp add: new_factory_def)
  have old: "i < length (fs_factories st)" if "map_of (fs_table st) s = Some i" for s i
    using assms(1) that unfolding store_ok_def by blast
  have no: "map_of (fs_table st) s \<noteq> Some (length (fs_factories st))" for s
    using old [of s "length (fs_factories st)"] by auto
  show ?thesis
    using assms(1) old no Inr unfolding store_ok_def st'
    by (auto simp: update_conv' nth_append less_SucI split: if_splits)
qed

lemma store_ok_delete: "store_ok cc st \<Longrightarrow> store_ok cc (st\<lparr>fs_table := AList.delete src (fs_table st)\<rparr>)"
  by (simp add: store_ok_def delete_conv')

lemma store_run_ok: "store_run cc st \<Longrightarrow> store_ok cc st"
proof (induction rule: store_run.induct)
  case st_empty
  then show ?case by (simp add: store_ok_def empty_store_def)
next
  case (st_request st src r st')
  then show ?case
    using new_factory_ok store_ok_delete
    by (fastforce simp: faustlib_factory_def split: option.splits if_splits)
next
  case (st_drop st i)
  have "(fs_factories st)[i := None] ! j = Some f \<Longrightarrow> fs_factories st ! j = Some f" if "j < length (fs_factories st)" for j f
    using that by (cases "i = j") simp_all
  with st_drop.IH show ?case unfolding store_ok_def drop_factory_def by simp
qed

text \<open>C25: The cache of compiled Faust programs: in every history of requests and of factories that die, a request
  that succeeds gives a live factory that is what the compiler makes of that very source; asking again while
  it lives gives the same factory and compiles nothing; no other source maps to it; and no factory in use
  is disturbed.\<close>

theorem faust_cache_shares:
  assumes "store_run cc st" and "faustlib_factory cc src st = (Inr i, st')"
  shows "(\<exists>f. lock_weak st' i = Some f \<and> faust_factory cc src False double_option = Inr f) \<and>
    faustlib_factory cc src st' = (Inr i, st') \<and>
    (\<forall>src' j. map_of (fs_table st') src' = Some j \<and> src' \<noteq> src \<longrightarrow> j \<noteq> i) \<and>
    (\<forall>j f. lock_weak st j = Some f \<longrightarrow> lock_weak st' j = Some f)"
proof -
  have ok: "store_ok cc st'" by (rule store_run_ok [OF st_request [OF assms]])
  have live: "lock_weak st' i \<noteq> None \<and> map_of (fs_table st') src = Some i \<and>
      (\<forall>j f. lock_weak st j = Some f \<longrightarrow> lock_weak st' j = Some f)"
    using assms(2) by (auto simp: faustlib_factory_def new_factory_def lock_weak_def update_conv' nth_append
        split: option.splits if_splits sum.splits)
  then obtain f where f: "lock_weak st' i = Some f" by blast
  then have "faust_factory cc src False double_option = Inr f"
    using ok live unfolding store_ok_def lock_weak_def by (metis option.distinct(1))
  moreover have "\<forall>src' j. map_of (fs_table st') src' = Some j \<and> src' \<noteq> src \<longrightarrow> j \<noteq> i"
    using ok live unfolding store_ok_def by blast
  moreover have "faustlib_factory cc src st' = (Inr i, st')" using f live by (simp add: faustlib_factory_def)
  ultimately show ?thesis using f live by blast
qed

theorem faust_cache_shares_witness:
  "\<exists>st. faustlib_factory (\<lambda>code is_file opts. Inr (code, opts)) ''process = _;'' empty_store = (Inr 0, st) \<and>
    faustlib_factory (\<lambda>code is_file opts. Inr (code, opts)) ''process = _;'' st = (Inr 0, st)"
proof -
  let ?cc = "\<lambda>code is_file opts. Inr (code, opts)" and ?src = "''process = _;''"
  obtain st where s: "faustlib_factory ?cc ?src empty_store = (Inr 0, st)"
    by (simp add: faustlib_factory_def new_factory_def empty_store_def faust_factory_def)
  from faust_cache_shares [OF st_empty s] s show ?thesis by blast
qed

end
