(* ===== verification/Api.thy ===== *)
theory Api
  imports Engine Lower
begin

text \<open>
  The control interface of \<open>include/xrune/api.hpp\<close> and \<open>src/api.cpp\<close>: the fluent builder, the
  registry of compiled blueprints, and the runtime that addresses an engine by names; with it the
  language pipeline of \<open>include/xrune/lang/compile.hpp\<close>.  An operation that can report an error
  returns the runtime with its last error text.  A blueprint identifier is a 32-bit word.
\<close>

section \<open>Data\<close>

type_synonym blueprint_id = "32 word"

definition invalid_blueprint :: blueprint_id where
  "invalid_blueprint = 0xFFFFFFFF"

record voice =
  vo_handle :: instance_handle
  vo_blueprint :: blueprint_id

definition voice_valid :: "voice \<Rightarrow> bool" where
  "voice_valid v \<longleftrightarrow> handle_valid (vo_handle v) \<and> vo_blueprint v \<noteq> invalid_blueprint"

definition no_voice :: voice where
  "no_voice = \<lparr>vo_handle = null_handle, vo_blueprint = invalid_blueprint\<rparr>"

record param_ref =
  pr_node :: nat
  pr_port :: nat
  pr_ok :: bool

definition no_param :: param_ref where
  "no_param = \<lparr>pr_node = 0, pr_port = 0, pr_ok = False\<rparr>"

record port_info =
  po_name :: string
  po_default :: f64
  po_min :: f64
  po_max :: f64

record node_info =
  ni_name :: string
  ni_index :: nat
  ni_inputs :: nat
  ni_outputs :: nat
  ni_ports :: "port_info list"

record rune_param_info =
  ri_name :: string
  ri_default :: f64
  ri_targets :: nat
  ri_partial :: bool

record blueprint_info =
  bi_name :: string
  bi_nodes :: "node_info list"
  bi_params :: "rune_param_info list"
  bi_input_terminals :: "string list"
  bi_output_terminals :: "string list"

datatype voice_end_reason = V_killed | V_finished | V_timed_out | V_silent

record voice_event =
  ev_voice :: voice
  ev_reason :: voice_end_reason

record runtime_config =
  rc_sample_rate :: nat
  rc_block_size :: nat
  rc_input_channels :: nat
  rc_output_channels :: nat
  rc_max_instances :: nat
  rc_workers :: nat

definition default_config :: runtime_config where
  "default_config = \<lparr>rc_sample_rate = 48000, rc_block_size = 128, rc_input_channels = 0,
     rc_output_channels = 2, rc_max_instances = 128, rc_workers = 0\<rparr>"

record spawn_options =
  so_life :: lifetime_policy
  so_into :: voice
  so_into_terminal :: string
  so_from_terminal :: string
  so_params :: "(string \<times> f64) list"

definition default_options :: spawn_options where
  "default_options = \<lparr>so_life = default_policy, so_into = no_voice, so_into_terminal = ''in'',
     so_from_terminal = ''out'', so_params = []\<rparr>"

record registered =
  rg_name :: string
  rg_bp :: graph_blueprint
  rg_sched :: compiled_schedule
  rg_info :: blueprint_info

record runtime =
  rn_registry :: "registered list"
  rn_eng :: engine
  rn_cfg :: runtime_config
  rn_inited :: bool
  rn_err :: string
  rn_slot_blueprint :: "blueprint_id list"

definition set_err :: "string \<Rightarrow> runtime \<Rightarrow> runtime" where
  "set_err msg rt = rt\<lparr>rn_err := msg\<rparr>"

definition with_engine :: "(engine \<Rightarrow> engine) \<Rightarrow> runtime \<Rightarrow> runtime" where
  "with_engine f rt = rt\<lparr>rn_eng := f (rn_eng rt)\<rparr>"

section \<open>The fluent builder\<close>

record blueprint_builder =
  bb_name :: string
  bb_bp :: graph_blueprint
  bb_errors :: "string list"

definition build_empty :: "string \<Rightarrow> blueprint_builder" where
  "build_empty name = \<lparr>bb_name = name, bb_bp = empty_blueprint, bb_errors = []\<rparr>"

definition builder_ok :: "blueprint_builder \<Rightarrow> bool" where
  "builder_ok b \<longleftrightarrow> bb_errors b = []"

definition builder_error :: "string \<Rightarrow> blueprint_builder \<Rightarrow> blueprint_builder" where
  "builder_error msg b = b\<lparr>bb_errors := bb_errors b @ [msg]\<rparr>"

text \<open>The node is what the constructor call of the template argument makes.\<close>

definition builder_add :: "string \<Rightarrow> node \<Rightarrow> blueprint_builder \<Rightarrow> blueprint_builder" where
  "builder_add name n b =
    (if name = [] then builder_error ''node name must not be empty'' b
     else if find_node (bb_bp b) name \<noteq> None then builder_error (''duplicate node name: '' @ name) b
     else b\<lparr>bb_bp := snd (add_named (bb_bp b) name n)\<rparr>)"

definition builder_connect :: "string \<Rightarrow> nat \<Rightarrow> string \<Rightarrow> nat \<Rightarrow> blueprint_builder \<Rightarrow> blueprint_builder" where
  "builder_connect src out dst i b =
    (case (find_node (bb_bp b) src, find_node (bb_bp b) dst) of
      (None, _) \<Rightarrow> builder_error (''connect: unknown node: '' @ src) b
    | (Some s, None) \<Rightarrow> builder_error (''connect: unknown node: '' @ dst) b
    | (Some s, Some d) \<Rightarrow>
        (case connect (bb_bp b) \<lparr>bc_src_node = s, bc_src_output = out, bc_dst_node = d, bc_dst_input = i\<rparr> of
          (True, g) \<Rightarrow> b\<lparr>bb_bp := g\<rparr>
        | (False, g) \<Rightarrow> builder_error (''connect: invalid ('' @ src @ '' -> '' @ dst @
            ''): port out of range or input already driven'') b))"

definition builder_modulate :: "string \<Rightarrow> nat \<Rightarrow> string \<Rightarrow> string \<Rightarrow> blueprint_builder \<Rightarrow> blueprint_builder" where
  "builder_modulate src out dst port b =
    (case (find_node (bb_bp b) src, find_node (bb_bp b) dst) of
      (None, _) \<Rightarrow> builder_error (''modulate: unknown node: '' @ src) b
    | (Some s, None) \<Rightarrow> builder_error (''modulate: unknown node: '' @ dst) b
    | (Some s, Some d) \<Rightarrow>
        (case find_param (bb_bp b) d port of
          None \<Rightarrow> builder_error (''modulate: unknown port: '' @ dst @ ''.'' @ port) b
        | Some p \<Rightarrow>
            (case connect_param (bb_bp b) \<lparr>pc_src_node = s, pc_src_output = out, pc_dst_node = d, pc_dst_param = p\<rparr> of
              (True, g) \<Rightarrow> b\<lparr>bb_bp := g\<rparr>
            | (False, g) \<Rightarrow> builder_error (''modulate: invalid ('' @ src @ '' -> '' @ dst @ ''.'' @ port @
                ''): out of range or port already driven'') b)))"

text \<open>\<open>None\<close> would be an access outside the node vector.\<close>

definition builder_output :: "string \<Rightarrow> blueprint_builder \<Rightarrow> blueprint_builder option" where
  "builder_output name b =
    (case find_node (bb_bp b) name of
      None \<Rightarrow> Some (builder_error (''output: unknown node: '' @ name) b)
    | Some n \<Rightarrow> map_option (\<lambda>g. b\<lparr>bb_bp := g\<rparr>) (set_output (bb_bp b) n))"

definition builder_input_terminal :: "string \<Rightarrow> string \<Rightarrow> blueprint_builder \<Rightarrow> blueprint_builder" where
  "builder_input_terminal terminal name b =
    (case find_node (bb_bp b) name of
      None \<Rightarrow> builder_error (''input_terminal: unknown node: '' @ name) b
    | Some n \<Rightarrow>
        (if find_input_terminal (bb_bp b) terminal \<noteq> None
         then builder_error (''duplicate input terminal: '' @ terminal) b
         else b\<lparr>bb_bp := snd (add_input_terminal (bb_bp b) terminal n)\<rparr>))"

definition builder_output_terminal :: "string \<Rightarrow> string \<Rightarrow> blueprint_builder \<Rightarrow> blueprint_builder option" where
  "builder_output_terminal terminal name b =
    (case find_node (bb_bp b) name of
      None \<Rightarrow> Some (builder_error (''output_terminal: unknown node: '' @ name) b)
    | Some n \<Rightarrow>
        (if find_output_terminal (bb_bp b) terminal \<noteq> None
         then Some (builder_error (''duplicate output terminal: '' @ terminal) b)
         else map_option (\<lambda>(i, g). b\<lparr>bb_bp := g\<rparr>) (add_output_terminal (bb_bp b) terminal n)))"

section \<open>Life cycle\<close>

text \<open>Before \<open>init\<close> the engine has no slot and no channel.\<close>

definition default_engine :: engine where
  "default_engine = \<lparr>en_sample_rate = 48000, en_block_size = 128, en_output_channels = 2,
     en_mgr = mgr_init 0, en_active_gen = [], en_active_list = [], en_routes = [], en_route_capacity = 0,
     en_master = [], en_commands = [], en_telemetry = [], en_telemetry_capacity = 0\<rparr>"

definition new_runtime :: runtime where
  "new_runtime = \<lparr>rn_registry = [], rn_eng = default_engine, rn_cfg = default_config, rn_inited = False,
     rn_err = [], rn_slot_blueprint = []\<rparr>"

text \<open>\<open>opened\<close> is the answer of the audio backend, \<open>base\<close> where the master buffers land.\<close>

definition runtime_init :: "nat \<Rightarrow> bool \<Rightarrow> runtime_config \<Rightarrow> runtime \<Rightarrow> bool \<times> runtime" where
  "runtime_init base opened c rt =
    (let rt1 = rt\<lparr>rn_cfg := c\<rparr> in
     if rc_block_size c = 0 \<or> \<not> is_power_of_two (rc_block_size c) then
       (False, rt1\<lparr>rn_inited := False, rn_err := ''block size must be a power of two (got '' @
         show_nat (rc_block_size c) @ '')''\<rparr>)
     else
       (case engine_init base (rc_sample_rate c) (rc_block_size c) (rc_output_channels c) (rc_max_instances c) of
         None \<Rightarrow> (False, rt1\<lparr>rn_inited := False, rn_err := ''engine init failed (audio backend)''\<rparr>)
       | Some eng \<Rightarrow>
           (opened, rt1\<lparr>rn_eng := eng, rn_inited := opened,
             rn_err := (if opened then rn_err rt else ''engine init failed (audio backend)'')\<rparr>)))"

fun reason_of :: "end_reason \<Rightarrow> voice_end_reason" where
  "reason_of Killed = V_killed"
| "reason_of Finished = V_finished"
| "reason_of Timed_out = V_timed_out"
| "reason_of Silent = V_silent"

fun reason_text :: "voice_end_reason \<Rightarrow> string" where
  "reason_text V_killed = ''killed''"
| "reason_text V_finished = ''finished''"
| "reason_text V_timed_out = ''timed_out''"
| "reason_text V_silent = ''silent''"

section \<open>Blueprints\<close>

definition make_node_info :: "graph_blueprint \<Rightarrow> nat \<Rightarrow> node_info" where
  "make_node_info g v =
    (let n = g_nodes g ! v in
     \<lparr>ni_name = g_names g ! v, ni_index = v, ni_inputs = inputs_count n, ni_outputs = outputs_count n,
      ni_ports = map (\<lambda>p. \<lparr>po_name = pd_name (params n ! p), po_default = param_default n p,
        po_min = pd_min (params n ! p), po_max = pd_max (params n ! p)\<rparr>) [0..<params_count n]\<rparr>)"

definition make_info :: "string \<Rightarrow> graph_blueprint \<Rightarrow> blueprint_info" where
  "make_info name g =
    \<lparr>bi_name = name, bi_nodes = map (make_node_info g) [0..<bp_size g],
     bi_params = map (\<lambda>p. \<lparr>ri_name = bpp_name p, ri_default = bpp_default p,
       ri_targets = length (bpp_targets p), ri_partial = bpp_partial p\<rparr>) (g_params g),
     bi_input_terminals = map t_name (g_input_terminals g),
     bi_output_terminals = map t_name (g_output_terminals g)\<rparr>"

fun join_errors :: "string list \<Rightarrow> string" where
  "join_errors [] = []"
| "join_errors [m] = m"
| "join_errors (m # ms) = m @ ''; '' @ join_errors ms"

definition register_blueprint :: "blueprint_builder \<Rightarrow> runtime \<Rightarrow> blueprint_id \<times> runtime" where
  "register_blueprint b rt =
    (if \<not> rn_inited rt then
       (invalid_blueprint, set_err ''register_blueprint: runtime not initialized (block size unknown)'' rt)
     else if \<not> builder_ok b then
       (invalid_blueprint, set_err (''register_blueprint('' @ bb_name b @ ''): '' @ join_errors (bb_errors b)) rt)
     else
       (case compile (bb_bp b) (rc_block_size (rn_cfg rt)) of
         None \<Rightarrow> (invalid_blueprint, set_err (''register_blueprint('' @ bb_name b @
           ''): compile failed (cycle, or invalid rate/block configuration)'') rt)
       | Some s \<Rightarrow>
           (of_nat (length (rn_registry rt)),
            rt\<lparr>rn_registry := rn_registry rt @ [\<lparr>rg_name = bb_name b, rg_bp = bb_bp b, rg_sched = s,
              rg_info = make_info (bb_name b) (bb_bp b)\<rparr>]\<rparr>)))"

definition find_blueprint :: "string \<Rightarrow> runtime \<Rightarrow> blueprint_id" where
  "find_blueprint name rt =
    (case find_index (\<lambda>r. rg_name r = name) (rn_registry rt) of None \<Rightarrow> invalid_blueprint | Some i \<Rightarrow> of_nat i)"

definition describe :: "blueprint_id \<Rightarrow> runtime \<Rightarrow> blueprint_info option" where
  "describe bid rt =
    (if unat bid < length (rn_registry rt) then Some (rg_info (rn_registry rt ! unat bid)) else None)"

definition get_registered :: "blueprint_id \<Rightarrow> runtime \<Rightarrow> registered option \<times> runtime" where
  "get_registered bid rt =
    (if length (rn_registry rt) \<le> unat bid then (None, set_err ''unknown blueprint id'' rt)
     else (Some (rn_registry rt ! unat bid), rt))"

section \<open>Voices\<close>

text \<open>Each part of \<open>spawn\<close> gives an error text or its result.\<close>

definition spawn_source :: "registered \<Rightarrow> string \<Rightarrow> (string, nat) result" where
  "spawn_source r terminal =
    (if g_output_terminals (rg_bp r) = [] then Inr 0
     else case find_output_terminal (rg_bp r) terminal of
       None \<Rightarrow> Inl (''spawn: unknown output terminal: '' @ terminal)
     | Some t \<Rightarrow> Inr t)"

definition spawn_target :: "spawn_options \<Rightarrow> runtime \<Rightarrow> (string, route_target) result" where
  "spawn_target opt rt =
    (if \<not> voice_valid (so_into opt) then Inr to_master_target
     else
       (case fst (get_registered (vo_blueprint (so_into opt)) rt) of
         None \<Rightarrow> Inl ''unknown blueprint id''
       | Some rd \<Rightarrow>
           (case find_input_terminal (rg_bp rd) (so_into_terminal opt) of
             None \<Rightarrow> Inl (''spawn: unknown input terminal: '' @ so_into_terminal opt)
           | Some t \<Rightarrow>
               (if \<not> mgr_is_valid (en_mgr (rn_eng rt)) (vo_handle (so_into opt))
                then Inl ''spawn: destination voice is not alive''
                else Inr (to_target (vo_handle (so_into opt)) t)))))"

definition target_params :: "f64 \<Rightarrow> param_target list \<Rightarrow> initial_param list" where
  "target_params x ts = map (\<lambda>t. \<lparr>ip_node = pt_node t, ip_param = pt_port t, ip_value = x\<rparr>) ts"

fun spawn_params :: "graph_blueprint \<Rightarrow> (string \<times> f64) list \<Rightarrow> (string, initial_param list) result" where
  "spawn_params g [] = Inr []"
| "spawn_params g ((name, x) # kvs) =
    (case find_rune_param g name of
      None \<Rightarrow> Inl (''spawn: unknown rune parameter '' @ quoted name)
    | Some i \<Rightarrow>
        (if bpp_targets (g_params g ! i) = [] then
           Inl (''spawn: rune parameter '' @ quoted name @ '' drives no port (it is only used inside an '' @
             ''expression, so it was folded at compile time)'')
         else res_bind (spawn_params g kvs)
           (\<lambda>rest. Inr (target_params x (bpp_targets (g_params g ! i)) @ rest))))"

text \<open>The table grows on demand.\<close>

definition remember_slot :: "nat \<Rightarrow> blueprint_id \<Rightarrow> blueprint_id list \<Rightarrow> blueprint_id list" where
  "remember_slot slot bid tab =
    (tab @ replicate (slot + 1 - length tab) invalid_blueprint)[slot := bid]"

definition slot_voice :: "runtime \<Rightarrow> instance_handle \<Rightarrow> voice" where
  "slot_voice rt h = \<lparr>vo_handle = h, vo_blueprint =
     (if ih_slot h < length (rn_slot_blueprint rt) then rn_slot_blueprint rt ! ih_slot h else invalid_blueprint)\<rparr>"

definition runtime_spawn :: "Dsp.env \<Rightarrow> nat \<Rightarrow> blueprint_id \<Rightarrow> spawn_options \<Rightarrow> runtime \<Rightarrow> (voice \<times> runtime) option" where
  "runtime_spawn e base bid opt rt =
    (case get_registered bid rt of
      (None, rt') \<Rightarrow> Some (no_voice, rt')
    | (Some r, _) \<Rightarrow>
        (case res_bind (spawn_source r (so_from_terminal opt)) (\<lambda>src.
              res_bind (spawn_target opt rt) (\<lambda>dest.
              res_bind (spawn_params (rg_bp r) (so_params opt)) (\<lambda>ips. Inr (src, dest, ips)))) of
          Inl msg \<Rightarrow> Some (no_voice, set_err msg rt)
        | Inr (src, dest, ips) \<Rightarrow>
            (case spawn e base (rn_eng rt) (rg_sched r) (so_life opt) dest src ips of
              None \<Rightarrow> None
            | Some (h, eng) \<Rightarrow>
                (if \<not> handle_valid h
                 then Some (no_voice, set_err ''spawn: instance pool exhausted'' (rt\<lparr>rn_eng := eng\<rparr>))
                 else Some (\<lparr>vo_handle = h, vo_blueprint = bid\<rparr>,
                   rt\<lparr>rn_eng := eng, rn_slot_blueprint := remember_slot (ih_slot h) bid (rn_slot_blueprint rt)\<rparr>)))))"

definition runtime_kill :: "voice \<Rightarrow> runtime \<Rightarrow> runtime" where
  "runtime_kill v rt = (if voice_valid v then with_engine (kill (vo_handle v)) rt else rt)"

definition alive :: "voice \<Rightarrow> runtime \<Rightarrow> bool" where
  "alive v rt \<longleftrightarrow> voice_valid v \<and> mgr_is_valid (en_mgr (rn_eng rt)) (vo_handle v)"

text \<open>
  The callback acts on the state of the host and on the runtime.  The blueprint of an event is read when
  the event fires, from the table as the callbacks before it have left it.
\<close>

definition fire :: "(voice_event \<Rightarrow> 'h \<times> runtime \<Rightarrow> 'h \<times> runtime) \<Rightarrow> voice_end \<Rightarrow> 'h \<times> runtime \<Rightarrow> 'h \<times> runtime" where
  "fire cb x st = cb \<lparr>ev_voice = slot_voice (snd st) (ve_handle x), ev_reason = reason_of (ve_reason x)\<rparr> st"

definition pump :: "(voice_event \<Rightarrow> 'h \<times> runtime \<Rightarrow> 'h \<times> runtime) option \<Rightarrow> 'h \<times> runtime \<Rightarrow> nat \<times> 'h \<times> runtime" where
  "pump cb st =
    (case st of (h, rt) \<Rightarrow>
      (case reclaim (rn_eng rt) of (ends, eng) \<Rightarrow>
        (length ends,
         (case cb of None \<Rightarrow> (h, rt\<lparr>rn_eng := eng\<rparr>)
          | Some f \<Rightarrow> foldl (\<lambda>st x. fire f x st) (h, rt\<lparr>rn_eng := eng\<rparr>) ends))))"

definition active_voices :: "runtime \<Rightarrow> nat" where
  "active_voices rt = active_count (rn_eng rt)"

section \<open>Parameters\<close>

definition resolve :: "blueprint_id \<Rightarrow> string \<Rightarrow> string \<Rightarrow> runtime \<Rightarrow> param_ref \<times> runtime" where
  "resolve bid name port rt =
    (case get_registered bid rt of
      (None, rt') \<Rightarrow> (no_param, rt')
    | (Some r, _) \<Rightarrow>
        (case find_node (rg_bp r) name of
          None \<Rightarrow> (no_param, set_err (''resolve: unknown node: '' @ name) rt)
        | Some n \<Rightarrow>
            (case find_param (rg_bp r) n port of
              None \<Rightarrow> (no_param, set_err (''resolve: unknown port: '' @ name @ ''.'' @ port) rt)
            | Some p \<Rightarrow> (\<lparr>pr_node = n, pr_port = p, pr_ok = True\<rparr>, rt))))"

definition set_ref :: "voice \<Rightarrow> param_ref \<Rightarrow> f64 \<Rightarrow> runtime \<Rightarrow> bool \<times> runtime" where
  "set_ref v p x rt =
    (if \<not> voice_valid v \<or> \<not> pr_ok p then (False, set_err ''set: invalid voice or param'' rt)
     else (True, with_engine (engine_set_parameter (vo_handle v) (pr_node p) (pr_port p) x) rt))"

definition set_named :: "voice \<Rightarrow> string \<Rightarrow> string \<Rightarrow> f64 \<Rightarrow> runtime \<Rightarrow> bool \<times> runtime" where
  "set_named v name port x rt =
    (case resolve (vo_blueprint v) name port rt of (p, rt') \<Rightarrow>
      (if pr_ok p then set_ref v p x rt' else (False, rt')))"

definition set_target :: "instance_handle \<Rightarrow> f64 \<Rightarrow> engine \<Rightarrow> param_target \<Rightarrow> engine" where
  "set_target h x eng t = engine_set_parameter h (pt_node t) (pt_port t) x eng"

definition set_param :: "voice \<Rightarrow> string \<Rightarrow> f64 \<Rightarrow> runtime \<Rightarrow> bool \<times> runtime" where
  "set_param v name x rt =
    (if \<not> voice_valid v then (False, set_err ''set_param: invalid voice'' rt)
     else
       (case get_registered (vo_blueprint v) rt of
         (None, rt') \<Rightarrow> (False, rt')
       | (Some r, _) \<Rightarrow>
           (case find_rune_param (rg_bp r) name of
             None \<Rightarrow> (False, set_err (''set_param: unknown rune parameter '' @ quoted name) rt)
           | Some i \<Rightarrow>
               (if bpp_targets (g_params (rg_bp r) ! i) = []
                then (False, set_err (''set_param: rune parameter '' @ quoted name @ '' drives no port'') rt)
                else (True, with_engine (\<lambda>eng. foldl (set_target (vo_handle v) x) eng
                  (bpp_targets (g_params (rg_bp r) ! i))) rt)))))"

section \<open>Routing\<close>

definition resolve_out_term :: "voice \<Rightarrow> string \<Rightarrow> runtime \<Rightarrow> nat option \<times> runtime" where
  "resolve_out_term src name rt =
    (case fst (get_registered (vo_blueprint src) rt) of
      None \<Rightarrow> (None, set_err ''route: invalid source voice'' rt)
    | Some r \<Rightarrow>
        (if \<not> voice_valid src then (None, set_err ''route: invalid source voice'' rt)
         else
           (case find_output_terminal (rg_bp r) name of
             None \<Rightarrow> (None, set_err (''route: unknown output terminal: '' @ name) rt)
           | Some t \<Rightarrow> (Some t, rt))))"

definition resolve_route :: "voice \<Rightarrow> voice \<Rightarrow> string \<Rightarrow> string \<Rightarrow> runtime \<Rightarrow> (nat \<times> route_target) option \<times> runtime" where
  "resolve_route src dst dst_terminal src_terminal rt =
    (case resolve_out_term src src_terminal rt of
      (None, rt') \<Rightarrow> (None, rt')
    | (Some st, _) \<Rightarrow>
        (case fst (get_registered (vo_blueprint dst) rt) of
          None \<Rightarrow> (None, set_err ''route: invalid destination voice'' rt)
        | Some rd \<Rightarrow>
            (if \<not> voice_valid dst then (None, set_err ''route: invalid destination voice'' rt)
             else
               (case find_input_terminal (rg_bp rd) dst_terminal of
                 None \<Rightarrow> (None, set_err (''route: unknown input terminal: '' @ dst_terminal) rt)
               | Some dt \<Rightarrow> (Some (st, to_target (vo_handle dst) dt), rt)))))"

definition route :: "voice \<Rightarrow> voice \<Rightarrow> string \<Rightarrow> string \<Rightarrow> runtime \<Rightarrow> bool \<times> runtime" where
  "route src dst dst_terminal src_terminal rt =
    (case resolve_route src dst dst_terminal src_terminal rt of
      (None, rt') \<Rightarrow> (False, rt')
    | (Some (st, t), rt') \<Rightarrow> (True, with_engine (engine_connect (vo_handle src) st t) rt'))"

definition unroute :: "voice \<Rightarrow> voice \<Rightarrow> string \<Rightarrow> string \<Rightarrow> runtime \<Rightarrow> bool \<times> runtime" where
  "unroute src dst dst_terminal src_terminal rt =
    (case resolve_route src dst dst_terminal src_terminal rt of
      (None, rt') \<Rightarrow> (False, rt')
    | (Some (st, t), rt') \<Rightarrow> (True, with_engine (engine_disconnect (vo_handle src) st t) rt'))"

definition route_to_master :: "voice \<Rightarrow> string \<Rightarrow> runtime \<Rightarrow> bool \<times> runtime" where
  "route_to_master src src_terminal rt =
    (case resolve_out_term src src_terminal rt of
      (None, rt') \<Rightarrow> (False, rt')
    | (Some st, rt') \<Rightarrow> (True, with_engine (engine_connect (vo_handle src) st to_master_target) rt'))"

definition unroute_from_master :: "voice \<Rightarrow> string \<Rightarrow> runtime \<Rightarrow> bool \<times> runtime" where
  "unroute_from_master src src_terminal rt =
    (case resolve_out_term src src_terminal rt of
      (None, rt') \<Rightarrow> (False, rt')
    | (Some st, rt') \<Rightarrow> (True, with_engine (engine_disconnect (vo_handle src) st to_master_target) rt'))"

section \<open>Time\<close>

text \<open>\<open>None\<close> when the number of blocks is not one that \<open>size_t\<close> holds (undefined in C++).\<close>

definition blocks :: "f64 \<Rightarrow> runtime \<Rightarrow> nat option" where
  "blocks seconds rt =
    (case f64_trunc (f64_div (seconds * f64_of_int (int (rc_sample_rate (rn_cfg rt))))
        (f64_of_int (int (rc_block_size (rn_cfg rt)))) + f64_lit 1 2) of
      None \<Rightarrow> None
    | Some i \<Rightarrow> if 0 \<le> i \<and> i < 2 ^ 64 then Some (nat i) else None)"

definition for_seconds :: "f64 \<Rightarrow> runtime \<Rightarrow> lifetime_policy option" where
  "for_seconds seconds rt = map_option (\<lambda>n. \<lparr>lp_kind = Timed, lp_ttl_blocks = n,
     lp_silence_threshold = f64_lit 1 100000, lp_silence_blocks = 0\<rparr>) (blocks seconds rt)"

definition until_silent_for :: "f64 \<Rightarrow> f64 \<Rightarrow> runtime \<Rightarrow> lifetime_policy option" where
  "until_silent_for seconds threshold rt = map_option (\<lambda>n. \<lparr>lp_kind = Until_silent, lp_ttl_blocks = 0,
     lp_silence_threshold = threshold, lp_silence_blocks = n\<rparr>) (blocks seconds rt)"

section \<open>The language pipeline\<close>

record load_result =
  ld_blueprints :: "(string \<times> blueprint_id) list"
  ld_diags :: "diagnostic list"

definition load_find :: "string \<Rightarrow> load_result \<Rightarrow> blueprint_id" where
  "load_find name res = (case map_of (ld_blueprints res) name of None \<Rightarrow> invalid_blueprint | Some i \<Rightarrow> i)"

definition load_one :: "runtime \<times> load_result \<Rightarrow> lowered_blueprint \<Rightarrow> runtime \<times> load_result" where
  "load_one acc lb =
    (case acc of (rt, res) \<Rightarrow>
      (case register_blueprint ((build_empty (lb_name lb))\<lparr>bb_bp := lb_bp lb\<rparr>) rt of (bid, rt') \<Rightarrow>
        (if bid = invalid_blueprint
         then (rt', res\<lparr>ld_diags := ld_diags res @ [diag (''rune '' @ quoted (lb_name lb) @ '': '' @ rn_err rt') 0 0]\<rparr>)
         else (rt', res\<lparr>ld_blueprints := ld_blueprints res @ [(lb_name lb, bid)]\<rparr>))))"

datatype load_error = Le_parse perror | Le_lower lower_error

text \<open>\<open>n\<close> bounds the depth of the evaluation of the program, see \<open>Lower_Total\<close>.\<close>

definition load_source :: "nat \<Rightarrow> node_registry \<Rightarrow> string \<Rightarrow> runtime \<Rightarrow> (load_error, load_result \<times> runtime) result" where
  "load_source n reg src rt =
    (case parse src of
      Inl err \<Rightarrow> Inl (Le_parse err)
    | Inr (prog, ds) \<Rightarrow>
        (if ds \<noteq> [] then Inr (\<lparr>ld_blueprints = [], ld_diags = ds\<rparr>, rt)
         else
           (case lower n prog reg of
             Inl err \<Rightarrow> Inl (Le_lower err)
           | Inr lr \<Rightarrow>
               (case foldl load_one (rt, \<lparr>ld_blueprints = [], ld_diags = lr_diags lr\<rparr>) (lr_blueprints lr) of
                 (rt', res) \<Rightarrow> Inr (res, rt')))))"

definition load_standard :: "nat \<Rightarrow> string \<Rightarrow> runtime \<Rightarrow> (load_error, load_result \<times> runtime) result" where
  "load_standard n = load_source n standard_registry"

end
