(* ===== verification/Api_Facts.thy ===== *)
theory Api_Facts
  imports Api Engine_Facts Lower_Facts
begin

text \<open>
  What the control interface guarantees: its guards discharge every obligation the engine puts on the
  handles it is given, registered blueprints are well formed and compiled, and the events of ended voices
  carry the voices that \<open>spawn\<close> gave out.
\<close>

section \<open>Histories of a runtime\<close>

text \<open>The calls that only queue commands.\<close>

datatype control =
    Ctl_kill voice
  | Ctl_set_ref voice param_ref f64
  | Ctl_set_named voice string string f64
  | Ctl_set_param voice string f64
  | Ctl_resolve blueprint_id string string
  | Ctl_route voice voice string string
  | Ctl_unroute voice voice string string
  | Ctl_route_to_master voice string
  | Ctl_unroute_from_master voice string

fun perform :: "control \<Rightarrow> runtime \<Rightarrow> runtime" where
  "perform (Ctl_kill v) rt = runtime_kill v rt"
| "perform (Ctl_set_ref v p x) rt = snd (set_ref v p x rt)"
| "perform (Ctl_set_named v n p x) rt = snd (set_named v n p x rt)"
| "perform (Ctl_set_param v n x) rt = snd (set_param v n x rt)"
| "perform (Ctl_resolve b n p) rt = snd (resolve b n p rt)"
| "perform (Ctl_route s d dt st) rt = snd (route s d dt st rt)"
| "perform (Ctl_unroute s d dt st) rt = snd (unroute s d dt st rt)"
| "perform (Ctl_route_to_master s st) rt = snd (route_to_master s st rt)"
| "perform (Ctl_unroute_from_master s st) rt = snd (unroute_from_master s st rt)"

text \<open>
  Everything a host and the audio thread can do between two states of a runtime, with the voices that
  \<open>spawn\<close> has returned.  No voice a call is given has to come from \<open>spawn\<close>.  A \<open>pump\<close> is its
  \<open>reclaim\<close> followed by what its callbacks do.
\<close>

inductive facade_run :: "Dsp.env \<Rightarrow> runtime \<Rightarrow> voice list \<Rightarrow> runtime \<Rightarrow> bool" for e rt0 where
  fr_start: "facade_run e rt0 [] rt0"
| fr_spawn: "facade_run e rt0 vs rt \<Longrightarrow> runtime_spawn e base b opt rt = Some (v, rt') \<Longrightarrow> facade_run e rt0 (vs @ [v]) rt'"
| fr_control: "facade_run e rt0 vs rt \<Longrightarrow> facade_run e rt0 vs (perform c rt)"
| fr_register: "facade_run e rt0 vs rt \<Longrightarrow> blueprint_ok (bb_bp b) \<Longrightarrow>
    facade_run e rt0 vs (snd (register_blueprint b rt))"
| fr_reclaim: "facade_run e rt0 vs rt \<Longrightarrow> facade_run e rt0 vs (with_engine (\<lambda>eng. snd (reclaim eng)) rt)"
| fr_block: "facade_run e rt0 vs rt \<Longrightarrow> engine_process e (rn_eng rt) n = Some (out, eng') \<Longrightarrow>
    facade_run e rt0 vs (with_engine (\<lambda>eng. eng') rt)"

lemma facade_run_trans: "facade_run e b ws c \<Longrightarrow> facade_run e a vs b \<Longrightarrow> facade_run e a (vs @ ws) c"
proof (induction rule: facade_run.induct)
  case fr_start
  then show ?case by simp
next
  case (fr_spawn ws rt base b opt v rt')
  then show ?case using facade_run.fr_spawn [of e a "vs @ ws" rt] by simp
qed (blast intro: facade_run.intros)+

section \<open>The guards of the calls\<close>

lemma get_registered_simps [simp]:
  "rn_eng (snd (get_registered b rt)) = rn_eng rt"
  "rn_slot_blueprint (snd (get_registered b rt)) = rn_slot_blueprint rt"
  "rn_registry (snd (get_registered b rt)) = rn_registry rt"
  "rn_cfg (snd (get_registered b rt)) = rn_cfg rt"
  by (simp_all add: get_registered_def set_err_def)

lemma get_registered_Some:
  "fst (get_registered b rt) = Some r \<Longrightarrow> r \<in> set (rn_registry rt) \<and> get_registered b rt = (Some r, rt)"
  by (auto simp: get_registered_def split: if_splits)

lemma set_err_simps [simp]:
  "rn_eng (set_err m rt) = rn_eng rt" "rn_slot_blueprint (set_err m rt) = rn_slot_blueprint rt"
  "rn_registry (set_err m rt) = rn_registry rt" "rn_cfg (set_err m rt) = rn_cfg rt"
  by (simp_all add: set_err_def)

lemma with_engine_simps [simp]:
  "rn_eng (with_engine f rt) = f (rn_eng rt)" "rn_slot_blueprint (with_engine f rt) = rn_slot_blueprint rt"
  "rn_registry (with_engine f rt) = rn_registry rt" "rn_cfg (with_engine f rt) = rn_cfg rt"
  by (simp_all add: with_engine_def)

lemma register_simps [simp]:
  "rn_eng (snd (register_blueprint b rt)) = rn_eng rt"
  "rn_slot_blueprint (snd (register_blueprint b rt)) = rn_slot_blueprint rt"
  "rn_cfg (snd (register_blueprint b rt)) = rn_cfg rt"
  by (simp_all add: register_blueprint_def split: option.split)

lemma target_simps [simp]:
  "target_ok to_master_target" "target_ok (to_target h t) = handle_valid h"
  by (simp_all add: target_ok_def to_master_target_def to_target_def)

lemma resolve_out_term_cases:
  obtains (bad) m where "resolve_out_term src name rt = (None, set_err m rt)"
  | (good) t r where "resolve_out_term src name rt = (Some t, rt)" and "handle_valid (vo_handle src)"
      and "r \<in> set (rn_registry rt)" and "find_output_terminal (rg_bp r) name = Some t"
  using get_registered_Some [of "vo_blueprint src" rt]
  by (fastforce simp: resolve_out_term_def voice_valid_def split: option.splits if_splits)

lemma resolve_route_cases:
  obtains (bad) m where "resolve_route src dst dt st rt = (None, set_err m rt)"
  | (good) t d where "resolve_route src dst dt st rt = (Some (t, d), rt)" and "handle_valid (vo_handle src)"
      and "target_ok d"
proof (cases rule: resolve_out_term_cases [of src st rt])
  case (bad m)
  then show thesis by (intro that(1) [of m]) (simp add: resolve_route_def)
next
  case (good t r)
  then show thesis
    using that by (fastforce simp: resolve_route_def voice_valid_def split: option.splits if_splits)
qed

lemma resolve_cases:
  obtains m where "resolve b n p rt = (no_param, set_err m rt)"
  | q where "resolve b n p rt = (q, rt)"
  by (fastforce simp: resolve_def get_registered_def split: option.splits prod.splits if_splits)

text \<open>A call that only queues commands leaves an engine that guarded operations have made of the old one.\<close>

inductive queued :: "engine \<Rightarrow> engine \<Rightarrow> bool" for eng0 where
  q_start: "queued eng0 eng0"
| q_kill: "queued eng0 eng \<Longrightarrow> handle_valid h \<Longrightarrow> queued eng0 (kill h eng)"
| q_set: "queued eng0 eng \<Longrightarrow> handle_valid h \<Longrightarrow> queued eng0 (engine_set_parameter h v p x eng)"
| q_connect: "queued eng0 eng \<Longrightarrow> handle_valid h \<Longrightarrow> target_ok d \<Longrightarrow> queued eng0 (engine_connect h t d eng)"
| q_disconnect: "queued eng0 eng \<Longrightarrow> handle_valid h \<Longrightarrow> target_ok d \<Longrightarrow> queued eng0 (engine_disconnect h t d eng)"

lemma queued_targets:
  "handle_valid h \<Longrightarrow> queued eng0 eng \<Longrightarrow> queued eng0 (foldl (set_target h x) eng ts)"
  by (induction ts arbitrary: eng) (auto simp: set_target_def intro: queued.intros)

lemma queued_set_ref: "queued (rn_eng rt) (rn_eng (snd (set_ref v p x rt)))"
  by (auto simp: set_ref_def voice_valid_def intro: queued.intros)

lemma set_ref_simps [simp]:
  "rn_slot_blueprint (snd (set_ref v p x rt)) = rn_slot_blueprint rt"
  "rn_registry (snd (set_ref v p x rt)) = rn_registry rt" "rn_cfg (snd (set_ref v p x rt)) = rn_cfg rt"
  by (simp_all add: set_ref_def)

definition same_tables :: "runtime \<Rightarrow> runtime \<Rightarrow> bool" where
  "same_tables rt rt' \<longleftrightarrow> rn_slot_blueprint rt' = rn_slot_blueprint rt \<and> rn_registry rt' = rn_registry rt \<and>
     rn_cfg rt' = rn_cfg rt"

lemma perform_queued: "queued (rn_eng rt) (rn_eng (perform c rt)) \<and> same_tables rt (perform c rt)"
proof (cases c)
  case (Ctl_kill v)
  then show ?thesis by (auto simp: runtime_kill_def voice_valid_def same_tables_def intro: queued.intros)
next
  case (Ctl_set_ref v p x)
  then show ?thesis using queued_set_ref by (simp add: same_tables_def)
next
  case (Ctl_set_named v n p x)
  show ?thesis
    using queued_set_ref [of rt] Ctl_set_named
    by (cases rule: resolve_cases [of "vo_blueprint v" n p rt])
      (auto simp: set_named_def no_param_def same_tables_def intro: queued.intros)
next
  case (Ctl_set_param v n x)
  then show ?thesis
    by (auto simp: set_param_def voice_valid_def same_tables_def get_registered_def split: option.splits
        intro: queued.intros queued_targets)
next
  case (Ctl_resolve b n p)
  then show ?thesis
    by (cases rule: resolve_cases [of b n p rt]) (auto simp: same_tables_def intro: queued.intros)
next
  case (Ctl_route s d dt st)
  then show ?thesis
    by (cases rule: resolve_route_cases [of s d dt st rt])
      (auto simp: route_def same_tables_def intro: queued.intros)
next
  case (Ctl_unroute s d dt st)
  then show ?thesis
    by (cases rule: resolve_route_cases [of s d dt st rt])
      (auto simp: unroute_def same_tables_def intro: queued.intros)
next
  case (Ctl_route_to_master s st)
  then show ?thesis
    by (cases rule: resolve_out_term_cases [of s st rt])
      (auto simp: route_to_master_def same_tables_def intro: queued.intros)
next
  case (Ctl_unroute_from_master s st)
  then show ?thesis
    by (cases rule: resolve_out_term_cases [of s st rt])
      (auto simp: unroute_from_master_def same_tables_def intro: queued.intros)
qed

text \<open>What \<open>spawn\<close> does: an error leaves the engine, otherwise the engine spawns into a valid target.\<close>

lemma spawn_target_ok: "spawn_target opt rt = Inr d \<Longrightarrow> target_ok d"
  by (auto simp: spawn_target_def voice_valid_def split: if_splits option.splits)

lemma res_bind_Inr: "res_bind r f = Inr y \<longleftrightarrow> (\<exists>x. r = Inr x \<and> f x = Inr y)"
  by (cases r) (auto simp: res_bind_def)

lemma runtime_spawn_cases:
  assumes "runtime_spawn e base b opt rt = Some (v, rt')"
  obtains (refused) "v = no_voice" "rn_eng rt' = rn_eng rt" "same_tables rt rt'"
  | (engine) r src d ips h eng where "r = rn_registry rt ! unat b" and "unat b < length (rn_registry rt)"
      and "spawn_source r (so_from_terminal opt) = Inr src"
      and "target_ok d" and "spawn_target opt rt = Inr d"
      and "spawn_params (rg_bp r) (so_params opt) = Inr ips"
      and "spawn e base (rn_eng rt) (rg_sched r) (so_life opt) d src ips = Some (h, eng)"
      and "rn_eng rt' = eng" and "rn_registry rt' = rn_registry rt" and "rn_cfg rt' = rn_cfg rt"
      and "if handle_valid h
           then v = \<lparr>vo_handle = h, vo_blueprint = b\<rparr> \<and>
             rn_slot_blueprint rt' = remember_slot (ih_slot h) b (rn_slot_blueprint rt)
           else v = no_voice \<and> rn_slot_blueprint rt' = rn_slot_blueprint rt"
proof (cases "unat b < length (rn_registry rt)")
  case False
  then show thesis
    using assms by (intro refused) (auto simp: runtime_spawn_def get_registered_def same_tables_def)
next
  case True
  let ?r = "rn_registry rt ! unat b"
  let ?q = "res_bind (spawn_source ?r (so_from_terminal opt)) (\<lambda>src.
      res_bind (spawn_target opt rt) (\<lambda>dest.
      res_bind (spawn_params (rg_bp ?r) (so_params opt)) (\<lambda>ips. Inr (src, dest, ips))))"
  have g: "get_registered b rt = (Some ?r, rt)" using True by (simp add: get_registered_def)
  show thesis
  proof (cases ?q)
    case (Inl m)
    then show thesis using assms g by (intro refused) (auto simp: runtime_spawn_def same_tables_def)
  next
    case (Inr q)
    then obtain src d ips where q: "q = (src, d, ips)" "spawn_source ?r (so_from_terminal opt) = Inr src"
      "spawn_target opt rt = Inr d" "spawn_params (rg_bp ?r) (so_params opt) = Inr ips"
      by (auto simp: res_bind_Inr)
    obtain h eng where s: "spawn e base (rn_eng rt) (rg_sched ?r) (so_life opt) d src ips = Some (h, eng)"
      using assms g q by (auto simp: runtime_spawn_def res_bind_def split: option.splits)
    show thesis
      by (rule engine [OF refl True q(2) spawn_target_ok [OF q(3)] q(3,4) s])
        (use assms g q s in \<open>auto simp: runtime_spawn_def res_bind_def split: if_splits\<close>)
  qed
qed

section \<open>What engine operations keep, the interface keeps\<close>

text \<open>
  A property of engines that every operation keeps when the handles it is given are not the null handle.
  The engine does not test them; the interface does, so the property holds after every call of it.
\<close>

locale engine_contract =
  fixes e :: Dsp.env and Inv :: "engine \<Rightarrow> bool"
  assumes spawn_keeps: "Inv eng \<Longrightarrow> target_ok d \<Longrightarrow> spawn e base eng s life d t ips = Some (h, eng') \<Longrightarrow> Inv eng'"
    and kill_keeps: "Inv eng \<Longrightarrow> handle_valid h \<Longrightarrow> Inv (kill h eng)"
    and set_keeps: "Inv eng \<Longrightarrow> handle_valid h \<Longrightarrow> Inv (engine_set_parameter h v p x eng)"
    and connect_keeps: "Inv eng \<Longrightarrow> handle_valid h \<Longrightarrow> target_ok d \<Longrightarrow> Inv (engine_connect h t d eng)"
    and disconnect_keeps: "Inv eng \<Longrightarrow> handle_valid h \<Longrightarrow> target_ok d \<Longrightarrow> Inv (engine_disconnect h t d eng)"
    and reclaim_keeps: "Inv eng \<Longrightarrow> Inv (snd (reclaim eng))"
    and block_keeps: "Inv eng \<Longrightarrow> engine_process e eng n = Some (out, eng') \<Longrightarrow> Inv eng'"
begin

lemma queued_keeps: "queued eng eng' \<Longrightarrow> Inv eng \<Longrightarrow> Inv eng'"
  by (induction rule: queued.induct) (auto intro: kill_keeps set_keeps connect_keeps disconnect_keeps)

lemma runtime_spawn_keeps:
  assumes "runtime_spawn e base b opt rt = Some (v, rt')" and "Inv (rn_eng rt)"
  shows "Inv (rn_eng rt')"
  using assms(1)
proof (cases rule: runtime_spawn_cases)
  case refused
  then show ?thesis using assms(2) by simp
next
  case (engine r src d ips h eng)
  then show ?thesis using spawn_keeps [OF assms(2)] by simp
qed

lemma facade_keeps: "facade_run e rt vs rt' \<Longrightarrow> Inv (rn_eng rt) \<Longrightarrow> Inv (rn_eng rt')"
proof (induction rule: facade_run.induct)
  case (fr_spawn vs rt1 base b opt v rt2)
  then show ?case using runtime_spawn_keeps by blast
next
  case (fr_control vs rt1 c)
  then show ?case using perform_queued queued_keeps by blast
next
  case (fr_register vs rt1 b)
  then show ?case by simp
next
  case (fr_block vs rt1 n out eng')
  then show ?case using block_keeps by simp
qed (simp_all add: reclaim_keeps)

end

interpretation hist: engine_contract e "engine_run e eng0" for e eng0
  by unfold_locales (blast intro: engine_run.intros)+

section \<open>Which voice is in a slot\<close>

lemma reclaim_mgr:
  assumes ok: "engine_ok eng cs"
  shows "im_free (en_mgr (snd (reclaim eng))) = im_free (en_mgr eng) @ ended eng"
    and "length (im_slots (en_mgr (snd (reclaim eng)))) = length (im_slots (en_mgr eng))"
    and "is_generation (im_slots (en_mgr (snd (reclaim eng))) ! i) = is_generation (im_slots (en_mgr eng) ! i)"
proof -
  have e: "en_mgr (snd (reclaim eng)) = foldl (\<lambda>m i. mgr_recycle i m) (en_mgr eng) (ended eng)"
    by (simp add: reclaim_def ended_def foldl_map)
  have "mgr_ok (en_mgr eng)" using ok by (simp add: engine_ok_def)
  from recycles_ok [OF this owner_parts(2,4,6) [OF ok]] show
    "im_free (en_mgr (snd (reclaim eng))) = im_free (en_mgr eng) @ ended eng"
    "length (im_slots (en_mgr (snd (reclaim eng)))) = length (im_slots (en_mgr eng))"
    "is_generation (im_slots (en_mgr (snd (reclaim eng))) ! i) = is_generation (im_slots (en_mgr eng) ! i)"
    unfolding e by auto
qed

lemma exec_command_shape:
  assumes "exec_command eng c = Some eng'"
  shows "mgr_shape (en_mgr eng') = mgr_shape (en_mgr eng)"
  using assms
  by (auto simp: exec_command_def Let_def activate_def release_slot_def try_report_def add_route_def
      remove_route_def put_instance_shape split: command_type.splits if_splits option.splits)

lemma releases_mgr: "en_mgr (foldl (\<lambda>g (slot, why). release_slot slot why g) eng rs) = en_mgr eng"
  by (induction rs arbitrary: eng) (auto simp: release_slot_def try_report_def Let_def)

lemma process_shape:
  assumes ok: "engine_ok eng (en_commands eng)" and p: "engine_process e eng n = Some (out, eng')"
  shows "mgr_shape (en_mgr eng') = mgr_shape (en_mgr eng)"
proof -
  obtain eng1 m where s: "start_block eng = Some eng1"
    and c: "compute_sequential e eng1 (min n (en_block_size eng)) = Some m"
    and f: "finish_block (eng1\<lparr>en_mgr := m\<rparr>) (min n (en_block_size eng)) n = Some (out, eng')"
    using p by (auto simp: engine_process_def Let_def split: option.splits)
  obtain eng2 where d: "fold_option exec_command (eng\<lparr>en_commands := []\<rparr>) (en_commands eng) = Some eng2"
    and e: "en_mgr eng1 = en_mgr eng2"
    using s by (auto simp: start_block_def drain_commands_def split: option.splits)
  have "mgr_shape (en_mgr eng2) = mgr_shape (en_mgr (eng\<lparr>en_commands := []\<rparr>))"
    using d by (rule fold_option_keeps) (rule exec_command_shape)
  moreover have "mgr_shape m = mgr_shape (en_mgr eng1)" by (rule compute_shape [OF c])
  moreover have "mgr_shape (en_mgr eng') = mgr_shape m"
  proof -
    obtain m' rs where "fold_option (reap_one (min n (en_block_size eng))) (m, []) (en_active_list eng1) = Some (m', rs)"
      and "en_mgr eng' = m'"
      using f by (auto simp: finish_block_def reap_pass_def releases_mgr split: option.splits)
    with reap_fold owner_parts(1) [OF start_block_ok(1) [OF ok s]] show ?thesis by fastforce
  qed
  ultimately show ?thesis using e by simp
qed

text \<open>Every slot in use carries the voice that \<open>spawn\<close> returned for it.\<close>

definition in_use :: "instance_manager \<Rightarrow> nat \<Rightarrow> bool" where
  "in_use m i \<longleftrightarrow> i < length (im_slots m) \<and> i \<notin> set (im_free m)"

definition slot_handle :: "instance_manager \<Rightarrow> nat \<Rightarrow> instance_handle" where
  "slot_handle m i = \<lparr>ih_slot = i, ih_generation = is_generation (im_slots m ! i)\<rparr>"

definition voices_known :: "runtime \<Rightarrow> voice list \<Rightarrow> bool" where
  "voices_known rt vs \<longleftrightarrow> (\<forall>i. in_use (en_mgr (rn_eng rt)) i \<longrightarrow>
     slot_voice rt (slot_handle (en_mgr (rn_eng rt)) i) \<in> set vs)"

lemma voices_known_cong:
  assumes "voices_known rt vs" and "rn_slot_blueprint rt' = rn_slot_blueprint rt"
    and "\<And>i. in_use (en_mgr (rn_eng rt')) i \<Longrightarrow> in_use (en_mgr (rn_eng rt)) i \<and>
      is_generation (im_slots (en_mgr (rn_eng rt')) ! i) = is_generation (im_slots (en_mgr (rn_eng rt)) ! i)"
  shows "voices_known rt' vs"
  unfolding voices_known_def
proof (intro allI impI)
  fix i assume i: "in_use (en_mgr (rn_eng rt')) i"
  have "slot_voice rt' (slot_handle (en_mgr (rn_eng rt')) i) = slot_voice rt (slot_handle (en_mgr (rn_eng rt)) i)"
    using assms(2) assms(3) [OF i] by (simp add: slot_voice_def slot_handle_def)
  then show "slot_voice rt' (slot_handle (en_mgr (rn_eng rt')) i) \<in> set vs"
    using assms(1) assms(3) [OF i] by (simp add: voices_known_def)
qed

lemma voices_known_shape:
  assumes "voices_known rt vs" and "rn_slot_blueprint rt' = rn_slot_blueprint rt"
    and sh: "mgr_shape (en_mgr (rn_eng rt')) = mgr_shape (en_mgr (rn_eng rt))"
  shows "voices_known rt' vs"
proof (rule voices_known_cong [OF assms(1,2)])
  fix i assume "in_use (en_mgr (rn_eng rt')) i"
  with shape_facts(1,3,4) [OF sh] show "in_use (en_mgr (rn_eng rt)) i \<and>
      is_generation (im_slots (en_mgr (rn_eng rt')) ! i) = is_generation (im_slots (en_mgr (rn_eng rt)) ! i)"
    by (simp add: in_use_def)
qed

lemma queued_mgr: "queued eng eng' \<Longrightarrow> en_mgr eng' = en_mgr eng"
  by (induction rule: queued.induct)
    (simp_all add: kill_def engine_set_parameter_def engine_connect_def engine_disconnect_def enqueue_def)

lemma voices_known_reclaim:
  assumes "voices_known rt vs" and "engine_ok (rn_eng rt) cs"
  shows "voices_known (with_engine (\<lambda>eng. snd (reclaim eng)) rt) vs"
  by (rule voices_known_cong [OF assms(1)])
    (simp_all add: in_use_def reclaim_mgr(1,2) [OF assms(2)] reclaim_mgr(3) [OF assms(2)])

lemma spawn_mgr:
  assumes ok: "engine_ok eng cs" and s: "spawn e base eng sched life d t ips = Some (h, eng')"
  obtains (full) "h = null_handle" "mgr_shape (en_mgr eng') = mgr_shape (en_mgr (snd (reclaim eng)))"
  | (made) "handle_valid h" "in_use (en_mgr eng') (ih_slot h)"
      "im_free (en_mgr (snd (reclaim eng))) = im_free (en_mgr eng') @ [ih_slot h]"
      "length (im_slots (en_mgr eng')) = length (im_slots (en_mgr eng))"
      "\<And>i. i < length (im_slots (en_mgr eng)) \<Longrightarrow> is_generation (im_slots (en_mgr eng') ! i) =
        (if i = ih_slot h then ih_generation h else is_generation (im_slots (en_mgr eng) ! i))"
proof -
  let ?e1 = "snd (reclaim eng)"
  have ok1: "engine_ok ?e1 cs" by (rule reclaim_ok [OF ok])
  have mok: "mgr_ok (en_mgr ?e1)" using ok1 by (simp add: engine_ok_def)
  obtain h' m where c: "mgr_create e base (en_mgr ?e1) sched (en_sample_rate ?e1) life = (h', m)" by fastforce
  have h: "h = h' \<or> (\<not> handle_valid h' \<and> h = null_handle)"
    using s by (auto simp: spawn_def Let_def c split: if_splits option.splits)
  show thesis
    using c
  proof (cases rule: mgr_create_cases)
    case full
    then have "h = null_handle \<and> eng' = ?e1"
      using s by (simp add: spawn_def Let_def c handle_valid_def null_handle_def)
    then show thesis by (intro that(1)) simp_all
  next
    case (made inst idx)
    have v: "handle_valid h'" using made(3) mok by (simp add: handle_valid_def mgr_ok_def)
    then have hh: "h = h'" using h by simp
    obtain g where g: "instance_at m (ih_slot h') = Some g" using spawned_ok(2) [OF ok1 c v] by blast
    then have sh: "mgr_shape (en_mgr eng') = mgr_shape m"
      using s v put_instance_shape [OF g]
      by (auto simp: spawn_def Let_def c enqueue_def engine_connect_def split: option.splits if_splits)
    have slots: "im_slots m = (im_slots (en_mgr ?e1))[idx := \<lparr>is_inst = Some inst,
        is_generation = im_next_generation (en_mgr ?e1), is_life = life, is_age_blocks = 0, is_silent_run = 0\<rparr>]"
      by (subst made(4), simp)
    have idx: "idx < length (im_slots (en_mgr ?e1))" "idx \<notin> set (im_free m)"
      using mok made(2) by (auto simp: mgr_ok_def)
    note f = shape_facts [OF sh]
    show thesis
    proof (rule that(2))
      show "handle_valid h" using v hh by simp
      show "im_free (en_mgr ?e1) = im_free (en_mgr eng') @ [ih_slot h]" using made(2,3) hh f(1) by simp
      show len: "length (im_slots (en_mgr eng')) = length (im_slots (en_mgr eng))"
        using f(3) slots reclaim_mgr(2) [OF ok] by simp
      show "in_use (en_mgr eng') (ih_slot h)"
        using idx f(1,3) made(3) hh slots by (simp add: in_use_def)
      fix i assume i: "i < length (im_slots (en_mgr eng))"
      have o: "is_generation (im_slots m ! i) =
          (if i = idx then im_next_generation (en_mgr ?e1) else is_generation (im_slots (en_mgr eng) ! i))"
        using idx(1) reclaim_mgr(3) [OF ok] by (simp add: slots)
      show "is_generation (im_slots (en_mgr eng') ! i) =
          (if i = ih_slot h then ih_generation h else is_generation (im_slots (en_mgr eng) ! i))"
        using f(4) [of i] i o made(3) hh slots reclaim_mgr(2) [OF ok] by simp
    qed
  qed
qed

lemma remember_slot_nth:
  "i < length (remember_slot s b tab) \<longleftrightarrow> i < max (length tab) (s + 1)"
  "remember_slot s b tab ! s = b"
  "i < length tab \<Longrightarrow> i \<noteq> s \<Longrightarrow> remember_slot s b tab ! i = tab ! i"
  by (auto simp: remember_slot_def nth_append)

lemma slot_voice_spawned:
  assumes "rn_slot_blueprint rt' = remember_slot s b (rn_slot_blueprint rt)"
  shows "ih_slot h = s \<Longrightarrow> slot_voice rt' h = \<lparr>vo_handle = h, vo_blueprint = b\<rparr>"
    and "ih_slot h \<noteq> s \<Longrightarrow> slot_voice rt' h = slot_voice rt h"
proof -
  assume "ih_slot h = s"
  then show "slot_voice rt' h = \<lparr>vo_handle = h, vo_blueprint = b\<rparr>"
    by (simp add: slot_voice_def assms remember_slot_nth less_max_iff_disj)
next
  assume ne: "ih_slot h \<noteq> s"
  have "remember_slot s b (rn_slot_blueprint rt) ! ih_slot h = invalid_blueprint"
    if "length (rn_slot_blueprint rt) \<le> ih_slot h" "ih_slot h < s + 1"
    using that ne by (simp add: remember_slot_def nth_append)
  then show "slot_voice rt' h = slot_voice rt h"
    using ne remember_slot_nth(3) [of "ih_slot h" "rn_slot_blueprint rt" s b]
    by (auto simp: slot_voice_def assms remember_slot_nth(1))
qed

lemma voices_known_spawn:
  assumes k: "voices_known rt vs" and ok: "engine_ok (rn_eng rt) cs"
    and s: "runtime_spawn e base b opt rt = Some (v, rt')"
  shows "voices_known rt' (vs @ [v])"
  using s
proof (cases rule: runtime_spawn_cases)
  case refused
  then have "voices_known rt' vs" by (intro voices_known_shape [OF k]) (simp_all add: same_tables_def)
  then show ?thesis by (auto simp: voices_known_def)
next
  case (engine r src d ips h eng)
  note k1 = voices_known_reclaim [OF k ok]
  from ok engine(7) show ?thesis
  proof (cases rule: spawn_mgr)
    case full
    then have "voices_known rt' vs"
      using engine(8,11) by (intro voices_known_shape [OF k1]) (simp_all add: handle_valid_def null_handle_def)
    then show ?thesis by (auto simp: voices_known_def)
  next
    case made
    let ?m = "en_mgr (rn_eng rt')" and ?rt1 = "with_engine (\<lambda>eng. snd (reclaim eng)) rt"
    have tab: "v = \<lparr>vo_handle = h, vo_blueprint = b\<rparr>"
      "rn_slot_blueprint rt' = remember_slot (ih_slot h) b (rn_slot_blueprint rt)"
      using engine(11) made(1) by simp_all
    show ?thesis
      unfolding voices_known_def
    proof (intro allI impI)
      fix i assume u: "in_use ?m i"
      then have i: "i < length (im_slots (en_mgr (rn_eng rt)))" using made(4) engine(8) by (simp add: in_use_def)
      show "slot_voice rt' (slot_handle ?m i) \<in> set (vs @ [v])"
      proof (cases "i = ih_slot h")
        case True
        then have "slot_handle ?m i = h" using made(5) [OF i] engine(8) by (simp add: slot_handle_def)
        then show ?thesis using slot_voice_spawned(1) [OF tab(2) refl] tab(1) by simp
      next
        case False
        have "in_use (en_mgr (rn_eng ?rt1)) i"
          using u False i made(3) engine(8) reclaim_mgr(2) [OF ok] by (simp add: in_use_def)
        moreover have h: "slot_handle (en_mgr (rn_eng ?rt1)) i = slot_handle ?m i"
          using made(5) [OF i] False engine(8) reclaim_mgr(3) [OF ok] by (simp add: slot_handle_def)
        ultimately have "slot_voice ?rt1 (slot_handle ?m i) \<in> set vs"
          using k1 unfolding voices_known_def by (metis (no_types))
        moreover have "slot_voice ?rt1 (slot_handle ?m i) = slot_voice rt (slot_handle ?m i)"
          by (simp add: slot_voice_def)
        moreover have "slot_voice rt' (slot_handle ?m i) = slot_voice rt (slot_handle ?m i)"
          using False by (intro slot_voice_spawned(2) [OF tab(2)]) (simp add: slot_handle_def)
        ultimately show ?thesis by simp
      qed
    qed
  qed
qed

text \<open>The state after a successful \<open>init\<close>.\<close>

lemma runtime_init_engine:
  assumes "runtime_init base opened c rt = (True, rt0)"
  shows "engine_init base (rc_sample_rate c) (rc_block_size c) (rc_output_channels c) (rc_max_instances c) = Some (rn_eng rt0)"
    and "rn_registry rt0 = rn_registry rt" and "rn_cfg rt0 = c" and "rn_inited rt0"
  using assms by (auto simp: runtime_init_def Let_def split: if_splits option.splits)

lemma engine_init_mgr: "engine_init base sr bs outs n = Some eng \<Longrightarrow> en_mgr eng = mgr_init n"
  by (auto simp: engine_init_def split: if_splits option.splits)

lemma facade_engine_ok:
  assumes "runtime_init base opened c rt = (True, rt0)" and "facade_run e rt0 vs rt'"
  shows "engine_run e (rn_eng rt0) (rn_eng rt')" and "engine_ok (rn_eng rt') (en_commands (rn_eng rt'))"
proof -
  show r: "engine_run e (rn_eng rt0) (rn_eng rt')"
    by (rule hist.facade_keeps [OF assms(2) engine_run.started])
  show "engine_ok (rn_eng rt') (en_commands (rn_eng rt'))"
    by (rule engine_run_ok [OF r engine_init_ok(1) [OF runtime_init_engine(1) [OF assms(1)]]])
qed

lemma facade_voices_known:
  assumes i: "runtime_init base opened c rt = (True, rt0)" and "facade_run e rt0 vs rt'"
  shows "voices_known rt' vs"
  using assms(2)
proof (induction rule: facade_run.induct)
  case fr_start
  then show ?case
    by (simp add: voices_known_def in_use_def engine_init_mgr [OF runtime_init_engine(1) [OF i]] mgr_init_def)
next
  case (fr_spawn vs rt base b opt v rt')
  show ?case
    by (rule voices_known_spawn [OF fr_spawn.IH facade_engine_ok(2) [OF i fr_spawn.hyps(1)] fr_spawn.hyps(2)])
next
  case (fr_control vs rt c)
  have "queued (rn_eng rt) (rn_eng (perform c rt))" and "same_tables rt (perform c rt)"
    by (simp_all add: perform_queued)
  note q = queued_mgr [OF this(1)] this(2) [unfolded same_tables_def]
  show ?case by (rule voices_known_shape [OF fr_control.IH]) (simp_all only: q)
next
  case (fr_register vs rt b)
  show ?case by (rule voices_known_shape [OF fr_register.IH]) simp_all
next
  case (fr_reclaim vs rt)
  show ?case by (rule voices_known_reclaim [OF fr_reclaim.IH facade_engine_ok(2) [OF i fr_reclaim.hyps(1)]])
next
  case (fr_block vs rt n out eng')
  note p = process_shape [OF facade_engine_ok(2) [OF i fr_block.hyps(1)] fr_block.hyps(2)]
  show ?case by (rule voices_known_shape [OF fr_block.IH]) (simp_all add: p)
qed

section \<open>The events of a pump\<close>

definition pump_events :: "runtime \<Rightarrow> voice_event list" where
  "pump_events rt = map (\<lambda>x. \<lparr>ev_voice = slot_voice rt (ve_handle x), ev_reason = reason_of (ve_reason x)\<rparr>)
     (fst (reclaim (rn_eng rt)))"

lemma fire_all:
  assumes "\<And>ev st. rn_slot_blueprint (snd (f ev st)) = rn_slot_blueprint (snd st)"
    and "rn_slot_blueprint (snd st) = rn_slot_blueprint rt"
  shows "foldl (\<lambda>st x. fire f x st) st xs =
    foldl (\<lambda>st ev. f ev st) st (map (\<lambda>x. \<lparr>ev_voice = slot_voice rt (ve_handle x), ev_reason = reason_of (ve_reason x)\<rparr>) xs)"
  using assms(2)
proof (induction xs arbitrary: st)
  case Nil
  then show ?case by simp
next
  case (Cons x xs)
  have "slot_voice (snd st) (ve_handle x) = slot_voice rt (ve_handle x)"
    using Cons.prems by (simp add: slot_voice_def)
  moreover have "rn_slot_blueprint (snd (f ev st)) = rn_slot_blueprint rt" for ev
    using assms(1) Cons.prems by simp
  ultimately show ?case using Cons.IH by (simp add: fire_def)
qed

lemma pump_fires:
  assumes "\<And>ev st. rn_slot_blueprint (snd (f ev st)) = rn_slot_blueprint (snd st)"
  shows "pump (Some f) (h, rt) = (length (pump_events rt),
    foldl (\<lambda>st ev. f ev st) (h, with_engine (\<lambda>eng. snd (reclaim eng)) rt) (pump_events rt))"
proof -
  obtain ends eng where r: "reclaim (rn_eng rt) = (ends, eng)" by fastforce
  let ?rt1 = "rt\<lparr>rn_eng := eng\<rparr>"
  have "foldl (\<lambda>st x. fire f x st) (h, ?rt1) ends = foldl (\<lambda>st ev. f ev st) (h, ?rt1)
      (map (\<lambda>x. \<lparr>ev_voice = slot_voice rt (ve_handle x), ev_reason = reason_of (ve_reason x)\<rparr>) ends)"
    by (rule fire_all [OF assms]) simp
  then show ?thesis by (simp add: pump_def pump_events_def r with_engine_def)
qed

lemma telemetry_event:
  assumes "engine_ok eng cs" and "ev \<in> set (en_telemetry eng)"
  shows "in_use (en_mgr eng) (te_slot ev)" and "ve_handle (event_end ev) = slot_handle (en_mgr eng) (te_slot ev)"
proof -
  have "te_slot ev \<in> set (ended eng)" using assms(2) by (simp add: ended_def)
  then show "in_use (en_mgr eng) (te_slot ev)" using owner_parts [OF assms(1)] by (auto simp: in_use_def)
  show "ve_handle (event_end ev) = slot_handle (en_mgr eng) (te_slot ev)"
    using assms by (simp add: event_end_def slot_handle_def engine_ok_def gens_ok_def)
qed

lemma pump_events_voices:
  assumes "voices_known rt vs" and ok: "engine_ok (rn_eng rt) cs"
  shows "\<forall>ev \<in> set (pump_events rt). ev_voice ev \<in> set vs"
    and "map (\<lambda>ev. ih_slot (vo_handle (ev_voice ev))) (pump_events rt) = ended (rn_eng rt)"
proof -
  show "\<forall>ev \<in> set (pump_events rt). ev_voice ev \<in> set vs"
    using assms(1) telemetry_event [OF ok] by (auto simp: pump_events_def reclaim_def voices_known_def)
  show "map (\<lambda>ev. ih_slot (vo_handle (ev_voice ev))) (pump_events rt) = ended (rn_eng rt)"
    by (simp add: pump_events_def reclaim_def ended_def slot_voice_def event_end_def)
qed

text \<open>A pump whose callbacks make calls of the interface is a part of a history.\<close>

lemma pump_run:
  assumes "facade_run e rt0 vs rt" and f: "\<And>ev st. \<exists>ws. facade_run e (snd st) ws (snd (f ev st))"
  shows "\<exists>ws. facade_run e rt0 (vs @ ws) (snd (snd (pump (Some f) (h, rt))))"
proof -
  have fold: "\<exists>ws. facade_run e rt0 (us @ ws) (snd (foldl (\<lambda>st x. fire f x st) st xs))"
    if "facade_run e rt0 us (snd st)" for us st xs
    using that
  proof (induction xs arbitrary: us st)
    case Nil
    then show ?case by (auto intro: exI [of _ "[]"])
  next
    case (Cons x xs)
    obtain ws where "facade_run e (snd st) ws (snd (fire f x st))" using f unfolding fire_def by blast
    from facade_run_trans [OF this Cons.prems] have "facade_run e rt0 (us @ ws) (snd (fire f x st))" .
    from Cons.IH [OF this] show ?case by auto
  qed
  obtain ends eng where r: "reclaim (rn_eng rt) = (ends, eng)" by fastforce
  have "facade_run e rt0 vs (rt\<lparr>rn_eng := eng\<rparr>)" using fr_reclaim [OF assms(1)] by (simp add: r with_engine_def)
  from fold [of vs "(h, rt\<lparr>rn_eng := eng\<rparr>)" ends] this show ?thesis by (simp add: pump_def r)
qed

section \<open>The pool of a runtime\<close>

definition pool_of :: "nat \<Rightarrow> engine \<Rightarrow> bool" where
  "pool_of n eng \<longleftrightarrow> engine_ok eng (en_commands eng) \<and> length (im_slots (en_mgr eng)) = n"

lemma engine_step_ok: "engine_run e eng eng' \<Longrightarrow> pool_of n eng \<Longrightarrow> engine_ok eng' (en_commands eng')"
  using engine_run_ok unfolding pool_of_def by blast

lemma pool_of_same: "engine_run e eng eng' \<Longrightarrow> en_mgr eng' = en_mgr eng \<Longrightarrow> pool_of n eng \<Longrightarrow> pool_of n eng'"
  using engine_step_ok [of e eng eng' n] by (simp add: pool_of_def)

interpretation pool: engine_contract e "pool_of n" for e n
proof
  fix eng :: engine
  assume p: "pool_of n eng"
  note ok = p [unfolded pool_of_def, THEN conjunct1] and len = p [unfolded pool_of_def, THEN conjunct2]
  note start = engine_run.started [of e eng]
  show "pool_of n eng'" if "target_ok d" and s: "spawn e base eng s life d t ips = Some (h, eng')"
    for d base s life t ips h eng'
    using ok s
  proof (cases rule: spawn_mgr)
    case full
    then show ?thesis
      using spawn_ok [OF ok that] shape_facts(3) [OF full(2)] reclaim_mgr(2) [OF ok] len by (simp add: pool_of_def)
  next
    case made
    then show ?thesis using spawn_ok [OF ok that] len by (simp add: pool_of_def)
  qed
  show "pool_of n (kill h eng)" if "handle_valid h" for h
    by (rule pool_of_same [OF engine_run.killed [OF start that] _ p]) (simp add: kill_def enqueue_def)
  show "pool_of n (engine_set_parameter h v i x eng)" if "handle_valid h" for h v i x
    by (rule pool_of_same [OF engine_run.set_parameter [OF start that] _ p])
      (simp add: engine_set_parameter_def enqueue_def)
  show "pool_of n (engine_connect h t d eng)" if "handle_valid h" "target_ok d" for h t d
    by (rule pool_of_same [OF engine_run.connected [OF start that] _ p]) (simp add: engine_connect_def enqueue_def)
  show "pool_of n (engine_disconnect h t d eng)" if "handle_valid h" "target_ok d" for h t d
    by (rule pool_of_same [OF engine_run.disconnected [OF start that] _ p])
      (simp add: engine_disconnect_def enqueue_def)
  show "pool_of n (snd (reclaim eng))"
    using engine_step_ok [OF engine_run.reclaimed [OF start] p] reclaim_mgr(2) [OF ok] len by (simp add: pool_of_def)
  show "pool_of n eng'" if "engine_process e eng k = Some (out, eng')" for k out eng'
    using engine_process_ok [OF ok that] shape_facts(3) [OF process_shape [OF ok that]] len by (simp add: pool_of_def)
qed

lemma facade_pool:
  assumes "runtime_init base opened c rt = (True, rt0)" and "facade_run e rt0 vs rt'"
  shows "pool_of (rc_max_instances c) (rn_eng rt')"
  using pool.facade_keeps [OF assms(2)] engine_init_ok [OF runtime_init_engine(1) [OF assms(1)]]
  by (simp add: pool_of_def)

section \<open>An example history\<close>

lemma spawn_succeeds:
  assumes "build e base s (en_sample_rate eng) = Some inst" and "im_free (en_mgr (snd (reclaim eng))) = fs @ [i]"
    and "im_next_generation (en_mgr (snd (reclaim eng))) \<noteq> 0" and "i < length (im_slots (en_mgr (snd (reclaim eng))))"
    and "g_output_terminals (cs_bp s) = []"
  shows "spawn e base eng s life d t [] = Some (\<lparr>ih_slot = i, ih_generation = im_next_generation (en_mgr (snd (reclaim eng)))\<rparr>,
    enqueue (plain_command Activate \<lparr>ih_slot = i, ih_generation = im_next_generation (en_mgr (snd (reclaim eng)))\<rparr>)
      ((snd (reclaim eng))\<lparr>en_mgr := (en_mgr (snd (reclaim eng)))\<lparr>im_free := fs,
        im_next_generation := next_gen (im_next_generation (en_mgr (snd (reclaim eng)))),
        im_slots := (im_slots (en_mgr (snd (reclaim eng))))[i := \<lparr>is_inst = Some inst,
          is_generation = im_next_generation (en_mgr (snd (reclaim eng))), is_life = life, is_age_blocks = 0,
          is_silent_run = 0\<rparr>]\<rparr>\<rparr>))"
proof -
  have "en_sample_rate (snd (reclaim eng)) = en_sample_rate eng" by (simp add: reclaim_def)
  then show ?thesis
    using assms by (simp add: spawn_def Let_def mgr_create_def handle_valid_def instance_at_def put_instance_def)
qed

definition small_config :: runtime_config where
  "small_config = default_config\<lparr>rc_block_size := 64, rc_max_instances := 3\<rparr>"

definition tone_builder :: blueprint_builder where
  "tone_builder = (build_empty ''tone'')\<lparr>bb_bp := tone_graph\<rparr>"

definition tone_voice_of :: "32 word \<Rightarrow> voice" where
  "tone_voice_of k = \<lparr>vo_handle = \<lparr>ih_slot = 0, ih_generation = k\<rparr>, vo_blueprint = 0\<rparr>"

text \<open>The tone is registered, spawned, killed, and its end reported by the next block.\<close>

lemma tone_history:
  obtains rt0 rt1 rt2 rt3 rt4 where "runtime_init 4096 True small_config new_runtime = (True, rt0)"
    and "facade_run plain_env rt0 [] rt1" and "runtime_spawn plain_env 4096 0 default_options rt1 = Some (tone_voice_of 1, rt2)"
    and "facade_run plain_env rt0 [tone_voice_of 1] rt3" and "ended (rn_eng rt3) = [0]"
    and "runtime_spawn plain_env 4096 0 default_options rt3 = Some (tone_voice_of 2, rt4)"
    and "rt1 = snd (register_blueprint tone_builder rt0)"
proof -
  obtain s where c: "compile tone_graph 64 = Some s" and s: "sched_ok s" "cs_bp s = tone_graph" by (rule tone_sched)
  have "arena_bytes s < 2 ^ 62" using s(1) by (simp add: sched_ok_def)
  then have b: "build plain_env 4096 s 48000 = Some (instance_of plain_env s 48000)" by (rule build_Some) simp
  have t: "g_output_terminals tone_graph = []"
    by (simp add: tone_graph_def connect_def add_named_def empty_blueprint_def)
  have p64: "is_power_of_two 64" by (simp add: is_power_of_two_iff exI [of _ 6])
  then obtain eng0 where i: "engine_init 4096 48000 64 2 3 = Some eng0"
    by (rule engine_init_Some [of 64 2 4096 48000 3]) simp_all
  then have e0: "eng0 = \<lparr>en_sample_rate = 48000, en_block_size = 64, en_output_channels = 2,
      en_mgr = mgr_init 3, en_active_gen = replicate 3 0, en_active_list = [], en_routes = [],
      en_route_capacity = 12, en_master = replicate 2 (replicate 64 f64_zero),
      en_commands = [], en_telemetry = [], en_telemetry_capacity = 28\<rparr>"
    by (auto simp: engine_init_def split: if_splits option.splits)
  define rt0 where "rt0 = snd (runtime_init 4096 True small_config new_runtime)"
  have init: "runtime_init 4096 True small_config new_runtime = (True, rt0)"
    and r0: "rn_eng rt0 = eng0" "rn_registry rt0 = []" "rn_inited rt0" "rc_block_size (rn_cfg rt0) = 64"
      "rn_slot_blueprint rt0 = []"
    by (simp_all add: rt0_def runtime_init_def small_config_def default_config_def p64 i new_runtime_def)
  define r where "r = \<lparr>rg_name = ''tone'', rg_bp = tone_graph, rg_sched = s, rg_info = make_info ''tone'' tone_graph\<rparr>"
  define rt1 where "rt1 = snd (register_blueprint tone_builder rt0)"
  have rt1: "rt1 = rt0\<lparr>rn_registry := [r]\<rparr>"
    by (simp add: rt1_def register_blueprint_def r0 builder_ok_def tone_builder_def build_empty_def c r_def)
  have run1: "facade_run plain_env rt0 [] rt1"
    unfolding rt1_def by (intro fr_register fr_start) (simp add: tone_builder_def tone_graph_ok)
  have sp: "runtime_spawn plain_env 4096 0 default_options rt = Some (tone_voice_of (ih_generation h),
        rt\<lparr>rn_eng := eng, rn_slot_blueprint := remember_slot 0 0 (rn_slot_blueprint rt)\<rparr>)"
    if "rn_registry rt = [r]" and "spawn plain_env 4096 (rn_eng rt) s default_policy to_master_target 0 [] = Some (h, eng)"
      and "handle_valid h" and "ih_slot h = 0" for rt h eng
  proof -
    have "\<lparr>ih_slot = 0, ih_generation = ih_generation h\<rparr> = h" using that(4) by (cases h) simp
    then show ?thesis
      using that by (simp add: runtime_spawn_def get_registered_def r_def spawn_source_def t spawn_target_def
          default_options_def voice_valid_def no_voice_def handle_valid_def null_handle_def tone_voice_of_def)
  qed
  have l3: "rev [0..<3] = [2, 1] @ [0 :: nat]" by (simp add: upt_rec numeral_2_eq_2)
  have rc0: "snd (reclaim eng0) = eng0" and f0: "en_sample_rate eng0 = 48000" "en_mgr eng0 = mgr_init 3"
    by (simp_all add: reclaim_def e0)
  let ?inst = "instance_of plain_env s 48000"
  define m where "m = (mgr_init 3)\<lparr>im_free := [2, 1], im_next_generation := 2, im_slots := (im_slots (mgr_init 3))[0 :=
      \<lparr>is_inst = Some ?inst, is_generation = 1, is_life = default_policy, is_age_blocks = 0, is_silent_run = 0\<rparr>]\<rparr>"
  have mi: "im_free (mgr_init 3) = [2, 1] @ [0]" "im_next_generation (mgr_init 3) = 1" "length (im_slots (mgr_init 3)) = 3"
    by (simp_all add: mgr_init_def l3 del: append_Cons append_Nil)
  have s1: "spawn plain_env 4096 eng0 s default_policy to_master_target 0 [] =
      Some (tone_handle, enqueue (plain_command Activate tone_handle) (eng0\<lparr>en_mgr := m\<rparr>))"
    using spawn_succeeds [of plain_env 4096 s eng0 ?inst "[2, 1]" 0 default_policy to_master_target 0] b t s(2)
    by (simp add: rc0 tone_handle_def f0 mi m_def next_gen_def)
  define rt2 where "rt2 = rt1\<lparr>rn_eng := enqueue (plain_command Activate tone_handle) (eng0\<lparr>en_mgr := m\<rparr>),
      rn_slot_blueprint := remember_slot 0 0 []\<rparr>"
  have sp1: "runtime_spawn plain_env 4096 0 default_options rt1 = Some (tone_voice_of 1, rt2)"
    using sp [of rt1] s1 by (simp add: rt1 r0 rt2_def tone_handle_def handle_valid_def)
  have run2: "facade_run plain_env rt0 [tone_voice_of 1] rt2" using fr_spawn [OF run1 sp1] by simp
  let ?rt2k = "perform (Ctl_kill (tone_voice_of 1)) rt2"
  have run2k: "facade_run plain_env rt0 [tone_voice_of 1] ?rt2k" by (rule fr_control [OF run2])
  have "\<exists>out eng3. engine_process plain_env (rn_eng ?rt2k) 0 = Some (out, eng3) \<and> en_sample_rate eng3 = 48000 \<and>
      en_mgr eng3 = m \<and> en_telemetry eng3 = [\<lparr>te_slot = 0, te_generation = 1, te_reason = Killed\<rparr>]"
    by (simp add: engine_process_def start_block_def drain_commands_def runtime_kill_def tone_voice_of_def voice_valid_def
        handle_valid_def invalid_blueprint_def rt2_def kill_def enqueue_def plain_command_def exec_command_def activate_def
        tone_handle_def e0 is_current_def release_slot_def try_report_def compute_sequential_def compute_order_def
        route_edges_def kahn_order_def finish_block_def reap_pass_def Let_def)
  then obtain out eng3 where pr: "engine_process plain_env (rn_eng ?rt2k) 0 = Some (out, eng3)"
    and e3: "en_sample_rate eng3 = 48000" "en_mgr eng3 = m"
      "en_telemetry eng3 = [\<lparr>te_slot = 0, te_generation = 1, te_reason = Killed\<rparr>]"
    by blast
  define rt3 where "rt3 = with_engine (\<lambda>eng. eng3) ?rt2k"
  have run3: "facade_run plain_env rt0 [tone_voice_of 1] rt3" unfolding rt3_def by (rule fr_block [OF run2k pr])
  have reg3: "rn_registry rt3 = [r]" "rn_eng rt3 = eng3"
    by (simp_all add: rt3_def runtime_kill_def rt2_def rt1)
  have m3: "length (im_slots m) = 3" "im_free m = [2, 1]" "im_next_generation m = 2" by (simp_all add: m_def mi)
  have rc3: "im_free (en_mgr (snd (reclaim eng3))) = [2, 1] @ [0]" "im_next_generation (en_mgr (snd (reclaim eng3))) = 2"
    "length (im_slots (en_mgr (snd (reclaim eng3)))) = 3"
    by (simp_all add: reclaim_def e3 mgr_recycle_def m3)
  obtain eng4 where s4: "spawn plain_env 4096 eng3 s default_policy to_master_target 0 [] =
      Some (\<lparr>ih_slot = 0, ih_generation = 2\<rparr>, eng4)"
    using spawn_succeeds [of plain_env 4096 s eng3 ?inst "[2, 1]" 0 default_policy to_master_target 0] b t s(2) rc3
    by (simp add: e3)
  have "ended (rn_eng rt3) = [0]" by (simp add: ended_def reg3 e3)
  then show thesis
    using that [OF init run1 sp1 run3] sp [OF reg3(1), of "\<lparr>ih_slot = 0, ih_generation = 2\<rparr>"] s4 reg3(2) rt1_def
    by (simp add: handle_valid_def)
qed

section \<open>Properties\<close>

text \<open>C12: Whatever voices a host passes to the interface (null, stale or made up), the engine behind it only
  ever sees guarded operations: in every history after \<open>init\<close>, callbacks included, each slot is in exactly
  one of the free list, the pending activations, the active list and the reported ends, and no more than
  \<open>max_instances\<close> voices are active.\<close>

theorem facade_ownership:
  assumes "runtime_init base opened c rt = (True, rt0)" and "facade_run e rt0 vs rt1"
  shows "engine_run e (rn_eng rt0) (rn_eng rt1) \<and>
    distinct (im_free (en_mgr (rn_eng rt1)) @ starting (en_commands (rn_eng rt1)) @
      en_active_list (rn_eng rt1) @ ended (rn_eng rt1)) \<and>
    set (im_free (en_mgr (rn_eng rt1)) @ starting (en_commands (rn_eng rt1)) @
      en_active_list (rn_eng rt1) @ ended (rn_eng rt1)) = {..<rc_max_instances c} \<and>
    active_voices rt1 \<le> rc_max_instances c"
proof -
  note p = facade_pool [OF assms, unfolded pool_of_def]
  have "length (en_active_list (rn_eng rt1)) = card (set (en_active_list (rn_eng rt1)))"
    using owner_parts(1) [OF p [THEN conjunct1]] by (simp add: distinct_card)
  also have "\<dots> \<le> card {..<rc_max_instances c}"
    using owner_parts(3) [OF p [THEN conjunct1]] p by (intro card_mono) auto
  finally have "active_voices rt1 \<le> rc_max_instances c" by (simp add: active_voices_def active_count_def)
  then show ?thesis
    using facade_engine_ok(1) [OF assms] owner_facts(1,2) [OF p [THEN conjunct1]] p by (simp add: owners_def)
qed

theorem facade_ownership_witness:
  "\<exists>rt0 rt3. runtime_init 4096 True small_config new_runtime = (True, rt0) \<and> facade_run plain_env rt0 [tone_voice_of 1] rt3 \<and>
    ended (rn_eng rt3) = [0] \<and> active_voices rt3 \<le> 3"
proof -
  obtain rt0 rt3 where i: "runtime_init 4096 True small_config new_runtime = (True, rt0)"
    and r: "facade_run plain_env rt0 [tone_voice_of 1] rt3" and e: "ended (rn_eng rt3) = [0]" by (rule tone_history)
  have "rc_max_instances small_config = 3" by (simp add: small_config_def)
  with facade_ownership [OF i r] i r e show ?thesis by auto
qed



text \<open>C15: Ends are lost: the engine reclaims inside \<open>spawn\<close> and throws the list of ends away, so a
  \<open>pump\<close> right after a successful \<open>spawn\<close> reports nothing, whatever had ended before it.\<close>

theorem spawn_discards_ends:
  assumes "runtime_spawn e base b opt rt = Some (v, rt')" and "voice_valid v"
  shows "pump cb (h, rt') = (0, h, rt') \<and>
    im_free (en_mgr (snd (reclaim (rn_eng rt)))) = im_free (en_mgr (rn_eng rt')) @ [ih_slot (vo_handle v)]"
  using assms(1)
proof (cases rule: runtime_spawn_cases)
  case refused
  then show ?thesis using assms(2) by (simp add: voice_valid_def no_voice_def)
next
  case (engine r src d ips hd eng)
  have v: "handle_valid hd" "vo_handle v = hd"
    using engine(11) assms(2) by (auto simp: voice_valid_def no_voice_def handle_valid_def null_handle_def split: if_splits)
  have t: "en_telemetry eng = []"
    and f: "im_free (en_mgr (snd (reclaim (rn_eng rt)))) = im_free (en_mgr eng) @ [ih_slot hd]"
    using engine(7) v(1)
    by (auto simp: spawn_def Let_def reclaim_def enqueue_def engine_connect_def mgr_create_def put_instance_def
        handle_valid_def null_handle_def split: if_splits option.splits prod.splits)
  have "reclaim eng = ([], eng)" by (simp add: reclaim_def t)
  then show ?thesis using engine(8) v f by (simp add: pump_def split: option.split)
qed

theorem spawn_discards_ends_witness:
  "\<exists>rt3 rt4. ended (rn_eng rt3) = [0] \<and>
    runtime_spawn plain_env 4096 0 default_options rt3 = Some (tone_voice_of 2, rt4) \<and>
    pump (Some (\<lambda>ev st. (fst st + 1, snd st))) (0 :: nat, rt4) = (0, 0, rt4)"
proof -
  obtain rt3 rt4 where e: "ended (rn_eng rt3) = [0]"
    and s: "runtime_spawn plain_env 4096 0 default_options rt3 = Some (tone_voice_of 2, rt4)" by (rule tone_history)
  have "voice_valid (tone_voice_of 2)"
    by (simp add: voice_valid_def tone_voice_of_def handle_valid_def invalid_blueprint_def)
  from spawn_discards_ends [OF s this, of "Some (\<lambda>ev st. (fst st + 1, snd st))" "0 :: nat"]
  have "pump (Some (\<lambda>ev st. (fst st + 1, snd st))) (0 :: nat, rt4) = (0, 0, rt4)" by simp
  with e s show ?thesis by (intro exI conjI)
qed

end
