(* ===== verification/Api_Voices.thy ===== *)
theory Api_Voices
  imports Api_Facts
begin

text \<open>
  What the runtime keeps of its blueprints, what a spawned voice starts with, and the language pipeline from
  the source text to the registry.
\<close>

section \<open>Registered blueprints\<close>

definition registered_ok :: "nat \<Rightarrow> registered \<Rightarrow> bool" where
  "registered_ok B r \<longleftrightarrow> blueprint_ok (rg_bp r) \<and> compile (rg_bp r) B = Some (rg_sched r) \<and>
     rg_info r = make_info (rg_name r) (rg_bp r)"

definition registry_ok :: "runtime \<Rightarrow> bool" where
  "registry_ok rt \<longleftrightarrow> (\<forall>r \<in> set (rn_registry rt). registered_ok (rc_block_size (rn_cfg rt)) r)"

lemma registry_ok_same: "registry_ok rt \<Longrightarrow> rn_registry rt' = rn_registry rt \<Longrightarrow> rn_cfg rt' = rn_cfg rt \<Longrightarrow> registry_ok rt'"
  by (simp add: registry_ok_def)

lemma register_cases:
  obtains (refused) m where "register_blueprint b rt = (invalid_blueprint, set_err m rt)"
  | (stored) s where "compile (bb_bp b) (rc_block_size (rn_cfg rt)) = Some s" and "bb_errors b = []" and "rn_inited rt"
      and "register_blueprint b rt = (of_nat (length (rn_registry rt)), rt\<lparr>rn_registry := rn_registry rt @
        [\<lparr>rg_name = bb_name b, rg_bp = bb_bp b, rg_sched = s, rg_info = make_info (bb_name b) (bb_bp b)\<rparr>]\<rparr>)"
  by (force simp: register_blueprint_def builder_ok_def split: option.splits if_splits)

lemma registry_ok_register:
  assumes "registry_ok rt" and "blueprint_ok (bb_bp b)"
  shows "registry_ok (snd (register_blueprint b rt))"
  using assms by (cases rule: register_cases [of b rt]) (auto simp: registry_ok_def registered_ok_def set_err_def)

lemma facade_registry_ok: "facade_run e rt0 vs rt \<Longrightarrow> registry_ok rt0 \<Longrightarrow> registry_ok rt"
proof (induction rule: facade_run.induct)
  case (fr_spawn vs rt base b opt v rt')
  from fr_spawn.hyps(2) have "rn_registry rt' = rn_registry rt \<and> rn_cfg rt' = rn_cfg rt"
    by (cases rule: runtime_spawn_cases) (simp_all add: same_tables_def)
  then show ?case by (intro registry_ok_same [OF fr_spawn.IH [OF fr_spawn.prems]]) simp_all
next
  case (fr_control vs rt c)
  have "same_tables rt (perform c rt)" by (simp add: perform_queued)
  note q = this [unfolded same_tables_def]
  show ?case by (rule registry_ok_same [OF fr_control.IH [OF fr_control.prems]]) (simp_all only: q)
next
  case (fr_register vs rt b)
  then show ?case by (intro registry_ok_register)
qed (simp_all add: registry_ok_def)

section \<open>The start values of a voice\<close>

definition init_all :: "initial_param list \<Rightarrow> graph_instance \<Rightarrow> graph_instance option" where
  "init_all ips g = fold_option (\<lambda>i p. init_parameter i (ip_node p) (ip_param p) (ip_value p)) g ips"

definition param_in :: "graph_blueprint \<Rightarrow> nat \<Rightarrow> nat \<Rightarrow> bool" where
  "param_in g v p \<longleftrightarrow> v < bp_size g \<and> p < params_count (g_nodes g ! v)"

definition control_index :: "compiled_schedule \<Rightarrow> nat \<Rightarrow> nat \<Rightarrow> nat" where
  "control_index s v p = cs_param_base s ! v + p"

definition start_control :: "graph_blueprint \<Rightarrow> nat \<Rightarrow> nat \<Rightarrow> f64 \<Rightarrow> port_control" where
  "start_control g v p x = \<lparr>ctl_current = clamp_port (g_nodes g ! v) p x, ctl_target = clamp_port (g_nodes g ! v) p x\<rparr>"

lemma compile_tables:
  assumes "compile g B = Some s"
  shows "cs_bp s = g" and "cs_param_base s = offsets_from 0 (map params_count (g_nodes g))"
  using assms by (auto simp: compile_def build_schedule_def Let_def split: option.splits if_splits)

lemma control_index_inj:
  assumes c: "compile g B = Some s" and "param_in g v p" and "param_in g w q"
    and eq: "control_index s v p = control_index s w q"
  shows "v = w \<and> p = q"
proof -
  have d: "offsets_from 0 (map params_count (g_nodes g)) ! i + params_count (g_nodes g ! i) \<le>
      offsets_from 0 (map params_count (g_nodes g)) ! j" if "i < j" "j < bp_size g" for i j
    using offsets_from_disjoint [of i j "map params_count (g_nodes g)" 0] that by (simp add: bp_size_def)
  have "v = w"
  proof (rule ccontr)
    assume "v \<noteq> w"
    then consider "v < w" | "w < v" by linarith
    then show False
      using d [of v w] d [of w v] assms(2,3) eq
      by cases (auto simp: control_index_def compile_tables(2) [OF c] param_in_def)
  qed
  with eq show ?thesis by (simp add: control_index_def)
qed

lemma control_index_bound:
  assumes "compile g B = Some s" and "param_in g v p"
  shows "control_index s v p < length (gi_controls (instance_of e s sr))"
proof -
  have "offsets_from 0 (map params_count (g_nodes g)) ! v + params_count (g_nodes g ! v) \<le>
      sum_list (map params_count (g_nodes g))"
    using offsets_from_bound [of v "map params_count (g_nodes g)" 0] assms(2) by (simp add: param_in_def bp_size_def)
  then show ?thesis
    using assms(2) by (simp add: control_index_def compile_tables [OF assms(1)] param_in_def instance_of_def
        length_concat comp_def)
qed

lemma init_parameter_in:
  assumes "cs_bp (gi_sched inst) = g" and "param_in g v p"
  shows "init_parameter inst v p x =
    Some (inst\<lparr>gi_controls := (gi_controls inst)[control_index (gi_sched inst) v p := start_control g v p x]\<rparr>)"
  using assms by (simp add: init_parameter_def Let_def param_in_def control_index_def start_control_def)

lemma init_all_Some:
  assumes "cs_bp (gi_sched inst) = g" and "\<forall>q \<in> set ips. param_in g (ip_node q) (ip_param q)"
  shows "\<exists>inst'. init_all ips inst = Some inst' \<and> gi_sched inst' = gi_sched inst \<and>
    length (gi_controls inst') = length (gi_controls inst)"
  using assms
proof (induction ips arbitrary: inst)
  case Nil
  then show ?case by (simp add: init_all_def)
next
  case (Cons q ips)
  from Cons.prems have "param_in g (ip_node q) (ip_param q)" by simp
  note one = init_parameter_in [OF Cons.prems(1) this, of "ip_value q"]
  from Cons.IH [of "inst\<lparr>gi_controls := (gi_controls inst)[control_index (gi_sched inst) (ip_node q) (ip_param q) :=
      start_control g (ip_node q) (ip_param q) (ip_value q)]\<rparr>"] Cons.prems
  show ?case by (simp add: init_all_def one)
qed

lemma init_all_targets:
  assumes c: "compile g B = Some s" and "gi_sched inst = s" and "\<forall>t \<in> set ts. param_in g (pt_node t) (pt_port t)"
    and "init_all (target_params x ts) inst = Some inst'" and "param_in g v p"
    and "control_index s v p < length (gi_controls inst)"
    and "\<lparr>pt_node = v, pt_port = p\<rparr> \<in> set ts \<or> gi_controls inst ! control_index s v p = start_control g v p x"
  shows "gi_controls inst' ! control_index s v p = start_control g v p x"
  using assms(2-)
proof (induction ts arbitrary: inst)
  case Nil
  then show ?case by (simp add: init_all_def target_params_def)
next
  case (Cons t ts)
  let ?j = "control_index s (pt_node t) (pt_port t)"
  let ?i1 = "inst\<lparr>gi_controls := (gi_controls inst)[?j := start_control g (pt_node t) (pt_port t) x]\<rparr>"
  have t: "param_in g (pt_node t) (pt_port t)" using Cons.prems(2) by simp
  have "init_parameter inst (pt_node t) (pt_port t) x = Some ?i1"
    using init_parameter_in [of inst g, OF _ t] Cons.prems(1) compile_tables(1) [OF c] by simp
  then have rest: "init_all (target_params x ts) ?i1 = Some inst'"
    using Cons.prems(3) by (simp add: init_all_def target_params_def)
  have "\<lparr>pt_node = v, pt_port = p\<rparr> \<in> set ts \<or> gi_controls ?i1 ! control_index s v p = start_control g v p x"
  proof (cases "?j = control_index s v p")
    case True
    from control_index_inj [OF c t Cons.prems(4) this] Cons.prems(5) show ?thesis by simp
  next
    case False
    then have "t \<noteq> \<lparr>pt_node = v, pt_port = p\<rparr>" by auto
    with False Cons.prems(6) show ?thesis by auto
  qed
  with Cons.IH [of ?i1] Cons.prems rest show ?case by simp
qed

lemma rune_targets_range:
  assumes "targets_ok g" and "find_rune_param g name = Some i"
  shows "\<forall>t \<in> set (bpp_targets (g_params g ! i)). param_in g (pt_node t) (pt_port t)"
proof -
  have "i < length (g_params g)" using find_index_Some [OF assms(2) [unfolded find_rune_param_def]] by simp
  then have "g_params g ! i \<in> set (g_params g)" by simp
  with assms(1) show ?thesis by (simp add: targets_ok_def param_in_def)
qed

lemma spawn_params_range:
  assumes "targets_ok g" and "spawn_params g kvs = Inr ips"
  shows "\<forall>q \<in> set ips. param_in g (ip_node q) (ip_param q)"
  using assms
proof (induction g kvs arbitrary: ips rule: spawn_params.induct)
  case (1 g)
  then show ?case by simp
next
  case (2 g name x kvs)
  then obtain i rest where i: "find_rune_param g name = Some i" and r: "spawn_params g kvs = Inr rest"
    and ips: "ips = target_params x (bpp_targets (g_params g ! i)) @ rest"
    by (auto simp: res_bind_Inr split: option.splits if_splits)
  note t = rune_targets_range [OF 2(2) i]
  have ne: "bpp_targets (g_params g ! i) \<noteq> []" using 2(3) i by auto
  from 2(1) [OF i ne 2(2) r] t show ?case by (auto simp: ips target_params_def)
qed

text \<open>The instance in the slot of a spawned voice.\<close>

lemma spawn_instance:
  assumes "engine_ok eng cs" and "spawn e base eng s life d t ips = Some (h, eng')" and "handle_valid h"
  shows "\<exists>g. init_all ips (instance_of e s (en_sample_rate eng)) = Some g \<and>
    instance_at (en_mgr eng') (ih_slot h) = Some g \<and> mgr_is_valid (en_mgr eng') h"
proof -
  let ?e1 = "snd (reclaim eng)" and ?g0 = "instance_of e s (en_sample_rate eng)"
  have ok1: "engine_ok ?e1 cs" by (rule reclaim_ok [OF assms(1)])
  have sr: "en_sample_rate ?e1 = en_sample_rate eng" by (simp add: reclaim_def)
  obtain h' m where c: "mgr_create e base (en_mgr ?e1) s (en_sample_rate eng) life = (h', m)" by fastforce
  have h: "h' = h" using assms(2,3) c sr
    by (auto simp: spawn_def Let_def handle_valid_def null_handle_def split: if_splits option.splits)
  have bm: "build e base s (en_sample_rate eng) = Some ?g0"
    and m: "im_slots m = (im_slots (en_mgr ?e1))[ih_slot h := \<lparr>is_inst = Some ?g0, is_generation = ih_generation h,
      is_life = life, is_age_blocks = 0, is_silent_run = 0\<rparr>]"
    using c h assms(3)
    by (auto simp: mgr_create_def build_def Let_def handle_valid_def null_handle_def split: if_splits option.splits)
  have slot: "ih_slot h < length (im_slots (en_mgr ?e1))"
    using c h assms(3) ok1
    by (auto simp: mgr_create_def Let_def handle_valid_def null_handle_def engine_ok_def mgr_ok_def
        split: if_splits option.splits)
  have at: "instance_at m (ih_slot h) = Some ?g0" using slot by (simp add: instance_at_def m)
  obtain g where g: "init_all ips ?g0 = Some g" and em: "en_mgr eng' = put_instance (ih_slot h) g m"
    using assms(2,3) c h at sr
    by (auto simp: spawn_def Let_def init_all_def enqueue_def engine_connect_def split: if_splits option.splits)
  show ?thesis
    using g slot assms(3) by (simp add: em instance_at_def put_instance_def mgr_is_valid_def m)
qed


lemma spawn_total:
  assumes "engine_ok eng cs" and "cs_bp s = g" and "\<forall>q \<in> set ips. param_in g (ip_node q) (ip_param q)"
  shows "\<exists>h eng'. spawn e base eng s life d t ips = Some (h, eng')"
proof -
  let ?e1 = "snd (reclaim eng)"
  have ok1: "engine_ok ?e1 cs" by (rule reclaim_ok [OF assms(1)])
  obtain h m where c: "mgr_create e base (en_mgr ?e1) s (en_sample_rate ?e1) life = (h, m)" by fastforce
  show ?thesis
  proof (cases "handle_valid h")
    case False
    then show ?thesis by (simp add: spawn_def Let_def c)
  next
    case True
    obtain inst where b: "build e base s (en_sample_rate ?e1) = Some inst" and at: "instance_at m (ih_slot h) = Some inst"
      using c
    proof (cases rule: mgr_create_cases)
      case full
      then show thesis using True by (simp add: handle_valid_def null_handle_def)
    next
      case (made inst idx)
      have "idx < length (im_slots (en_mgr ?e1))" using ok1 made(2) by (auto simp: engine_ok_def mgr_ok_def)
      then have "instance_at m (ih_slot h) = Some inst"
        using made(3) by (subst made(4)) (simp add: instance_at_def)
      with made(1) show thesis by (rule that)
    qed
    have "cs_bp (gi_sched inst) = g"
      using b assms(2) by (auto simp: build_def instance_of_def split: option.splits)
    from init_all_Some [OF this assms(3)] show ?thesis
      using True by (auto simp: spawn_def Let_def c at init_all_def split: option.split)
  qed
qed

lemma spawn_params_last:
  assumes "spawn_params g (kvs @ [(name, x)]) = Inr ips" and "find_rune_param g name = Some i"
  shows "\<exists>pre. spawn_params g kvs = Inr pre \<and> ips = pre @ target_params x (bpp_targets (g_params g ! i))"
  using assms
proof (induction kvs arbitrary: ips)
  case Nil
  then show ?case by (auto split: if_splits)
next
  case (Cons kv kvs)
  obtain k y where kv: "kv = (k, y)" by fastforce
  with Cons.prems obtain j rest where j: "find_rune_param g k = Some j" "bpp_targets (g_params g ! j) \<noteq> []"
    and r: "spawn_params g (kvs @ [(name, x)]) = Inr rest"
    and ips: "ips = target_params y (bpp_targets (g_params g ! j)) @ rest"
    by (auto simp: res_bind_Inr split: option.splits if_splits)
  from Cons.IH [OF r Cons.prems(2)] j show ?case by (auto simp: kv ips)
qed

lemma init_all_append:
  "init_all (ps @ qs) g = Some g' \<Longrightarrow> \<exists>g1. init_all ps g = Some g1 \<and> init_all qs g1 = Some g'"
  by (induction ps arbitrary: g) (auto simp: init_all_def split: option.splits)

lemma spawned_controls:
  assumes ok: "registered_ok B r" and p: "spawn_params (rg_bp r) (kvs @ [(name, x)]) = Inr ips"
    and i: "find_rune_param (rg_bp r) name = Some i" and t: "t \<in> set (bpp_targets (g_params (rg_bp r) ! i))"
    and g: "init_all ips (instance_of e (rg_sched r) sr) = Some g"
  shows "gi_controls g ! control_index (rg_sched r) (pt_node t) (pt_port t) =
    start_control (rg_bp r) (pt_node t) (pt_port t) x"
proof -
  let ?g0 = "instance_of e (rg_sched r) sr" and ?ts = "bpp_targets (g_params (rg_bp r) ! i)"
  have tok: "targets_ok (rg_bp r)" and c: "compile (rg_bp r) B = Some (rg_sched r)"
    using ok by (simp_all add: registered_ok_def blueprint_ok_def)
  obtain pre where pre: "spawn_params (rg_bp r) kvs = Inr pre" and ips: "ips = pre @ target_params x ?ts"
    using spawn_params_last [OF p i] by blast
  obtain g1 where g1: "init_all pre ?g0 = Some g1" and g2: "init_all (target_params x ?ts) g1 = Some g"
    using init_all_append g unfolding ips by blast
  have s0: "gi_sched ?g0 = rg_sched r" by (simp add: instance_of_def)
  have "cs_bp (gi_sched ?g0) = rg_bp r" by (simp add: s0 compile_tables(1) [OF c])
  from init_all_Some [OF this spawn_params_range [OF tok pre]] g1 s0
  have s1: "gi_sched g1 = rg_sched r" and l1: "length (gi_controls g1) = length (gi_controls ?g0)" by auto
  note range = rune_targets_range [OF tok i]
  then have here: "param_in (rg_bp r) (pt_node t) (pt_port t)" using t by blast
  have eta: "\<lparr>pt_node = pt_node t, pt_port = pt_port t\<rparr> = t" by (cases t) simp
  show ?thesis
    by (rule init_all_targets [OF c s1 range g2 here])
      (use t l1 control_index_bound [OF c here] in \<open>simp_all add: eta\<close>)
qed

lemma spawn_answers:
  assumes reg: "registry_ok rt" and ok: "engine_ok (rn_eng rt) cs"
  shows "\<exists>v rt'. runtime_spawn e base b opt rt = Some (v, rt')"
proof (cases "unat b < length (rn_registry rt)")
  case False
  then show ?thesis by (simp add: runtime_spawn_def get_registered_def)
next
  case True
  let ?r = "rn_registry rt ! unat b"
  have r: "registered_ok (rc_block_size (rn_cfg rt)) ?r" using reg True by (simp add: registry_ok_def)
  then have c: "cs_bp (rg_sched ?r) = rg_bp ?r" "targets_ok (rg_bp ?r)"
    using compile_tables(1) [of "rg_bp ?r"] unfolding registered_ok_def blueprint_ok_def by blast+
  have g: "get_registered b rt = (Some ?r, rt)" using True by (simp add: get_registered_def)
  let ?q = "res_bind (spawn_source ?r (so_from_terminal opt)) (\<lambda>src.
      res_bind (spawn_target opt rt) (\<lambda>dest.
      res_bind (spawn_params (rg_bp ?r) (so_params opt)) (\<lambda>ips. Inr (src, dest, ips))))"
  show ?thesis
  proof (cases ?q)
    case (Inl m)
    then show ?thesis by (simp add: runtime_spawn_def g)
  next
    case (Inr q)
    then obtain src d ips where q: "q = (src, d, ips)" "spawn_params (rg_bp ?r) (so_params opt) = Inr ips"
      by (auto simp: res_bind_Inr)
    obtain h eng' where "spawn e base (rn_eng rt) (rg_sched ?r) (so_life opt) d src ips = Some (h, eng')"
      using spawn_total [OF ok c(1) spawn_params_range [OF c(2) q(2)]] by blast
    then show ?thesis using Inr by (simp add: runtime_spawn_def g q(1))
  qed
qed



section \<open>The language pipeline\<close>

text \<open>What a call of \<open>load\<close> has added: the registered blueprints, in order, under the names and identifiers it returns.\<close>

definition loaded :: "runtime \<Rightarrow> runtime \<Rightarrow> (string \<times> blueprint_id) list \<Rightarrow> bool" where
  "loaded rt rt' pairs \<longleftrightarrow>
     (\<exists>new. rn_registry rt' = rn_registry rt @ new \<and> (\<forall>r \<in> set new. has_output (rg_bp r) ''out'')) \<and>
     pairs = map (\<lambda>i. (rg_name (rn_registry rt' ! i), of_nat i)) [length (rn_registry rt)..<length (rn_registry rt')]"

lemma id_valid: "i < 2 ^ 32 - 1 \<Longrightarrow> (of_nat i :: blueprint_id) \<noteq> invalid_blueprint"
proof
  assume i: "i < 2 ^ 32 - 1" and "(of_nat i :: blueprint_id) = invalid_blueprint"
  then have "unat (of_nat i :: blueprint_id) = unat invalid_blueprint" by simp
  moreover have "unat (of_nat i :: blueprint_id) = i" using i by (simp add: unsigned_of_nat take_bit_nat_eq_self)
  ultimately show False using i by (simp add: invalid_blueprint_def)
qed

lemma load_one_cases:
  assumes "load_one (rt, res) lb = (rt', res')"
  obtains (refused) d m where "rt' = set_err m rt" "res' = res\<lparr>ld_diags := ld_diags res @ [d]\<rparr>"
  | (full) s where "rn_registry rt' = rn_registry rt @ [s]" "of_nat (length (rn_registry rt)) = invalid_blueprint"
  | (stored) s where "rt' = rt\<lparr>rn_registry := rn_registry rt @ [\<lparr>rg_name = lb_name lb, rg_bp = lb_bp lb, rg_sched = s,
        rg_info = make_info (lb_name lb) (lb_bp lb)\<rparr>]\<rparr>"
      "compile (lb_bp lb) (rc_block_size (rn_cfg rt)) = Some s"
      "res' = res\<lparr>ld_blueprints := ld_blueprints res @ [(lb_name lb, of_nat (length (rn_registry rt)))]\<rparr>"
proof (cases rule: register_cases [of "(build_empty (lb_name lb))\<lparr>bb_bp := lb_bp lb\<rparr>" rt])
  case (refused m)
  then show thesis
    using assms that(1) [of m "diag (''rune '' @ quoted (lb_name lb) @ '': '' @ rn_err (set_err m rt)) 0 0"]
    by (auto simp: load_one_def)
next
  case (stored s)
  then show thesis
    using assms that(2,3) by (auto simp: load_one_def build_empty_def split: if_splits)
qed

lemma load_one_registry:
  "load_one (rt, res) lb = (rt', res') \<Longrightarrow> length (rn_registry rt) \<le> length (rn_registry rt')"
  by (erule load_one_cases) simp_all

lemma load_fold:
  assumes "foldl load_one (rt, res) lbs = (rt', res')"
    and "\<forall>lb \<in> set lbs. blueprint_ok (lb_bp lb) \<and> has_output (lb_bp lb) ''out''"
    and "length (rn_registry rt') < 2 ^ 32" and "registry_ok rt" and "loaded rt0 rt (ld_blueprints res)"
  shows "registry_ok rt' \<and> loaded rt0 rt' (ld_blueprints res') \<and> rn_eng rt' = rn_eng rt \<and>
    length (ld_blueprints res') + length (ld_diags res') = length (ld_blueprints res) + length (ld_diags res) + length lbs"
  using assms
proof (induction lbs arbitrary: rt res)
  case Nil
  then show ?case by simp
next
  case (Cons lb lbs)
  obtain rt1 res1 where one: "load_one (rt, res) lb = (rt1, res1)" by fastforce
  have rest: "foldl load_one (rt1, res1) lbs = (rt', res')" using Cons.prems(1) one by simp
  have "length (rn_registry rt1) \<le> length (rn_registry rt')"
    using rest
  proof (induction lbs arbitrary: rt1 res1)
    case (Cons x xs)
    obtain a c where x: "load_one (rt1, res1) x = (a, c)" by fastforce
    with Cons.IH [of a c] Cons.prems load_one_registry [OF x] show ?case by simp
  qed simp
  then have small: "length (rn_registry rt1) < 2 ^ 32" using Cons.prems(3) by simp
  have "registry_ok rt1 \<and> loaded rt0 rt1 (ld_blueprints res1) \<and> rn_eng rt1 = rn_eng rt \<and>
      length (ld_blueprints res1) + length (ld_diags res1) = Suc (length (ld_blueprints res) + length (ld_diags res))"
    using one
  proof (cases rule: load_one_cases)
    case (refused d m)
    then show ?thesis using Cons.prems(4,5) by (simp add: set_err_def registry_ok_def loaded_def)
  next
    case (full s)
    then show ?thesis using small id_valid [of "length (rn_registry rt)"] by simp
  next
    case (stored s)
    have "has_output (lb_bp lb) ''out''" "blueprint_ok (lb_bp lb)" using Cons.prems(2) by simp_all
    then show ?thesis
      using stored Cons.prems(4,5)
      by (fastforce simp: registry_ok_def registered_ok_def loaded_def nth_append intro!: map_cong)
  qed
  with Cons.IH [OF rest _ Cons.prems(3)] Cons.prems(2) show ?case by simp
qed

text \<open>Every rune of a program that parses gives one blueprint or one diagnostic.\<close>

lemma load_source_registers:
  assumes "load_source n reg src rt = Inr (res, rt')" and "builtin_ops reg" and "registry_ok rt"
    and "length (rn_registry rt') < 2 ^ 32"
  shows "registry_ok rt' \<and> loaded rt rt' (ld_blueprints res) \<and> rn_eng rt' = rn_eng rt \<and>
    (\<exists>prog ds. parse src = Inr (prog, ds) \<and>
      (if ds = [] then length (ld_blueprints res) + length (ld_diags res) = length (pg_runes prog)
       else ld_blueprints res = [] \<and> ld_diags res = ds \<and> rt' = rt))"
proof -
  have start: "loaded rt rt []" by (simp add: loaded_def)
  obtain prog ds where p: "parse src = Inr (prog, ds)"
    using assms(1) by (auto simp: load_source_def split: sum.splits)
  show ?thesis
  proof (cases "ds = []")
    case False
    then show ?thesis using assms(1,3) p start by (auto simp: load_source_def)
  next
    case True
    then obtain lr where l: "lower n prog reg = Inr lr"
      and f: "foldl load_one (rt, \<lparr>ld_blueprints = [], ld_diags = lr_diags lr\<rparr>) (lr_blueprints lr) = (rt', res)"
      using assms(1) p by (auto simp: load_source_def split: sum.splits prod.splits)
    have ok: "(\<forall>lb \<in> set (lr_blueprints lr). blueprint_ok (lb_bp lb) \<and> has_output (lb_bp lb) ''out'') \<and>
        length (lr_blueprints lr) + length (lr_diags lr) = length (pg_runes prog)"
      using lower_runes_ok [OF _ l [unfolded lower_def]] assms(2) by (simp add: lower_ctx_of_def)
    from load_fold [OF f _ assms(4,3)] ok start p True show ?thesis by simp
  qed
qed

text \<open>C6: The language pipeline, from source text to the registry: every rune of a program that parses gives one
  blueprint or one diagnostic; the blueprints are registered in the order of the text under the names and
  identifiers returned, each is well formed, is compiled for the block size of the runtime and has an output
  \<open>out\<close>; a program that does not parse registers nothing; the engine is not touched.\<close>

theorem load_registers:
  assumes "load_source n reg src rt = Inr (res, rt')" and "builtin_ops reg" and "registry_ok rt"
    and "length (rn_registry rt') < 2 ^ 32"
  shows "registry_ok rt' \<and> loaded rt rt' (ld_blueprints res) \<and> rn_eng rt' = rn_eng rt \<and>
    (\<exists>prog ds. parse src = Inr (prog, ds) \<and>
      (if ds = [] then length (ld_blueprints res) + length (ld_diags res) = length (pg_runes prog)
       else ld_blueprints res = [] \<and> ld_diags res = ds \<and> rt' = rt))"
  using assms by (rule load_source_registers)

text \<open>The program of \<open>small_program\<close> as text.\<close>

definition small_source :: string where
  "small_source = ''rune r(amp = 1)'' @ [CHR 0x0A] @ ''  out sine * amp'' @ [CHR 0x0A] @ ''end''"

lemma small_source_parses: "parse small_source = Inr (small_program, [])"
  by code_simp

theorem load_registers_witness:
  "\<exists>res rt'. load_source 4 standard_registry small_source (new_runtime\<lparr>rn_inited := True\<rparr>) = Inr (res, rt') \<and>
    registry_ok rt' \<and> length (ld_blueprints res) + length (ld_diags res) = 1"
proof -
  let ?rt = "new_runtime\<lparr>rn_inited := True\<rparr>"
  obtain lr lb where l: "lower 4 small_program standard_registry = Inr lr" and one: "lr_blueprints lr = [lb]"
    using small_program_lowers by (auto split: sum.splits simp: length_Suc_conv)
  obtain res rt' where f: "load_one (?rt, \<lparr>ld_blueprints = [], ld_diags = lr_diags lr\<rparr>) lb = (rt', res)" by fastforce
  have s: "load_source 4 standard_registry small_source ?rt = Inr (res, rt')"
    by (simp add: load_source_def small_source_parses l one f)
  have "length (rn_registry rt') < 2 ^ 32"
    using f by (cases rule: load_one_cases) (simp_all add: set_err_def new_runtime_def)
  moreover have "registry_ok ?rt" by (simp add: registry_ok_def new_runtime_def)
  ultimately have "registry_ok rt' \<and> (\<exists>prog ds. parse small_source = Inr (prog, ds) \<and>
      (if ds = [] then length (ld_blueprints res) + length (ld_diags res) = length (pg_runes prog)
       else ld_blueprints res = [] \<and> ld_diags res = ds \<and> rt' = ?rt))"
    using load_registers [OF s builtin_ops_standard] by blast
  then show ?thesis using s by (auto simp: small_source_parses small_program_def)
qed

end
