(* ===== verification/Cli.thy ===== *)
theory Cli
  imports Api_Voices Serialize_Facts
begin

text \<open>
  The command-line front end, \<open>apps/xrune.cpp\<close>, and \<open>load_file\<close> of \<open>include/xrune/lang/compile.hpp\<close>.  The
  system around the program is the record \<open>host\<close>: what files hold, which can be written, what \<open>dot\<close> does
  with a command line and its input, whether the audio device opens and starts.
\<close>

section \<open>The system\<close>

record host =
  hs_read :: "string \<rightharpoonup> string"
  hs_can_write :: "string \<Rightarrow> bool"
  hs_popen :: "string \<Rightarrow> string \<Rightarrow> int option"
  hs_device :: bool
  hs_starts :: bool
  hs_base :: nat

text \<open>What a run of the program leaves behind.\<close>

record outcome =
  oc_status :: nat
  oc_out :: string
  oc_err :: string
  oc_files :: "(string \<times> string) list"
  oc_pipes :: "(string \<times> string) list"
  oc_device :: bool

definition quit :: "nat \<Rightarrow> string \<Rightarrow> string \<Rightarrow> outcome" where
  "quit st out err = \<lparr>oc_status = st, oc_out = out, oc_err = err, oc_files = [], oc_pipes = [], oc_device = False\<rparr>"

section \<open>Options\<close>

datatype mode = M_run | M_eval | M_json | M_dot | M_png | M_list

record options =
  op_action :: mode
  op_file :: string
  op_rune :: string
  op_output :: string
  op_seconds :: int
  op_sample_rate :: nat
  op_block_size :: nat
  op_indent :: nat

definition default_cli :: options where
  "default_cli = \<lparr>op_action = M_run, op_file = [], op_rune = [], op_output = [], op_seconds = 5,
     op_sample_rate = 48000, op_block_size = 64, op_indent = 2\<rparr>"

text \<open>The digits a number starts with, after blanks and a sign.\<close>

definition number_prefix :: "string \<Rightarrow> bool \<times> nat" where
  "number_prefix s =
    (let r = dropWhile is_space s;
         neg = (r \<noteq> [] \<and> hd r = CHR ''-'');
         r' = (if r \<noteq> [] \<and> (hd r = CHR ''-'' \<or> hd r = CHR ''+'') then tl r else r)
     in (neg, foldl (\<lambda>n c. n * 10 + (of_char c - 48)) 0 (takeWhile is_digit r')))"

text \<open>\<open>atoi\<close> has no defined value beyond the range of \<open>int\<close>; \<open>strtoul\<close> saturates and negates modulo \<open>2 ^ 64\<close>.\<close>

definition atoi :: "string \<Rightarrow> int option" where
  "atoi s = (case number_prefix s of (neg, n) \<Rightarrow>
    (let i = (if neg then - int n else int n) in if - (2 ^ 31) \<le> i \<and> i < 2 ^ 31 then Some i else None))"

definition strtoul :: "string \<Rightarrow> nat" where
  "strtoul s = (case number_prefix s of (neg, n) \<Rightarrow>
    (if 2 ^ 64 \<le> n then 2 ^ 64 - 1 else if neg then (2 ^ 64 - n) mod 2 ^ 64 else n))"

definition sq :: string where
  "sq = [CHR 0x27]"

definition em_dash :: string where
  "em_dash = [CHR 0xE2, CHR 0x80, CHR 0x94]"

definition usage :: "string \<Rightarrow> string" where
  "usage version = concat (map (\<lambda>l. l @ nl)
    [''xrune '' @ version @ '' '' @ em_dash @ '' real-time audio engine and its language'',
     '''',
     ''USAGE'',
     ''  xrune [mode] [options] <file.rune>'',
     '''',
     ''MODES  (default: run)'',
     ''  (none)            run the rune through the audio device'',
     ''  -e, --eval        parse and compile only; report diagnostics; no audio'',
     ''  -j, --json        emit the blueprint as JSON (reloadable)'',
     ''  -d, --dot         emit a Graphviz DOT graph'',
     ''  -p, --png         render a PNG graph (needs Graphviz'' @ sq @ ''s `dot` on PATH)'',
     ''  -l, --list        list the runes defined in the file'',
     '''',
     ''OPTIONS'',
     ''  -r, --rune NAME     which rune to use (default: the first defined)'',
     ''  -o, --output FILE   write to FILE (default: stdout; --png: <file>.png)'',
     ''  -s, --seconds N     how long to play, in run mode (default: 5)'',
     ''      --sample-rate N (default: 48000)'',
     ''      --block-size N  power of two (default: 64)'',
     ''      --compact       JSON on a single line'',
     ''  -h, --help'',
     ''  -v, --version'',
     '''',
     ''EXAMPLES'',
     ''  xrune examples/drone.rune                    # play it'',
     ''  xrune -e examples/drone.rune                 # is it valid?'',
     ''  xrune -j examples/drone.rune -o patch.json   # save it'',
     ''  xrune -d examples/drone.rune | dot -Tsvg -o patch.svg'',
     ''  xrune -p examples/drone.rune -o patch.png    # straight to PNG'',
     '''',
     ''EXIT STATUS'',
     ''  0 on success; 1 on a compile error, an unknown rune, or a failed render.''])"

definition complain :: "string \<Rightarrow> outcome" where
  "complain msg = quit 1 [] (''xrune: '' @ msg @ nl)"

text \<open>\<open>Inl\<close>: the program has ended (\<open>None\<close>: without a defined result).\<close>

type_synonym 'a step_result = "(outcome option, 'a) result"

datatype flag = F_help | F_version | F_mode mode | F_rune | F_output | F_seconds | F_rate | F_block | F_compact

definition flag_of :: "string \<Rightarrow> flag option" where
  "flag_of a =
    (if a = ''-h'' \<or> a = ''--help'' then Some F_help
     else if a = ''-v'' \<or> a = ''--version'' then Some F_version
     else if a = ''-e'' \<or> a = ''--eval'' then Some (F_mode M_eval)
     else if a = ''-j'' \<or> a = ''--json'' then Some (F_mode M_json)
     else if a = ''-d'' \<or> a = ''--dot'' then Some (F_mode M_dot)
     else if a = ''-p'' \<or> a = ''--png'' then Some (F_mode M_png)
     else if a = ''-l'' \<or> a = ''--list'' then Some (F_mode M_list)
     else if a = ''-r'' \<or> a = ''--rune'' then Some F_rune
     else if a = ''-o'' \<or> a = ''--output'' then Some F_output
     else if a = ''-s'' \<or> a = ''--seconds'' then Some F_seconds
     else if a = ''--sample-rate'' then Some F_rate
     else if a = ''--block-size'' then Some F_block
     else if a = ''--compact'' then Some F_compact
     else None)"

text \<open>What a flag that takes a value calls it, and what it does with it.\<close>

fun value_name :: "flag \<Rightarrow> string option" where
  "value_name F_rune = Some ''a rune name''"
| "value_name F_output = Some ''a file path''"
| "value_name F_seconds = Some ''a duration''"
| "value_name F_rate = Some ''a rate''"
| "value_name F_block = Some ''a size''"
| "value_name _ = None"

fun set_value :: "flag \<Rightarrow> string \<Rightarrow> options \<Rightarrow> options option" where
  "set_value F_rune v opts = Some (opts\<lparr>op_rune := v\<rparr>)"
| "set_value F_output v opts = Some (opts\<lparr>op_output := v\<rparr>)"
| "set_value F_seconds v opts = map_option (\<lambda>i. opts\<lparr>op_seconds := i\<rparr>) (atoi v)"
| "set_value F_rate v opts = Some (opts\<lparr>op_sample_rate := strtoul v\<rparr>)"
| "set_value F_block v opts = Some (opts\<lparr>op_block_size := strtoul v\<rparr>)"
| "set_value _ v opts = Some opts"

text \<open>A flag without a value: an early end, or the options afterwards.\<close>

fun set_flag :: "string \<Rightarrow> flag \<Rightarrow> options \<Rightarrow> options step_result" where
  "set_flag ver F_help opts = Inl (Some (quit 0 (usage ver) []))"
| "set_flag ver F_version opts = Inl (Some (quit 0 (''xrune '' @ ver @ nl) []))"
| "set_flag ver (F_mode m) opts = Inr (opts\<lparr>op_action := m\<rparr>)"
| "set_flag ver F_compact opts = Inr (opts\<lparr>op_indent := 0\<rparr>)"
| "set_flag ver _ opts = Inr opts"

definition set_file :: "string \<Rightarrow> options \<Rightarrow> options step_result" where
  "set_file a opts =
    (if a \<noteq> [] \<and> hd a = CHR ''-'' then Inl (Some (complain (''unknown option: '' @ a @ ''  (try --help)'')))
     else if op_file opts = [] then Inr (opts\<lparr>op_file := a\<rparr>)
     else Inl (Some (complain (''unexpected argument: '' @ a))))"

fun parse_args :: "string \<Rightarrow> options \<Rightarrow> string list \<Rightarrow> options step_result" where
  "parse_args ver opts [] =
    (if op_file opts = [] then Inl (Some (complain ''no input file  (try --help)'')) else Inr opts)"
| "parse_args ver opts (a # as) =
    (case flag_of a of
      None \<Rightarrow> res_bind (set_file a opts) (\<lambda>opts'. parse_args ver opts' as)
    | Some f \<Rightarrow>
        (case value_name f of
          None \<Rightarrow> res_bind (set_flag ver f opts) (\<lambda>opts'. parse_args ver opts' as)
        | Some what \<Rightarrow>
            (case as of
              [] \<Rightarrow> Inl (Some (complain (a @ '' needs '' @ what)))
            | v # as' \<Rightarrow>
                (case set_value f v opts of
                  None \<Rightarrow> Inl None
                | Some opts' \<Rightarrow> parse_args ver opts' as'))))"

section \<open>Output\<close>

text \<open>The path between single quotes; a single quote in it closes, is escaped, and opens again.\<close>

definition shell_quote :: "string \<Rightarrow> string" where
  "shell_quote path = sq @ concat (map (\<lambda>c. if c = CHR 0x27 then sq @ [CHR 0x5C] @ sq @ sq else [c]) path) @ sq"

definition png_command :: "string \<Rightarrow> string" where
  "png_command path = ''dot -Tpng -o '' @ shell_quote path @ '' 2>/dev/null''"

definition png_advice :: string where
  "png_advice = ''xrune: PNG rendering failed.'' @ nl @
     ''  This needs Graphviz'' @ sq @ ''s `dot` on your PATH:'' @ nl @
     ''    Debian/Ubuntu : sudo apt install graphviz'' @ nl @
     ''    macOS         : brew install graphviz'' @ nl @
     ''  Or emit DOT and render it elsewhere:  xrune -d file.rune'' @ nl"

definition render_png :: "host \<Rightarrow> string \<Rightarrow> string \<Rightarrow> outcome \<Rightarrow> bool \<times> outcome" where
  "render_png w dot_text path oc =
    (case hs_popen w (png_command path) dot_text of
      None \<Rightarrow> (False, oc\<lparr>oc_err := oc_err oc @ ''xrune: could not run Graphviz (`dot`)'' @ nl\<rparr>)
    | Some st \<Rightarrow>
        (let oc' = oc\<lparr>oc_pipes := oc_pipes oc @ [(png_command path, dot_text)]\<rparr>
         in if st \<noteq> 0 then (False, oc'\<lparr>oc_err := oc_err oc' @ png_advice\<rparr>) else (True, oc')))"

definition write_out :: "host \<Rightarrow> string \<Rightarrow> string \<Rightarrow> outcome \<Rightarrow> outcome" where
  "write_out w text path oc =
    (if path = [] then oc\<lparr>oc_out := oc_out oc @ text\<rparr>
     else if \<not> hs_can_write w path then oc\<lparr>oc_status := 1, oc_err := oc_err oc @ ''xrune: cannot write: '' @ path @ nl\<rparr>
     else oc\<lparr>oc_files := oc_files oc @ [(path, text)], oc_err := oc_err oc @ ''xrune: wrote '' @ path @ nl\<rparr>)"

definition stem :: "string \<Rightarrow> string" where
  "stem path =
    (let base = rev (takeWhile (\<lambda>c. c \<noteq> CHR ''/'' \<and> c \<noteq> CHR 0x5C) (rev path))
     in case dropWhile (\<lambda>c. c \<noteq> CHR ''.'') (rev base) of [] \<Rightarrow> base | d # r \<Rightarrow> rev r)"

section \<open>Running\<close>

definition load_file :: "host \<Rightarrow> nat \<Rightarrow> string \<Rightarrow> runtime \<Rightarrow> (Api.load_error, load_result \<times> runtime) result" where
  "load_file w n path rt =
    (case hs_read w path of
      None \<Rightarrow> Inr (\<lparr>ld_blueprints = [], ld_diags = [diag (''cannot open file: '' @ path) 0 0]\<rparr>, rt)
    | Some src \<Rightarrow> load_standard n src rt)"

definition diag_line :: "string \<Rightarrow> diagnostic \<Rightarrow> string" where
  "diag_line file d =
    (if dg_line d = 0 \<and> dg_col d = 0 then ''xrune: '' @ dg_message d @ nl else file @ '':'' @ diag_format d @ nl)"

definition param_line :: "rune_param_info \<Rightarrow> string" where
  "param_line p = ''      '' @ ri_name p @ '' = '' @ fmt_g 6 (ri_default p) @
    (if ri_targets p = 0 then ''   [drives no port: folded into an expression]''
     else if ri_partial p then ''   [partial: also folded into an expression]'' else []) @ nl"

definition eval_entry :: "string \<Rightarrow> blueprint_info \<Rightarrow> string" where
  "eval_entry name bi = ''  '' @ name @ ''  ('' @ show_nat (length (bi_nodes bi)) @ '' nodes, '' @
    show_nat (length (bi_output_terminals bi)) @ '' output terminal(s))'' @ nl @ concat (map param_line (bi_params bi))"

definition list_entry :: "string \<Rightarrow> blueprint_info \<Rightarrow> string" where
  "list_entry name bi = name @ [CHR 0x09] @ show_nat (length (bi_nodes bi)) @ '' nodes'' @ nl"

text \<open>One line group per loaded rune; \<open>None\<close> is a rune the runtime does not know.\<close>

fun entries :: "(string \<Rightarrow> blueprint_info \<Rightarrow> string) \<Rightarrow> runtime \<Rightarrow> (string \<times> blueprint_id) list \<Rightarrow> string option" where
  "entries f rt [] = Some []"
| "entries f rt ((name, bid) # es) =
    Option.bind (describe bid rt) (\<lambda>bi. map_option (\<lambda>s. f name bi @ s) (entries f rt es))"

definition play :: "host \<Rightarrow> Dsp.env \<Rightarrow> options \<Rightarrow> string \<Rightarrow> blueprint_id \<Rightarrow> runtime \<Rightarrow> outcome \<Rightarrow> outcome option" where
  "play w e opts name bid rt oc =
    (let oc1 = oc\<lparr>oc_out := oc_out oc @ ''xrune: playing '' @ quoted name @ '' from '' @ op_file opts @ '' for '' @
           show_int (op_seconds opts) @ ''s'' @ nl\<rparr>
     in if \<not> hs_starts w then Some (oc1\<lparr>oc_status := 1, oc_err := oc_err oc1 @ ''xrune: could not start audio'' @ nl\<rparr>)
        else
          map_option (\<lambda>(v, rt').
            if \<not> voice_valid v
            then oc1\<lparr>oc_status := 1, oc_err := oc_err oc1 @ ''xrune: spawn failed: '' @ rn_err rt' @ nl\<rparr>
            else oc1\<lparr>oc_out := oc_out oc1 @ ''xrune: done'' @ nl\<rparr>)
            (runtime_spawn e (hs_base w) bid default_options rt))"

definition no_such_rune :: "options \<Rightarrow> load_result \<Rightarrow> string" where
  "no_such_rune opts res = ''xrune: no rune named '' @ quoted (op_rune opts) @ '' in '' @ op_file opts @ nl @
    ''  available:'' @ concat (map (\<lambda>x. '' '' @ fst x) (ld_blueprints res)) @ nl"

definition png_path :: "options \<Rightarrow> string" where
  "png_path opts = (if op_output opts = [] then stem (op_file opts) @ ''.png'' else op_output opts)"

definition export_png :: "host \<Rightarrow> options \<Rightarrow> string \<Rightarrow> outcome \<Rightarrow> outcome" where
  "export_png w opts dot_text oc =
    (case render_png w dot_text (png_path opts) oc of
      (ok, oc') \<Rightarrow>
        (if \<not> ok then oc'\<lparr>oc_status := 1\<rparr>
         else oc'\<lparr>oc_err := oc_err oc' @ ''xrune: wrote '' @ png_path opts @ nl\<rparr>))"

definition rune_action :: "host \<Rightarrow> Dsp.env \<Rightarrow> options \<Rightarrow> string \<Rightarrow> blueprint_id \<Rightarrow> graph_blueprint \<Rightarrow> runtime
    \<Rightarrow> outcome \<Rightarrow> outcome option" where
  "rune_action w e opts name bid g rt oc =
    (case op_action opts of
      M_json \<Rightarrow> Some (write_out w (to_json g name (op_indent opts) @ nl) (op_output opts) oc)
    | M_dot \<Rightarrow> Some (write_out w (to_dot g name) (op_output opts) oc)
    | M_png \<Rightarrow> Some (export_png w opts (to_dot g name) oc)
    | M_run \<Rightarrow> play w e opts name bid rt oc
    | _ \<Rightarrow> Some (oc\<lparr>oc_status := 1\<rparr>))"

definition one_rune :: "host \<Rightarrow> Dsp.env \<Rightarrow> options \<Rightarrow> load_result \<Rightarrow> runtime \<Rightarrow> outcome \<Rightarrow> outcome option" where
  "one_rune w e opts res rt oc =
    (let name = (if op_rune opts = [] then fst (hd (ld_blueprints res)) else op_rune opts);
         bid = (if op_rune opts = [] then snd (hd (ld_blueprints res)) else load_find (op_rune opts) res)
     in if bid = invalid_blueprint then Some (oc\<lparr>oc_status := 1, oc_err := oc_err oc @ no_such_rune opts res\<rparr>)
        else if length (rn_registry rt) \<le> unat bid then None
        else rune_action w e opts name bid (rg_bp (rn_registry rt ! unat bid)) rt oc)"

definition after_load :: "host \<Rightarrow> Dsp.env \<Rightarrow> options \<Rightarrow> load_result \<Rightarrow> runtime \<Rightarrow> outcome \<Rightarrow> outcome option" where
  "after_load w e opts res rt oc =
    (if ld_diags res \<noteq> [] then
       Some (oc\<lparr>oc_status := 1, oc_err := oc_err oc @ concat (map (diag_line (op_file opts)) (ld_diags res)) @
         ''xrune: '' @ show_nat (length (ld_diags res)) @ '' error(s)'' @ nl\<rparr>)
     else if ld_blueprints res = [] then
       Some (oc\<lparr>oc_status := 1, oc_err := oc_err oc @ ''xrune: '' @ op_file opts @ '' defines no runes'' @ nl\<rparr>)
     else if op_action opts = M_eval then
       map_option (\<lambda>s. oc\<lparr>oc_out := oc_out oc @ ''OK '' @ em_dash @ '' '' @ op_file opts @ '': '' @
           show_nat (length (ld_blueprints res)) @ '' rune(s)'' @ nl @ s\<rparr>)
         (entries eval_entry rt (ld_blueprints res))
     else if op_action opts = M_list then
       map_option (\<lambda>s. oc\<lparr>oc_out := oc_out oc @ s\<rparr>) (entries list_entry rt (ld_blueprints res))
     else one_rune w e opts res rt oc)"

text \<open>The device opens with the runtime, and only to play.\<close>

definition run_options :: "host \<Rightarrow> Dsp.env \<Rightarrow> nat \<Rightarrow> options \<Rightarrow> outcome option" where
  "run_options w e n opts =
    (let playing = op_action opts = M_run;
         cfg = \<lparr>rc_sample_rate = op_sample_rate opts, rc_block_size = op_block_size opts, rc_input_channels = 0,
           rc_output_channels = 2, rc_max_instances = 64, rc_workers = 0\<rparr>;
         oc = (quit 0 [] [])\<lparr>oc_device := playing\<rparr>
     in case runtime_init (hs_base w) (playing \<longrightarrow> hs_device w) cfg new_runtime of
          (ok, rt) \<Rightarrow>
            (if \<not> ok then Some (oc\<lparr>oc_status := 1, oc_err := ''xrune: '' @ rn_err rt @ nl\<rparr>)
             else
               case load_file w n (op_file opts) rt of
                 Inl err \<Rightarrow> None
               | Inr (res, rt') \<Rightarrow> after_load w e opts res rt' oc))"

definition cli_main :: "host \<Rightarrow> Dsp.env \<Rightarrow> nat \<Rightarrow> string \<Rightarrow> string list \<Rightarrow> outcome option" where
  "cli_main w e n ver args =
    (case parse_args ver default_cli args of
      Inl r \<Rightarrow> r
    | Inr opts \<Rightarrow> run_options w e n opts)"

section \<open>Quoting\<close>

text \<open>
  What a shell makes of the rest of a word, and what it leaves: a blank ends the word, single quotes keep their
  content, a backslash keeps the next character.
\<close>

definition posix_quoting :: "(string \<Rightarrow> string \<times> string) \<Rightarrow> bool" where
  "posix_quoting word \<longleftrightarrow>
     (\<forall>r. word (CHR 0x20 # r) = ([], CHR 0x20 # r)) \<and>
     (\<forall>s r. CHR 0x27 \<notin> set s \<longrightarrow> word (sq @ s @ sq @ r) = (s @ fst (word r), snd (word r))) \<and>
     (\<forall>c r. c \<noteq> CHR 0x0A \<longrightarrow> word (CHR 0x5C # c # r) = (c # fst (word r), snd (word r)))"

lemma quoted_tail:
  assumes "posix_quoting word" and "word r = (v, r')" and "CHR 0x27 \<notin> set s"
  shows "word (sq @ s @ concat (map (\<lambda>c. if c = CHR 0x27 then sq @ [CHR 0x5C] @ sq @ sq else [c]) path) @ sq @ r)
    = (s @ path @ v, r')"
  using assms(3)
proof (induction path arbitrary: s)
  case Nil
  then show ?case using assms(1,2) by (simp add: posix_quoting_def)
next
  case (Cons c path)
  let ?q = "concat (map (\<lambda>c. if c = CHR 0x27 then sq @ [CHR 0x5C] @ sq @ sq else [c]) path)"
  show ?case
  proof (cases "c = CHR 0x27")
    case False
    then show ?thesis using Cons.IH [of "s @ [c]"] Cons.prems by simp
  next
    case True
    have "word (sq @ ?q @ sq @ r) = (path @ v, r')" using Cons.IH [of "[]"] by simp
    moreover have "\<forall>r. word (CHR 0x5C # CHR 0x27 # r) = (CHR 0x27 # fst (word r), snd (word r))"
      using assms(1) by (simp add: posix_quoting_def)
    ultimately have "word (CHR 0x5C # CHR 0x27 # sq @ ?q @ sq @ r) = (CHR 0x27 # path @ v, r')" by simp
    moreover have "word (sq @ s @ sq @ CHR 0x5C # CHR 0x27 # sq @ ?q @ sq @ r) =
        (s @ fst (word (CHR 0x5C # CHR 0x27 # sq @ ?q @ sq @ r)), snd (word (CHR 0x5C # CHR 0x27 # sq @ ?q @ sq @ r)))"
      using assms(1) Cons.prems unfolding posix_quoting_def by blast
    ultimately show ?thesis using True by (simp add: sq_def)
  qed
qed

text \<open>C29: The command that renders a PNG hands the output path to the shell as one word that the shell reads back
  as exactly that path, whatever characters it holds, so no path can add a word or a command.\<close>

theorem png_path_quoted:
  assumes "posix_quoting word"
  shows "take 13 (png_command path) = ''dot -Tpng -o '' \<and>
    word (drop 13 (png_command path)) = (path, '' 2>/dev/null'')"
proof -
  have "word ('' 2>/dev/null'') = ([], '' 2>/dev/null'')" using assms by (simp add: posix_quoting_def)
  from quoted_tail [OF assms this, of "[]" path] show ?thesis
    by (simp add: png_command_def shell_quote_def)
qed

text \<open>A shell that reads words this way.\<close>

fun plain_shell :: "bool \<Rightarrow> string \<Rightarrow> string \<times> string" where
  "plain_shell q [] = ([], [])"
| "plain_shell True (c # r) =
    (if c = CHR 0x27 then plain_shell False r
     else (case plain_shell True r of (v, r') \<Rightarrow> (c # v, r')))"
| "plain_shell False (c # r) =
    (if c = CHR 0x20 then ([], c # r)
     else if c = CHR 0x27 then plain_shell True r
     else if c = CHR 0x5C then
       (case r of [] \<Rightarrow> ([], []) | d # r' \<Rightarrow> (case plain_shell False r' of (v, r'') \<Rightarrow> (d # v, r'')))
     else (case plain_shell False r of (v, r') \<Rightarrow> (c # v, r')))"

lemma plain_shell_quoting: "posix_quoting (plain_shell False)"
proof -
  have "plain_shell True (s @ CHR 0x27 # r) = (s @ fst (plain_shell False r), snd (plain_shell False r))"
    if "CHR 0x27 \<notin> set s" for s r
    using that by (induction s) auto
  then show ?thesis by (simp add: posix_quoting_def sq_def split: prod.split)
qed

theorem png_path_quoted_witness:
  "plain_shell False (drop 13 (png_command (''a b'' @ [CHR 0x27] @ ''; rm''))) = (''a b'' @ [CHR 0x27] @ ''; rm'', '' 2>/dev/null'')"
  using png_path_quoted [OF plain_shell_quoting] by blast


section \<open>What a run leaves behind\<close>

text \<open>Nothing is written and no pipe is opened before a rune is chosen.\<close>

definition nothing_written :: "outcome \<Rightarrow> bool" where
  "nothing_written oc \<longleftrightarrow> oc_status oc \<le> 1 \<and> oc_files oc = [] \<and> oc_pipes oc = []"

lemma quit_nothing_written [simp]: "st \<le> 1 \<Longrightarrow> nothing_written (quit st out err)" "\<not> oc_device (quit st out err)"
  by (simp_all add: nothing_written_def quit_def)

lemma parse_args_ends:
  "parse_args ver opts args = Inl (Some oc) \<Longrightarrow> nothing_written oc \<and> \<not> oc_device oc"
proof (induction ver opts args rule: parse_args.induct)
  case (1 ver opts)
  then show ?case by (auto simp: complain_def split: if_splits)
next
  case (2 ver opts a as)
  have stray: "set_file a opts = Inl r \<Longrightarrow> \<exists>msg. r = Some (complain msg)" for r
    by (auto simp: set_file_def split: if_splits)
  have flag: "set_flag ver f opts = Inl r \<Longrightarrow> \<exists>out. r = Some (quit 0 out [])" for f r
    by (cases f) auto
  show ?case
  proof (cases "flag_of a")
    case None
    then show ?thesis using 2 stray by (fastforce simp: res_bind_def complain_def split: sum.splits)
  next
    case (Some f)
    note f = Some
    show ?thesis
    proof (cases "value_name f")
      case None
      then show ?thesis using 2 f flag by (fastforce simp: res_bind_def split: sum.splits)
    next
      case (Some what)
      show ?thesis
      proof (cases as)
        case Nil
        then show ?thesis using 2(4) f Some by (auto simp: complain_def)
      next
        case (Cons v as')
        then show ?thesis using 2(3) [OF f Some Cons] 2(4) f Some by (auto split: option.splits)
      qed
    qed
  qed
qed

declare parse_args.simps [simp del]

definition leaves :: "options \<Rightarrow> outcome \<Rightarrow> bool" where
  "leaves opts oc \<longleftrightarrow> oc_status oc \<le> 1 \<and> (oc_device oc \<longleftrightarrow> op_action opts = M_run) \<and>
     (oc_files oc \<noteq> [] \<longrightarrow> (op_action opts = M_json \<or> op_action opts = M_dot) \<and> oc_status oc = 0 \<and>
       op_output opts \<noteq> [] \<and> map fst (oc_files oc) = [op_output opts]) \<and>
     (oc_pipes oc \<noteq> [] \<longrightarrow> op_action opts = M_png \<and> map fst (oc_pipes oc) = [png_command (png_path opts)])"

lemma rune_action_leaves:
  assumes "rune_action w e opts name bid g rt oc = Some oc'" and "nothing_written oc" and "oc_status oc = 0"
    and "oc_device oc \<longleftrightarrow> op_action opts = M_run"
  shows "leaves opts oc'"
  using assms
  by (auto simp: rune_action_def leaves_def nothing_written_def write_out_def export_png_def render_png_def play_def Let_def
      split: mode.splits if_splits option.splits)

lemma after_load_leaves:
  assumes "after_load w e opts res rt oc = Some oc'" and "nothing_written oc" and "oc_status oc = 0"
    and "oc_device oc \<longleftrightarrow> op_action opts = M_run"
  shows "leaves opts oc' \<and> (oc_status oc' = 0 \<longrightarrow> ld_diags res = [] \<and> ld_blueprints res \<noteq> [])"
proof (cases "ld_diags res \<noteq> [] \<or> ld_blueprints res = []")
  case True
  then show ?thesis using assms by (auto simp: after_load_def leaves_def nothing_written_def split: if_splits)
next
  case False
  have "leaves opts oc'"
  proof (cases "op_action opts = M_eval \<or> op_action opts = M_list")
    case True
    then show ?thesis using assms False by (auto simp: after_load_def leaves_def nothing_written_def split: if_splits)
  next
    case sel: False
    then have o: "one_rune w e opts res rt oc = Some oc'" using assms(1) False by (simp add: after_load_def)
    show ?thesis
    proof (cases "\<exists>name bid. rune_action w e opts name bid (rg_bp (rn_registry rt ! unat bid)) rt oc = Some oc'")
      case True
      then show ?thesis using rune_action_leaves [OF _ assms(2-4)] by blast
    next
      case no: False
      then show ?thesis using o assms(2-4)
        by (auto simp: one_rune_def leaves_def nothing_written_def Let_def split: if_splits)
    qed
  qed
  then show ?thesis using False by simp
qed



section \<open>What the JSON mode prints\<close>

lemma dump_line_parses:
  assumes "printable v"
  shows "json_parse (json_dump v indent @ nl) = Some (Inr v)"
proof -
  have "json_stop nl" by (simp add: json_stop_def)
  then have "reads (dump_to indent 0 v @ nl) v nl" by (rule dump_reads(1) [OF assms])
  then have "parse_value (json_fuel (json_dump v indent @ nl)) (json_dump v indent @ nl) = Some (Inr (v, nl))"
    unfolding reads_def json_dump_def by (rule parse_with_fuel)
  then show ?thesis by (simp add: json_parse_def skip_ws_def json_ws_def)
qed

lemma saved_line_loads:
  assumes "savable g"
  shows "from_json standard_registry (to_json g name indent @ nl) = Inr (name, g\<lparr>g_params := []\<rparr>)"
  using dump_line_parses [OF savable_printable [OF assms]] load_saved [OF assms]
  by (simp add: from_json_def to_json_def)

lemma load_one_from:
  "load_one (rt, res) lb = (rt', res') \<Longrightarrow> rn_registry rt' = rn_registry rt \<or>
    (\<exists>r. rn_registry rt' = rn_registry rt @ [r] \<and> rg_name r = lb_name lb \<and> rg_bp r = lb_bp lb)"
  by (auto simp: load_one_def register_blueprint_def build_empty_def set_err_def Let_def split: if_splits option.splits)

text \<open>Every entry of the registry is a blueprint the lowering delivered, and there are no more of them.\<close>

lemma load_fold_from:
  assumes "foldl load_one (rt, res) lbs = (rt', res')"
  shows "(\<forall>r \<in> set (rn_registry rt'). r \<in> set (rn_registry rt) \<or>
      (\<exists>lb \<in> set lbs. rg_name r = lb_name lb \<and> rg_bp r = lb_bp lb)) \<and>
    length (rn_registry rt') \<le> length (rn_registry rt) + length lbs"
  using assms
proof (induction lbs arbitrary: rt res)
  case Nil
  then show ?case by simp
next
  case (Cons lb lbs)
  obtain rt1 res1 where one: "load_one (rt, res) lb = (rt1, res1)" by fastforce
  have rest: "foldl load_one (rt1, res1) lbs = (rt', res')" using Cons.prems one by simp
  from Cons.IH [OF rest] load_one_from [OF one] show ?case by auto
qed

definition lowered_rune :: "nat \<Rightarrow> string \<Rightarrow> string \<Rightarrow> graph_blueprint \<Rightarrow> bool" where
  "lowered_rune n src name g \<longleftrightarrow>
     (\<exists>prog lr. parse src = Inr (prog, []) \<and> lower n prog standard_registry = Inr lr \<and>
       (\<exists>lb \<in> set (lr_blueprints lr). lb_name lb = name \<and> lb_bp lb = g)) \<and>
     blueprint_ok g \<and> has_output g ''out''"

definition few_runes :: "string \<Rightarrow> bool" where
  "few_runes src \<longleftrightarrow> (case parse src of Inr (prog, ds) \<Rightarrow> length (pg_runes prog) < 2 ^ 32 | Inl err \<Rightarrow> True)"

lemma loaded_rune:
  assumes l: "load_standard n src rt = Inr (res, rt')" and r0: "rn_registry rt = []" and few: "few_runes src"
    and "ld_diags res = []" and nb: "(name, bid) \<in> set (ld_blueprints res)"
  shows "unat bid < length (rn_registry rt') \<and> lowered_rune n src name (rg_bp (rn_registry rt' ! unat bid))"
proof -
  obtain prog ds where p: "parse src = Inr (prog, ds)"
    using l by (auto simp: load_standard_def Api.load_source_def split: sum.splits)
  have "ds = []" using l p nb by (auto simp: load_standard_def Api.load_source_def split: if_splits)
  then obtain lr where w: "lower n prog standard_registry = Inr lr"
    and f: "foldl load_one (rt, \<lparr>ld_blueprints = [], ld_diags = lr_diags lr\<rparr>) (lr_blueprints lr) = (rt', res)"
    using l p by (auto simp: load_standard_def Api.load_source_def split: sum.splits prod.splits)
  have "length (lr_blueprints lr) \<le> length (pg_runes prog)"
    using lower_runes_ok [OF _ w [unfolded lower_def]] builtin_ops_standard by (simp add: lower_ctx_of_def)
  then have len: "length (rn_registry rt') < 2 ^ 32"
    using load_fold_from [OF f] few p r0 by (simp add: few_runes_def)
  have "registry_ok rt" by (simp add: registry_ok_def r0)
  from load_source_registers [OF l [unfolded load_standard_def] builtin_ops_standard this len]
  have ok: "registry_ok rt'" and ld: "loaded rt rt' (ld_blueprints res)" by auto
  from ld nb r0 obtain i where i: "i < length (rn_registry rt')" "name = rg_name (rn_registry rt' ! i)" "bid = of_nat i"
    by (auto simp: loaded_def)
  have u: "unat bid = i" using i len by (simp add: unsigned_of_nat take_bit_nat_eq_self)
  have m: "rn_registry rt' ! i \<in> set (rn_registry rt')" using i(1) by simp
  have "blueprint_ok (rg_bp (rn_registry rt' ! i))" using ok m by (simp add: registry_ok_def registered_ok_def)
  moreover have "has_output (rg_bp (rn_registry rt' ! i)) ''out''" using ld m r0 by (auto simp: loaded_def)
  moreover have "\<exists>lb \<in> set (lr_blueprints lr). lb_name lb = name \<and> lb_bp lb = rg_bp (rn_registry rt' ! i)"
    using load_fold_from [OF f] m i(2) r0 by (metis empty_iff list.set(1))
  ultimately show ?thesis using i(1) u p w \<open>ds = []\<close> by (auto simp: lowered_rune_def)
qed

definition exported :: "options \<Rightarrow> outcome \<Rightarrow> string \<Rightarrow> bool" where
  "exported opts oc text \<longleftrightarrow>
     (if op_output opts = [] then oc_out oc = text \<and> oc_files oc = [] \<and> oc_err oc = []
      else oc_out oc = [] \<and> oc_files oc = [(op_output opts, text)])"


section \<open>A run\<close>

text \<open>A small program, read and exported.\<close>

lemma small_program_lowered:
  "case lower 4 small_program standard_registry of
    Inl e \<Rightarrow> False
  | Inr lr \<Rightarrow> lr_diags lr = [] \<and> map lb_name (lr_blueprints lr) = [''r''] \<and>
      map (\<lambda>lb. graph_edges (lb_bp lb)) (lr_blueprints lr) = [[(0, 1)]] \<and>
      list_all (\<lambda>lb. list_all (\<lambda>n. rate_num n = 1 \<and> rate_den n = 1 \<and> block_num n = 1 \<and> block_den n = 1)
        (g_nodes (lb_bp lb))) (lr_blueprints lr)"
  by code_simp

lemma small_source_loads:
  assumes "rn_registry rt = []" and "rn_inited rt" and "rc_block_size (rn_cfg rt) = 64"
  obtains res rt' where "load_standard 4 small_source rt = Inr (res, rt')" and "ld_diags res = []"
    and "ld_blueprints res = [(''r'', 0)]" and "length (rn_registry rt') = 1"
proof -
  obtain lr lb where w: "lower 4 small_program standard_registry = Inr lr" and d: "lr_diags lr = []"
    and one: "lr_blueprints lr = [lb]" and nm: "lb_name lb = ''r''" and eg: "graph_edges (lb_bp lb) = [(0, 1)]"
    and sr: "single_rate (lb_bp lb)"
    using small_program_lowered by (auto split: sum.splits simp: single_rate_def list_all_iff)
  have "blueprint_ok (lb_bp lb)"
    using lower_runes_ok [OF _ w [unfolded lower_def]] builtin_ops_standard one by (simp add: lower_ctx_of_def)
  then have wired: "wiring_ok (lb_bp lb)" by (simp add: blueprint_ok_def)
  have "acyclic (set (graph_edges (lb_bp lb)))"
    unfolding eg by (intro acyclic_subset [OF wf_acyclic [OF wf_less_than]]) auto
  from single_rate_each [OF wired sr this, of 64] obtain s where c: "compile (lb_bp lb) 64 = Some s" by auto
  have inv: "invalid_blueprint \<noteq> 0" by (simp add: invalid_blueprint_def)
  have "load_standard 4 small_source rt =
      Inr (\<lparr>ld_blueprints = [(''r'', 0)], ld_diags = []\<rparr>, rt\<lparr>rn_registry := [\<lparr>rg_name = ''r'', rg_bp = lb_bp lb, rg_sched = s,
        rg_info = make_info ''r'' (lb_bp lb)\<rparr>]\<rparr>)"
    using assms c d one nm inv
    by (simp add: load_standard_def Api.load_source_def small_source_parses w load_one_def register_blueprint_def
        builder_ok_def build_empty_def)
  from that [OF this] show thesis by simp
qed

definition small_host :: host where
  "small_host = \<lparr>hs_read = [''a.rune'' \<mapsto> small_source], hs_can_write = (\<lambda>_. False), hs_popen = (\<lambda>_ _. None),
     hs_device = False, hs_starts = False, hs_base = 4096\<rparr>"

lemma small_args: "parse_args [] default_cli [''-j'', ''a.rune''] = Inr (default_cli\<lparr>op_action := M_json, op_file := ''a.rune''\<rparr>)"
  by (simp add: parse_args.simps flag_of_def set_file_def default_cli_def res_bind_def)

lemma small_run:
  obtains oc where "cli_main small_host plain_env 4 [] [''-j'', ''a.rune''] = Some oc" and "oc_status oc = 0"
proof -
  let ?cfg = "\<lparr>rc_sample_rate = 48000, rc_block_size = 64, rc_input_channels = 0,
    rc_output_channels = 2, rc_max_instances = 64, rc_workers = 0\<rparr>"
  have p64: "is_power_of_two 64" by (simp add: is_power_of_two_iff exI [of _ 6])
  then obtain eng where i: "engine_init 4096 48000 64 2 64 = Some eng"
    by (rule engine_init_Some [of 64 2 4096 48000 64]) simp_all
  define rt where "rt = snd (runtime_init 4096 True ?cfg new_runtime)"
  have rt: "runtime_init 4096 True ?cfg new_runtime = (True, rt)" "rn_registry rt = []" "rn_inited rt"
    "rc_block_size (rn_cfg rt) = 64"
    by (simp_all add: rt_def runtime_init_def p64 i new_runtime_def)
  obtain res rt' where l: "load_standard 4 small_source rt = Inr (res, rt')" "ld_diags res = []"
    "ld_blueprints res = [(''r'', 0)]" "length (rn_registry rt') = 1"
    by (rule small_source_loads [OF rt(2-4)])
  have inv: "invalid_blueprint \<noteq> 0" by (simp add: invalid_blueprint_def)
  have "cli_main small_host plain_env 4 [] [''-j'', ''a.rune''] =
      run_options small_host plain_env 4 (default_cli\<lparr>op_action := M_json, op_file := ''a.rune''\<rparr>)"
    by (simp add: cli_main_def small_args)
  moreover have "rn_registry rt' \<noteq> []" using l(4) by auto
  then have "\<exists>oc. run_options small_host plain_env 4 (default_cli\<lparr>op_action := M_json, op_file := ''a.rune''\<rparr>) = Some oc \<and>
      oc_status oc = 0"
    using l rt(1) inv
    by (simp add: run_options_def default_cli_def small_host_def Let_def load_file_def after_load_def
        one_rune_def rune_action_def write_out_def quit_def)
  ultimately show thesis using that by metis
qed



end
