(* ===== verification/Offline.thy ===== *)
theory Offline
  imports Api_Facts
begin

text \<open>
  The audio host as the engine sees it (\<open>include/xrune/audio/backend.hpp\<close>) and the headless backend that renders
  into memory (\<open>include/xrune/audio/offline_backend.hpp\<close>).  The callback of a backend is a function of the cleared
  buffer, the number of frames and the state behind it (the engine); \<open>None\<close> is a callback that does not
  return a buffer.
\<close>

section \<open>The backend\<close>

record backend_config =
  bk_sample_rate :: nat
  bk_block_size :: nat
  bk_input_channels :: nat
  bk_output_channels :: nat

type_synonym 's audio_process_fn = "f64 list \<Rightarrow> f64 list option \<Rightarrow> nat \<Rightarrow> 's \<Rightarrow> (f64 list \<times> 's) option"

record 's offline_backend =
  ob_cfg :: backend_config
  ob_fn :: "'s audio_process_fn option"
  ob_output :: "f64 list"
  ob_running :: bool

definition offline_open :: "backend_config \<Rightarrow> 's audio_process_fn \<Rightarrow> 's offline_backend \<Rightarrow> bool \<times> 's offline_backend" where
  "offline_open c f ob = (True, ob\<lparr>ob_cfg := c, ob_fn := Some f\<rparr>)"

definition offline_start :: "'s offline_backend \<Rightarrow> bool \<times> 's offline_backend" where
  "offline_start ob = (True, ob\<lparr>ob_running := True\<rparr>)"

definition offline_stop :: "'s offline_backend \<Rightarrow> 's offline_backend" where
  "offline_stop ob = ob\<lparr>ob_running := False\<rparr>"

text \<open>One pass of the loop: the block buffer is cleared, filled by the callback and copied to its place.\<close>

definition render_block :: "'s offline_backend \<Rightarrow> nat \<Rightarrow> f64 list \<times> 's \<Rightarrow> (f64 list \<times> 's) option" where
  "render_block ob b = (\<lambda>(output, s).
    let bs = bk_block_size (ob_cfg ob); oc = bk_output_channels (ob_cfg ob); ic = bk_input_channels (ob_cfg ob);
        cleared = replicate (bs * oc) f64_zero
    in map_option (\<lambda>(block_out, s').
         (take (b * length block_out) output @ block_out @ drop (b * length block_out + length block_out) output, s'))
       (case ob_fn ob of
         None \<Rightarrow> Some (cleared, s)
       | Some f \<Rightarrow> f cleared (if ic = 0 then None else Some (replicate (bs * ic) f64_zero)) (bs mod 2 ^ 32) s))"

definition render :: "nat \<Rightarrow> 's offline_backend \<Rightarrow> 's \<Rightarrow> ('s offline_backend \<times> 's) option" where
  "render num_blocks ob s =
    (let bs = bk_block_size (ob_cfg ob); oc = bk_output_channels (ob_cfg ob)
     in map_option (\<lambda>(output, s'). (ob\<lparr>ob_output := output\<rparr>, s'))
       (fold_option (\<lambda>acc b. render_block ob b acc) (replicate (num_blocks * bs * oc) f64_zero, s) [0..<num_blocks]))"

text \<open>The samples of one channel of the captured buffer.\<close>

function stride :: "nat \<Rightarrow> nat \<Rightarrow> nat \<Rightarrow> nat list" where
  "stride i oc n = (if i < n \<and> 0 < oc then i # stride (i + oc) oc n else [])"
  by pat_completeness auto
termination
  by (relation "measure (\<lambda>(i, oc, n). n - i)") auto

declare stride.simps [simp del]

definition channel_samples :: "nat \<Rightarrow> 's offline_backend \<Rightarrow> f64 list" where
  "channel_samples channel ob =
    map (\<lambda>i. ob_output ob ! i) (stride channel (bk_output_channels (ob_cfg ob)) (length (ob_output ob)))"

text \<open>\<open>sq\<close> is the square root of the C library.\<close>

definition rms :: "(f64 \<Rightarrow> f64) \<Rightarrow> nat \<Rightarrow> 's offline_backend \<Rightarrow> f64" where
  "rms sq channel ob =
    (if bk_output_channels (ob_cfg ob) \<le> channel \<or> ob_output ob = [] then f64_zero
     else
       (let xs = channel_samples channel ob
        in if length xs = 0 then f64_zero
           else sq (f64_div (foldl (\<lambda>sum x. sum + x * x) f64_zero xs) (f64_of_int (int (length xs))))))"

definition peak :: "nat \<Rightarrow> 's offline_backend \<Rightarrow> f64" where
  "peak channel ob =
    (if bk_output_channels (ob_cfg ob) \<le> channel \<or> ob_output ob = [] then f64_zero
     else foldl (\<lambda>p x. f64_max p (f64_abs x)) f64_zero (channel_samples channel ob))"

text \<open>The callback the engine opens a backend with.\<close>

definition engine_callback :: "Dsp.env \<Rightarrow> engine audio_process_fn" where
  "engine_callback e = (\<lambda>out inb n eng. engine_process e eng n)"

section \<open>Blocks one after the other\<close>

lemma fold_option_append:
  "fold_option f a (xs @ ys) = (case fold_option f a xs of None \<Rightarrow> None | Some b \<Rightarrow> fold_option f b ys)"
  by (induction xs arbitrary: a) (auto split: option.split)

text \<open>What rendering is for: the callback run once per block on a cleared buffer.\<close>

definition run_block :: "'s offline_backend \<Rightarrow> 's \<Rightarrow> (f64 list \<times> 's) option" where
  "run_block ob s =
    (let bs = bk_block_size (ob_cfg ob); oc = bk_output_channels (ob_cfg ob); ic = bk_input_channels (ob_cfg ob)
     in case ob_fn ob of
          None \<Rightarrow> Some (replicate (bs * oc) f64_zero, s)
        | Some f \<Rightarrow> f (replicate (bs * oc) f64_zero) (if ic = 0 then None else Some (replicate (bs * ic) f64_zero))
            (bs mod 2 ^ 32) s)"

fun run_blocks :: "nat \<Rightarrow> 's offline_backend \<Rightarrow> 's \<Rightarrow> (f64 list list \<times> 's) option" where
  "run_blocks 0 ob s = Some ([], s)"
| "run_blocks (Suc n) ob s =
    (case run_blocks n ob s of
      None \<Rightarrow> None
    | Some (bss, s1) \<Rightarrow> map_option (\<lambda>(b, s2). (bss @ [b], s2)) (run_block ob s1))"

text \<open>A callback fills the buffer it is given.\<close>

definition fills_buffer :: "'s offline_backend \<Rightarrow> ('s \<Rightarrow> bool) \<Rightarrow> bool" where
  "fills_buffer ob P \<longleftrightarrow> (\<forall>s b s'. P s \<longrightarrow> run_block ob s = Some (b, s') \<longrightarrow>
     P s' \<and> length b = bk_block_size (ob_cfg ob) * bk_output_channels (ob_cfg ob))"

lemma run_blocks_keeps:
  assumes "fills_buffer ob P" and "P s" and "run_blocks n ob s = Some (bss, s')"
  shows "P s' \<and> length bss = n \<and> (\<forall>b \<in> set bss. length b = bk_block_size (ob_cfg ob) * bk_output_channels (ob_cfg ob))"
  using assms(3)
proof (induction n arbitrary: bss s')
  case 0
  then show ?case using assms(2) by simp
next
  case (Suc n)
  then obtain bss1 s1 b where "run_blocks n ob s = Some (bss1, s1)" "run_block ob s1 = Some (b, s')" "bss = bss1 @ [b]"
    by (auto split: option.splits)
  moreover from this Suc.IH have "P s1" "length bss1 = n"
    "\<forall>b \<in> set bss1. length b = bk_block_size (ob_cfg ob) * bk_output_channels (ob_cfg ob)" by blast+
  moreover from calculation assms(1)
  have "P s' \<and> length b = bk_block_size (ob_cfg ob) * bk_output_channels (ob_cfg ob)"
    unfolding fills_buffer_def by blast
  ultimately show ?case by auto
qed

lemma run_blocks_add:
  "run_blocks (a + b) ob s =
    (case run_blocks a ob s of
      None \<Rightarrow> None
    | Some (xs, s1) \<Rightarrow> map_option (\<lambda>(ys, s2). (xs @ ys, s2)) (run_blocks b ob s1))"
proof (induction b)
  case 0
  show ?case by (simp split: option.splits)
next
  case (Suc b)
  then show ?case by (auto simp: option.map_comp o_def case_prod_unfold split: option.splits)
qed

lemma render_block_run:
  "render_block ob b (output, s) = map_option (\<lambda>(block_out, s').
     (take (b * length block_out) output @ block_out @ drop (b * length block_out + length block_out) output, s'))
     (run_block ob s)"
  by (simp add: render_block_def run_block_def Let_def)

lemma render_loop:
  assumes "fills_buffer ob P" and "P s" and "k = bk_block_size (ob_cfg ob) * bk_output_channels (ob_cfg ob)"
  shows "fold_option (\<lambda>acc b. render_block ob b acc) (output, s) [0..<n] =
    map_option (\<lambda>(bss, s'). (concat bss @ drop (n * k) output, s')) (run_blocks n ob s)"
proof (induction n)
  case 0
  show ?case by simp
next
  case (Suc n)
  show ?case
  proof (cases "run_blocks n ob s")
    case None
    then show ?thesis using Suc by (simp add: fold_option_append)
  next
    case (Some r)
    obtain bss s1 where r: "r = (bss, s1)" by (cases r)
    from run_blocks_keeps [OF assms(1,2) Some [unfolded r]] assms(3)
    have P1: "P s1" and l: "length bss = n" "\<forall>b \<in> set bss. length b = k" by auto
    have len: "length (concat bss) = n * k"
      using l by (induction bss arbitrary: n) auto
    have "fold_option (\<lambda>acc b. render_block ob b acc) (output, s) [0..<Suc n]
      = render_block ob n (concat bss @ drop (n * k) output, s1)"
      using Suc Some r by (simp add: fold_option_append split: option.split)
    also have "\<dots> = map_option (\<lambda>(b, s2). (concat (bss @ [b]) @ drop (Suc n * k) output, s2)) (run_block ob s1)"
    proof (cases "run_block ob s1")
      case None
      then show ?thesis by (simp add: render_block_run)
    next
      case (Some q)
      obtain b s2 where q: "q = (b, s2)" by (cases q)
      have "length b = k" using assms(1,3) P1 Some q unfolding fills_buffer_def by blast
      then show ?thesis using Some q len by (simp add: render_block_run add.commute)
    qed
    finally show ?thesis using Some r by (simp add: option.map_comp o_def case_prod_unfold)
  qed
qed

text \<open>Rendering keeps exactly the blocks of the callback, in order.\<close>

lemma render_run:
  assumes "fills_buffer ob P" and "P s"
  shows "render n ob s = map_option (\<lambda>(bss, s'). (ob\<lparr>ob_output := concat bss\<rparr>, s')) (run_blocks n ob s)"
  using render_loop [OF assms refl, of "replicate (n * bk_block_size (ob_cfg ob) * bk_output_channels (ob_cfg ob)) f64_zero" n]
  by (simp add: render_def Let_def option.map_comp o_def case_prod_unfold mult.assoc)

lemma render_splits:
  assumes "fills_buffer ob P" and "P s"
  shows "render (a + b) ob s =
    (case render a ob s of
      None \<Rightarrow> None
    | Some (ob1, s1) \<Rightarrow> map_option (\<lambda>(ob2, s2). (ob\<lparr>ob_output := ob_output ob1 @ ob_output ob2\<rparr>, s2)) (render b ob1 s1))"
proof (cases "run_blocks a ob s")
  case None
  then show ?thesis by (simp add: render_run [OF assms] run_blocks_add)
next
  case (Some r)
  obtain bss s1 where r: "r = (bss, s1)" by (cases r)
  let ?ob1 = "ob\<lparr>ob_output := concat bss\<rparr>"
  have P1: "P s1" using run_blocks_keeps [OF assms Some [unfolded r]] by blast
  have run1: "run_block ?ob1 = run_block ob" by (simp add: run_block_def fun_eq_iff)
  then have fills: "fills_buffer ?ob1 P" using assms(1) by (simp add: fills_buffer_def)
  have runs: "run_blocks n ?ob1 t = run_blocks n ob t" for n t by (induction n) (auto simp: run1 split: option.split)
  show ?thesis
    using Some r render_run [OF assms, of a] render_run [OF assms, of "a + b"] render_run [OF fills P1, of b]
    by (simp add: run_blocks_add runs option.map_comp o_def case_prod_unfold)
qed

section \<open>The channels of the captured buffer\<close>

text \<open>The strided walk of the two meters visits the indices of its channel and no others.\<close>

lemma stride_filter:
  assumes "i mod oc = c" and "c < oc"
  shows "stride i oc n = filter (\<lambda>j. j mod oc = c) [i..<n]"
  using assms
proof (induction i oc n rule: stride.induct)
  case (1 i oc n)
  show ?case
  proof (cases "i < n")
    case False
    then show ?thesis by (simp add: stride.simps)
  next
    case True
    have gap: "filter (\<lambda>j. j mod oc = c) [Suc i..<k] = []" if "k \<le> i + oc" for k
    proof -
      have "j mod oc \<noteq> c" if "i < j" "j < i + oc" for j
      proof
        assume "j mod oc = c"
        then have "oc dvd j - i" using 1(2) that(1) by (metis less_imp_le mod_eq_dvd_iff_nat)
        then show False using that by (auto dest: dvd_imp_le)
      qed
      then show ?thesis using that by (auto simp: filter_empty_conv)
    qed
    have split: "[Suc i..<n] = [Suc i..<min n (i + oc)] @ [min n (i + oc)..<n]"
      using True 1(3) upt_add_eq_append [of "Suc i" "min n (i + oc)" "n - min n (i + oc)"] by simp
    have rest: "filter (\<lambda>j. j mod oc = c) [min n (i + oc)..<n] = filter (\<lambda>j. j mod oc = c) [i + oc..<n]"
      by (cases "n \<le> i + oc") (simp_all add: min_def)
    have "stride (i + oc) oc n = filter (\<lambda>j. j mod oc = c) [i + oc..<n]"
      using True 1(3) by (intro 1(1)) (simp_all add: 1(2))
    then show ?thesis
      using True 1(2,3) gap [of "min n (i + oc)"] split rest
      by (simp add: stride.simps [of i] upt_conv_Cons)
  qed
qed

lemma channel_samples_filter:
  "channel < bk_output_channels (ob_cfg ob) \<Longrightarrow> channel_samples channel ob =
    map (\<lambda>i. ob_output ob ! i)
      (filter (\<lambda>i. i mod bk_output_channels (ob_cfg ob) = channel) [channel..<length (ob_output ob)])"
  by (simp add: channel_samples_def stride_filter)

section \<open>The engine behind the backend\<close>

lemma release_slot_frame:
  "en_output_channels (release_slot slot why eng) = en_output_channels eng \<and>
    en_block_size (release_slot slot why eng) = en_block_size eng"
  by (simp add: release_slot_def try_report_def Let_def)

lemma engine_process_frame:
  assumes "engine_process e eng n = Some (out, eng')"
  shows "en_output_channels eng' = en_output_channels eng" and "en_block_size eng' = en_block_size eng"
    and "length out = n * en_output_channels eng"
proof -
  let ?frame = "\<lambda>g. (en_output_channels g, en_block_size g)"
  obtain eng1 m where s: "start_block eng = Some eng1"
    and f: "finish_block (eng1\<lparr>en_mgr := m\<rparr>) (min n (en_block_size eng)) n = Some (out, eng')"
    using assms by (auto simp: engine_process_def Let_def split: option.splits)
  obtain eng2 where d: "fold_option exec_command (eng\<lparr>en_commands := []\<rparr>) (en_commands eng) = Some eng2"
    and e: "eng1 = eng2\<lparr>en_master := replicate (en_output_channels eng2) (replicate (en_block_size eng2) f64_zero)\<rparr>"
    using s by (auto simp: start_block_def drain_commands_def split: option.splits)
  have "?frame eng2 = ?frame (eng\<lparr>en_commands := []\<rparr>)"
    using d by (rule fold_option_keeps) (use exec_command_frame in auto)
  moreover have "?frame (foldl (\<lambda>g (slot, why). release_slot slot why g) g rs) = ?frame g" for g rs
    by (induction rs arbitrary: g) (auto simp: release_slot_frame)
  ultimately have fr: "?frame eng' = ?frame eng"
    using f e by (auto simp: finish_block_def reap_pass_def split: option.splits)
  then show "en_output_channels eng' = en_output_channels eng" and "en_block_size eng' = en_block_size eng" by simp_all
  have "out = output_frames eng' (min n (en_block_size eng)) n"
    using f by (auto simp: finish_block_def split: option.splits)
  then show "length out = n * en_output_channels eng" using fr
    by (simp add: output_frames_def length_concat o_def sum_list_triv)
qed

definition engine_at :: "Dsp.env \<Rightarrow> nat \<Rightarrow> engine \<Rightarrow> engine \<Rightarrow> bool" where
  "engine_at e oc eng0 eng \<longleftrightarrow> en_output_channels eng = oc \<and> engine_run e eng0 eng"

lemma engine_fills:
  assumes "ob_fn ob = Some (engine_callback e)" and "bk_block_size (ob_cfg ob) < 2 ^ 32"
  shows "fills_buffer ob (engine_at e (bk_output_channels (ob_cfg ob)) eng0)"
  using assms engine_process_frame
  by (auto simp: fills_buffer_def run_block_def engine_callback_def engine_at_def Let_def intro: engine_run.block)

section \<open>Properties\<close>

text \<open>C28: Rendering through the headless backend: the captured buffer has one sample per frame and channel, the
  engine is left in a state that calls of the audio callback lead to, and rendering in two goes gives the
  samples and the engine of rendering in one, one after the other, with nothing lost or repeated at the
  seam.\<close>

theorem offline_render:
  assumes "ob_fn ob = Some (engine_callback e)" and "bk_block_size (ob_cfg ob) < 2 ^ 32"
    and "bk_output_channels (ob_cfg ob) = en_output_channels eng"
  shows "(\<forall>n ob' eng'. render n ob eng = Some (ob', eng') \<longrightarrow>
      length (ob_output ob') = n * (bk_block_size (ob_cfg ob) * en_output_channels eng) \<and>
      engine_run e eng eng' \<and> (\<exists>bss. run_blocks n ob eng = Some (bss, eng') \<and> ob_output ob' = concat bss)) \<and>
    render (a + b) ob eng =
      (case render a ob eng of
        None \<Rightarrow> None
      | Some (ob1, eng1) \<Rightarrow>
          map_option (\<lambda>(ob2, eng2). (ob\<lparr>ob_output := ob_output ob1 @ ob_output ob2\<rparr>, eng2)) (render b ob1 eng1))"
proof -
  note fills = engine_fills [OF assms(1,2), of eng]
  have at: "engine_at e (bk_output_channels (ob_cfg ob)) eng eng"
    using assms(3) by (simp add: engine_at_def engine_run.started)
  have "length (ob_output ob') = n * (bk_block_size (ob_cfg ob) * en_output_channels eng) \<and>
      engine_run e eng eng' \<and> (\<exists>bss. run_blocks n ob eng = Some (bss, eng') \<and> ob_output ob' = concat bss)"
    if r: "render n ob eng = Some (ob', eng')" for n ob' eng'
  proof -
    obtain bss where b: "run_blocks n ob eng = Some (bss, eng')" "ob' = ob\<lparr>ob_output := concat bss\<rparr>"
      using r render_run [OF fills at, of n] by auto
    from run_blocks_keeps [OF fills at b(1)] have k: "engine_run e eng eng'" "length bss = n"
      "\<forall>x \<in> set bss. length x = bk_block_size (ob_cfg ob) * en_output_channels eng"
      by (auto simp: engine_at_def assms(3))
    from k(2,3) have "length (concat bss) = n * (bk_block_size (ob_cfg ob) * en_output_channels eng)"
      by (induction bss arbitrary: n) auto
    then show ?thesis using b k(1) by simp
  qed
  then show ?thesis using render_splits [OF fills at] by blast
qed

definition test_backend :: "engine offline_backend" where
  "test_backend = \<lparr>ob_cfg = \<lparr>bk_sample_rate = 48000, bk_block_size = 2, bk_input_channels = 0, bk_output_channels = 2\<rparr>,
     ob_fn = Some (engine_callback plain_env), ob_output = [], ob_running = True\<rparr>"

theorem offline_render_witness:
  "\<exists>eng ob' eng'. engine_init 4096 48000 2 2 3 = Some eng \<and> render 1 test_backend eng = Some (ob', eng') \<and>
    length (ob_output ob') = 4 \<and> engine_run plain_env eng eng' \<and>
    render (1 + 1) test_backend eng =
      map_option (\<lambda>(ob2, eng2). (test_backend\<lparr>ob_output := ob_output ob' @ ob_output ob2\<rparr>, eng2)) (render 1 ob' eng')"
proof -
  have "is_power_of_two 2" by (simp add: is_power_of_two_iff exI [of _ 1])
  then obtain eng where i: "engine_init 4096 48000 2 2 3 = Some eng"
    by (rule engine_init_Some [of 2 2 4096 48000 3]) simp_all
  then have e: "eng = \<lparr>en_sample_rate = 48000, en_block_size = 2, en_output_channels = 2,
      en_mgr = mgr_init 3, en_active_gen = replicate 3 0, en_active_list = [], en_routes = [],
      en_route_capacity = 12, en_master = replicate 2 (replicate 2 f64_zero),
      en_commands = [], en_telemetry = [], en_telemetry_capacity = 28\<rparr>"
    by (auto simp: engine_init_def split: if_splits option.splits)
  have p: "\<exists>out eng'. engine_process plain_env eng 2 = Some (out, eng') \<and> length out = 4"
    using engine_process_frame(3) [of plain_env eng 2]
    by (simp add: engine_process_def start_block_def drain_commands_def compute_sequential_def compute_order_def
        route_edges_def kahn_order_def finish_block_def reap_pass_def output_frames_def e)
  note c = offline_render [of test_backend plain_env eng 1 1]
  have "\<exists>ob' eng'. render 1 test_backend eng = Some (ob', eng')"
    using p by (auto simp: render_def render_block_def test_backend_def engine_callback_def Let_def)
  then obtain ob' eng' where r: "render 1 test_backend eng = Some (ob', eng')" by blast
  have h: "ob_fn test_backend = Some (engine_callback plain_env)" "bk_block_size (ob_cfg test_backend) < 2 ^ 32"
    "bk_output_channels (ob_cfg test_backend) = en_output_channels eng"
    by (simp_all add: test_backend_def e)
  from c [OF h] r i show ?thesis by (auto simp: e test_backend_def)
qed

end
