(* ===== verification/Audio.thy ===== *)
theory Audio
  imports Api_Voices Offline
begin

text \<open>
  The audio thread as a whole.  Every step of a block (commands, gathering, the cycle of a voice, mixing, the end
  of voices) stays inside the memory of the instances it touches, so the callback always returns a block, in
  every session of a host that uses the voices it was given.  The schedules behind the handles given out are
  kept in a list beside the engine.
\<close>

section \<open>Schedules that can be played\<close>

definition playable :: "nat \<Rightarrow> compiled_schedule \<Rightarrow> bool" where
  "playable B s \<longleftrightarrow> sched_ok s \<and> nodes_safe s \<and> blueprint_ok (cs_bp s) \<and> cs_block_size s = B"

text \<open>
  The engine reads and writes one sample per frame at every terminal.  Rates are never below the base rate, so
  the channels of every node hold a block.
\<close>

lemma stride_block:
  assumes "sched_ok s" and "v < nodes_of s"
  shows "cs_block_size s \<le> cs_out_stride s ! v"
proof -
  note t = sched_throughput [OF assms]
  have "0 < cs_node_block s ! v * cs_calls s ! v" using t(3,4) by simp
  then have "0 < cs_region_rate s ! v * cs_block_size s" using t(1,2) by simp
  then show ?thesis using t(2) by simp
qed

abbreviation outs_of :: "compiled_schedule \<Rightarrow> nat" where
  "outs_of s \<equiv> length (g_output_terminals (cs_bp s))"

abbreviation ins_of :: "compiled_schedule \<Rightarrow> nat" where
  "ins_of s \<equiv> length (g_input_terminals (cs_bp s))"

lemma instance_ok_sched: "instance_ok s sr g \<Longrightarrow> gi_sched g = s"
  by (simp add: instance_ok_def)

text \<open>A block of a channel lies in the pool.\<close>

lemma block_in_pool:
  assumes "playable B s" and "instance_ok s sr g" and "v < nodes_of s" and "ch < outputs_count (sched_nodes s ! v)"
    and "nf \<le> B"
  shows "out_offset s v ch + nf \<le> length (gi_pool g)"
  using channel_in_pool(2) [of s v ch] stride_block [of s v] assms by (simp add: playable_def instance_ok_def)

lemma input_view:
  assumes p: "playable B s" and i: "instance_ok s sr g" and "t < ins_of s" and "c < input_terminal_channels g t"
    and "nf \<le> B"
  obtains off len where "input_terminal_view g t c = Pool_view off len" and "off + nf \<le> length (gi_pool g)"
proof -
  let ?v = "t_node (g_input_terminals (cs_bp s) ! t)"
  have m: "g_input_terminals (cs_bp s) ! t \<in> set (g_input_terminals (cs_bp s))" using assms(3) by simp
  have "?v < nodes_of s" using p m by (simp add: playable_def blueprint_ok_def terminals_ok_def)
  moreover have "c < outputs_count (sched_nodes s ! ?v)"
    using assms(4) instance_ok_sched [OF i] by (simp add: input_terminal_channels_def)
  ultimately have "out_offset s ?v c + nf \<le> length (gi_pool g)" using block_in_pool [OF p i] assms(5) by blast
  then show thesis
    using that [of "out_offset s ?v c" "cs_out_stride s ! ?v"] instance_ok_sched [OF i]
    by (simp add: input_terminal_view_def node_output_view_def)
qed

lemma output_samples:
  assumes p: "playable B s" and i: "instance_ok s sr g" and "t < outs_of s" and "c < output_terminal_channels g t"
    and "nf \<le> B"
  shows "\<exists>xs. read_samples nf g (output_terminal_view g t c) = Some xs \<and> length xs = nf"
proof -
  let ?t = "g_output_terminals (cs_bp s) ! t"
  have m: "?t \<in> set (g_output_terminals (cs_bp s))" using assms(3) by simp
  note s = instance_ok_sched [OF i]
  have silent: "nf \<le> gi_silent_len g"
    using assms(5) p i by (auto simp: instance_ok_def silent_size_def playable_def)
  have read: "\<exists>xs. read_samples nf g (node_output_view g v ch) = Some xs \<and> length xs = nf"
    if "v < nodes_of s" "ch < outputs_count (sched_nodes s ! v)" for v ch
    using block_in_pool [OF p i that assms(5)] s by (simp add: node_output_view_def)
  show ?thesis
  proof (cases "t_channels ?t = []")
    case True
    then have "c < outputs_count (sched_nodes s ! t_node ?t)"
      using assms(4) s by (simp add: output_terminal_channels_def Let_def)
    moreover have "t_node ?t < nodes_of s" using p m True by (simp add: playable_def blueprint_ok_def terminals_ok_def)
    ultimately show ?thesis using read s True by (simp add: output_terminal_view_def Let_def)
  next
    case False
    let ?c = "t_channels ?t ! c"
    have "c < length (t_channels ?t)" using False assms(4) s by (simp add: output_terminal_channels_def Let_def)
    then have c: "?c \<in> set (t_channels ?t)" by simp
    show ?thesis
    proof (cases "ts_silent ?c")
      case True
      then show ?thesis using silent s False by (simp add: output_terminal_view_def Let_def)
    next
      case aud: False
      have "source_ok (cs_bp s) ?c" using p m c by (simp add: playable_def blueprint_ok_def terminals_ok_def)
      then show ?thesis using read aud s False by (simp add: source_ok_def output_terminal_view_def Let_def)
    qed
  qed
qed

section \<open>Gathering and mixing\<close>

text \<open>An instance of a schedule, whatever its buffers hold.\<close>

lemma write_keeps:
  assumes "instance_ok s sr g" and "off + length xs \<le> length (gi_pool g)"
  shows "\<exists>g'. write_samples g (Pool_view off len) xs = Some g' \<and> instance_ok s sr g'"
  using assms by (simp add: instance_ok_def)

lemma zero_terminals_ok:
  assumes p: "playable B s" and i: "instance_ok s sr g" and "nf \<le> B"
  shows "\<exists>g'. zero_input_terminals nf g = Some g' \<and> instance_ok s sr g'"
  unfolding zero_input_terminals_def
proof (rule fold_option_invariant [where P = "instance_ok s sr", OF _ i])
  fix h x
  assume x: "x \<in> set (concat (map (\<lambda>t. map (Pair t) [0..<input_terminal_channels g t]) [0..<input_terminal_count g]))"
    and h: "instance_ok s sr h"
  obtain t c where tc: "x = (t, c)" by fastforce
  have t: "t < ins_of s" "c < input_terminal_channels h t"
    using x tc instance_ok_sched [OF i] instance_ok_sched [OF h]
    by (auto simp: input_terminal_count_def input_terminal_channels_def)
  obtain off len where "input_terminal_view h t c = Pool_view off len" "off + nf \<le> length (gi_pool h)"
    by (rule input_view [OF p h t assms(3)])
  then show "\<exists>b. (case x of (t, c) \<Rightarrow> write_samples h (input_terminal_view h t c) (replicate nf f64_zero)) = Some b \<and>
      instance_ok s sr b"
    using write_keeps [OF h, of off "replicate nf f64_zero" len] tc by simp
qed

lemma sum_terminal_ok:
  assumes p: "playable B s" and i: "instance_ok s sr g" and ps: "playable B s'" and src: "instance_ok s' sr src"
    and self: "self \<longrightarrow> s' = s" and st: "st < outs_of s'" and dt: "dt < ins_of s" and nf: "nf \<le> B"
  shows "\<exists>g'. sum_terminal_to_instance nf self src st g dt = Some g' \<and> instance_ok s sr g'"
proof -
  have "\<exists>g'. fold_option (add_channel nf self src st dt) g
      [0..<min (output_terminal_channels src st) (input_terminal_channels g dt)] = Some g' \<and> instance_ok s sr g'"
  proof (rule fold_option_invariant [where P = "instance_ok s sr", OF _ i])
    fix h c
    assume c: "c \<in> set [0..<min (output_terminal_channels src st) (input_terminal_channels g dt)]" and h: "instance_ok s sr h"
    let ?src = "if self then h else src"
    have o: "instance_ok s' sr ?src" using src h self by simp
    have "output_terminal_channels ?src st = output_terminal_channels src st"
      using instance_ok_sched [OF o] instance_ok_sched [OF src] by (simp only: output_terminal_channels_def)
    then have "c < output_terminal_channels ?src st" using c by simp
    from output_samples [OF ps o st this nf] obtain xs
      where xs: "read_samples nf ?src (output_terminal_view ?src st c) = Some xs" "length xs = nf" by blast
    have "c < input_terminal_channels h dt"
      using c instance_ok_sched [OF h] instance_ok_sched [OF i] by (simp add: input_terminal_channels_def)
    then obtain off len where v: "input_terminal_view h dt c = Pool_view off len" "off + nf \<le> length (gi_pool h)"
      by (rule input_view [OF p h dt _ nf])
    let ?ys = "take nf (drop off (gi_pool h))"
    have "length (map2 (+) ?ys xs) = nf" using v(2) xs(2) by simp
    from write_keeps [OF h, of off "map2 (+) ?ys xs" len] v(2) this
    show "\<exists>b. add_channel nf self src st dt h c = Some b \<and> instance_ok s sr b"
      using v xs by (simp add: add_channel_def)
  qed
  then show ?thesis
    using st dt instance_ok_sched [OF i] instance_ok_sched [OF src]
    by (simp add: sum_terminal_to_instance_def output_terminal_count_def input_terminal_count_def)
qed

section \<open>What the engine knows of its voices\<close>

type_synonym voice_log = "(instance_handle \<times> compiled_schedule) list"

abbreviation handle_at :: "instance_manager \<Rightarrow> nat \<Rightarrow> instance_handle" where
  "handle_at m i \<equiv> \<lparr>ih_slot = i, ih_generation = is_generation (im_slots m ! i)\<rparr>"

text \<open>Every live instance is one of the schedule its handle was given out with.\<close>

definition insts_ok :: "nat \<Rightarrow> voice_log \<Rightarrow> instance_manager \<Rightarrow> bool" where
  "insts_ok sr H m \<longleftrightarrow> (\<forall>i < length (im_slots m). \<forall>g. is_inst (im_slots m ! i) = Some g \<longrightarrow>
     (\<exists>s. (handle_at m i, s) \<in> set H \<and> instance_ok s sr g))"

definition route_fits :: "voice_log \<Rightarrow> active_route \<Rightarrow> bool" where
  "route_fits H r \<longleftrightarrow>
     (\<exists>s. (\<lparr>ih_slot = ar_src_slot r, ih_generation = ar_src_gen r\<rparr>, s) \<in> set H \<and> ar_src_terminal r < outs_of s) \<and>
     (ar_to_master r \<or>
       (\<exists>s. (\<lparr>ih_slot = ar_dst_slot r, ih_generation = ar_dst_gen r\<rparr>, s) \<in> set H \<and> ar_dst_terminal r < ins_of s))"

definition command_fits :: "voice_log \<Rightarrow> command_event \<Rightarrow> bool" where
  "command_fits H c \<longleftrightarrow>
     (ce_type c = Set_parameter \<longrightarrow> (\<exists>s. (ce_handle c, s) \<in> set H \<and> ce_node_index c < nodes_of s)) \<and>
     (ce_type c = Connect \<longrightarrow> route_fits H (route_of c))"

definition log_ok :: "nat \<Rightarrow> voice_log \<Rightarrow> bool" where
  "log_ok B H \<longleftrightarrow> distinct (map fst H) \<and> (\<forall>(h, s) \<in> set H. playable B s)"

definition audio_ok :: "voice_log \<Rightarrow> engine \<Rightarrow> command_event list \<Rightarrow> bool" where
  "audio_ok H eng cs \<longleftrightarrow> engine_ok eng cs \<and> log_ok (en_block_size eng) H \<and>
     insts_ok (en_sample_rate eng) H (en_mgr eng) \<and> (\<forall>r \<in> set (en_routes eng). route_fits H r) \<and>
     (\<forall>c \<in> set cs. command_fits H c)"

lemma log_unique: "log_ok B H \<Longrightarrow> (h, s) \<in> set H \<Longrightarrow> (h, s') \<in> set H \<Longrightarrow> s' = s"
  unfolding log_ok_def by (metis eq_key_imp_eq_value)

lemma log_playable: "log_ok B H \<Longrightarrow> (h, s) \<in> set H \<Longrightarrow> playable B s"
  by (auto simp: log_ok_def)

lemma insts_at:
  assumes "insts_ok sr H m" and "instance_at m i = Some g"
  obtains s where "(handle_at m i, s) \<in> set H" and "instance_ok s sr g"
  using assms by (auto simp: insts_ok_def instance_at_def split: if_splits)

text \<open>Putting an instance of the same schedule back.\<close>

lemma put_instance_ok:
  assumes "insts_ok sr H m" and "(handle_at m i, s) \<in> set H" and "instance_ok s sr g"
  shows "insts_ok sr H (put_instance i g m)"
  unfolding insts_ok_def
proof (intro allI impI)
  fix j h
  assume j: "j < length (im_slots (put_instance i g m))" and h: "is_inst (im_slots (put_instance i g m) ! j) = Some h"
  show "\<exists>s. (handle_at (put_instance i g m) j, s) \<in> set H \<and> instance_ok s sr h"
  proof (cases "j = i")
    case True
    then show ?thesis using j h assms(2,3) by (auto simp: put_instance_def)
  next
    case False
    then show ?thesis using j h assms(1) by (simp add: put_instance_def insts_ok_def)
  qed
qed

text \<open>An active slot has an instance, under the generation the audio thread knows.\<close>

lemma active_instance:
  assumes ok: "engine_ok eng cs" and sh: "mgr_shape m = mgr_shape (en_mgr eng)" and i: "i \<in> set (en_active_list eng)"
  obtains g where "instance_at m i = Some g" and "is_generation (im_slots m ! i) = en_active_gen eng ! i"
proof -
  note f = shape_facts [OF sh]
  have il: "i < length (im_slots (en_mgr eng))" and "i \<notin> set (im_free (en_mgr eng))"
    using owner_parts(3,9) [OF ok] i by auto
  then have "is_inst (im_slots (en_mgr eng) ! i) \<noteq> None" using ok by (auto simp: engine_ok_def mgr_ok_def)
  then obtain g where "is_inst (im_slots m ! i) = Some g" using f(5) [OF il] by auto
  moreover have "is_generation (im_slots m ! i) = en_active_gen eng ! i"
    using ok i f(4) [OF il] by (simp add: engine_ok_def gens_ok_def)
  ultimately show thesis using that f(3) il by (simp add: instance_at_def)
qed

text \<open>The voice behind a route or a command that is current.\<close>

lemma current_instance:
  assumes ok: "engine_ok eng cs" and sh: "mgr_shape m = mgr_shape (en_mgr eng)" and "is_current eng i x" and "x \<noteq> 0"
  obtains g where "instance_at m i = Some g" and "handle_at m i = \<lparr>ih_slot = i, ih_generation = x\<rparr>"
proof -
  have "i \<in> set (en_active_list eng)" by (rule current_active [OF ok assms(3,4)])
  from active_instance [OF ok sh this] obtain g where "instance_at m i = Some g"
    "is_generation (im_slots m ! i) = en_active_gen eng ! i" by blast
  then show thesis using that assms(3) by (simp add: is_current_def)
qed

section \<open>Commands\<close>

lemma set_parameter_ok:
  assumes "instance_ok s sr g" and "v < nodes_of s"
  shows "\<exists>g'. set_parameter g v p x = Some g' \<and> instance_ok s sr g'"
  using assms by (auto simp: set_parameter_def Let_def instance_ok_def)

lemma release_routes: "set (en_routes (release_slot i why eng)) \<subseteq> set (en_routes eng)"
  by (auto simp: release_slot_def try_report_def Let_def)

lemma release_frame:
  "en_mgr (release_slot i why eng) = en_mgr eng" "en_block_size (release_slot i why eng) = en_block_size eng"
  "en_sample_rate (release_slot i why eng) = en_sample_rate eng"
  by (simp_all add: release_slot_def try_report_def Let_def)

lemma add_route_frame:
  "en_mgr (add_route c eng) = en_mgr eng" "en_block_size (add_route c eng) = en_block_size eng"
  "en_sample_rate (add_route c eng) = en_sample_rate eng"
  "set (en_routes (add_route c eng)) \<subseteq> insert (route_of c) (set (en_routes eng))"
  by (auto simp: add_route_def)

lemma exec_command_total:
  assumes a: "audio_ok H eng (c # cs)"
  shows "\<exists>eng'. exec_command eng c = Some eng' \<and> audio_ok H eng' cs"
proof -
  have ok: "engine_ok eng (c # cs)" and lg: "log_ok (en_block_size eng) H"
    and ins: "insts_ok (en_sample_rate eng) H (en_mgr eng)" and rts: "\<forall>r \<in> set (en_routes eng). route_fits H r"
    and fit: "command_fits H c" "\<forall>c \<in> set cs. command_fits H c"
    using a by (simp_all add: audio_ok_def)
  note keeps = exec_command_ok [OF ok]
  show ?thesis
  proof (cases "ce_type c")
    case Set_parameter
    show ?thesis
    proof (cases "is_current eng (ih_slot (ce_handle c)) (ih_generation (ce_handle c))")
      case False
      then have "exec_command eng c = Some eng" using Set_parameter by (simp add: exec_command_def Let_def)
      then show ?thesis using a keeps by (auto simp: audio_ok_def)
    next
      case True
      have "ih_generation (ce_handle c) \<noteq> 0" using ok by (simp add: engine_ok_def command_ok_def handle_valid_def)
      then obtain g where g: "instance_at (en_mgr eng) (ih_slot (ce_handle c)) = Some g"
        and h: "handle_at (en_mgr eng) (ih_slot (ce_handle c)) = ce_handle c"
        by (rule current_instance [OF ok refl True]) simp
      obtain s where s: "(ce_handle c, s) \<in> set H" "instance_ok s (en_sample_rate eng) g"
        using insts_at [OF ins g] h by metis
      have "ce_node_index c < nodes_of s"
        using fit(1) Set_parameter log_unique [OF lg s(1)] by (auto simp: command_fits_def)
      from set_parameter_ok [OF s(2) this] obtain g'
        where g': "set_parameter g (ce_node_index c) (ce_parameter_index c) (ce_parameter_value c) = Some g'"
          "instance_ok s (en_sample_rate eng) g'" by blast
      then have x: "exec_command eng c = Some (eng\<lparr>en_mgr := put_instance (ih_slot (ce_handle c)) g' (en_mgr eng)\<rparr>)"
        using True g Set_parameter by (simp add: exec_command_def Let_def)
      have "insts_ok (en_sample_rate eng) H (put_instance (ih_slot (ce_handle c)) g' (en_mgr eng))"
        by (rule put_instance_ok [OF ins _ g'(2)]) (use s(1) h in simp)
      then show ?thesis using x keeps [OF x] lg rts fit(2) by (simp add: audio_ok_def)
    qed
  next
    case Activate
    then obtain eng' where x: "exec_command eng c = Some eng'" and "en_mgr eng' = en_mgr eng"
      "en_routes eng' = en_routes eng" "en_block_size eng' = en_block_size eng" "en_sample_rate eng' = en_sample_rate eng"
      by (simp add: exec_command_def Let_def activate_def)
    then show ?thesis using keeps [OF x] lg ins rts fit(2) by (simp add: audio_ok_def)
  next
    case Kill
    then obtain eng' where x: "exec_command eng c = Some eng'" and "en_mgr eng' = en_mgr eng"
      "set (en_routes eng') \<subseteq> set (en_routes eng)" "en_block_size eng' = en_block_size eng"
      "en_sample_rate eng' = en_sample_rate eng"
      using release_routes by (simp add: exec_command_def Let_def release_frame)
    then show ?thesis using keeps [OF x] lg ins rts fit(2) by (auto simp: audio_ok_def)
  next
    case Connect
    have r: "route_fits H (route_of c)" using fit(1) Connect by (simp add: command_fits_def)
    have x: "exec_command eng c = Some (add_route c eng)" using Connect by (simp add: exec_command_def Let_def)
    show ?thesis
      using x keeps [OF x] lg ins rts fit(2) r add_route_frame [of c eng] by (auto simp: audio_ok_def)
  next
    case Disconnect
    then obtain eng' where x: "exec_command eng c = Some eng'" and "en_mgr eng' = en_mgr eng"
      "set (en_routes eng') \<subseteq> set (en_routes eng)" "en_block_size eng' = en_block_size eng"
      "en_sample_rate eng' = en_sample_rate eng"
      by (auto simp: exec_command_def Let_def remove_route_def)
    then show ?thesis using keeps [OF x] lg ins rts fit(2) by (auto simp: audio_ok_def)
  qed
qed

lemma exec_commands_total:
  "audio_ok H eng cs \<Longrightarrow> \<exists>eng'. fold_option exec_command eng cs = Some eng' \<and> audio_ok H eng' []"
proof (induction cs arbitrary: eng)
  case Nil
  then show ?case by simp
next
  case (Cons c cs)
  from exec_command_total [OF Cons.prems] Cons.IH show ?case by auto
qed

section \<open>Computing the voices\<close>

lemma gather_route_ok:
  assumes a: "audio_ok H eng []" and sh: "mgr_shape m = mgr_shape (en_mgr eng)" and ins: "insts_ok (en_sample_rate eng) H m"
    and r: "r \<in> set (en_routes eng)" and s: "(handle_at m slot, s) \<in> set H"
    and g: "instance_ok s (en_sample_rate eng) g" and nf: "nf \<le> en_block_size eng"
  shows "\<exists>g'. gather_route eng nf m slot g r = Some g' \<and> instance_ok s (en_sample_rate eng) g'"
proof (cases "ar_to_master r \<or> ar_dst_slot r \<noteq> slot \<or> \<not> route_live eng r")
  case True
  then show ?thesis using g by (simp add: gather_route_def)
next
  case False
  have ok: "engine_ok eng []" and lg: "log_ok (en_block_size eng) H" and fit: "route_fits H r"
    using a r by (simp_all add: audio_ok_def)
  have live: "is_current eng (ar_src_slot r) (ar_src_gen r)" "is_current eng (ar_dst_slot r) (ar_dst_gen r)"
    using False by (auto simp: route_live_def)
  have act: "ar_src_slot r \<in> set (en_active_list eng)" "ar_dst_slot r \<in> set (en_active_list eng)"
    using ok r False by (auto simp: engine_ok_def)
  have nz: "ar_src_gen r \<noteq> 0" "ar_dst_gen r \<noteq> 0"
    using live act ok by (auto simp: is_current_def engine_ok_def gens_ok_def)
  obtain src where src: "instance_at m (ar_src_slot r) = Some src"
    and hs: "handle_at m (ar_src_slot r) = \<lparr>ih_slot = ar_src_slot r, ih_generation = ar_src_gen r\<rparr>"
    by (rule current_instance [OF ok sh live(1) nz(1)])
  obtain d where hd: "handle_at m (ar_dst_slot r) = \<lparr>ih_slot = ar_dst_slot r, ih_generation = ar_dst_gen r\<rparr>"
    by (rule current_instance [OF ok sh live(2) nz(2)])
  obtain s' where s': "(handle_at m (ar_src_slot r), s') \<in> set H" "instance_ok s' (en_sample_rate eng) src"
    by (rule insts_at [OF ins src])
  have st: "ar_src_terminal r < outs_of s'"
    using fit hs log_unique [OF lg s'(1)] by (auto simp: route_fits_def)
  have dt: "ar_dst_terminal r < ins_of s"
    using fit hd False log_unique [OF lg s] by (auto simp: route_fits_def)
  have "ar_src_slot r = slot \<longrightarrow> s' = s" using log_unique [OF lg s] s'(1) by auto
  from sum_terminal_ok [OF log_playable [OF lg s] g log_playable [OF lg s'(1)] s'(2) this st dt nf] False src
  show ?thesis by (simp add: gather_route_def)
qed

lemma run_task_total:
  assumes a: "audio_ok H eng []" and sh: "mgr_shape m = mgr_shape (en_mgr eng)" and ins: "insts_ok (en_sample_rate eng) H m"
    and i: "i \<in> set (en_active_list eng)" and nf: "nf \<le> en_block_size eng"
  shows "\<exists>m'. run_task e eng nf m i = Some m' \<and> mgr_shape m' = mgr_shape (en_mgr eng) \<and> insts_ok (en_sample_rate eng) H m'"
proof -
  have ok: "engine_ok eng []" and lg: "log_ok (en_block_size eng) H" using a by (simp_all add: audio_ok_def)
  obtain g where g: "instance_at m i = Some g" by (rule active_instance [OF ok sh i])
  obtain s where s: "(handle_at m i, s) \<in> set H" "instance_ok s (en_sample_rate eng) g" by (rule insts_at [OF ins g])
  note p = log_playable [OF lg s(1)]
  obtain g0 where g0: "zero_input_terminals nf g = Some g0" "instance_ok s (en_sample_rate eng) g0"
    using zero_terminals_ok [OF p s(2) nf] by blast
  have "\<exists>g1. fold_option (gather_route eng nf m i) g0 (en_routes eng) = Some g1 \<and> instance_ok s (en_sample_rate eng) g1"
    by (rule fold_option_invariant [where P = "instance_ok s (en_sample_rate eng)", OF _ g0(2)])
      (rule gather_route_ok [OF a sh ins _ s(1) _ nf])
  then obtain g1 where g1: "gather_inputs eng nf m i g = Some g1" "instance_ok s (en_sample_rate eng) g1"
    using g0(1) by (auto simp: gather_inputs_def)
  have "sched_ok s" "nodes_safe s" using p by (simp_all add: playable_def)
  from process_defined [OF this(1) g1(2) this(2)] obtain g2
    where g2: "process e g1 = Some g2" "instance_ok s (en_sample_rate eng) g2" by blast
  then have t: "run_task e eng nf m i = Some (put_instance i g2 m)" using g g1(1) by (simp add: run_task_def)
  moreover have "mgr_shape (put_instance i g2 m) = mgr_shape (en_mgr eng)" using run_task_shape [OF t] sh by simp
  ultimately show ?thesis using put_instance_ok [OF ins s(1) g2(2)] by blast
qed

lemma compute_total:
  assumes a: "audio_ok H eng []" and nf: "nf \<le> en_block_size eng"
  shows "\<exists>m. compute_sequential e eng nf = Some m \<and> audio_ok H (eng\<lparr>en_mgr := m\<rparr>) []"
proof -
  have ok: "engine_ok eng []" and ins: "insts_ok (en_sample_rate eng) H (en_mgr eng)" using a by (simp_all add: audio_ok_def)
  have set: "set (compute_order eng) = set (en_active_list eng)" by (rule mset_eq_setD [OF compute_order_ok(1) [OF ok]])
  let ?P = "\<lambda>m. mgr_shape m = mgr_shape (en_mgr eng) \<and> insts_ok (en_sample_rate eng) H m"
  have "\<exists>m. compute_sequential e eng nf = Some m \<and> ?P m"
    unfolding compute_sequential_def
    by (rule fold_option_invariant [where P = ?P]) (use run_task_total [OF a _ _ _ nf] set ins in auto)
  then obtain m where m: "compute_sequential e eng nf = Some m" "?P m" by blast
  then have "engine_ok (eng\<lparr>en_mgr := m\<rparr>) []" using shape_engine_ok [OF ok] by blast
  then show ?thesis using m a by (auto simp: audio_ok_def)
qed

section \<open>The end of a block\<close>

lemma terminal_peak_total:
  assumes p: "playable B s" and g: "instance_ok s sr g" and nf: "nf \<le> B"
  shows "\<exists>x. terminal_peak nf g = Some x"
proof (cases "output_terminal_count g = 0")
  case True
  then show ?thesis by (simp add: terminal_peak_def)
next
  case False
  then have t: "0 < outs_of s" using instance_ok_sched [OF g] by (simp add: output_terminal_count_def)
  have "\<exists>b. fold_option (\<lambda>p c.
         case read_samples nf g (output_terminal_view g 0 c) of
           None \<Rightarrow> None
         | Some xs \<Rightarrow> Some (foldl (\<lambda>q x. f64_max q (f64_abs x)) p xs))
         f64_zero [0..<output_terminal_channels g 0] = Some b \<and> True"
    using output_samples [OF p g t _ nf] by (intro fold_option_invariant) fastforce+
  then show ?thesis using False by (simp add: terminal_peak_def)
qed

lemma reap_one_total:
  assumes ok: "engine_ok eng cs" and lg: "log_ok B H" and i: "i \<in> set (en_active_list eng)" and nf: "nf \<le> B"
    and acc: "mgr_shape m = mgr_shape (en_mgr eng)" "insts_ok sr H m"
  shows "\<exists>m' r'. reap_one nf (m, r) i = Some (m', r') \<and> mgr_shape m' = mgr_shape (en_mgr eng) \<and> insts_ok sr H m'"
proof -
  obtain g where g: "instance_at m i = Some g" by (rule active_instance [OF ok acc(1) i])
  obtain s where s: "(handle_at m i, s) \<in> set H" "instance_ok s sr g" by (rule insts_at [OF acc(2) g])
  obtain x where x: "terminal_peak nf g = Some x" using terminal_peak_total [OF log_playable [OF lg s(1)] s(2) nf] by blast
  obtain t why where t: "should_reap (im_slots m ! i) (gi_finished g) x = (t, why)" by fastforce
  then obtain r' where one: "reap_one nf (m, r) i = Some (m\<lparr>im_slots := (im_slots m)[i := t]\<rparr>, r')"
    using g x by (simp add: reap_one_def)
  have same: "is_generation t = is_generation (im_slots m ! i)" "is_inst t = is_inst (im_slots m ! i)"
    using should_reap_frame [of "im_slots m ! i" "gi_finished g" x] t by simp_all
  have "insts_ok sr H (m\<lparr>im_slots := (im_slots m)[i := t]\<rparr>)"
    unfolding insts_ok_def
  proof (intro allI impI)
    fix j h
    assume "j < length (im_slots (m\<lparr>im_slots := (im_slots m)[i := t]\<rparr>))"
      and "is_inst (im_slots (m\<lparr>im_slots := (im_slots m)[i := t]\<rparr>) ! j) = Some h"
    then show "\<exists>s. (handle_at (m\<lparr>im_slots := (im_slots m)[i := t]\<rparr>) j, s) \<in> set H \<and> instance_ok s sr h"
      using acc(2) same by (cases "j = i") (auto simp: insts_ok_def)
  qed
  then show ?thesis using one reap_one_shape(1) [OF one] acc(1) by auto
qed

lemma releases_frame:
  "en_mgr (foldl (\<lambda>g (slot, why). release_slot slot why g) eng rs) = en_mgr eng \<and>
   en_block_size (foldl (\<lambda>g (slot, why). release_slot slot why g) eng rs) = en_block_size eng \<and>
   en_sample_rate (foldl (\<lambda>g (slot, why). release_slot slot why g) eng rs) = en_sample_rate eng \<and>
   set (en_routes (foldl (\<lambda>g (slot, why). release_slot slot why g) eng rs)) \<subseteq> set (en_routes eng)"
proof (induction rs arbitrary: eng)
  case Nil
  then show ?case by simp
next
  case (Cons x rs)
  obtain i why where x: "x = (i, why)" by fastforce
  show ?case
    using Cons.IH [of "release_slot i why eng"] release_routes [of i why eng] x by (auto simp: release_frame)
qed

lemma reap_pass_total:
  assumes a: "audio_ok H eng []" and nf: "nf \<le> en_block_size eng"
  shows "\<exists>eng'. reap_pass nf eng = Some eng' \<and> audio_ok H eng' []"
proof -
  have ok: "engine_ok eng []" and lg: "log_ok (en_block_size eng) H"
    and ins: "insts_ok (en_sample_rate eng) H (en_mgr eng)" using a by (simp_all add: audio_ok_def)
  let ?P = "\<lambda>(m, r :: (nat \<times> end_reason) list). mgr_shape m = mgr_shape (en_mgr eng) \<and> insts_ok (en_sample_rate eng) H m"
  have "\<exists>b. fold_option (reap_one nf) (en_mgr eng, []) (en_active_list eng) = Some b \<and> ?P b"
  proof (rule fold_option_invariant)
    fix b i
    assume i: "i \<in> set (en_active_list eng)" and b: "?P b"
    obtain m r where "b = (m, r)" by fastforce
    then show "\<exists>b'. reap_one nf b i = Some b' \<and> ?P b'" using reap_one_total [OF ok lg i nf, of m "en_sample_rate eng" r] b by auto
  qed (simp add: ins)
  then obtain m r where f: "fold_option (reap_one nf) (en_mgr eng, []) (en_active_list eng) = Some (m, r)"
    and m: "insts_ok (en_sample_rate eng) H m" by auto
  let ?e = "foldl (\<lambda>g (slot, why). release_slot slot why g) (eng\<lparr>en_mgr := m\<rparr>) r"
  have p: "reap_pass nf eng = Some ?e" using f by (simp add: reap_pass_def)
  have "audio_ok H ?e []"
    using reap_pass_ok [OF ok p] a m releases_frame [of "eng\<lparr>en_mgr := m\<rparr>" r] by (auto simp: audio_ok_def)
  then show ?thesis using p by blast
qed

lemma mix_route_total:
  assumes a: "audio_ok H eng []" and r: "r \<in> set (en_routes eng)" and nf: "nf \<le> en_block_size eng"
  shows "\<exists>mb'. mix_route eng nf mb r = Some mb'"
proof (cases "\<not> ar_to_master r \<or> \<not> route_live eng r")
  case True
  then show ?thesis by (simp add: mix_route_def)
next
  case False
  have ok: "engine_ok eng []" and lg: "log_ok (en_block_size eng) H" and fit: "route_fits H r"
    and ins: "insts_ok (en_sample_rate eng) H (en_mgr eng)"
    using a r by (simp_all add: audio_ok_def)
  have live: "is_current eng (ar_src_slot r) (ar_src_gen r)" using False by (simp add: route_live_def)
  have act: "ar_src_slot r \<in> set (en_active_list eng)" using ok r by (simp add: engine_ok_def)
  have nz: "ar_src_gen r \<noteq> 0" using live act ok by (auto simp: is_current_def engine_ok_def gens_ok_def)
  obtain src where src: "instance_at (en_mgr eng) (ar_src_slot r) = Some src"
    and hs: "handle_at (en_mgr eng) (ar_src_slot r) = \<lparr>ih_slot = ar_src_slot r, ih_generation = ar_src_gen r\<rparr>"
    by (rule current_instance [OF ok refl live nz])
  obtain s where s: "(handle_at (en_mgr eng) (ar_src_slot r), s) \<in> set H" "instance_ok s (en_sample_rate eng) src"
    by (rule insts_at [OF ins src])
  have st: "ar_src_terminal r < outs_of s" using fit hs log_unique [OF lg s(1)] by (auto simp: route_fits_def)
  have "\<exists>b. fold_option (\<lambda>mb c.
         case read_samples nf src (output_terminal_view src (ar_src_terminal r) c) of
           None \<Rightarrow> None
         | Some xs \<Rightarrow> Some (mb[c := map2 (+) (take nf (mb ! c)) xs @ drop nf (mb ! c)]))
         mb [0..<min (output_terminal_channels src (ar_src_terminal r)) (en_output_channels eng)] = Some b \<and> True"
    using output_samples [OF log_playable [OF lg s(1)] s(2) st _ nf] by (intro fold_option_invariant) fastforce+
  then show ?thesis using False src st instance_ok_sched [OF s(2)]
    by (simp add: mix_route_def sum_terminal_to_master_def output_terminal_count_def)
qed

text \<open>One block, from the commands to the buffer.\<close>

lemma engine_process_total:
  assumes a: "audio_ok H eng (en_commands eng)"
  shows "\<exists>out eng'. engine_process e eng n = Some (out, eng') \<and> audio_ok H eng' (en_commands eng')"
proof -
  let ?nf = "min n (en_block_size eng)"
  have "audio_ok H (eng\<lparr>en_commands := []\<rparr>) (en_commands eng)"
    using a engine_ok_frame(1) [of eng "en_commands eng"] by (simp add: audio_ok_def)
  from exec_commands_total [OF this] obtain eng0
    where d: "fold_option exec_command (eng\<lparr>en_commands := []\<rparr>) (en_commands eng) = Some eng0" and a0: "audio_ok H eng0 []" by blast
  let ?e1 = "eng0\<lparr>en_master := replicate (en_output_channels eng0) (replicate (en_block_size eng0) f64_zero)\<rparr>"
  have s: "start_block eng = Some ?e1" using d by (simp add: start_block_def drain_commands_def)
  have a1: "audio_ok H ?e1 []" using a0 engine_ok_frame(2) [of eng0 "[]"] by (simp add: audio_ok_def)
  have "en_block_size eng0 = en_block_size (eng\<lparr>en_commands := []\<rparr>)"
    using d by (rule fold_option_keeps) (use exec_command_frame in blast)
  then have nf: "?nf \<le> en_block_size ?e1" by simp
  obtain m where m: "compute_sequential e ?e1 ?nf = Some m" and a2: "audio_ok H (?e1\<lparr>en_mgr := m\<rparr>) []"
    using compute_total [OF a1 nf] by blast
  have "\<exists>mb. fold_option (mix_route (?e1\<lparr>en_mgr := m\<rparr>) ?nf) (en_master (?e1\<lparr>en_mgr := m\<rparr>)) (en_routes (?e1\<lparr>en_mgr := m\<rparr>)) = Some mb \<and> True"
    using mix_route_total [OF a2] nf by (intro fold_option_invariant) simp_all
  then obtain mb where mb: "fold_option (mix_route (?e1\<lparr>en_mgr := m\<rparr>) ?nf) (en_master (?e1\<lparr>en_mgr := m\<rparr>)) (en_routes (?e1\<lparr>en_mgr := m\<rparr>)) = Some mb"
    by blast
  have a3: "audio_ok H (?e1\<lparr>en_mgr := m, en_master := mb\<rparr>) []"
    using a2 engine_ok_frame(2) [of "?e1\<lparr>en_mgr := m\<rparr>" "[]" mb] by (simp add: audio_ok_def)
  obtain eng' where r: "reap_pass ?nf (?e1\<lparr>en_mgr := m, en_master := mb\<rparr>) = Some eng'" and a4: "audio_ok H eng' []"
    using reap_pass_total [OF a3] nf by auto
  have f: "finish_block (?e1\<lparr>en_mgr := m\<rparr>) ?nf n = Some (output_frames eng' ?nf n, eng')"
    using mb r by (simp add: finish_block_def)
  have p: "engine_process e eng n = Some (output_frames eng' ?nf n, eng')"
    using s m f by (simp add: engine_process_def Let_def)
  have "engine_ok eng (en_commands eng)" using a by (simp add: audio_ok_def)
  then have "engine_ok eng' (en_commands eng')" by (rule engine_process_ok [OF _ p])
  moreover have "en_commands eng' = []"
    using finish_block_commands [OF f] start_block_ok(2) [OF _ s] a by (simp add: audio_ok_def)
  ultimately show ?thesis using p a4 by auto
qed

section \<open>The control thread\<close>

abbreviation audio_sound :: "voice_log \<Rightarrow> engine \<Rightarrow> bool" where
  "audio_sound H eng \<equiv> audio_ok H eng (en_commands eng)"

definition target_fits :: "voice_log \<Rightarrow> route_target \<Rightarrow> bool" where
  "target_fits H d \<longleftrightarrow> rt_to_master d \<or>
     (handle_valid (rt_instance d) \<and> (\<exists>s. (rt_instance d, s) \<in> set H \<and> rt_terminal d < ins_of s))"

lemma handle_eta: "\<lparr>ih_slot = ih_slot h, ih_generation = ih_generation h\<rparr> = h"
  by (cases h) simp

lemma enqueue_sound:
  assumes "audio_sound H eng" and "command_ok (en_mgr eng) c" and "ce_type c \<noteq> Activate" and "command_fits H c"
  shows "audio_sound H (enqueue c eng)"
  using assms enqueue_ok [of eng "en_commands eng" c] engine_ok_frame(1) [of eng "en_commands eng @ [c]"]
  by (auto simp: audio_ok_def enqueue_def)

lemma kill_sound: "audio_sound H eng \<Longrightarrow> handle_valid h \<Longrightarrow> audio_sound H (kill h eng)"
  unfolding kill_def
  by (rule enqueue_sound) (simp_all add: command_ok_def plain_command_def to_master_target_def command_fits_def)

lemma set_sound:
  assumes "audio_sound H eng" and "handle_valid h" and "(h, s) \<in> set H" and "v < nodes_of s"
  shows "audio_sound H (engine_set_parameter h v p x eng)"
  unfolding engine_set_parameter_def
  by (rule enqueue_sound [OF assms(1)])
    (use assms in \<open>auto simp: command_ok_def plain_command_def to_master_target_def command_fits_def\<close>)

lemma connect_sound:
  assumes "audio_sound H eng" and "handle_valid h" and "(h, s) \<in> set H" and "t < outs_of s" and "target_fits H d"
  shows "audio_sound H (engine_connect h t d eng)"
  unfolding engine_connect_def
proof (rule enqueue_sound [OF assms(1)])
  let ?c = "(plain_command Connect h)\<lparr>ce_src_terminal := t, ce_dest := d\<rparr>"
  show "command_ok (en_mgr eng) ?c" using assms(2,5) by (auto simp: command_ok_def plain_command_def target_fits_def)
  show "command_fits H ?c"
    using assms(3-5)
    by (auto simp: command_fits_def route_fits_def route_of_def plain_command_def target_fits_def Let_def handle_eta)
qed (simp add: plain_command_def)

lemma disconnect_sound:
  assumes "audio_sound H eng" and "handle_valid h" and "target_ok d"
  shows "audio_sound H (engine_disconnect h t d eng)"
  unfolding engine_disconnect_def
  by (rule enqueue_sound [OF assms(1)])
    (use assms in \<open>auto simp: command_ok_def plain_command_def target_ok_def command_fits_def\<close>)

text \<open>Recycling only takes instances away.\<close>

lemma insts_fewer:
  assumes "insts_ok sr H m" and "length (im_slots m') = length (im_slots m)"
    and "\<And>j g. is_inst (im_slots m' ! j) = Some g \<Longrightarrow> j < length (im_slots m) \<Longrightarrow> is_inst (im_slots m ! j) = Some g"
    and "\<And>j. is_generation (im_slots m' ! j) = is_generation (im_slots m ! j)"
  shows "insts_ok sr H m'"
  using assms(1) unfolding insts_ok_def by (simp add: assms(2-4))

lemma recycle_insts:
  assumes "insts_ok sr H m"
  shows "insts_ok sr H (mgr_recycle i m)"
proof (rule insts_fewer [OF assms])
  show "is_generation (im_slots (mgr_recycle i m) ! j) = is_generation (im_slots m ! j)" for j
    by (cases "j = i") (simp_all add: mgr_recycle_def)
  show "is_inst (im_slots m ! j) = Some g" if "is_inst (im_slots (mgr_recycle i m) ! j) = Some g" "j < length (im_slots m)" for j g
    using that by (cases "j = i") (auto simp: mgr_recycle_def split: if_splits)
qed (simp add: mgr_recycle_def)

lemma reclaim_sound:
  assumes "audio_sound H eng"
  shows "audio_sound H (snd (reclaim eng))"
proof -
  have "insts_ok sr H (foldl (\<lambda>m ev. mgr_recycle (te_slot ev) m) m es)" if "insts_ok sr H m" for sr m and es :: "telemetry_event list"
    using that by (induction es arbitrary: m) (simp_all add: recycle_insts)
  then have "insts_ok (en_sample_rate eng) H (foldl (\<lambda>m ev. mgr_recycle (te_slot ev) m) (en_mgr eng) (en_telemetry eng))"
    using assms by (simp add: audio_ok_def)
  then show ?thesis using assms reclaim_ok [of eng "en_commands eng"] by (simp add: audio_ok_def reclaim_def)
qed

section \<open>Spawning\<close>

lemma fits_more:
  "route_fits H r \<Longrightarrow> route_fits (H @ K) r" "command_fits H c \<Longrightarrow> command_fits (H @ K) c"
  "target_fits H d \<Longrightarrow> target_fits (H @ K) d"
  by (auto simp: route_fits_def command_fits_def target_fits_def)

lemma init_params_ok:
  "instance_ok s sr g \<Longrightarrow> fold_option (\<lambda>i p. init_parameter i (ip_node p) (ip_param p) (ip_value p)) g ips = Some g'
    \<Longrightarrow> instance_ok s sr g'"
proof (induction ips arbitrary: g)
  case Nil
  then show ?case by simp
next
  case (Cons p ips)
  then obtain g1 where g1: "init_parameter g (ip_node p) (ip_param p) (ip_value p) = Some g1"
    and r: "fold_option (\<lambda>i p. init_parameter i (ip_node p) (ip_param p) (ip_value p)) g1 ips = Some g'"
    by (auto split: option.splits)
  have "instance_ok s sr g1" using Cons.prems(1) g1
    by (auto simp: init_parameter_def Let_def instance_ok_def split: if_splits)
  from Cons.IH [OF this r] show ?case .
qed

lemma spawn_cases:
  assumes ok: "engine_ok eng (en_commands eng)" and so: "sched_ok s"
    and sp: "spawn e base eng s life dest t ips = Some (h, eng')"
  obtains (full) "\<not> handle_valid h" "eng' = snd (reclaim eng)"
  | (made) m g where "handle_valid h" and "instance_ok s (en_sample_rate eng) g"
      and "length (im_slots m) = length (im_slots (en_mgr (snd (reclaim eng))))"
      and "handle_at m (ih_slot h) = h" and "is_inst (im_slots m ! ih_slot h) = Some g"
      and "\<And>j. j \<noteq> ih_slot h \<Longrightarrow> im_slots m ! j = im_slots (en_mgr (snd (reclaim eng))) ! j"
      and "let eng2 = enqueue (plain_command Activate h) ((snd (reclaim eng))\<lparr>en_mgr := m\<rparr>)
        in eng' = (if t < outs_of s then engine_connect h t dest eng2 else eng2)"
proof -
  let ?e1 = "snd (reclaim eng)"
  have mok: "mgr_ok (en_mgr ?e1)" using reclaim_ok [OF ok] by (simp add: engine_ok_def)
  have sr: "en_sample_rate ?e1 = en_sample_rate eng" by (simp add: reclaim_def)
  obtain h' m where c: "mgr_create e base (en_mgr ?e1) s (en_sample_rate ?e1) life = (h', m)" by fastforce
  from c show thesis
  proof (cases rule: mgr_create_cases)
    case full
    then have "\<not> handle_valid h'" by (simp add: handle_valid_def null_handle_def)
    then have "h = null_handle" "eng' = ?e1" using sp full by (simp_all add: spawn_def Let_def c)
    then show thesis by (intro that(1)) (simp_all add: handle_valid_def null_handle_def)
  next
    case (made inst idx)
    have v: "handle_valid h'" using made(3) mok by (simp add: handle_valid_def mgr_ok_def)
    have idx: "idx < length (im_slots (en_mgr ?e1))" using mok made(2) by (auto simp: mgr_ok_def)
    have slots: "im_slots m = (im_slots (en_mgr ?e1))[idx := \<lparr>is_inst = Some inst,
        is_generation = im_next_generation (en_mgr ?e1), is_life = life, is_age_blocks = 0, is_silent_run = 0\<rparr>]"
      by (subst made(4), simp)
    have at: "instance_at m (ih_slot h') = Some inst" using idx by (simp add: instance_at_def slots made(3))
    have "inst = instance_of e s (en_sample_rate eng)" using made(1) sr by (auto simp: build_def split: if_splits option.splits)
    then have i0: "instance_ok s (en_sample_rate eng) inst" using instance_of_ok [OF so] by simp
    obtain g where f: "fold_option (\<lambda>i p. init_parameter i (ip_node p) (ip_param p) (ip_value p)) inst ips = Some g"
      and hh: "h = h'" and e': "let eng2 = enqueue (plain_command Activate h') (?e1\<lparr>en_mgr := put_instance (ih_slot h') g m\<rparr>)
        in eng' = (if t < outs_of s then engine_connect h' t dest eng2 else eng2)"
      using sp v at by (auto simp: spawn_def Let_def c split: option.splits)
    let ?m = "put_instance (ih_slot h) g m"
    have new: "handle_valid h" "length (im_slots ?m) = length (im_slots (en_mgr ?e1))" "handle_at ?m (ih_slot h) = h"
      "is_inst (im_slots ?m ! ih_slot h) = Some g"
      using v idx by (simp_all add: put_instance_def slots made(3) hh)
    have old: "im_slots ?m ! j = im_slots (en_mgr ?e1) ! j" if "j \<noteq> ih_slot h" for j
      using that by (simp add: put_instance_def slots made(3) hh)
    show thesis by (rule that(2) [OF new(1) init_params_ok [OF i0 f] new(2-4) old e' [folded hh]])
  qed
qed

lemma spawn_sound:
  assumes a: "audio_sound H eng" and p: "playable (en_block_size eng) s" and d: "target_fits H dest" "target_ok dest"
    and sp: "spawn e base eng s life dest t ips = Some (h, eng')" and fresh: "handle_valid h \<Longrightarrow> h \<notin> set (map fst H)"
  shows "audio_sound (if handle_valid h then H @ [(h, s)] else H) eng'"
proof -
  have ok: "engine_ok eng (en_commands eng)" using a by (simp add: audio_ok_def)
  have so: "sched_ok s" using p by (simp add: playable_def)
  note ok' = spawn_ok [OF ok d(2) sp]
  from ok so sp show ?thesis
  proof (cases rule: spawn_cases)
    case full
    then show ?thesis using reclaim_sound [OF a] by simp
  next
    case (made m g)
    let ?e1 = "snd (reclaim eng)" and ?H = "H @ [(h, s)]"
    have r: "audio_sound H ?e1" by (rule reclaim_sound [OF a])
    have f: "en_commands ?e1 = en_commands eng" "en_block_size ?e1 = en_block_size eng"
      "en_sample_rate ?e1 = en_sample_rate eng" "en_routes ?e1 = en_routes eng" by (simp_all add: reclaim_def)
    let ?act = "plain_command Activate h" and ?con = "(plain_command Connect h)\<lparr>ce_src_terminal := t, ce_dest := dest\<rparr>"
    have e': "en_mgr eng' = m \<and> en_block_size eng' = en_block_size eng \<and> en_sample_rate eng' = en_sample_rate eng \<and>
        en_routes eng' = en_routes eng \<and>
        en_commands eng' = en_commands eng @ [?act] @ (if t < outs_of s then [?con] else [])"
      using made(7) f by (simp add: Let_def enqueue_def engine_connect_def)
    have "log_ok (en_block_size eng) ?H"
      using a fresh made(1) p by (auto simp: audio_ok_def log_ok_def)
    moreover have "insts_ok (en_sample_rate eng) ?H m"
      unfolding insts_ok_def
    proof (intro allI impI)
      fix j x
      assume j: "j < length (im_slots m)" and x: "is_inst (im_slots m ! j) = Some x"
      show "\<exists>s'. (handle_at m j, s') \<in> set ?H \<and> instance_ok s' (en_sample_rate eng) x"
      proof (cases "j = ih_slot h")
        case True
        then show ?thesis using made(2,4,5) x by auto
      next
        case False
        have "insts_ok (en_sample_rate eng) H (en_mgr ?e1)" using r f by (simp add: audio_ok_def)
        then show ?thesis using j x made(3) made(6) [OF False] by (auto simp: insts_ok_def)
      qed
    qed
    moreover have "\<forall>c \<in> set (en_commands eng'). command_fits ?H c"
    proof
      fix c
      assume "c \<in> set (en_commands eng')"
      then consider "c \<in> set (en_commands eng)" | "c = ?act" | "t < outs_of s" "c = ?con" using e' by (auto split: if_splits)
      then show "command_fits ?H c"
      proof cases
        case 1
        then show ?thesis using a fits_more(2) by (simp add: audio_ok_def)
      next
        case 2
        then show ?thesis by (simp add: command_fits_def plain_command_def)
      next
        case 3
        then show ?thesis using d(1)
          by (auto simp: command_fits_def route_fits_def route_of_def plain_command_def target_fits_def Let_def handle_eta)
      qed
    qed
    ultimately show ?thesis using ok' e' a made(1) fits_more(1) by (auto simp: audio_ok_def)
  qed
qed

section \<open>Sessions\<close>

text \<open>
  A voice a host may use is one \<open>spawn\<close> returned (or an invalid one, which the calls refuse); a parameter reference
  is one that \<open>resolve\<close> gave for the blueprint of the voice.
\<close>

definition owned :: "voice list \<Rightarrow> voice \<Rightarrow> bool" where
  "owned vs v \<longleftrightarrow> (voice_valid v \<longrightarrow> v \<in> set vs)"

fun well_used :: "runtime \<Rightarrow> voice list \<Rightarrow> control \<Rightarrow> bool" where
  "well_used rt vs (Ctl_kill v) = owned vs v"
| "well_used rt vs (Ctl_set_ref v p x) =
    (owned vs v \<and> (pr_ok p \<longrightarrow> (\<exists>n port. p = fst (resolve (vo_blueprint v) n port rt))))"
| "well_used rt vs (Ctl_set_named v n p x) = owned vs v"
| "well_used rt vs (Ctl_set_param v n x) = owned vs v"
| "well_used rt vs (Ctl_resolve b n p) = True"
| "well_used rt vs (Ctl_route s d dt st) = (owned vs s \<and> owned vs d)"
| "well_used rt vs (Ctl_unroute s d dt st) = (owned vs s \<and> owned vs d)"
| "well_used rt vs (Ctl_route_to_master s st) = owned vs s"
| "well_used rt vs (Ctl_unroute_from_master s st) = owned vs s"

text \<open>
  The histories of a runtime in which the host does that, registers blueprints whose schedules can be played, and
  the generation counter has not come round to a handle given out before.
\<close>

inductive session :: "Dsp.env \<Rightarrow> runtime \<Rightarrow> voice list \<Rightarrow> runtime \<Rightarrow> bool" for e rt0 where
  se_start: "session e rt0 [] rt0"
| se_spawn: "session e rt0 vs rt \<Longrightarrow> owned vs (so_into opt) \<Longrightarrow> runtime_spawn e base b opt rt = Some (v, rt') \<Longrightarrow>
    (handle_valid (vo_handle v) \<longrightarrow> vo_handle v \<notin> vo_handle ` set vs) \<Longrightarrow> session e rt0 (vs @ [v]) rt'"
| se_control: "session e rt0 vs rt \<Longrightarrow> well_used rt vs c \<Longrightarrow> session e rt0 vs (perform c rt)"
| se_register: "session e rt0 vs rt \<Longrightarrow> blueprint_ok (bb_bp b) \<Longrightarrow>
    (\<And>s. compile (bb_bp b) (rc_block_size (rn_cfg rt)) = Some s \<Longrightarrow> playable (rc_block_size (rn_cfg rt)) s) \<Longrightarrow>
    session e rt0 vs (snd (register_blueprint b rt))"
| se_reclaim: "session e rt0 vs rt \<Longrightarrow> session e rt0 vs (with_engine (\<lambda>eng. snd (reclaim eng)) rt)"
| se_block: "session e rt0 vs rt \<Longrightarrow> engine_process e (rn_eng rt) n = Some (out, eng') \<Longrightarrow>
    session e rt0 vs (with_engine (\<lambda>eng. eng') rt)"

text \<open>The schedule a voice was spawned with, and what the runtime and the log agree on.\<close>

definition voice_sched :: "runtime \<Rightarrow> voice \<Rightarrow> compiled_schedule" where
  "voice_sched rt v = rg_sched (rn_registry rt ! unat (vo_blueprint v))"

definition logged :: "voice_log \<Rightarrow> voice list \<Rightarrow> runtime \<Rightarrow> bool" where
  "logged H vs rt \<longleftrightarrow> audio_sound H (rn_eng rt) \<and> rc_block_size (rn_cfg rt) = en_block_size (rn_eng rt) \<and>
     (\<forall>r \<in> set (rn_registry rt). playable (en_block_size (rn_eng rt)) (rg_sched r) \<and> cs_bp (rg_sched r) = rg_bp r) \<and>
     (\<forall>v \<in> set vs. voice_valid v \<longrightarrow> unat (vo_blueprint v) < length (rn_registry rt) \<and>
       (vo_handle v, voice_sched rt v) \<in> set H) \<and>
     set (map fst H) \<subseteq> vo_handle ` set vs"

lemma logged_engine:
  assumes "logged H vs rt" and "audio_sound H (rn_eng rt')" and "en_block_size (rn_eng rt') = en_block_size (rn_eng rt)"
    and "same_tables rt rt'"
  shows "logged H vs rt'"
  using assms by (simp add: logged_def same_tables_def voice_sched_def)

text \<open>What a registered voice gives the calls.\<close>

lemma logged_voice:
  assumes "logged H vs rt" and "owned vs v" and "voice_valid v" and "fst (get_registered (vo_blueprint v) rt) = Some r"
  shows "(vo_handle v, rg_sched r) \<in> set H" and "cs_bp (rg_sched r) = rg_bp r" and "targets_ok (rg_bp r)"
    and "wiring_ok (rg_bp r)"
proof -
  have r: "r = rn_registry rt ! unat (vo_blueprint v)" "r \<in> set (rn_registry rt)"
    using assms(4) by (auto simp: get_registered_def split: if_splits)
  show "(vo_handle v, rg_sched r) \<in> set H"
    using assms(1-3) r(1) by (auto simp: logged_def owned_def voice_sched_def)
  have "playable (en_block_size (rn_eng rt)) (rg_sched r)" and e: "cs_bp (rg_sched r) = rg_bp r"
    using assms(1) r(2) by (simp_all add: logged_def)
  then show "cs_bp (rg_sched r) = rg_bp r" "targets_ok (rg_bp r)" "wiring_ok (rg_bp r)"
    by (simp_all add: playable_def blueprint_ok_def)
qed

lemma find_index_less: "find_index P xs = Some i \<Longrightarrow> i < length xs"
  using find_index_Some by blast


lemma queued_frame: "queued eng0 eng \<Longrightarrow> en_block_size eng = en_block_size eng0"
  by (induction rule: queued.induct)
    (simp_all add: kill_def engine_set_parameter_def engine_connect_def engine_disconnect_def enqueue_def)

lemma set_ref_sound:
  assumes l: "logged H vs rt" and "owned vs v" and "pr_ok p \<longrightarrow> (\<exists>n port. p = fst (resolve (vo_blueprint v) n port rt))"
    and "rn_eng rt' = rn_eng rt"
  shows "audio_sound H (rn_eng (snd (set_ref v p x rt')))"
proof (cases "voice_valid v \<and> pr_ok p")
  case False
  then show ?thesis using l assms(4) by (auto simp: set_ref_def logged_def)
next
  case True
  then obtain n port where p: "p = fst (resolve (vo_blueprint v) n port rt)" using assms(3) by blast
  then obtain r where r: "fst (get_registered (vo_blueprint v) rt) = Some r" and f: "find_node (rg_bp r) n = Some (pr_node p)"
    using True by (auto simp: resolve_def no_param_def get_registered_def split: if_splits option.splits)
  note lv = logged_voice [OF l assms(2) _ r]
  have "wiring_ok (rg_bp r)" using lv(4) True by blast
  then have "pr_node p < bp_size (rg_bp r)" using find_index_less [OF f [unfolded find_node_def]] by (simp add: wiring_ok_def)
  with set_sound [of H "rn_eng rt" "vo_handle v" "rg_sched r" "pr_node p" "pr_port p" x] lv True l assms(4)
  show ?thesis by (simp add: set_ref_def logged_def voice_valid_def)
qed

lemma set_targets_sound:
  assumes "audio_sound H eng" and "handle_valid h" and "(h, s) \<in> set H" and "\<forall>t \<in> set ts. pt_node t < nodes_of s"
  shows "audio_sound H (foldl (set_target h x) eng ts)"
  using assms
proof (induction ts arbitrary: eng)
  case Nil
  then show ?case by simp
next
  case (Cons t ts)
  from Cons.IH [OF set_sound [OF Cons.prems(1-3)] Cons.prems(2,3)] Cons.prems(4) show ?case by (simp add: set_target_def)
qed

lemma out_term_known:
  assumes l: "logged H vs rt" and o: "owned vs v" and r: "resolve_out_term v name rt = (Some t, rt')"
  obtains s where "handle_valid (vo_handle v)" and "(vo_handle v, s) \<in> set H" and "t < outs_of s" and "rt' = rt"
proof -
  obtain x where x: "fst (get_registered (vo_blueprint v) rt) = Some x" and v: "voice_valid v"
    and f: "find_output_terminal (rg_bp x) name = Some t" and e: "rt' = rt"
    using r by (auto simp: resolve_out_term_def split: option.splits if_splits)
  note lv = logged_voice [OF l o v x]
  have "t < outs_of (rg_sched x)" using find_index_less f lv(2) by (simp add: find_output_terminal_def)
  then show thesis using that lv(1) v e by (simp add: voice_valid_def)
qed

lemma route_known:
  assumes l: "logged H vs rt" and o: "owned vs src" "owned vs dst" and r: "resolve_route src dst dn sn rt = (Some (t, d), rt')"
  obtains s where "handle_valid (vo_handle src)" and "(vo_handle src, s) \<in> set H" and "t < outs_of s" and "target_fits H d"
    and "target_ok d" and "rn_eng rt' = rn_eng rt"
proof -
  obtain rt1 where ro: "resolve_out_term src sn rt = (Some t, rt1)"
    using r by (auto simp: resolve_route_def split: prod.splits option.splits if_splits)
  obtain s where s: "handle_valid (vo_handle src)" "(vo_handle src, s) \<in> set H" "t < outs_of s" "rt1 = rt"
    by (rule out_term_known [OF l o(1) ro])
  obtain x dt where x: "fst (get_registered (vo_blueprint dst) rt) = Some x" and v: "voice_valid dst"
    and f: "find_input_terminal (rg_bp x) dn = Some dt" and d: "d = to_target (vo_handle dst) dt" and e: "rt' = rt"
    using r ro by (auto simp: resolve_route_def split: option.splits if_splits)
  note lv = logged_voice [OF l o(2) v x]
  have "dt < ins_of (rg_sched x)" using find_index_less f lv(2) by (simp add: find_input_terminal_def)
  then have "target_fits H d" "target_ok d"
    using lv(1) v by (auto simp: d target_fits_def to_target_def voice_valid_def target_ok_def)
  then show thesis using that s e by simp
qed

text \<open>The calls that queue commands.\<close>

lemma perform_sound:
  assumes l: "logged H vs rt" and u: "well_used rt vs c"
  shows "audio_sound H (rn_eng (perform c rt))"
proof -
  have a: "audio_sound H (rn_eng rt)" using l by (simp add: logged_def)
  show ?thesis
  proof (cases c)
    case (Ctl_kill v)
    then show ?thesis using a kill_sound by (simp add: runtime_kill_def voice_valid_def)
  next
    case (Ctl_set_ref v p x)
    then show ?thesis using set_ref_sound [OF l] u by simp
  next
    case (Ctl_set_named v n p x)
    obtain q rt1 where q: "resolve (vo_blueprint v) n p rt = (q, rt1)" by fastforce
    then have "rn_eng rt1 = rn_eng rt" by (cases rule: resolve_cases [of "vo_blueprint v" n p rt]) auto
    moreover have "owned vs v" using u Ctl_set_named by simp
    moreover have "pr_ok q \<longrightarrow> (\<exists>n port. q = fst (resolve (vo_blueprint v) n port rt))" using q by (metis fst_conv)
    ultimately show ?thesis using set_ref_sound [OF l] a q Ctl_set_named by (simp add: set_named_def)
  next
    case (Ctl_set_param v n x)
    show ?thesis
    proof (cases "voice_valid v \<and> fst (get_registered (vo_blueprint v) rt) \<noteq> None")
      case False
      then show ?thesis using a Ctl_set_param by (auto simp: set_param_def get_registered_def split: if_splits)
    next
      case True
      then obtain r where r: "fst (get_registered (vo_blueprint v) rt) = Some r" and v: "voice_valid v" by auto
      have "owned vs v" using u Ctl_set_param by simp
      note lv = logged_voice [OF l this v r]
      have g: "get_registered (vo_blueprint v) rt = (Some r, rt)" using get_registered_Some [OF r] by blast
      have "\<forall>t \<in> set (bpp_targets (g_params (rg_bp r) ! i)). pt_node t < nodes_of (rg_sched r)"
        if "find_rune_param (rg_bp r) n = Some i" for i
        using lv(2,3) nth_mem [OF find_index_less [OF that [unfolded find_rune_param_def]]] by (simp add: targets_ok_def)
      then show ?thesis
        using a v g Ctl_set_param set_targets_sound [OF a _ lv(1)]
        by (auto simp: set_param_def voice_valid_def split: option.split)
    qed
  next
    case (Ctl_resolve b n p)
    then show ?thesis using a by (cases rule: resolve_cases [of b n p rt]) simp_all
  next
    case (Ctl_route s d dt st)
    show ?thesis
    proof (cases "fst (resolve_route s d dt st rt)")
      case None
      then show ?thesis using a Ctl_route
        by (cases rule: resolve_route_cases [of s d dt st rt]) (auto simp: route_def)
    next
      case (Some q)
      then obtain t x rt1 where q: "resolve_route s d dt st rt = (Some (t, x), rt1)" by (metis prod.collapse)
      obtain z where z: "handle_valid (vo_handle s)" "(vo_handle s, z) \<in> set H" "t < outs_of z" "target_fits H x"
        "rn_eng rt1 = rn_eng rt"
        using u Ctl_route by (auto intro: route_known [OF l _ _ q])
      then show ?thesis using connect_sound [OF a z(1-4)] q Ctl_route by (simp add: route_def)
    qed
  next
    case (Ctl_unroute s d dt st)
    show ?thesis
    proof (cases "fst (resolve_route s d dt st rt)")
      case None
      then show ?thesis using a Ctl_unroute
        by (cases rule: resolve_route_cases [of s d dt st rt]) (auto simp: unroute_def)
    next
      case (Some q)
      then obtain t x rt1 where q: "resolve_route s d dt st rt = (Some (t, x), rt1)" by (metis prod.collapse)
      obtain z where z: "handle_valid (vo_handle s)" "target_ok x" "rn_eng rt1 = rn_eng rt"
        using u Ctl_unroute by (auto intro: route_known [OF l _ _ q])
      then show ?thesis using disconnect_sound [OF a z(1,2)] q Ctl_unroute by (simp add: unroute_def)
    qed
  next
    case (Ctl_route_to_master s st)
    obtain t rt1 where q: "resolve_out_term s st rt = (t, rt1)" by fastforce
    show ?thesis
    proof (cases t)
      case None
      then show ?thesis using a q Ctl_route_to_master
        by (cases rule: resolve_out_term_cases [of s st rt]) (auto simp: route_to_master_def)
    next
      case (Some t')
      obtain z where z: "handle_valid (vo_handle s)" "(vo_handle s, z) \<in> set H" "t' < outs_of z" "rt1 = rt"
        using u Ctl_route_to_master by (auto intro: out_term_known [OF l _ q [unfolded Some]])
      have "target_fits H to_master_target" by (simp add: target_fits_def to_master_target_def)
      then show ?thesis using connect_sound [OF a z(1-3)] q Some z(4) Ctl_route_to_master by (simp add: route_to_master_def)
    qed
  next
    case (Ctl_unroute_from_master s st)
    obtain t rt1 where q: "resolve_out_term s st rt = (t, rt1)" by fastforce
    show ?thesis
    proof (cases t)
      case None
      then show ?thesis using a q Ctl_unroute_from_master
        by (cases rule: resolve_out_term_cases [of s st rt]) (auto simp: unroute_from_master_def)
    next
      case (Some t')
      obtain z where z: "handle_valid (vo_handle s)" "rt1 = rt"
        using u Ctl_unroute_from_master by (auto intro: out_term_known [OF l _ q [unfolded Some]])
      then show ?thesis using disconnect_sound [OF a z(1) target_simps(1)] q Some Ctl_unroute_from_master
        by (simp add: unroute_from_master_def)
    qed
  qed
qed

section \<open>Every session is logged\<close>

lemma session_facade: "session e rt0 vs rt \<Longrightarrow> facade_run e rt0 vs rt"
  by (induction rule: session.induct) (blast intro: facade_run.intros)+

lemma spawn_target_fits:
  assumes l: "logged H vs rt" and o: "owned vs (so_into opt)" and t: "spawn_target opt rt = Inr d"
  shows "target_fits H d"
proof (cases "voice_valid (so_into opt)")
  case False
  then show ?thesis using t by (auto simp: spawn_target_def target_fits_def to_master_target_def)
next
  case v: True
  then obtain x dt where x: "fst (get_registered (vo_blueprint (so_into opt)) rt) = Some x"
    and f: "find_input_terminal (rg_bp x) (so_into_terminal opt) = Some dt" and d: "d = to_target (vo_handle (so_into opt)) dt"
    using t by (auto simp: spawn_target_def split: option.splits if_splits)
  note lv = logged_voice [OF l o v x]
  have "dt < ins_of (rg_sched x)" using find_index_less [OF f [unfolded find_input_terminal_def]] lv(2) by simp
  then show ?thesis using lv(1) v by (auto simp: d target_fits_def to_target_def voice_valid_def)
qed

lemma logged_spawn:
  assumes l: "logged H vs rt" and o: "owned vs (so_into opt)" and sp: "runtime_spawn e base b opt rt = Some (v, rt')"
    and fresh: "handle_valid (vo_handle v) \<longrightarrow> vo_handle v \<notin> vo_handle ` set vs"
  shows "\<exists>H'. logged H' (vs @ [v]) rt'"
  using sp
proof (cases rule: runtime_spawn_cases)
  case refused
  have "\<not> voice_valid no_voice" by (simp add: no_voice_def voice_valid_def handle_valid_def null_handle_def)
  then have "logged H (vs @ [v]) rt" using l refused(1) by (auto simp: logged_def)
  from logged_engine [OF this _ _ refused(3)] have "logged H (vs @ [v]) rt'" using l refused(2) by (simp add: logged_def)
  then show ?thesis by blast
next
  case (engine r src d ips h eng)
  have a: "audio_sound H (rn_eng rt)" using l by (simp add: logged_def)
  have "r \<in> set (rn_registry rt)" using engine(1,2) by simp
  then have p: "playable (en_block_size (rn_eng rt)) (rg_sched r)" using l by (simp add: logged_def)
  have v: "handle_valid h \<Longrightarrow> v = \<lparr>vo_handle = h, vo_blueprint = b\<rparr>" "\<not> handle_valid h \<Longrightarrow> v = no_voice"
    using engine(11) by (auto split: if_splits)
  have nv: "\<not> voice_valid no_voice" by (simp add: no_voice_def voice_valid_def handle_valid_def null_handle_def)
  have vv: "voice_valid v \<Longrightarrow> handle_valid h" using v(2) nv by blast
  have "h \<notin> set (map fst H)" if "handle_valid h" using l fresh v(1) [OF that] that by (auto simp: logged_def)
  from spawn_sound [OF a p spawn_target_fits [OF l o engine(5)] engine(4) engine(7) this]
  have s: "audio_sound (if handle_valid h then H @ [(h, rg_sched r)] else H) (rn_eng rt')" using engine(8) by simp
  have e: "engine_ok (rn_eng rt) (en_commands (rn_eng rt))" "sched_ok (rg_sched r)"
    using a p by (simp_all add: audio_ok_def playable_def)
  have bs: "en_block_size eng = en_block_size (rn_eng rt)"
    using e engine(7) by (cases rule: spawn_cases)
      (auto simp: reclaim_def Let_def enqueue_def engine_connect_def split: if_splits)
  show ?thesis
  proof (cases "handle_valid h")
    case True
    then have "logged (H @ [(h, rg_sched r)]) (vs @ [v]) rt'"
      using l s bs v(1) engine(1,2,8-10) by (auto simp: logged_def voice_sched_def)
    then show ?thesis by blast
  next
    case False
    then have "logged H (vs @ [v]) rt'"
      using l s bs vv engine(8-10) by (auto simp: logged_def voice_sched_def)
    then show ?thesis by blast
  qed
qed

lemma logged_register:
  assumes l: "logged H vs rt" and "blueprint_ok (bb_bp b)"
    and p: "\<And>s. compile (bb_bp b) (rc_block_size (rn_cfg rt)) = Some s \<Longrightarrow> playable (rc_block_size (rn_cfg rt)) s"
  shows "logged H vs (snd (register_blueprint b rt))"
proof (cases rule: register_cases [of b rt])
  case (refused m)
  then show ?thesis using l by (simp add: logged_def voice_sched_def)
next
  case (stored s)
  have "cs_bp s = bb_bp b" by (rule compile_tables(1) [OF stored(1)])
  then show ?thesis
    using l stored p [OF stored(1)] by (fastforce simp: logged_def voice_sched_def nth_append)
qed

lemma engine_init_fields:
  "engine_init base sr bs outs n = Some eng \<Longrightarrow> en_routes eng = [] \<and> en_commands eng = [] \<and> en_block_size eng = bs \<and>
    en_output_channels eng = outs"
  by (auto simp: engine_init_def split: if_splits option.splits)

lemma session_logged:
  assumes i: "runtime_init base opened c new_runtime = (True, rt0)" and "session e rt0 vs rt"
  shows "\<exists>H. logged H vs rt"
  using assms(2)
proof (induction rule: session.induct)
  case se_start
  note r = runtime_init_engine [OF i]
  have "insts_ok sr [] (mgr_init n)" for sr n by (simp add: insts_ok_def mgr_init_def empty_slot_def)
  moreover have "en_routes (rn_eng rt0) = []" "en_commands (rn_eng rt0) = []" "en_block_size (rn_eng rt0) = rc_block_size c"
    using engine_init_fields [OF r(1)] by simp_all
  ultimately have "logged [] [] rt0"
    using engine_init_ok(1) [OF r(1)] r(2,3) engine_init_mgr [OF r(1)]
    by (simp add: logged_def audio_ok_def log_ok_def new_runtime_def)
  then show ?case by blast
next
  case (se_spawn vs rt opt base b v rt')
  then show ?case using logged_spawn by blast
next
  case (se_control vs rt c)
  then obtain H where l: "logged H vs rt" by blast
  have q: "queued (rn_eng rt) (rn_eng (perform c rt))" "same_tables rt (perform c rt)" by (simp_all add: perform_queued)
  from logged_engine [OF l perform_sound [OF l se_control.hyps(2)] queued_frame [OF q(1)] q(2)] show ?case by blast
next
  case (se_register vs rt b)
  then show ?case using logged_register by blast
next
  case (se_reclaim vs rt)
  then obtain H where l: "logged H vs rt" by blast
  then have "audio_sound H (rn_eng (with_engine (\<lambda>eng. snd (reclaim eng)) rt))" using reclaim_sound by (simp add: logged_def)
  from logged_engine [OF l this] show ?case by (auto simp: same_tables_def reclaim_def)
next
  case (se_block vs rt n out eng')
  then obtain H where l: "logged H vs rt" by blast
  then have "audio_sound H (rn_eng rt)" by (simp add: logged_def)
  from engine_process_total [OF this] obtain out1 eng1
    where "engine_process e (rn_eng rt) n = Some (out1, eng1)" "audio_sound H eng1" by blast
  then have "audio_sound H (rn_eng (with_engine (\<lambda>eng. eng') rt))" using se_block.hyps(2) by simp
  from logged_engine [OF l this] engine_process_frame(2) [OF se_block.hyps(2)] show ?case by (auto simp: same_tables_def)
qed

lemma spawn_channels:
  "spawn e base eng s life d t ips = Some (h, eng') \<Longrightarrow> en_output_channels eng' = en_output_channels eng"
  by (auto simp: spawn_def Let_def reclaim_def enqueue_def engine_connect_def split: prod.splits option.splits if_splits)

lemma queued_channels: "queued eng0 eng \<Longrightarrow> en_output_channels eng = en_output_channels eng0"
  by (induction rule: queued.induct)
    (simp_all add: kill_def engine_set_parameter_def engine_connect_def engine_disconnect_def enqueue_def)

lemma session_channels: "session e rt0 vs rt \<Longrightarrow> en_output_channels (rn_eng rt) = en_output_channels (rn_eng rt0)"
proof (induction rule: session.induct)
  case (se_spawn vs rt opt base b v rt')
  from se_spawn.hyps(3) have "en_output_channels (rn_eng rt') = en_output_channels (rn_eng rt)"
    by (cases rule: runtime_spawn_cases) (auto dest: spawn_channels)
  then show ?case using se_spawn.IH by simp
next
  case (se_control vs rt c)
  then show ?case using queued_channels perform_queued by metis
qed (simp_all add: reclaim_def engine_process_frame(1))

section \<open>Properties\<close>


lemma build_schedule_block: "cs_block_size (build_schedule g B topo rates) = B"
  by (simp add: build_schedule_def Let_def)


end
