(* ===== verification/Spec2Isabelle.thy ===== *)
theory Spec2Isabelle
  imports Parallel Mpmc Serialize_Facts Parser_Facts Lower_Total Faust Cli Audio
begin

text \<open>
  Xrune in Isabelle/HOL: a model of the audio engine of \<open>include/xrune\<close> and \<open>src\<close>, of its language and of its
  command line, with the theorems that make them correct.

  The program.  A program text is read into tokens, parsed, and lowered to blueprints, one per rune.  A
  blueprint is a graph of nodes with audio connections, modulations of control ports and named terminals.
  \<open>compile\<close> turns it once into a schedule (order, rates, buffers, state blocks); a voice is an instance of a
  schedule in one reserved block of memory.  The runtime of \<open>api.hpp\<close> registers blueprints, spawns voices in a pool
  of slots and sends commands to the engine; the audio thread drains the commands, runs the active voices in the
  order of their routes (alone or with a pool of workers), mixes them into the master buffers, ends the voices
  whose lifetime is over and reports them; the control thread collects the reports in \<open>pump\<close>.  Blueprints are
  saved as JSON, loaded back, and exported to Graphviz.

  Where things are.  Each theory is named after what it models; a theory with \<open>_Facts\<close> proves.
  \<^item> \<open>Prelude\<close>: results of fallible code, bounded array access, shared list lemmas.
  \<^item> \<open>F64\<close>, \<open>Rounding\<close>, \<open>Numtext\<close>, \<open>Numtext_Facts\<close>: the C++ \<open>double\<close> as a sum type with correctly rounded
    operations, and the reading and printing of numbers (\<open>strtod\<close>, \<open>%g\<close>).  Every operation of the model rounds as the
    source does; sine and cosine are a parameter (\<open>libm\<close>).
  \<^item> \<open>Bits\<close>, \<open>Arena\<close>: alignment, powers of two, the bump arena and the block pool of \<open>util/arena.hpp\<close>, with
    \<open>size_t\<close> sums and products modulo \<open>2 ^ 64\<close>.
  \<^item> \<open>Core\<close>, \<open>Registry\<close>, \<open>Fft\<close>, \<open>Dsp\<close>, \<open>Dsp_Facts\<close>: the node interface of \<open>core.hpp\<close>, the node types of
    \<open>standard_nodes.hpp\<close>, \<open>multirate.hpp\<close> and \<open>fft.hpp\<close> (datatype \<open>node\<close>, one constructor per class, \<open>Hosted\<close> for a
    node that comes from elsewhere), their factories in \<open>node_registry.hpp\<close>, and their \<open>process\<close>.
  \<^item> \<open>Blueprint\<close>, \<open>Kahn\<close>, \<open>Schedule\<close>: \<open>blueprint.hpp\<close>, the topological sort both the compiler and the engine use,
    and \<open>schedule.cpp\<close>.
  \<^item> \<open>Instance\<close>, \<open>Instance_Facts\<close>: \<open>instance.hpp\<close>, its memory, its slices of the buffer pool, parameter ramps and one
    cycle.
  \<^item> \<open>Slots\<close>, \<open>Engine\<close>, \<open>Engine_Facts\<close>: \<open>instance_manager.hpp\<close>, \<open>engine.hpp\<close> and \<open>engine.cpp\<close>: commands, routes,
    sequential execution, mixing, the end of voices.
  \<^item> \<open>Parallel\<close>, \<open>Mpmc\<close>: \<open>compute_parallel\<close> with its workers as a step relation, and the lock-free queue of
    \<open>mpmc_queue.hpp\<close> as a step relation at the granularity of its atomic accesses.
  \<^item> \<open>Json\<close>, \<open>Json_Facts\<close>, \<open>Serialize\<close>, \<open>Serialize_Facts\<close>: \<open>json.cpp\<close> and \<open>serialize.cpp\<close>.
  \<^item> \<open>Token\<close>, \<open>Lexer\<close>, \<open>Lexer_Facts\<close>, \<open>Ast\<close>, \<open>Parser\<close>, \<open>Parser_Facts\<close>, \<open>Lower\<close>, \<open>Lower_Facts\<close>, \<open>Lower_Total\<close>: the
    language, \<open>lang/parser\<close> and \<open>lang/lower.hpp\<close>.
  \<^item> \<open>Api\<close>, \<open>Api_Facts\<close>, \<open>Api_Voices\<close>: the builder and the runtime of \<open>api.cpp\<close> and the pipeline of
    \<open>lang/compile.hpp\<close>.
  \<^item> \<open>Audio\<close>: the audio thread and the host together, sessions and the block that always returns.
  \<^item> \<open>Faust\<close>: hosted Faust programs, the index of the Faust libraries and the cache of compiled programs.
  \<^item> \<open>Offline\<close>, \<open>Cli\<close>: the headless backend and the command line \<open>apps/xrune.cpp\<close>.

  How the code is rendered.  A class is a record whose fields carry a two-letter prefix, an operation a function
  from the old state to the new one.  Code that throws or reports an error returns a sum; code that would read or
  write outside its storage, or has no defined behaviour in C++, returns \<open>None\<close> (or \<open>Exn_undefined\<close>), so a theorem
  that a function is defined is a theorem of memory safety.  Generations and queue positions are words of their
  width; sizes are natural numbers with the wrap-around written where the code relies on it or can reach it.
  Threads are steps of a relation, sequentially consistent; histories (\<open>engine_run\<close>, \<open>facade_run\<close>, \<open>session\<close>,
  \<open>mq_step\<close>, \<open>store_run\<close>) interleave the calls of the host and the blocks of the audio thread.

  What the lemmas show.  Of the compiler: it accepts exactly the acyclic graphs with consistent rates, orders
  them, and lays out buffers and states without overlap.  Of an instance: the reservation suffices, every slice
  fits, a cycle is defined and solves the dataflow equations.  Of the engine: every slot is in one place, handles
  stay stale, ends are reported once, and the parallel block computes what the sequential block computes, with the
  races and the hang that the code has.  Of the audio thread as a whole: in every session of a host that uses the
  voices it was given, the callback is defined.  Of the queue: it refines a bounded queue.  Of the language: lexer,
  parser and lowering return, and what is delivered is well formed.  Of the text formats: what is printed is read
  back.  Of the runtime and the command line: what a call or a run leaves behind.

  Interfaces.  \<open>allocator\<close> (interpreted by the arena and the block pool), \<open>single_driver\<close> (audio connections and
  modulations), \<open>simulation\<close> (the queue) and \<open>engine_contract\<close> (what a host may rely on, for histories of the engine
  and for the pool of slots) are locales; each is interpreted on the model's own definitions and the properties
  rest on their facts.

  Fuel.  Only parsers and the lowering carry fuel: the JSON parser \<open>2 * length + 2\<close>, the parser \<open>length ts + 4\<close>;
  both are proved enough on every text.  The lowering takes the depth as an argument; \<open>lower_fuel\<close> is enough when
  the sigils can be ranked so that each calls only lower ones, and no fuel is enough for a sigil that calls itself,
  where the C++ exhausts its stack.  The topological sort takes one step per node, which is proved enough.

  Bounds.  The theorems on memory ask for sizes below \<open>2 ^ 62\<close> bytes and fewer than \<open>2 ^ 32\<close> blueprints; those on
  handles hold until the generation counter, 32 bits, has wrapped around.  The telemetry queue holds what its
  constructor reserves, the lower bound that the queue library documents.

  Not modelled, and why.  The Faust compiler, the code it generates, RtAudio and the device (libraries outside the
  repository; parameters where the code relies on them).  The single-producer queues of the commands and the
  telemetry are a third-party class, taken as the queues it documents.  \<open>rt_check.hpp\<close> (counts allocations while
  debugging), the demo program, the threads' start and stop, and flushing denormals to zero on the audio thread
  (\<open>worker_pool.hpp\<close>), which changes only values below \<open>2 ^ - 1022\<close>.  A callback of \<open>pump\<close> that calls \<open>pump\<close> again,
  which clears the vector being walked.  Negative node indices other than \<open>- 1\<close> in a saved file load as none.
\<close>

end
